(* ===== verification/Prelude.thy ===== *)
theory Prelude
  imports Main "HOL-Library.Word" "HOL-Library.Monad_Syntax"
begin

unbundle bit_operations_syntax

text \<open>
  The vocabulary the components of the development share: the C integer types as machine
  words, C objects as byte lists whose accesses are checked, C strings, and the theorem
  collections the component proofs draw on.

  A pointer into an object is an offset. Every access goes through \<open>rd\<close>, \<open>rdn\<close> or
  \<open>wrn\<close>, which answer \<open>None\<close> when the access leaves the object: in the whole development
  \<open>None\<close> at the outermost level of a result stands for an out-of-bounds access (undefined
  behaviour in C), so that a theorem with \<open>Some\<close> on the right also states memory safety.
\<close>

section \<open>C integer types\<close>

type_synonym byte = "8 word"    \<comment> \<open>uchar\<close>
type_synonym u16 = "16 word"    \<comment> \<open>ushort\<close>
type_synonym u32 = "32 word"    \<comment> \<open>uint, u32int\<close>
type_synonym u64 = "64 word"    \<comment> \<open>uvlong; a vlong is read with \<open>sint\<close>\<close>

text \<open>Unsigned 32-bit results computed with natural numbers wrap explicitly.\<close>

definition wrap32 :: "nat \<Rightarrow> nat" where
  "wrap32 n = n mod 2 ^ 32"

named_theorems mem_simps \<open>rewriting of checked object accesses\<close>
named_theorems window_dest \<open>consuming a field from a window of an object\<close>

lemma wrap32_id [simp]: "n < 2 ^ 32 \<Longrightarrow> wrap32 n = n"
  by (simp add: wrap32_def)

lemma wrap32_less [simp]: "wrap32 n < 2 ^ 32"
  by (simp add: wrap32_def)

section \<open>C objects\<close>

definition rd :: "byte list \<Rightarrow> nat \<Rightarrow> byte option" where
  "rd b p = (if p < length b then Some (b ! p) else None)"

definition rdn :: "byte list \<Rightarrow> nat \<Rightarrow> nat \<Rightarrow> byte list option" where
  "rdn b p n = (if p + n \<le> length b then Some (take n (drop p b)) else None)"

definition wrn :: "byte list \<Rightarrow> nat \<Rightarrow> byte list \<Rightarrow> byte list option" where
  "wrn b p xs = (if p + length xs \<le> length b
                 then Some (take p b @ xs @ drop (p + length xs) b) else None)"

text \<open>\<open>overlay b xs\<close> is the object \<open>b\<close> after the bytes \<open>xs\<close> were written from its start.\<close>

definition overlay :: "byte list \<Rightarrow> byte list \<Rightarrow> byte list" where
  "overlay b xs = xs @ drop (length xs) b"

lemma wrn_length: "wrn b p xs = Some b' \<Longrightarrow> length b' = length b"
  by (auto simp: wrn_def split: if_splits)

lemma wrn_Some_iff: "(\<exists>b'. wrn b p xs = Some b') \<longleftrightarrow> p + length xs \<le> length b"
  by (simp add: wrn_def)

lemma rd_Some_iff: "(\<exists>x. rd b p = Some x) \<longleftrightarrow> p < length b"
  by (simp add: rd_def)

lemma overlay_Nil [simp]: "overlay b [] = b"
  by (simp add: overlay_def)

lemma length_overlay [simp]: "length xs \<le> length b \<Longrightarrow> length (overlay b xs) = length b"
  by (simp add: overlay_def)

lemma take_overlay [simp]: "take (length xs) (overlay b xs) = xs"
  by (simp add: overlay_def)

lemma wrn_overlay [mem_simps]:
  "\<lbrakk> p = length xs; p + length ys \<le> length b \<rbrakk> \<Longrightarrow> wrn (overlay b xs) p ys = Some (overlay b (xs @ ys))"
  by (simp add: wrn_def overlay_def add.commute)

lemma wrn_start [mem_simps]:
  "length ys \<le> length b \<Longrightarrow> wrn b 0 ys = Some (overlay b ys)"
  by (simp add: wrn_def overlay_def)

lemma wrn_overlay_None:
  "\<lbrakk> length xs \<le> length b; length b < p + length ys \<rbrakk> \<Longrightarrow> wrn (overlay b xs) p ys = None"
  by (simp add: wrn_def)

text \<open>The first \<open>n\<close> elements of an array, all accesses in bounds.\<close>

definition arr :: "'a list \<Rightarrow> nat \<Rightarrow> 'a list option" where
  "arr xs n = (if n \<le> length xs then Some (take n xs) else None)"

lemma arr_Some [mem_simps]: "n \<le> length xs \<Longrightarrow> arr xs n = Some (take n xs)"
  by (simp add: arr_def)

section \<open>Windows\<close>

text \<open>
  \<open>window b ep p xs\<close>: the bytes of the object \<open>b\<close> from offset \<open>p\<close> up to the end pointer
  \<open>ep\<close> are \<open>xs\<close>. A parser that advances \<open>p\<close> consumes a window field by field.
\<close>

definition window :: "byte list \<Rightarrow> nat \<Rightarrow> nat \<Rightarrow> byte list \<Rightarrow> bool" where
  "window b ep p xs \<longleftrightarrow> p \<le> ep \<and> ep \<le> length b \<and> take (ep - p) (drop p b) = xs"

lemma windowI: "\<lbrakk> p \<le> ep; ep \<le> length b; take (ep - p) (drop p b) = xs \<rbrakk> \<Longrightarrow> window b ep p xs"
  by (simp add: window_def)

lemma window_length: "window b ep p xs \<Longrightarrow> p + length xs = ep"
  by (auto simp: window_def)

lemma window_bound: "window b ep p xs \<Longrightarrow> p + length xs \<le> length b"
  using window_length by (fastforce simp: window_def)

lemma window_take_drop: "window b ep p (xs @ ys) \<Longrightarrow> take (length xs) (drop p b) = xs"
proof -
  assume w: "window b ep p (xs @ ys)"
  then have eq: "take (ep - p) (drop p b) = xs @ ys" and le: "length xs \<le> ep - p"
    using window_length [OF w] by (auto simp: window_def)
  have "take (length xs) (take (ep - p) (drop p b)) = take (length xs) (drop p b)"
    using le by (simp add: min.absorb1)
  then show ?thesis by (simp add: eq)
qed

lemma window_append:
  assumes w: "window b ep p (xs @ ys)"
  shows "window b ep (p + length xs) ys"
proof -
  have len: "p + (length xs + length ys) = ep"
    using window_length [OF w] by simp
  have "drop (length xs) (take (ep - p) (drop p b)) = ys"
    using w by (simp add: window_def)
  then have "take (ep - (p + length xs)) (drop (p + length xs) b) = ys"
    using len by (simp add: drop_take add.commute)
  with w len show ?thesis by (simp add: window_def)
qed

lemma window_prefix: "window b ep p xs \<Longrightarrow> take n b = take n c \<Longrightarrow> p + length xs \<le> n \<Longrightarrow>
    length b \<le> length c \<Longrightarrow> window c ep p xs"
proof -
  assume w: "window b ep p xs" and eq: "take n b = take n c" and le: "p + length xs \<le> n"
    and l: "length b \<le> length c"
  have ep: "p + length xs = ep" using w by (rule window_length)
  have "take (ep - p) (drop p b) = drop p (take ep b)"
    by (simp add: drop_take)
  also have "take ep b = take ep (take n b)"
    using le ep by (simp add: min.absorb1)
  also have "take ep (take n b) = take ep c"
    using le ep by (simp add: eq min.absorb1)
  also have "drop p (take ep c) = take (ep - p) (drop p c)"
    by (simp add: drop_take)
  finally show ?thesis using w l by (simp add: window_def)
qed

lemma rdn_window: "window b ep p (xs @ ys) \<Longrightarrow> rdn b p (length xs) = Some xs"
  using window_bound [of b ep p "xs @ ys"] window_take_drop [of b ep p xs ys]
  by (simp add: rdn_def)

section \<open>C strings\<close>

text \<open>The C string that starts at offset \<open>p\<close>: the bytes before the first NUL.\<close>

definition cstr :: "byte list \<Rightarrow> nat \<Rightarrow> byte list" where
  "cstr b p = takeWhile (\<lambda>x. x \<noteq> 0) (drop p b)"

lemma cstr_take: "\<lbrakk> take n (drop p b) = s @ [0]; 0 \<notin> set s \<rbrakk> \<Longrightarrow> cstr b p = s"
proof -
  assume t: "take n (drop p b) = s @ [0]" and nz: "0 \<notin> set s"
  have "drop p b = s @ 0 # drop n (drop p b)"
    by (metis append_take_drop_id t append.assoc append_Cons append_Nil)
  then have "takeWhile (\<lambda>x. x \<noteq> 0) (drop p b) = takeWhile (\<lambda>x. x \<noteq> 0) (s @ 0 # drop n (drop p b))"
    by (rule arg_cong)
  also have "\<dots> = s"
    using nz by (subst takeWhile_append2) auto
  finally show ?thesis by (simp add: cstr_def)
qed

section \<open>What an object holds, and what an operation keeps of it\<close>

definition holds :: "byte list \<Rightarrow> nat \<Rightarrow> byte list \<Rightarrow> bool" where
  "holds b p xs \<longleftrightarrow> p + length xs \<le> length b \<and> take (length xs) (drop p b) = xs"

definition keeps :: "nat \<Rightarrow> byte list \<Rightarrow> byte list \<Rightarrow> bool" where
  "keeps q b b' \<longleftrightarrow> take q b' = take q b \<and> length b' = length b"

lemma keeps_refl [simp]: "keeps q b b" by (simp add: keeps_def)

lemma keeps_trans: "keeps q b b' \<Longrightarrow> keeps r b' b'' \<Longrightarrow> q \<le> r \<Longrightarrow> keeps q b b''"
  unfolding keeps_def by (metis min.absorb1 take_take)

lemma holds_keeps: "holds b p xs \<Longrightarrow> keeps q b b' \<Longrightarrow> p + length xs \<le> q \<Longrightarrow> holds b' p xs"
proof -
  assume h: "holds b p xs" and k: "keeps q b b'" and le: "p + length xs \<le> q"
  have "take (length xs) (drop p b') = drop p (take (p + length xs) (take q b'))"
    using le by (simp add: drop_take min.absorb1)
  also have "\<dots> = drop p (take (p + length xs) (take q b))" using k by (simp add: keeps_def)
  also have "\<dots> = take (length xs) (drop p b)" using le by (simp add: drop_take min.absorb1)
  finally show ?thesis using h k by (simp add: holds_def keeps_def)
qed

lemma holds_cstr: "holds b p (s @ [0]) \<Longrightarrow> 0 \<notin> set s \<Longrightarrow> cstr b p = s"
  by (auto simp: holds_def intro: cstr_take)

lemma window_holds: "window b ep p (xs @ ys) \<Longrightarrow> holds b p xs"
  using window_bound [of b ep p "xs @ ys"] window_take_drop [of b ep p xs ys] by (simp add: holds_def)

lemma holds_overlay: "length xs \<le> length b \<Longrightarrow> holds (overlay b xs) 0 xs"
  by (simp add: holds_def)

lemma wrn_holds: "wrn b p xs = Some b' \<Longrightarrow> holds b' p xs"
  by (auto simp: wrn_def holds_def split: if_splits)

lemma wrn_keeps: "wrn b p xs = Some b' \<Longrightarrow> keeps p b b'"
  by (auto simp: wrn_def keeps_def split: if_splits)

lemma wrn_drop: "wrn b p xs = Some b' \<Longrightarrow> p + length xs \<le> n \<Longrightarrow> drop n b' = drop n b"
proof -
  assume w: "wrn b p xs = Some b'" and n: "p + length xs \<le> n"
  then have "length (take p b @ xs) = p + length xs" by (auto simp: wrn_def split: if_splits)
  moreover have "drop n b' = drop (n - (p + length xs)) (drop (p + length xs) ((take p b @ xs) @ drop (p + length xs) b))"
    using w n by (auto simp: wrn_def split: if_splits)
  ultimately have "drop n b' = drop (n - (p + length xs)) (drop (p + length xs) b)" by simp
  then show ?thesis using n by simp
qed

end
