(* ===== verification/Wire.thy ===== *)
theory Wire
  imports Prelude
begin

text \<open>
  The integer fields of the Styx wire format: the macros \<open>GBIT8\<close> to \<open>GBIT64\<close> and \<open>PBIT8\<close> to
  \<open>PBIT64\<close> of \<open>include/fcall.h\<close>, and the contract every fixed-width field keeps, as the
  locale \<open>wire_field\<close>: reading back what was written gives the value, and every byte
  pattern is the image of exactly one value. The message and directory codecs use the
  macros only through this contract.
\<close>

abbreviation BIT8SZ :: nat where "BIT8SZ \<equiv> 1"
abbreviation BIT16SZ :: nat where "BIT16SZ \<equiv> 2"
abbreviation BIT32SZ :: nat where "BIT32SZ \<equiv> 4"
abbreviation BIT64SZ :: nat where "BIT64SZ \<equiv> 8"

text \<open>The bytes a \<open>PBIT\<close> macro stores, least significant first.\<close>

definition le8 :: "byte \<Rightarrow> byte list" where
  "le8 v = [v]"

definition le16 :: "u16 \<Rightarrow> byte list" where
  "le16 v = [ucast v, ucast (drop_bit 8 v)]"

definition le32 :: "u32 \<Rightarrow> byte list" where
  "le32 v = [ucast v, ucast (drop_bit 8 v), ucast (drop_bit 16 v), ucast (drop_bit 24 v)]"

definition le64 :: "u64 \<Rightarrow> byte list" where
  "le64 v = [ucast v, ucast (drop_bit 8 v), ucast (drop_bit 16 v), ucast (drop_bit 24 v),
     ucast (drop_bit 32 v), ucast (drop_bit 40 v), ucast (drop_bit 48 v), ucast (drop_bit 56 v)]"

definition PBIT8 :: "byte list \<Rightarrow> nat \<Rightarrow> byte \<Rightarrow> byte list option" where
  "PBIT8 b p v = wrn b p (le8 v)"

definition PBIT16 :: "byte list \<Rightarrow> nat \<Rightarrow> u16 \<Rightarrow> byte list option" where
  "PBIT16 b p v = wrn b p (le16 v)"

definition PBIT32 :: "byte list \<Rightarrow> nat \<Rightarrow> u32 \<Rightarrow> byte list option" where
  "PBIT32 b p v = wrn b p (le32 v)"

definition PBIT64 :: "byte list \<Rightarrow> nat \<Rightarrow> u64 \<Rightarrow> byte list option" where
  "PBIT64 b p v = wrn b p (le64 v)"

text \<open>
  The readers. \<open>GBIT64\<close> builds its upper half in a C \<open>int\<close> and converts it to \<open>vlong\<close>, which
  extends the sign, before the shift by 32: the model keeps the sign extension (\<open>scast\<close>).
\<close>

definition GBIT8 :: "byte list \<Rightarrow> nat \<Rightarrow> byte option" where
  "GBIT8 b p = rd b p"

definition GBIT16 :: "byte list \<Rightarrow> nat \<Rightarrow> u16 option" where
  "GBIT16 b p = do {
     x0 \<leftarrow> rd b p; x1 \<leftarrow> rd b (p + 1);
     Some (ucast x0 OR push_bit 8 (ucast x1)) }"

definition word32 :: "byte \<Rightarrow> byte \<Rightarrow> byte \<Rightarrow> byte \<Rightarrow> u32" where
  "word32 x0 x1 x2 x3 =
     ucast x0 OR push_bit 8 (ucast x1) OR push_bit 16 (ucast x2) OR push_bit 24 (ucast x3)"

definition GBIT32 :: "byte list \<Rightarrow> nat \<Rightarrow> u32 option" where
  "GBIT32 b p = do {
     x0 \<leftarrow> rd b p; x1 \<leftarrow> rd b (p + 1); x2 \<leftarrow> rd b (p + 2); x3 \<leftarrow> rd b (p + 3);
     Some (word32 x0 x1 x2 x3) }"

definition GBIT64 :: "byte list \<Rightarrow> nat \<Rightarrow> u64 option" where
  "GBIT64 b p = do {
     x0 \<leftarrow> rd b p; x1 \<leftarrow> rd b (p + 1); x2 \<leftarrow> rd b (p + 2); x3 \<leftarrow> rd b (p + 3);
     x4 \<leftarrow> rd b (p + 4); x5 \<leftarrow> rd b (p + 5); x6 \<leftarrow> rd b (p + 6); x7 \<leftarrow> rd b (p + 7);
     Some (ucast (word32 x0 x1 x2 x3) OR push_bit 32 (scast (word32 x4 x5 x6 x7))) }"

section \<open>Bytes and words\<close>

lemma byte_bit_high: "8 \<le> n \<Longrightarrow> \<not> bit (a :: byte) n"
  by (auto dest: bit_imp_le_length)

lemma length_le [simp]:
  "length (le8 a) = 1" "length (le16 v) = 2" "length (le32 w) = 4" "length (le64 x) = 8"
  by (simp_all add: le8_def le16_def le32_def le64_def)

lemma word16_le16:
  "ucast (ucast v :: byte) OR push_bit 8 (ucast (ucast (drop_bit 8 v) :: byte)) = (v :: u16)"
  (is "?w = v")
proof (rule bit_word_eqI)
  fix n assume "n < LENGTH(16)"
  then consider "n < 8" | "8 \<le> n" "n < 16" by fastforce
  then show "bit ?w n = bit v n"
    by cases (auto simp: bit_simps)
qed

lemma le16_word16: "le16 (ucast a OR push_bit 8 (ucast b)) = [a, b]"
  unfolding le16_def
  by (simp, intro conjI; rule bit_word_eqI; simp add: bit_simps byte_bit_high)

lemma word32_le32:
  "word32 (ucast v) (ucast (drop_bit 8 v)) (ucast (drop_bit 16 v)) (ucast (drop_bit 24 v)) = v"
  (is "?w = v")
proof (rule bit_word_eqI)
  fix n assume "n < LENGTH(32)"
  then consider "n < 8" | "8 \<le> n" "n < 16" | "16 \<le> n" "n < 24" | "24 \<le> n" "n < 32" by fastforce
  then show "bit ?w n = bit v n"
    by cases (auto simp: word32_def bit_simps)
qed

lemma le32_word32: "le32 (word32 a b c d) = [a, b, c, d]"
  unfolding word32_def le32_def
  by (simp, intro conjI; rule bit_word_eqI; simp add: bit_simps byte_bit_high)

lemma le64_split: "le64 v = le32 (ucast v) @ le32 (ucast (drop_bit 32 v))"
  unfolding le64_def le32_def
  by (simp, intro conjI; rule bit_word_eqI; simp add: bit_simps)

lemma join64_lo: "ucast (ucast lo OR push_bit 32 (scast (hi :: u32)) :: u64) = (lo :: u32)"
  by (rule bit_word_eqI) (simp add: bit_simps)

lemma join64_hi:
  "ucast (drop_bit 32 (ucast (lo :: u32) OR push_bit 32 (scast hi) :: u64)) = (hi :: u32)"
  by (rule bit_word_eqI) (auto simp add: bit_simps dest: bit_imp_le_length)

lemma join64: "ucast (ucast v :: u32) OR push_bit 32 (scast (ucast (drop_bit 32 v) :: u32)) = (v :: u64)"
  by (rule bit_word_eqI) (auto simp add: bit_simps)

section \<open>The contract of a fixed-width field\<close>

locale wire_field =
  fixes get :: "byte list \<Rightarrow> nat \<Rightarrow> 'a option"
    and put :: "'a \<Rightarrow> byte list"
    and w :: nat
  assumes put_length: "length (put x) = w"
    and get_put: "take w (drop p b) = put x \<Longrightarrow> get b p = Some x"
    and put_get: "get b p = Some x \<Longrightarrow> take w (drop p b) = put x"
    and get_total: "p + w \<le> length b \<Longrightarrow> \<exists>x. get b p = Some x"
begin

lemma window_get:
  assumes "window b ep p (put x @ ys)"
  shows "get b p = Some x \<and> p + w \<le> ep \<and> window b ep (p + w) ys"
  using window_take_drop [OF assms] window_append [OF assms] get_put [of p b x] window_length [OF assms]
  by (simp add: put_length)

lemma window_split:
  assumes win: "window b ep p xs" and fits: "p + w \<le> ep"
  obtains x ys where "xs = put x @ ys" "get b p = Some x" "window b ep (p + w) ys"
proof -
  have "p + w \<le> length b" using win fits by (simp add: window_def)
  then obtain x where x: "get b p = Some x" using get_total by blast
  have "take w xs = take w (drop p b)"
    using win fits by (auto simp: window_def min.absorb1)
  then have "take w xs = put x" using put_get [OF x] by simp
  then have xs: "xs = put x @ drop w xs" by (metis append_take_drop_id)
  show ?thesis
    using that [OF xs x] window_get [of b ep p x "drop w xs"] win xs by simp
qed

lemma bind_get:
  "\<lbrakk> p + w \<le> length b; \<And>x. get b p = Some x \<Longrightarrow> Q (k x) \<rbrakk> \<Longrightarrow> Q (Option.bind (get b p) k)"
  using get_total [of p b] by auto

lemma put_inject: "put x = put y \<longleftrightarrow> x = y"
proof
  assume eq: "put x = put y"
  have "get (put x) 0 = Some x" "get (put x) 0 = Some y"
    using get_put [of 0 "put x" x] get_put [of 0 "put x" y] put_length [of x] eq by simp_all
  then show "x = y" by simp
qed simp

lemma get_bound: "0 < w \<Longrightarrow> get b p = Some x \<Longrightarrow> p + w \<le> length b"
proof -
  assume "0 < w" and g: "get b p = Some x"
  moreover have "length (take w (drop p b)) = w" by (simp only: put_get [OF g] put_length)
  ultimately show ?thesis by simp
qed

end

lemma take_drop_Cons: "p < length b \<Longrightarrow> take (Suc n) (drop p b) = b ! p # take n (drop (Suc p) b)"
  by (metis Cons_nth_drop_Suc take_Suc_Cons)

lemma take_drop_Cons_D: "take (Suc n) (drop p b) = x # xs \<Longrightarrow> rd b p = Some x \<and> take n (drop (Suc p) b) = xs"
proof -
  assume t: "take (Suc n) (drop p b) = x # xs"
  then have "p < length b" by (cases "p < length b") auto
  then show ?thesis using t by (auto simp: rd_def take_drop_Cons)
qed

lemma rd_take_drop: "rd b p = Some x \<Longrightarrow> take (Suc n) (drop p b) = x # take n (drop (Suc p) b)"
  by (auto simp: rd_def take_drop_Cons split: if_splits)

lemma rd_total: "p < length b \<Longrightarrow> \<exists>x. rd b p = Some x"
  by (simp add: rd_def)

interpretation f8: wire_field GBIT8 le8 BIT8SZ
proof (unfold_locales, goal_cases)
  case (2 p b x)
  then show ?case using take_drop_Cons_D [of 0 p b x "[]"] by (simp add: GBIT8_def le8_def)
next
  case (3 b p x)
  then show ?case using rd_take_drop [of b p x 0] by (simp add: GBIT8_def le8_def)
qed (simp_all add: GBIT8_def rd_def)

interpretation f16: wire_field GBIT16 le16 BIT16SZ
proof (unfold_locales, goal_cases)
  case (2 p b x)
  then show ?case
    by (auto simp: le16_def numeral_2_eq_2 GBIT16_def word16_le16 dest!: take_drop_Cons_D)
next
  case (3 b p x)
  then show ?case
    by (auto simp: GBIT16_def le16_word16 numeral_2_eq_2 bind_eq_Some_conv rd_take_drop)
next
  case (4 p b)
  then show ?case by (simp add: GBIT16_def rd_def)
qed simp

lemma take4_drop_D: "take 4 (drop p b) = [x0, x1, x2, x3] \<Longrightarrow>
    rd b p = Some x0 \<and> rd b (p + 1) = Some x1 \<and> rd b (p + 2) = Some x2 \<and> rd b (p + 3) = Some x3"
  by (auto simp: eval_nat_numeral dest!: take_drop_Cons_D)

lemma take4_drop_I: "\<lbrakk> rd b p = Some x0; rd b (p + 1) = Some x1; rd b (p + 2) = Some x2; rd b (p + 3) = Some x3 \<rbrakk>
    \<Longrightarrow> take 4 (drop p b) = [x0, x1, x2, x3]"
  by (simp add: eval_nat_numeral rd_take_drop)

interpretation f32: wire_field GBIT32 le32 BIT32SZ
proof (unfold_locales, goal_cases)
  case (2 p b x)
  then show ?case
    by (auto simp: le32_def GBIT32_def word32_le32 dest!: take4_drop_D)
next
  case (3 b p x)
  then show ?case
    by (auto simp: GBIT32_def le32_word32 bind_eq_Some_conv intro!: take4_drop_I)
next
  case (4 p b)
  then show ?case by (simp add: GBIT32_def rd_def)
qed simp

lemma GBIT64_GBIT32:
  "GBIT64 b p = do { lo \<leftarrow> GBIT32 b p; hi \<leftarrow> GBIT32 b (p + 4);
     Some (ucast lo OR push_bit 32 (scast hi)) }"
  by (simp add: GBIT64_def GBIT32_def eval_nat_numeral)

interpretation f64: wire_field GBIT64 le64 BIT64SZ
proof (unfold_locales, goal_cases)
  case (2 p b x)
  have "take 4 (take 8 (drop p b)) = le32 (ucast x)" "drop 4 (take 8 (drop p b)) = le32 (ucast (drop_bit 32 x))"
    using 2 by (simp_all add: le64_split)
  then have "GBIT32 b p = Some (ucast x)" "GBIT32 b (p + 4) = Some (ucast (drop_bit 32 x))"
    by (simp_all add: f32.get_put drop_take add.commute)
  then show ?case by (simp add: GBIT64_GBIT32 join64)
next
  case (3 b p x)
  then obtain lo hi where g: "GBIT32 b p = Some lo" "GBIT32 b (p + 4) = Some hi"
    and x: "x = ucast lo OR push_bit 32 (scast hi)"
    by (auto simp: GBIT64_GBIT32 bind_eq_Some_conv)
  have "take 8 (drop p b) = take 4 (drop p b) @ take 4 (drop (p + 4) b)"
    using take_add [of 4 4 "drop p b"] by (simp add: add.commute)
  then show ?case
    by (simp only: f32.put_get [OF g(1)] f32.put_get [OF g(2)] le64_split x join64_lo join64_hi)
next
  case (4 p b)
  then show ?case
    using f32.get_total [of p b] f32.get_total [of "p + 4" b] by (auto simp: GBIT64_GBIT32)
qed simp

lemmas [window_dest] = f8.window_get f16.window_get f32.window_get f64.window_get

end
