(* ===== verification/Fcall.thy ===== *)
theory Fcall
  imports Wire
begin

text \<open>
  Styx (9P2000) messages: \<open>struct Fcall\<close> of \<open>include/fcall.h\<close>, the encoder \<open>sizeS2M\<close>,
  \<open>convS2M\<close> (\<open>lib9/convS2M.c\<close>) and the decoder \<open>convM2S\<close> (\<open>lib9/convM2S.c\<close>).

  The record has one field per member of the C structure. Its type parameters say what a
  \<open>char*\<close> (\<open>'s\<close>) and a data pointer (\<open>'b\<close>) are: for the encoder the pointed-to string, \<open>None\<close>
  for \<open>nil\<close>, and the pointed-to object; for the decoder, which leaves pointers into the message
  buffer in the record, an offset into that buffer.
\<close>

abbreviation MAXWELEM :: nat where "MAXWELEM \<equiv> 16"
abbreviation QIDSZ :: nat where "QIDSZ \<equiv> BIT8SZ + BIT32SZ + BIT64SZ"

record qid =
  q_path :: u64
  q_vers :: u32
  q_type :: byte

record ('s, 'b) fcall =
  f_type :: byte
  f_fid :: u32
  f_tag :: u16
  f_msize :: u32
  f_version :: 's
  f_oldtag :: u16
  f_ename :: 's
  f_qid :: qid
  f_iounit :: u32
  f_aqid :: qid
  f_afid :: u32
  f_uname :: 's
  f_aname :: 's
  f_perm :: u32
  f_name :: 's
  f_mode :: byte
  f_newfid :: u32
  f_nwname :: u16
  f_wname :: "'s list"
  f_nwqid :: u16
  f_wqid :: "qid list"
  f_offset :: u64
  f_count :: u32
  f_data :: 'b
  f_nstat :: u16
  f_stat :: 'b

type_synonym sfcall = "(byte list option, byte list) fcall"  \<comment> \<open>to be sent\<close>
type_synonym rfcall = "(nat, nat) fcall"                      \<comment> \<open>received: offsets\<close>

abbreviation Tversion :: byte where "Tversion \<equiv> 100"
abbreviation Rversion :: byte where "Rversion \<equiv> 101"
abbreviation Tauth :: byte where "Tauth \<equiv> 102"
abbreviation Rauth :: byte where "Rauth \<equiv> 103"
abbreviation Tattach :: byte where "Tattach \<equiv> 104"
abbreviation Rattach :: byte where "Rattach \<equiv> 105"
abbreviation Rerror :: byte where "Rerror \<equiv> 107"
abbreviation Tflush :: byte where "Tflush \<equiv> 108"
abbreviation Rflush :: byte where "Rflush \<equiv> 109"
abbreviation Twalk :: byte where "Twalk \<equiv> 110"
abbreviation Rwalk :: byte where "Rwalk \<equiv> 111"
abbreviation Topen :: byte where "Topen \<equiv> 112"
abbreviation Ropen :: byte where "Ropen \<equiv> 113"
abbreviation Tcreate :: byte where "Tcreate \<equiv> 114"
abbreviation Rcreate :: byte where "Rcreate \<equiv> 115"
abbreviation Tread :: byte where "Tread \<equiv> 116"
abbreviation Rread :: byte where "Rread \<equiv> 117"
abbreviation Twrite :: byte where "Twrite \<equiv> 118"
abbreviation Rwrite :: byte where "Rwrite \<equiv> 119"
abbreviation Tclunk :: byte where "Tclunk \<equiv> 120"
abbreviation Rclunk :: byte where "Rclunk \<equiv> 121"
abbreviation Tremove :: byte where "Tremove \<equiv> 122"
abbreviation Rremove :: byte where "Rremove \<equiv> 123"
abbreviation Tstat :: byte where "Tstat \<equiv> 124"
abbreviation Rstat :: byte where "Rstat \<equiv> 125"
abbreviation Twstat :: byte where "Twstat \<equiv> 126"
abbreviation Rwstat :: byte where "Rwstat \<equiv> 127"

section \<open>The encoder\<close>

text \<open>\<open>strlen\<close> is stored in a \<open>uint\<close>, and \<open>PBIT16\<close> keeps its low 16 bits.\<close>

definition pstring :: "byte list \<Rightarrow> nat \<Rightarrow> byte list option \<Rightarrow> (byte list \<times> nat) option" where
  "pstring b p s = (case s of
     None \<Rightarrow> do { b \<leftarrow> PBIT16 b p 0; Some (b, p + BIT16SZ) }
   | Some s \<Rightarrow> do {
       let n = wrap32 (length s);
       b \<leftarrow> PBIT16 b p (of_nat n);
       let p = p + BIT16SZ;
       b \<leftarrow> wrn b p (take n s);
       Some (b, p + n) })"

definition pqid :: "byte list \<Rightarrow> nat \<Rightarrow> qid \<Rightarrow> (byte list \<times> nat) option" where
  "pqid b p q = do {
     b \<leftarrow> PBIT8 b p (q_type q);
     b \<leftarrow> PBIT32 b (p + BIT8SZ) (q_vers q);
     b \<leftarrow> PBIT64 b (p + BIT8SZ + BIT32SZ) (q_path q);
     Some (b, p + BIT8SZ + BIT32SZ + BIT64SZ) }"

definition stringsz :: "byte list option \<Rightarrow> nat" where
  "stringsz s = (case s of None \<Rightarrow> BIT16SZ | Some s \<Rightarrow> wrap32 (BIT16SZ + length s))"

text \<open>
  \<open>sizeS2M\<close>: the size of the message in a \<open>uint\<close>, 0 for an unknown type. The Twalk case
  reads \<open>wname[0 .. nwname-1]\<close> of an array of \<open>MAXWELEM\<close> elements. Since every step is an
  addition, the wrap-around is written once, at the end.
\<close>

definition sizeS2M :: "sfcall \<Rightarrow> nat option" where
  "sizeS2M f = (let n = BIT32SZ + BIT8SZ + BIT16SZ; t = f_type f in
     if t = Tversion then Some (wrap32 (n + BIT32SZ + stringsz (f_version f)))
     else if t = Tflush then Some (wrap32 (n + BIT16SZ))
     else if t = Tauth then Some (wrap32 (n + BIT32SZ + stringsz (f_uname f) + stringsz (f_aname f)))
     else if t = Tattach then
       Some (wrap32 (n + BIT32SZ + BIT32SZ + stringsz (f_uname f) + stringsz (f_aname f)))
     else if t = Twalk then do {
       ws \<leftarrow> arr (f_wname f) (unat (f_nwname f));
       Some (wrap32 (n + BIT32SZ + BIT32SZ + BIT16SZ + sum_list (map stringsz ws))) }
     else if t = Topen then Some (wrap32 (n + BIT32SZ + BIT8SZ))
     else if t = Tcreate then Some (wrap32 (n + BIT32SZ + stringsz (f_name f) + BIT32SZ + BIT8SZ))
     else if t = Tread then Some (wrap32 (n + BIT32SZ + BIT64SZ + BIT32SZ))
     else if t = Twrite then Some (wrap32 (n + BIT32SZ + BIT64SZ + BIT32SZ + unat (f_count f)))
     else if t = Tclunk \<or> t = Tremove then Some (wrap32 (n + BIT32SZ))
     else if t = Tstat then Some (wrap32 (n + BIT32SZ))
     else if t = Twstat then Some (wrap32 (n + BIT32SZ + BIT16SZ + unat (f_nstat f)))
     else if t = Rversion then Some (wrap32 (n + BIT32SZ + stringsz (f_version f)))
     else if t = Rerror then Some (wrap32 (n + stringsz (f_ename f)))
     else if t = Rflush then Some (wrap32 n)
     else if t = Rauth then Some (wrap32 (n + QIDSZ))
     else if t = Rattach then Some (wrap32 (n + QIDSZ))
     else if t = Rwalk then Some (wrap32 (n + BIT16SZ + unat (f_nwqid f) * QIDSZ))
     else if t = Ropen \<or> t = Rcreate then Some (wrap32 (n + QIDSZ + BIT32SZ))
     else if t = Rread then Some (wrap32 (n + BIT32SZ + unat (f_count f)))
     else if t = Rwrite then Some (wrap32 (n + BIT32SZ))
     else if t = Rclunk \<or> t = Rremove then Some (wrap32 n)
     else if t = Rstat then Some (wrap32 (n + BIT16SZ + unat (f_nstat f)))
     else if t = Rwstat then Some (wrap32 n)
     else Some 0)"

fun pwnames :: "byte list option list \<Rightarrow> byte list \<Rightarrow> nat \<Rightarrow> (byte list \<times> nat) option" where
  "pwnames [] b p = Some (b, p)"
| "pwnames (s # ss) b p = do { (b, p) \<leftarrow> pstring b p s; pwnames ss b p }"

fun pwqids :: "qid list \<Rightarrow> byte list \<Rightarrow> nat \<Rightarrow> (byte list \<times> nat) option" where
  "pwqids [] b p = Some (b, p)"
| "pwqids (q # qs) b p = do { (b, p) \<leftarrow> pqid b p q; pwqids qs b p }"

text \<open>
  The switch of \<open>convS2M\<close>, in two halves. The result is the buffer and the pointer after the
  body, or no pointer where the code returns 0.
\<close>

definition convS2M_R :: "sfcall \<Rightarrow> byte list \<Rightarrow> nat \<Rightarrow> (byte list \<times> nat option) option" where
  "convS2M_R f b p = (let t = f_type f in
     if t = Rversion then do {
       b \<leftarrow> PBIT32 b p (f_msize f);
       (b, p) \<leftarrow> pstring b (p + BIT32SZ) (f_version f);
       Some (b, Some p) }
     else if t = Rerror then do {
       (b, p) \<leftarrow> pstring b p (f_ename f);
       Some (b, Some p) }
     else if t = Rflush then Some (b, Some p)
     else if t = Rauth then do {
       (b, p) \<leftarrow> pqid b p (f_aqid f);
       Some (b, Some p) }
     else if t = Rattach then do {
       (b, p) \<leftarrow> pqid b p (f_qid f);
       Some (b, Some p) }
     else if t = Rwalk then do {
       b \<leftarrow> PBIT16 b p (f_nwqid f);
       let p = p + BIT16SZ;
       if unat (f_nwqid f) > MAXWELEM then Some (b, None)
       else do {
         qs \<leftarrow> arr (f_wqid f) (unat (f_nwqid f));
         (b, p) \<leftarrow> pwqids qs b p;
         Some (b, Some p) } }
     else if t = Ropen \<or> t = Rcreate then do {
       (b, p) \<leftarrow> pqid b p (f_qid f);
       b \<leftarrow> PBIT32 b p (f_iounit f);
       Some (b, Some (p + BIT32SZ)) }
     else if t = Rread then do {
       b \<leftarrow> PBIT32 b p (f_count f);
       let p = p + BIT32SZ;
       xs \<leftarrow> rdn (f_data f) 0 (unat (f_count f));
       b \<leftarrow> wrn b p xs;
       Some (b, Some (p + unat (f_count f))) }
     else if t = Rwrite then do {
       b \<leftarrow> PBIT32 b p (f_count f);
       Some (b, Some (p + BIT32SZ)) }
     else if t = Rclunk then Some (b, Some p)
     else if t = Rremove then Some (b, Some p)
     else if t = Rstat then do {
       b \<leftarrow> PBIT16 b p (f_nstat f);
       let p = p + BIT16SZ;
       xs \<leftarrow> rdn (f_stat f) 0 (unat (f_nstat f));
       b \<leftarrow> wrn b p xs;
       Some (b, Some (p + unat (f_nstat f))) }
     else if t = Rwstat then Some (b, Some p)
     else Some (b, None))"

definition convS2M_T :: "sfcall \<Rightarrow> byte list \<Rightarrow> nat \<Rightarrow> (byte list \<times> nat option) option" where
  "convS2M_T f b p = (let t = f_type f in
     if t = Tversion then do {
       b \<leftarrow> PBIT32 b p (f_msize f);
       (b, p) \<leftarrow> pstring b (p + BIT32SZ) (f_version f);
       Some (b, Some p) }
     else if t = Tflush then do {
       b \<leftarrow> PBIT16 b p (f_oldtag f);
       Some (b, Some (p + BIT16SZ)) }
     else if t = Tauth then do {
       b \<leftarrow> PBIT32 b p (f_afid f);
       (b, p) \<leftarrow> pstring b (p + BIT32SZ) (f_uname f);
       (b, p) \<leftarrow> pstring b p (f_aname f);
       Some (b, Some p) }
     else if t = Tattach then do {
       b \<leftarrow> PBIT32 b p (f_fid f);
       b \<leftarrow> PBIT32 b (p + BIT32SZ) (f_afid f);
       (b, p) \<leftarrow> pstring b (p + BIT32SZ + BIT32SZ) (f_uname f);
       (b, p) \<leftarrow> pstring b p (f_aname f);
       Some (b, Some p) }
     else if t = Twalk then do {
       b \<leftarrow> PBIT32 b p (f_fid f);
       b \<leftarrow> PBIT32 b (p + BIT32SZ) (f_newfid f);
       b \<leftarrow> PBIT16 b (p + BIT32SZ + BIT32SZ) (f_nwname f);
       let p = p + BIT32SZ + BIT32SZ + BIT16SZ;
       if unat (f_nwname f) > MAXWELEM then Some (b, None)
       else do {
         ws \<leftarrow> arr (f_wname f) (unat (f_nwname f));
         (b, p) \<leftarrow> pwnames ws b p;
         Some (b, Some p) } }
     else if t = Topen then do {
       b \<leftarrow> PBIT32 b p (f_fid f);
       b \<leftarrow> PBIT8 b (p + BIT32SZ) (f_mode f);
       Some (b, Some (p + BIT32SZ + BIT8SZ)) }
     else if t = Tcreate then do {
       b \<leftarrow> PBIT32 b p (f_fid f);
       (b, p) \<leftarrow> pstring b (p + BIT32SZ) (f_name f);
       b \<leftarrow> PBIT32 b p (f_perm f);
       b \<leftarrow> PBIT8 b (p + BIT32SZ) (f_mode f);
       Some (b, Some (p + BIT32SZ + BIT8SZ)) }
     else if t = Tread then do {
       b \<leftarrow> PBIT32 b p (f_fid f);
       b \<leftarrow> PBIT64 b (p + BIT32SZ) (f_offset f);
       b \<leftarrow> PBIT32 b (p + BIT32SZ + BIT64SZ) (f_count f);
       Some (b, Some (p + BIT32SZ + BIT64SZ + BIT32SZ)) }
     else if t = Twrite then do {
       b \<leftarrow> PBIT32 b p (f_fid f);
       b \<leftarrow> PBIT64 b (p + BIT32SZ) (f_offset f);
       b \<leftarrow> PBIT32 b (p + BIT32SZ + BIT64SZ) (f_count f);
       let p = p + BIT32SZ + BIT64SZ + BIT32SZ;
       xs \<leftarrow> rdn (f_data f) 0 (unat (f_count f));
       b \<leftarrow> wrn b p xs;
       Some (b, Some (p + unat (f_count f))) }
     else if t = Tclunk \<or> t = Tremove then do {
       b \<leftarrow> PBIT32 b p (f_fid f);
       Some (b, Some (p + BIT32SZ)) }
     else if t = Tstat then do {
       b \<leftarrow> PBIT32 b p (f_fid f);
       Some (b, Some (p + BIT32SZ)) }
     else if t = Twstat then do {
       b \<leftarrow> PBIT32 b p (f_fid f);
       b \<leftarrow> PBIT16 b (p + BIT32SZ) (f_nstat f);
       let p = p + BIT32SZ + BIT16SZ;
       xs \<leftarrow> rdn (f_stat f) 0 (unat (f_nstat f));
       b \<leftarrow> wrn b p xs;
       Some (b, Some (p + unat (f_nstat f))) }
     else convS2M_R f b p)"

definition convS2M :: "sfcall \<Rightarrow> byte list \<Rightarrow> nat \<Rightarrow> (nat \<times> byte list) option" where
  "convS2M f b nap = do {
     size \<leftarrow> sizeS2M f;
     if size = 0 then Some (0, b)
     else if size > nap then Some (0, b)
     else do {
       b \<leftarrow> PBIT32 b 0 (of_nat size);
       b \<leftarrow> PBIT8 b BIT32SZ (f_type f);
       b \<leftarrow> PBIT16 b (BIT32SZ + BIT8SZ) (f_tag f);
       (b, p) \<leftarrow> convS2M_T f b (BIT32SZ + BIT8SZ + BIT16SZ);
       Some (case p of None \<Rightarrow> 0 | Some p \<Rightarrow> if size \<noteq> p then 0 else size, b) } }"

section \<open>The decoder\<close>

text \<open>
  \<open>gstring\<close> moves the string down over its count to make room for a NUL, in the message
  buffer itself, and yields the pointer after it and the pointer to the string; \<open>None\<close> is \<open>nil\<close>.
\<close>

definition gstring :: "byte list \<Rightarrow> nat \<Rightarrow> nat \<Rightarrow> (byte list \<times> (nat \<times> nat) option) option" where
  "gstring b p ep = (if p + BIT16SZ > ep then Some (b, None)
     else do {
       n \<leftarrow> GBIT16 b p;
       let p = p + (BIT16SZ - 1);
       if p + unat n + 1 > ep then Some (b, None)
       else do {
         xs \<leftarrow> rdn b (p + 1) (unat n);
         b \<leftarrow> wrn b p xs;
         b \<leftarrow> wrn b (p + unat n) [0];
         Some (b, Some (p + (unat n + 1), p)) } })"

definition gqid :: "byte list \<Rightarrow> nat \<Rightarrow> nat \<Rightarrow> (nat \<times> qid) option option" where
  "gqid b p ep = (if p + QIDSZ > ep then Some None
     else do {
       t \<leftarrow> GBIT8 b p;
       v \<leftarrow> GBIT32 b (p + BIT8SZ);
       h \<leftarrow> GBIT64 b (p + BIT8SZ + BIT32SZ);
       Some (Some (p + BIT8SZ + BIT32SZ + BIT64SZ, \<lparr>q_path = h, q_vers = v, q_type = t\<rparr>)) })"

text \<open>
  The state of the decoder: the buffer, the pointer (\<open>None\<close> once the code has returned 0 or
  broken out with \<open>p == nil\<close>, which ends in a return of 0) and the message structure.
  \<open>gstr\<close> and \<open>gq\<close> store the value they read in a field; \<open>nextp\<close> is \<open>if(p == nil) break\<close>.
\<close>

type_synonym dec = "(byte list \<times> nat option \<times> rfcall) option"

definition nextp :: "dec \<Rightarrow> (byte list \<Rightarrow> nat \<Rightarrow> rfcall \<Rightarrow> dec) \<Rightarrow> dec" where
  "nextp d k = do {
     (b, p, f) \<leftarrow> d;
     (case p of None \<Rightarrow> Some (b, None, f) | Some p \<Rightarrow> k b p f) }"

definition gstr :: "byte list \<Rightarrow> nat \<Rightarrow> nat \<Rightarrow> (nat \<Rightarrow> rfcall \<Rightarrow> rfcall) \<Rightarrow> rfcall \<Rightarrow> dec" where
  "gstr b p ep upd f = do {
     (b, r) \<leftarrow> gstring b p ep;
     Some (case r of None \<Rightarrow> (b, None, f) | Some (p, s) \<Rightarrow> (b, Some p, upd s f)) }"

definition gq :: "byte list \<Rightarrow> nat \<Rightarrow> nat \<Rightarrow> (qid \<Rightarrow> rfcall \<Rightarrow> rfcall) \<Rightarrow> rfcall \<Rightarrow> dec" where
  "gq b p ep upd f = do {
     r \<leftarrow> gqid b p ep;
     Some (case r of None \<Rightarrow> (b, None, f) | Some (p, q) \<Rightarrow> (b, Some p, upd q f)) }"

definition set_wname :: "nat \<Rightarrow> nat \<Rightarrow> rfcall \<Rightarrow> rfcall" where
  "set_wname i s f = f\<lparr>f_wname := (f_wname f)[i := s]\<rparr>"

definition set_wqid :: "nat \<Rightarrow> qid \<Rightarrow> rfcall \<Rightarrow> rfcall" where
  "set_wqid i q f = f\<lparr>f_wqid := (f_wqid f)[i := q]\<rparr>"

text \<open>The loops over \<open>wname[i]\<close> and \<open>wqid[i]\<close>: \<open>n\<close> elements are left from index \<open>i\<close> on.\<close>

fun gwnames :: "nat \<Rightarrow> nat \<Rightarrow> byte list \<Rightarrow> nat \<Rightarrow> nat \<Rightarrow> rfcall \<Rightarrow> dec" where
  "gwnames i 0 b p ep f = Some (b, Some p, f)"
| "gwnames i (Suc n) b p ep f = (if i < length (f_wname f)
     then nextp (gstr b p ep (set_wname i) f) (\<lambda>b p f. gwnames (Suc i) n b p ep f)
     else None)"

fun gwqids :: "nat \<Rightarrow> nat \<Rightarrow> byte list \<Rightarrow> nat \<Rightarrow> nat \<Rightarrow> rfcall \<Rightarrow> dec" where
  "gwqids i 0 b p ep f = Some (b, Some p, f)"
| "gwqids i (Suc n) b p ep f = (if i < length (f_wqid f)
     then nextp (gq b p ep (set_wqid i) f) (\<lambda>b p f. gwqids (Suc i) n b p ep f)
     else None)"

definition convM2S_R :: "byte list \<Rightarrow> nat \<Rightarrow> nat \<Rightarrow> rfcall \<Rightarrow> dec" where
  "convM2S_R b p ep f = (let t = f_type f in
     if t = Rversion then
       (if p + BIT32SZ > ep then Some (b, None, f) else do {
          x \<leftarrow> GBIT32 b p;
          gstr b (p + BIT32SZ) ep (\<lambda>s. f_version_update (\<lambda>_. s)) (f\<lparr>f_msize := x\<rparr>) })
     else if t = Rerror then gstr b p ep (\<lambda>s. f_ename_update (\<lambda>_. s)) f
     else if t = Rflush then Some (b, Some p, f)
     else if t = Rauth then gq b p ep (\<lambda>q. f_aqid_update (\<lambda>_. q)) f
     else if t = Rattach then gq b p ep (\<lambda>q. f_qid_update (\<lambda>_. q)) f
     else if t = Rwalk then
       (if p + BIT16SZ > ep then Some (b, None, f) else do {
          n \<leftarrow> GBIT16 b p;
          let f = f\<lparr>f_nwqid := n\<rparr>; let p = p + BIT16SZ;
          (if unat n > MAXWELEM then Some (b, None, f) else gwqids 0 (unat n) b p ep f) })
     else if t = Ropen \<or> t = Rcreate then
       nextp (gq b p ep (\<lambda>q. f_qid_update (\<lambda>_. q)) f) (\<lambda>b p f.
         if p + BIT32SZ > ep then Some (b, None, f) else do {
           x \<leftarrow> GBIT32 b p;
           Some (b, Some (p + BIT32SZ), f\<lparr>f_iounit := x\<rparr>) })
     else if t = Rread then
       (if p + BIT32SZ > ep then Some (b, None, f) else do {
          n \<leftarrow> GBIT32 b p;
          let f = f\<lparr>f_count := n\<rparr>; let p = p + BIT32SZ;
          (if p + unat n > ep then Some (b, None, f)
           else Some (b, Some (p + unat n), f\<lparr>f_data := p\<rparr>)) })
     else if t = Rwrite then
       (if p + BIT32SZ > ep then Some (b, None, f) else do {
          n \<leftarrow> GBIT32 b p;
          Some (b, Some (p + BIT32SZ), f\<lparr>f_count := n\<rparr>) })
     else if t = Rclunk \<or> t = Rremove then Some (b, Some p, f)
     else if t = Rstat then
       (if p + BIT16SZ > ep then Some (b, None, f) else do {
          n \<leftarrow> GBIT16 b p;
          let f = f\<lparr>f_nstat := n\<rparr>; let p = p + BIT16SZ;
          (if p + unat n > ep then Some (b, None, f)
           else Some (b, Some (p + unat n), f\<lparr>f_stat := p\<rparr>)) })
     else if t = Rwstat then Some (b, Some p, f)
     else Some (b, None, f))"

definition convM2S_T :: "byte list \<Rightarrow> nat \<Rightarrow> nat \<Rightarrow> rfcall \<Rightarrow> dec" where
  "convM2S_T b p ep f = (let t = f_type f in
     if t = Tversion then
       (if p + BIT32SZ > ep then Some (b, None, f) else do {
          x \<leftarrow> GBIT32 b p;
          gstr b (p + BIT32SZ) ep (\<lambda>s. f_version_update (\<lambda>_. s)) (f\<lparr>f_msize := x\<rparr>) })
     else if t = Tflush then
       (if p + BIT16SZ > ep then Some (b, None, f) else do {
          x \<leftarrow> GBIT16 b p;
          Some (b, Some (p + BIT16SZ), f\<lparr>f_oldtag := x\<rparr>) })
     else if t = Tauth then
       (if p + BIT32SZ > ep then Some (b, None, f) else do {
          x \<leftarrow> GBIT32 b p;
          nextp (gstr b (p + BIT32SZ) ep (\<lambda>s. f_uname_update (\<lambda>_. s)) (f\<lparr>f_afid := x\<rparr>))
            (\<lambda>b p f. gstr b p ep (\<lambda>s. f_aname_update (\<lambda>_. s)) f) })
     else if t = Tattach then
       (if p + BIT32SZ > ep then Some (b, None, f) else do {
          x \<leftarrow> GBIT32 b p;
          let f = f\<lparr>f_fid := x\<rparr>; let p = p + BIT32SZ;
          (if p + BIT32SZ > ep then Some (b, None, f) else do {
             x \<leftarrow> GBIT32 b p;
             nextp (gstr b (p + BIT32SZ) ep (\<lambda>s. f_uname_update (\<lambda>_. s)) (f\<lparr>f_afid := x\<rparr>))
               (\<lambda>b p f. gstr b p ep (\<lambda>s. f_aname_update (\<lambda>_. s)) f) }) })
     else if t = Twalk then
       (if p + BIT32SZ + BIT32SZ + BIT16SZ > ep then Some (b, None, f) else do {
          x \<leftarrow> GBIT32 b p;
          y \<leftarrow> GBIT32 b (p + BIT32SZ);
          n \<leftarrow> GBIT16 b (p + BIT32SZ + BIT32SZ);
          let f = f\<lparr>f_fid := x, f_newfid := y, f_nwname := n\<rparr>;
              let p = p + BIT32SZ + BIT32SZ + BIT16SZ;
          (if unat n > MAXWELEM then Some (b, None, f) else gwnames 0 (unat n) b p ep f) })
     else if t = Topen then
       (if p + BIT32SZ + BIT8SZ > ep then Some (b, None, f) else do {
          x \<leftarrow> GBIT32 b p;
          m \<leftarrow> GBIT8 b (p + BIT32SZ);
          Some (b, Some (p + BIT32SZ + BIT8SZ), f\<lparr>f_fid := x, f_mode := m\<rparr>) })
     else if t = Tcreate then
       (if p + BIT32SZ > ep then Some (b, None, f) else do {
          x \<leftarrow> GBIT32 b p;
          nextp (gstr b (p + BIT32SZ) ep (\<lambda>s. f_name_update (\<lambda>_. s)) (f\<lparr>f_fid := x\<rparr>)) (\<lambda>b p f.
            if p + BIT32SZ + BIT8SZ > ep then Some (b, None, f) else do {
              y \<leftarrow> GBIT32 b p;
              m \<leftarrow> GBIT8 b (p + BIT32SZ);
              Some (b, Some (p + BIT32SZ + BIT8SZ), f\<lparr>f_perm := y, f_mode := m\<rparr>) }) })
     else if t = Tread then
       (if p + BIT32SZ + BIT64SZ + BIT32SZ > ep then Some (b, None, f) else do {
          x \<leftarrow> GBIT32 b p;
          y \<leftarrow> GBIT64 b (p + BIT32SZ);
          n \<leftarrow> GBIT32 b (p + BIT32SZ + BIT64SZ);
          Some (b, Some (p + BIT32SZ + BIT64SZ + BIT32SZ),
            f\<lparr>f_fid := x, f_offset := y, f_count := n\<rparr>) })
     else if t = Twrite then
       (if p + BIT32SZ + BIT64SZ + BIT32SZ > ep then Some (b, None, f) else do {
          x \<leftarrow> GBIT32 b p;
          y \<leftarrow> GBIT64 b (p + BIT32SZ);
          n \<leftarrow> GBIT32 b (p + BIT32SZ + BIT64SZ);
          let f = f\<lparr>f_fid := x, f_offset := y, f_count := n\<rparr>;
              let p = p + BIT32SZ + BIT64SZ + BIT32SZ;
          (if p + unat n > ep then Some (b, None, f)
           else Some (b, Some (p + unat n), f\<lparr>f_data := p\<rparr>)) })
     else if t = Tclunk \<or> t = Tremove then
       (if p + BIT32SZ > ep then Some (b, None, f) else do {
          x \<leftarrow> GBIT32 b p;
          Some (b, Some (p + BIT32SZ), f\<lparr>f_fid := x\<rparr>) })
     else if t = Tstat then
       (if p + BIT32SZ > ep then Some (b, None, f) else do {
          x \<leftarrow> GBIT32 b p;
          Some (b, Some (p + BIT32SZ), f\<lparr>f_fid := x\<rparr>) })
     else if t = Twstat then
       (if p + BIT32SZ + BIT16SZ > ep then Some (b, None, f) else do {
          x \<leftarrow> GBIT32 b p;
          n \<leftarrow> GBIT16 b (p + BIT32SZ);
          let f = f\<lparr>f_fid := x, f_nstat := n\<rparr>; let p = p + BIT32SZ + BIT16SZ;
          (if p + unat n > ep then Some (b, None, f)
           else Some (b, Some (p + unat n), f\<lparr>f_stat := p\<rparr>)) })
     else convM2S_R b p ep f)"

definition convM2S :: "byte list \<Rightarrow> nat \<Rightarrow> rfcall \<Rightarrow> (nat \<times> byte list \<times> rfcall) option" where
  "convM2S b nap f = (let ep = nap in
     if BIT32SZ + BIT8SZ + BIT16SZ > ep then Some (0, b, f)
     else do {
       size \<leftarrow> GBIT32 b 0;
       if unat size < BIT32SZ + BIT8SZ + BIT16SZ then Some (0, b, f)
       else do {
         t \<leftarrow> GBIT8 b BIT32SZ;
         tag \<leftarrow> GBIT16 b (BIT32SZ + BIT8SZ);
         (b, p, f) \<leftarrow> convM2S_T b (BIT32SZ + BIT8SZ + BIT16SZ) ep (f\<lparr>f_type := t, f_tag := tag\<rparr>);
         Some (case p of None \<Rightarrow> 0
               | Some p \<Rightarrow> if p > ep then 0 else if unat size = p then unat size else 0, b, f) } })"

end
