(* ===== verification/FcallSpec.thy ===== *)
theory FcallSpec
  imports Fcall
begin

text \<open>
  The abstract specification of the Styx message codec and the proof that the code of
  \<open>Fcall\<close> implements it: messages as a datatype \<open>msg\<close>, the wire format as a function \<open>enc\<close> on
  them, and the reading \<open>view\<close> of a message structure as an abstract message.
\<close>

datatype msg =
    MTversion u32 "byte list" | MTflush u16 | MTauth u32 "byte list" "byte list"
  | MTattach u32 u32 "byte list" "byte list" | MTwalk u32 u32 "byte list list"
  | MTopen u32 byte | MTcreate u32 "byte list" u32 byte | MTread u32 u64 u32
  | MTwrite u32 u64 "byte list" | MTclunk u32 | MTremove u32 | MTstat u32
  | MTwstat u32 "byte list"
  | MRversion u32 "byte list" | MRerror "byte list" | MRflush | MRauth qid | MRattach qid
  | MRwalk "qid list" | MRopen qid u32 | MRcreate qid u32 | MRread "byte list"
  | MRwrite u32 | MRclunk | MRremove | MRstat "byte list" | MRwstat

definition estr :: "byte list \<Rightarrow> byte list" where
  "estr s = le16 (of_nat (length s)) @ s"

definition eqid :: "qid \<Rightarrow> byte list" where
  "eqid q = le8 (q_type q) @ le32 (q_vers q) @ le64 (q_path q)"

fun mtype :: "msg \<Rightarrow> byte" where
  "mtype (MTversion _ _) = Tversion" | "mtype (MTflush _) = Tflush" | "mtype (MTauth _ _ _) = Tauth"
| "mtype (MTattach _ _ _ _) = Tattach" | "mtype (MTwalk _ _ _) = Twalk" | "mtype (MTopen _ _) = Topen"
| "mtype (MTcreate _ _ _ _) = Tcreate" | "mtype (MTread _ _ _) = Tread" | "mtype (MTwrite _ _ _) = Twrite"
| "mtype (MTclunk _) = Tclunk" | "mtype (MTremove _) = Tremove" | "mtype (MTstat _) = Tstat"
| "mtype (MTwstat _ _) = Twstat"
| "mtype (MRversion _ _) = Rversion" | "mtype (MRerror _) = Rerror" | "mtype MRflush = Rflush"
| "mtype (MRauth _) = Rauth" | "mtype (MRattach _) = Rattach" | "mtype (MRwalk _) = Rwalk"
| "mtype (MRopen _ _) = Ropen" | "mtype (MRcreate _ _) = Rcreate" | "mtype (MRread _) = Rread"
| "mtype (MRwrite _) = Rwrite" | "mtype MRclunk = Rclunk" | "mtype MRremove = Rremove"
| "mtype (MRstat _) = Rstat" | "mtype MRwstat = Rwstat"

fun enc_body :: "msg \<Rightarrow> byte list" where
  "enc_body (MTversion n s) = le32 n @ estr s"
| "enc_body (MTflush t) = le16 t"
| "enc_body (MTauth a u n) = le32 a @ estr u @ estr n"
| "enc_body (MTattach fid a u n) = le32 fid @ le32 a @ estr u @ estr n"
| "enc_body (MTwalk fid nf ws) = le32 fid @ le32 nf @ le16 (of_nat (length ws)) @ concat (map estr ws)"
| "enc_body (MTopen fid m) = le32 fid @ le8 m"
| "enc_body (MTcreate fid s pm m) = le32 fid @ estr s @ le32 pm @ le8 m"
| "enc_body (MTread fid off n) = le32 fid @ le64 off @ le32 n"
| "enc_body (MTwrite fid off d) = le32 fid @ le64 off @ le32 (of_nat (length d)) @ d"
| "enc_body (MTclunk fid) = le32 fid"
| "enc_body (MTremove fid) = le32 fid"
| "enc_body (MTstat fid) = le32 fid"
| "enc_body (MTwstat fid d) = le32 fid @ le16 (of_nat (length d)) @ d"
| "enc_body (MRversion n s) = le32 n @ estr s"
| "enc_body (MRerror s) = estr s"
| "enc_body MRflush = []"
| "enc_body (MRauth q) = eqid q"
| "enc_body (MRattach q) = eqid q"
| "enc_body (MRwalk qs) = le16 (of_nat (length qs)) @ concat (map eqid qs)"
| "enc_body (MRopen q n) = eqid q @ le32 n"
| "enc_body (MRcreate q n) = eqid q @ le32 n"
| "enc_body (MRread d) = le32 (of_nat (length d)) @ d"
| "enc_body (MRwrite n) = le32 n"
| "enc_body MRclunk = []"
| "enc_body MRremove = []"
| "enc_body (MRstat d) = le16 (of_nat (length d)) @ d"
| "enc_body MRwstat = []"

definition msize :: "msg \<Rightarrow> nat" where
  "msize m = BIT32SZ + BIT8SZ + BIT16SZ + length (enc_body m)"

definition enc :: "u16 \<Rightarrow> msg \<Rightarrow> byte list" where
  "enc tag m = le32 (of_nat (msize m)) @ le8 (mtype m) @ le16 tag @ enc_body m"

text \<open>What the wire format can carry: 16-bit string and walk counts, C strings without NUL.\<close>

definition wf_str :: "byte list \<Rightarrow> bool" where
  "wf_str s \<longleftrightarrow> length s < 2 ^ 16 \<and> 0 \<notin> set s"

fun wf_body :: "msg \<Rightarrow> bool" where
  "wf_body (MTversion n s) = wf_str s"
| "wf_body (MTauth a u n) = (wf_str u \<and> wf_str n)"
| "wf_body (MTattach fid a u n) = (wf_str u \<and> wf_str n)"
| "wf_body (MTwalk fid nf ws) = (length ws \<le> MAXWELEM \<and> list_all wf_str ws)"
| "wf_body (MTcreate fid s pm m) = wf_str s"
| "wf_body (MTwstat fid d) = (length d < 2 ^ 16)"
| "wf_body (MRversion n s) = wf_str s"
| "wf_body (MRerror s) = wf_str s"
| "wf_body (MRwalk qs) = (length qs \<le> MAXWELEM)"
| "wf_body (MRstat d) = (length d < 2 ^ 16)"
| "wf_body _ = True"

definition wf_msg :: "msg \<Rightarrow> bool" where
  "wf_msg m \<longleftrightarrow> wf_body m \<and> msize m < 2 ^ 32"

text \<open>
  \<open>view\<close> reads a message structure as an abstract message, given the meaning of its string
  and data pointers; the encoder's \<open>sview\<close> reads \<open>nil\<close> as the empty string, the decoder's
  \<open>rview\<close> reads offsets in the message buffer.
\<close>

definition view :: "('s \<Rightarrow> byte list) \<Rightarrow> ('b \<Rightarrow> nat \<Rightarrow> byte list) \<Rightarrow> ('s, 'b) fcall \<Rightarrow> msg option" where
  "view str dat f = (let t = f_type f in
     if t = Tversion then Some (MTversion (f_msize f) (str (f_version f)))
     else if t = Tflush then Some (MTflush (f_oldtag f))
     else if t = Tauth then Some (MTauth (f_afid f) (str (f_uname f)) (str (f_aname f)))
     else if t = Tattach then
       Some (MTattach (f_fid f) (f_afid f) (str (f_uname f)) (str (f_aname f)))
     else if t = Twalk then
       Some (MTwalk (f_fid f) (f_newfid f) (map str (take (unat (f_nwname f)) (f_wname f))))
     else if t = Topen then Some (MTopen (f_fid f) (f_mode f))
     else if t = Tcreate then Some (MTcreate (f_fid f) (str (f_name f)) (f_perm f) (f_mode f))
     else if t = Tread then Some (MTread (f_fid f) (f_offset f) (f_count f))
     else if t = Twrite then
       Some (MTwrite (f_fid f) (f_offset f) (dat (f_data f) (unat (f_count f))))
     else if t = Tclunk then Some (MTclunk (f_fid f))
     else if t = Tremove then Some (MTremove (f_fid f))
     else if t = Tstat then Some (MTstat (f_fid f))
     else if t = Twstat then Some (MTwstat (f_fid f) (dat (f_stat f) (unat (f_nstat f))))
     else if t = Rversion then Some (MRversion (f_msize f) (str (f_version f)))
     else if t = Rerror then Some (MRerror (str (f_ename f)))
     else if t = Rflush then Some MRflush
     else if t = Rauth then Some (MRauth (f_aqid f))
     else if t = Rattach then Some (MRattach (f_qid f))
     else if t = Rwalk then Some (MRwalk (take (unat (f_nwqid f)) (f_wqid f)))
     else if t = Ropen then Some (MRopen (f_qid f) (f_iounit f))
     else if t = Rcreate then Some (MRcreate (f_qid f) (f_iounit f))
     else if t = Rread then Some (MRread (dat (f_data f) (unat (f_count f))))
     else if t = Rwrite then Some (MRwrite (f_count f))
     else if t = Rclunk then Some MRclunk
     else if t = Rremove then Some MRremove
     else if t = Rstat then Some (MRstat (dat (f_stat f) (unat (f_nstat f))))
     else if t = Rwstat then Some MRwstat
     else None)"

definition sval :: "byte list option \<Rightarrow> byte list" where
  "sval s = (case s of None \<Rightarrow> [] | Some s \<Rightarrow> s)"

definition sview :: "sfcall \<Rightarrow> msg option" where
  "sview f = view sval (\<lambda>d n. take n d) f"

definition rview :: "byte list \<Rightarrow> rfcall \<Rightarrow> msg option" where
  "rview b f = view (cstr b) (\<lambda>p n. take n (drop p b)) f"

text \<open>
  What the encoder's caller owes it: arrays of \<open>MAXWELEM\<close> elements with the counts in range,
  and data and stat objects of at least \<open>count\<close> and \<open>nstat\<close> bytes.
\<close>

definition wf_sfcall :: "sfcall \<Rightarrow> bool" where
  "wf_sfcall f \<longleftrightarrow> length (f_wname f) = MAXWELEM \<and> length (f_wqid f) = MAXWELEM \<and>
     (f_type f = Twalk \<longrightarrow> unat (f_nwname f) \<le> MAXWELEM) \<and>
     (f_type f = Rwalk \<longrightarrow> unat (f_nwqid f) \<le> MAXWELEM) \<and>
     (f_type f \<in> {Twrite, Rread} \<longrightarrow> unat (f_count f) \<le> length (f_data f)) \<and>
     (f_type f \<in> {Twstat, Rstat} \<longrightarrow> unat (f_nstat f) \<le> length (f_stat f))"

section \<open>The encoder writes the wire format\<close>

lemma length_estr [simp]: "length (estr s) = 2 + length s"
  by (simp add: estr_def)

lemma length_eqid [simp]: "length (eqid q) = 13"
  by (simp add: eqid_def)

lemma PBIT_overlay [mem_simps]:
  "\<lbrakk> p = length xs; p + 1 \<le> length b \<rbrakk> \<Longrightarrow> PBIT8 (overlay b xs) p v1 = Some (overlay b (xs @ le8 v1))"
  "\<lbrakk> p = length xs; p + 2 \<le> length b \<rbrakk> \<Longrightarrow> PBIT16 (overlay b xs) p v2 = Some (overlay b (xs @ le16 v2))"
  "\<lbrakk> p = length xs; p + 4 \<le> length b \<rbrakk> \<Longrightarrow> PBIT32 (overlay b xs) p v4 = Some (overlay b (xs @ le32 v4))"
  "\<lbrakk> p = length xs; p + 8 \<le> length b \<rbrakk> \<Longrightarrow> PBIT64 (overlay b xs) p v8 = Some (overlay b (xs @ le64 v8))"
  by (simp_all add: PBIT8_def PBIT16_def PBIT32_def PBIT64_def wrn_overlay)

lemma PBIT32_start [mem_simps]: "4 \<le> length b \<Longrightarrow> PBIT32 b 0 v = Some (overlay b (le32 v))"
  by (simp add: PBIT32_def wrn_start)

lemma wf_str_length: "wf_str s \<Longrightarrow> length s < 65536"
  by (simp add: wf_str_def)

lemma pstring_overlay [mem_simps]:
  assumes "p = length xs" "wf_str (sval s)" "p + 2 + length (sval s) \<le> length b"
  shows "pstring (overlay b xs) p s
    = Some (overlay b (xs @ estr (sval s)), p + 2 + length (sval s))"
proof (cases s)
  case None
  with assms show ?thesis
    by (simp add: pstring_def sval_def estr_def PBIT_overlay)
next
  case (Some t)
  with assms have t: "length t < 65536" by (simp add: sval_def wf_str_length)
  with assms Some show ?thesis
    by (simp add: pstring_def sval_def estr_def PBIT_overlay wrn_overlay Let_def)
qed

lemma pqid_overlay [mem_simps]:
  "\<lbrakk> p = length xs; p + 13 \<le> length b \<rbrakk> \<Longrightarrow>
    pqid (overlay b xs) p q = Some (overlay b (xs @ eqid q), p + 13)"
  by (simp add: pqid_def eqid_def PBIT_overlay)

lemma pwnames_overlay [mem_simps]:
  "\<lbrakk> p = length xs; list_all wf_str (map sval ss);
     p + length (concat (map estr (map sval ss))) \<le> length b \<rbrakk> \<Longrightarrow>
    pwnames ss (overlay b xs) p = Some (overlay b (xs @ concat (map estr (map sval ss))),
      p + length (concat (map estr (map sval ss))))"
proof (induction ss arbitrary: xs p)
  case (Cons s ss)
  have "pwnames ss (overlay b (xs @ estr (sval s))) (p + 2 + length (sval s))
      = Some (overlay b (xs @ concat (map estr (map sval (s # ss)))),
          p + length (concat (map estr (map sval (s # ss)))))"
    using Cons.prems by (subst Cons.IH) simp_all
  with Cons.prems show ?case by (simp add: pstring_overlay)
qed simp

lemma pwqids_overlay [mem_simps]:
  "\<lbrakk> p = length xs; p + 13 * length qs \<le> length b \<rbrakk> \<Longrightarrow>
    pwqids qs (overlay b xs) p = Some (overlay b (xs @ concat (map eqid qs)), p + 13 * length qs)"
proof (induction qs arbitrary: xs p)
  case (Cons q qs)
  have "pwqids qs (overlay b (xs @ eqid q)) (p + 13)
      = Some (overlay b (xs @ concat (map eqid (q # qs))), p + 13 * length (q # qs))"
    using Cons.prems by (subst Cons.IH) simp_all
  with Cons.prems show ?case by (simp add: pqid_overlay)
qed simp

lemma concat_eqid_length [simp]: "length (concat (map eqid qs)) = 13 * length qs"
  by (induction qs) simp_all

lemma stringsz_sval: "wf_str (sval s) \<Longrightarrow> stringsz s = 2 + length (sval s)"
  by (auto simp: stringsz_def sval_def split: option.splits dest!: wf_str_length)

lemma sum_stringsz: "list_all wf_str (map sval ss) \<Longrightarrow>
    sum_list (map stringsz ss) = length (concat (map estr (map sval ss)))"
  by (induction ss) (simp_all add: stringsz_sval)

lemma view_types:
  assumes "view str dat f = Some m"
  shows "f_type f \<in> {Tversion, Tflush, Tauth, Tattach, Twalk, Topen, Tcreate, Tread, Twrite, Tclunk,
    Tremove, Tstat, Twstat, Rversion, Rerror, Rflush, Rauth, Rattach, Rwalk, Ropen, Rcreate, Rread,
    Rwrite, Rclunk, Rremove, Rstat, Rwstat}"
  using assms by (rule contrapos_pp) (simp add: view_def Let_def)

lemma view_simps:
  "f_type f = Tversion \<Longrightarrow> view str dat f = Some (MTversion (f_msize f) (str (f_version f)))"
  "f_type f = Tflush \<Longrightarrow> view str dat f = Some (MTflush (f_oldtag f))"
  "f_type f = Tauth \<Longrightarrow> view str dat f = Some (MTauth (f_afid f) (str (f_uname f)) (str (f_aname f)))"
  "f_type f = Tattach \<Longrightarrow> view str dat f = Some (MTattach (f_fid f) (f_afid f) (str (f_uname f)) (str (f_aname f)))"
  "f_type f = Twalk \<Longrightarrow> view str dat f =
     Some (MTwalk (f_fid f) (f_newfid f) (map str (take (unat (f_nwname f)) (f_wname f))))"
  "f_type f = Topen \<Longrightarrow> view str dat f = Some (MTopen (f_fid f) (f_mode f))"
  "f_type f = Tcreate \<Longrightarrow> view str dat f = Some (MTcreate (f_fid f) (str (f_name f)) (f_perm f) (f_mode f))"
  "f_type f = Tread \<Longrightarrow> view str dat f = Some (MTread (f_fid f) (f_offset f) (f_count f))"
  "f_type f = Twrite \<Longrightarrow> view str dat f = Some (MTwrite (f_fid f) (f_offset f) (dat (f_data f) (unat (f_count f))))"
  "f_type f = Tclunk \<Longrightarrow> view str dat f = Some (MTclunk (f_fid f))"
  "f_type f = Tremove \<Longrightarrow> view str dat f = Some (MTremove (f_fid f))"
  "f_type f = Tstat \<Longrightarrow> view str dat f = Some (MTstat (f_fid f))"
  "f_type f = Twstat \<Longrightarrow> view str dat f = Some (MTwstat (f_fid f) (dat (f_stat f) (unat (f_nstat f))))"
  "f_type f = Rversion \<Longrightarrow> view str dat f = Some (MRversion (f_msize f) (str (f_version f)))"
  "f_type f = Rerror \<Longrightarrow> view str dat f = Some (MRerror (str (f_ename f)))"
  "f_type f = Rflush \<Longrightarrow> view str dat f = Some MRflush"
  "f_type f = Rauth \<Longrightarrow> view str dat f = Some (MRauth (f_aqid f))"
  "f_type f = Rattach \<Longrightarrow> view str dat f = Some (MRattach (f_qid f))"
  "f_type f = Rwalk \<Longrightarrow> view str dat f = Some (MRwalk (take (unat (f_nwqid f)) (f_wqid f)))"
  "f_type f = Ropen \<Longrightarrow> view str dat f = Some (MRopen (f_qid f) (f_iounit f))"
  "f_type f = Rcreate \<Longrightarrow> view str dat f = Some (MRcreate (f_qid f) (f_iounit f))"
  "f_type f = Rread \<Longrightarrow> view str dat f = Some (MRread (dat (f_data f) (unat (f_count f))))"
  "f_type f = Rwrite \<Longrightarrow> view str dat f = Some (MRwrite (f_count f))"
  "f_type f = Rclunk \<Longrightarrow> view str dat f = Some MRclunk"
  "f_type f = Rremove \<Longrightarrow> view str dat f = Some MRremove"
  "f_type f = Rstat \<Longrightarrow> view str dat f = Some (MRstat (dat (f_stat f) (unat (f_nstat f))))"
  "f_type f = Rwstat \<Longrightarrow> view str dat f = Some MRwstat"
  by (simp_all add: view_def)

lemma sizeS2M_msize:
  assumes "wf_sfcall f" "sview f = Some m" "wf_msg m"
  shows "sizeS2M f = Some (msize m)"
  using view_types [OF assms(2) [unfolded sview_def]] assms unfolding sview_def view_def Let_def
  by (elim insertE emptyE) (clarsimp simp: sizeS2M_def wf_msg_def msize_def wf_sfcall_def Let_def
      stringsz_sval sum_stringsz arr_Some min.absorb1 min.absorb2 simp flip: map_map)+

lemma convS2M_T_enc:
  assumes "wf_sfcall f" "sview f = Some m" "wf_msg m" "length xs = 7" "msize m \<le> length b"
  shows "convS2M_T f (overlay b xs) 7 = Some (overlay b (xs @ enc_body m), Some (msize m)) \<and> f_type f = mtype m"
  using view_types [OF assms(2) [unfolded sview_def]] assms unfolding sview_def view_def Let_def
  by (elim insertE emptyE) (clarsimp simp: convS2M_T_def convS2M_R_def wf_msg_def msize_def wf_sfcall_def Let_def mem_simps rdn_def 
     min.absorb1 min.absorb2 simp flip: map_map)+

lemma convS2M_enc:
  assumes "wf_sfcall f" "sview f = Some m" "wf_msg m" "msize m \<le> nap" "nap \<le> length b"
  shows "convS2M f b nap = Some (msize m, overlay b (enc (f_tag f) m))"
proof -
  have hdr: "7 \<le> msize m" by (simp add: msize_def)
  have T: "convS2M_T f (overlay b (le32 (of_nat (msize m)) @ le8 (f_type f) @ le16 (f_tag f))) 7
      = Some (overlay b (enc (f_tag f) m), Some (msize m))"
    using convS2M_T_enc [of f m "le32 (of_nat (msize m)) @ le8 (f_type f) @ le16 (f_tag f)" b] assms
    by (auto simp: enc_def)
  then show ?thesis
    using assms hdr by (simp add: convS2M_def sizeS2M_msize mem_simps)
qed

section \<open>The decoder reads the wire format\<close>

lemma gstring_window:
  assumes w: "window b ep p (estr s @ ys)" and s: "length s < 65536"
  shows "\<exists>b'. gstring b p ep = Some (b', Some (p + 2 + length s, p + 1)) \<and>
    window b' ep (p + 2 + length s) ys \<and> keeps (p + 1) b b' \<and> holds b' (p + 1) (s @ [0])"
proof -
  have w1: "window b ep p (le16 (of_nat (length s)) @ s @ ys)" using w by (simp add: estr_def)
  note n = f16.window_get [OF w1]
  have len: "p + 2 + length s + length ys = ep" using window_length [OF w] by simp
  have ep: "ep \<le> length b" using w by (simp add: window_def)
  have un: "unat (of_nat (length s) :: u16) = length s" using s by (simp add: unat_of_nat)
  let ?b1 = "take (p + 1) b @ s @ drop (p + 1 + length s) b"
  let ?b2 = "take (p + 1) b @ s @ [0] @ drop (p + 2 + length s) b"
  have r: "rdn b (p + 2) (length s) = Some s" using n rdn_window [of b ep "p + 2" s ys] by simp
  have w1: "wrn b (p + 1) s = Some ?b1" using len ep by (simp add: wrn_def)
  have w2: "wrn ?b1 (p + 1 + length s) [0] = Some ?b2" 
    using len ep by (simp add: wrn_def drop_Cons' min.absorb1)
  have g: "gstring b p ep = Some (?b2, Some (p + 2 + length s, p + 1))"
    using n un r w1 w2 len by (simp add: gstring_def)
  have "window ?b2 ep (p + 2 + length s) ys"
    using window_append [of b ep "p + 2" s ys] n ep len by (simp add: window_def min.absorb1)
  moreover have "keeps (p + 1) b ?b2" "holds ?b2 (p + 1) (s @ [0])"
    using ep len by (simp_all add: keeps_def holds_def min.absorb1)
  ultimately show ?thesis using g by blast
qed

lemma gqid_window:
  assumes "window b ep p (eqid q @ ys)"
  shows "gqid b p ep = Some (Some (p + 13, q)) \<and> window b ep (p + 13) ys"
  using assms window_length [OF assms]
  by (auto simp: eqid_def gqid_def add.commute dest!: window_dest)

lemma gstr_window:
  assumes "window b ep p (estr s @ ys)" "wf_str s"
  shows "\<exists>b'. (\<forall>upd f. gstr b p ep upd f = Some (b', Some (p + 2 + length s), upd (p + 1) f)) \<and>
    window b' ep (p + 2 + length s) ys \<and> keeps (p + 1) b b' \<and> holds b' (p + 1) (s @ [0]) \<and>
    cstr b' (p + 1) = s"
  using gstring_window [OF assms(1)] assms(2) by (auto simp: gstr_def wf_str_def holds_cstr)

lemma gstr2_window:
  assumes "window b ep p (estr s @ estr t @ ys)" "wf_str s" "wf_str t"
  shows "\<exists>b'. (\<forall>upd upd' f. nextp (gstr b p ep upd f) (\<lambda>b p f. gstr b p ep upd' f) =
      Some (b', Some (p + 2 + length s + 2 + length t), upd' (p + 2 + length s + 1) (upd (p + 1) f))) \<and>
    window b' ep (p + 2 + length s + 2 + length t) ys \<and>
    cstr b' (p + 1) = s \<and> cstr b' (p + 2 + length s + 1) = t"
proof -
  obtain b1 where g1: "\<And>upd f. gstr b p ep upd f = Some (b1, Some (p + 2 + length s), upd (p + 1) f)"
    and w1: "window b1 ep (p + 2 + length s) (estr t @ ys)" and h1: "holds b1 (p + 1) (s @ [0])"
    using gstr_window [OF assms(1,2)] by auto
  obtain b2 where g2: "\<And>upd f. gstr b1 (p + 2 + length s) ep upd f =
      Some (b2, Some (p + 2 + length s + 2 + length t), upd (p + 2 + length s + 1) f)"
    and w2: "window b2 ep (p + 2 + length s + 2 + length t) ys"
    and k2: "keeps (p + 2 + length s + 1) b1 b2" and c2: "cstr b2 (p + 2 + length s + 1) = t"
    using gstr_window [OF w1 assms(3)] by auto
  have "cstr b2 (p + 1) = s"
    using holds_keeps [OF h1 k2] assms(2) by (auto intro!: holds_cstr simp: wf_str_def)
  then show ?thesis using g1 g2 w2 c2 by (auto simp: nextp_def)
qed

fun woffs :: "nat \<Rightarrow> byte list list \<Rightarrow> nat list" where
  "woffs p [] = []"
| "woffs p (s # ss) = (p + 1) # woffs (p + 2 + length s) ss"

lemma length_woffs [simp]: "length (woffs p ss) = length ss"
  by (induction ss arbitrary: p) simp_all

lemma gwnames_window:
  assumes "window b ep p (concat (map estr ss) @ ys)" "list_all wf_str ss"
    "i + length ss \<le> length (f_wname f)"
  shows "\<exists>b'. gwnames i (length ss) b p ep f = Some (b', Some (p + length (concat (map estr ss))),
      f\<lparr>f_wname := take i (f_wname f) @ woffs p ss @ drop (i + length ss) (f_wname f)\<rparr>) \<and>
    window b' ep (p + length (concat (map estr ss))) ys \<and> keeps (p + 1) b b' \<and>
    map (cstr b') (woffs p ss) = ss"
  using assms
proof (induction ss arbitrary: b p i f)
  case Nil
  then show ?case by simp
next
  case (Cons s ss)
  let ?f1 = "set_wname i (p + 1) f"
  obtain b1 where g: "gstr b p ep (set_wname i) f = Some (b1, Some (p + 2 + length s), ?f1)"
    and w1: "window b1 ep (p + 2 + length s) (concat (map estr ss) @ ys)"
    and k1: "keeps (p + 1) b b1" and h1: "holds b1 (p + 1) (s @ [0])"
    using gstr_window [of b ep p s "concat (map estr ss) @ ys"] Cons.prems by auto
  have wn: "take (Suc i) (f_wname ?f1) = take i (f_wname f) @ [p + 1]"
      "drop (Suc i + length ss) (f_wname ?f1) = drop (i + length (s # ss)) (f_wname f)"
    using Cons.prems(3) by (simp_all add: set_wname_def take_Suc_conv_app_nth)
  obtain b2 where r: "gwnames (Suc i) (length ss) b1 (p + 2 + length s) ep ?f1 =
      Some (b2, Some (p + 2 + length s + length (concat (map estr ss))),
        ?f1\<lparr>f_wname := take (Suc i) (f_wname ?f1) @ woffs (p + 2 + length s) ss @
          drop (Suc i + length ss) (f_wname ?f1)\<rparr>)"
    and w2: "window b2 ep (p + 2 + length s + length (concat (map estr ss))) ys"
    and k2: "keeps (p + 2 + length s + 1) b1 b2"
    and c2: "map (cstr b2) (woffs (p + 2 + length s) ss) = ss"
    using Cons.IH [OF w1, of "Suc i" ?f1] Cons.prems(2,3) by (auto simp: set_wname_def)
  have "cstr b2 (p + 1) = s"
    using holds_keeps [OF h1 k2] Cons.prems(2) by (auto intro!: holds_cstr simp: wf_str_def)
  moreover have "keeps (p + 1) b b2" using keeps_trans [OF k1 k2] by simp
  ultimately show ?case
    using Cons.prems(3) g r w2 c2 by (simp add: nextp_def wn set_wname_def take_Suc_conv_app_nth ac_simps)
qed

lemma gwqids_window:
  assumes "window b ep p (concat (map eqid qs) @ ys)" "i + length qs \<le> length (f_wqid f)"
  shows "gwqids i (length qs) b p ep f = Some (b, Some (p + 13 * length qs),
      f\<lparr>f_wqid := take i (f_wqid f) @ qs @ drop (i + length qs) (f_wqid f)\<rparr>) \<and>
    window b ep (p + 13 * length qs) ys"
  using assms
proof (induction qs arbitrary: p i f)
  case Nil
  then show ?case by simp
next
  case (Cons q qs)
  let ?f1 = "set_wqid i q f"
  have g: "gq b p ep (set_wqid i) f = Some (b, Some (p + 13), ?f1)"
    and w1: "window b ep (p + 13) (concat (map eqid qs) @ ys)"
    using gqid_window [of b ep p q "concat (map eqid qs) @ ys"] Cons.prems by (auto simp: gq_def)
  have wn: "take (Suc i) (f_wqid ?f1) = take i (f_wqid f) @ [q]"
      "drop (Suc i + length qs) (f_wqid ?f1) = drop (i + length (q # qs)) (f_wqid f)"
    using Cons.prems(2) by (simp_all add: set_wqid_def take_Suc_conv_app_nth)
  show ?case
    using Cons.IH [OF w1, of "Suc i" ?f1] Cons.prems(2) g
    by (simp add: nextp_def wn set_wqid_def take_Suc_conv_app_nth ac_simps)
qed

lemma nextp_Some [simp]: "nextp (Some (b, Some p, f)) k = k b p f"
  by (simp add: nextp_def)

lemma convM2S_T_dec_Twalk:
  assumes w: "window b ep 7 (enc_body (MTwalk fid nf ws) @ ys)" and wf: "wf_body (MTwalk fid nf ws)"
    and f: "f_type f = Twalk" "length (f_wname f) = 16"
  shows "\<exists>b' f'. convM2S_T b 7 ep f = Some (b', Some (msize (MTwalk fid nf ws)), f') \<and>
    rview b' f' = Some (MTwalk fid nf ws) \<and> f_tag f' = f_tag f"
proof -
  let ?f = "f\<lparr>f_fid := fid, f_newfid := nf, f_nwname := of_nat (length ws)\<rparr>"
  have un: "unat (of_nat (length ws) :: u16) = length ws" "length ws \<le> 16"
    using wf by (simp_all add: unat_of_nat)
  have r: "GBIT32 b 7 = Some fid" "GBIT32 b 11 = Some nf" "GBIT16 b 15 = Some (of_nat (length ws))"
    "17 \<le> ep" and w2: "window b ep 17 (concat (map estr ws) @ ys)"
    using w by (auto dest!: window_dest)
  show ?thesis
    using gwnames_window [OF w2, of 0 ?f] wf f r un
    by (auto simp: convM2S_T_def msize_def rview_def view_simps)
qed

lemma convM2S_T_dec_Rwalk:
  assumes w: "window b ep 7 (enc_body (MRwalk qs) @ ys)" and wf: "wf_body (MRwalk qs)"
    and f: "f_type f = Rwalk" "length (f_wqid f) = 16"
  shows "\<exists>b' f'. convM2S_T b 7 ep f = Some (b', Some (msize (MRwalk qs)), f') \<and>
    rview b' f' = Some (MRwalk qs) \<and> f_tag f' = f_tag f"
proof -
  let ?f = "f\<lparr>f_nwqid := of_nat (length qs)\<rparr>"
  have un: "unat (of_nat (length qs) :: u16) = length qs" "length qs \<le> 16"
    using wf by (simp_all add: unat_of_nat)
  have r: "GBIT16 b 7 = Some (of_nat (length qs))" "9 \<le> ep"
    and w2: "window b ep 9 (concat (map eqid qs) @ ys)"
    using w by (auto dest!: window_dest)
  show ?thesis
    using gwqids_window [OF w2, of 0 ?f] wf f r un
    by (auto simp: convM2S_T_def convM2S_R_def msize_def rview_def view_simps)
qed

lemma convM2S_T_dec:
  assumes w: "window b ep 7 (enc_body m @ ys)" and wf: "wf_msg m" and f: "f_type f = mtype m"
    "length (f_wname f) = 16" "length (f_wqid f) = 16"
  shows "\<exists>b' f'. convM2S_T b 7 ep f = Some (b', Some (msize m), f') \<and> rview b' f' = Some m \<and>
    f_tag f' = f_tag f"
proof -
  consider (Twalk) fid nf ws where "m = MTwalk fid nf ws" | (Rwalk) qs where "m = MRwalk qs"
    | (strings) "mtype m \<in> {Tauth, Tattach}"
    | (other) "mtype m \<notin> {Twalk, Rwalk, Tauth, Tattach}" by (cases m) auto
  then show ?thesis
  proof cases
    case Twalk
    then show ?thesis using convM2S_T_dec_Twalk [of b ep fid nf ws ys f] assms by (simp add: wf_msg_def)
  next
    case Rwalk
    then show ?thesis using convM2S_T_dec_Rwalk [of b ep qs ys f] assms by (simp add: wf_msg_def)
  next
    case strings
    with assms show ?thesis
      by (cases m) (auto simp: convM2S_T_def wf_msg_def msize_def rview_def view_simps Let_def
          dest!: window_dest gstr2_window)
  next
    case other
    have "msize m \<le> ep" using window_length [OF w] by (simp add: msize_def)
    with assms other show ?thesis
      by (cases m) (auto simp: convM2S_T_def convM2S_R_def gq_def wf_msg_def msize_def rview_def
          view_simps Let_def unat_of_nat
          dest!: window_dest gstr_window gqid_window intro: window_take_drop)
  qed
qed

end
