(* ===== verification/FcallThms.thy ===== *)
theory FcallThms
  imports FcallSpec
begin

text \<open>
  The theorems on the Styx message codec: memory safety of the decoder on every buffer, the
  round trip of every message, and what happens to the inputs the encoder does not check.
\<close>

section \<open>The decoder stays in its buffer\<close>

text \<open>
  \<open>dec_ok b ep d\<close>: the decoding step \<open>d\<close> made no access outside the buffer, left everything
  from \<open>ep\<close> on untouched, and kept the arrays of the structure. The rules of \<open>dec_intro\<close>
  follow the shape of the code.
\<close>

definition wf_rfcall :: "rfcall \<Rightarrow> bool" where
  "wf_rfcall f \<longleftrightarrow> length (f_wname f) = MAXWELEM \<and> length (f_wqid f) = MAXWELEM"

definition within :: "byte list \<Rightarrow> nat \<Rightarrow> byte list \<Rightarrow> bool" where
  "within b ep b' \<longleftrightarrow> length b' = length b \<and> drop ep b' = drop ep b"

definition dec_ok :: "byte list \<Rightarrow> nat \<Rightarrow> dec \<Rightarrow> bool" where
  "dec_ok b ep d \<longleftrightarrow> (\<exists>b' p f. d = Some (b', p, f) \<and> within b ep b' \<and> wf_rfcall f)"

named_theorems dec_intro

lemma within_refl [simp]: "within b ep b" by (simp add: within_def)
lemma within_trans: "within b ep b' \<Longrightarrow> within b' ep b'' \<Longrightarrow> within b ep b''" by (simp add: within_def)

lemma wrn_within: "p + length xs \<le> ep \<Longrightarrow> ep \<le> length b \<Longrightarrow> \<exists>b'. wrn b p xs = Some b' \<and> within b ep b'"
  by (auto simp: wrn_def within_def drop_append min.absorb1)

lemma dec_ok_Some [dec_intro]: "wf_rfcall f \<Longrightarrow> dec_ok b ep (Some (b, p, f))"
  by (simp add: dec_ok_def)

lemma dec_ok_if [dec_intro]:
  "\<lbrakk> c \<Longrightarrow> dec_ok b ep d; \<not> c \<Longrightarrow> dec_ok b ep e \<rbrakk> \<Longrightarrow> dec_ok b ep (if c then d else e)"
  by simp

lemma gstring_within:
  assumes "ep \<le> length b"
  shows "\<exists>b' r. gstring b p ep = Some (b', r) \<and> within b ep b'"
proof (cases "p + 2 \<le> ep")
  case True
  then obtain n where n: "GBIT16 b p = Some n" using assms f16.get_total [of p b] by auto
  show ?thesis
  proof (cases "p + 2 + unat n \<le> ep")
    case fits: True
    obtain xs where xs: "rdn b (p + 2) (unat n) = Some xs" "length xs = unat n"
      using fits assms by (simp add: rdn_def)
    then obtain b1 where b1: "wrn b (p + 1) xs = Some b1" "within b ep b1"
      using wrn_within [of "p + 1" xs ep b] fits assms by auto
    then obtain b2 where "wrn b1 (p + 1 + unat n) [0] = Some b2" "within b1 ep b2"
      using wrn_within [of "p + 1 + unat n" "[0]" ep b1] fits assms by (auto simp: within_def)
    then show ?thesis
      using fits True n xs b1 within_trans [of b ep b1 b2] by (simp add: gstring_def)
  qed (use n in \<open>simp add: gstring_def\<close>)
qed (simp add: gstring_def)

lemma gstr_ok [dec_intro]:
  "\<lbrakk> ep \<le> length b; wf_rfcall f; \<And>s. wf_rfcall (upd s f) \<rbrakk> \<Longrightarrow> dec_ok b ep (gstr b p ep upd f)"
  using gstring_within [of ep b p] by (auto simp: gstr_def dec_ok_def split: option.splits)

lemma gqid_total: "ep \<le> length b \<Longrightarrow> \<exists>r. gqid b p ep = Some r"
  using f8.get_total [of p b] f32.get_total [of "p + 1" b] f64.get_total [of "p + 5" b]
  by (auto simp: gqid_def add.commute)

lemma gq_ok [dec_intro]:
  "\<lbrakk> ep \<le> length b; wf_rfcall f; \<And>q. wf_rfcall (upd q f) \<rbrakk> \<Longrightarrow> dec_ok b ep (gq b p ep upd f)"
  using gqid_total [of ep b p] by (auto simp: gq_def dec_ok_def split: option.splits)

lemma nextp_ok [dec_intro]:
  assumes "dec_ok b ep d" "ep \<le> length b"
    "\<And>b' p f. \<lbrakk> ep \<le> length b'; wf_rfcall f \<rbrakk> \<Longrightarrow> dec_ok b' ep (k b' p f)"
  shows "dec_ok b ep (nextp d k)"
proof -
  obtain b' p f where d: "d = Some (b', p, f)" "within b ep b'" "wf_rfcall f"
    using assms(1) by (auto simp: dec_ok_def)
  have "ep \<le> length b'" using d assms(2) by (simp add: within_def)
  then have k: "dec_ok b' ep (k b' q f)" for q using assms(3) d(3) by blast
  show ?thesis
  proof (cases p)
    case (Some q)
    then show ?thesis using d k [of q] by (auto simp: dec_ok_def intro: within_trans)
  qed (use d in \<open>simp add: nextp_def dec_ok_def\<close>)
qed

lemma gwnames_ok [dec_intro]:
  "\<lbrakk> ep \<le> length b; wf_rfcall f; i + n \<le> MAXWELEM \<rbrakk> \<Longrightarrow> dec_ok b ep (gwnames i n b p ep f)"
  by (induction n arbitrary: i b p f)
    (auto simp: wf_rfcall_def set_wname_def intro!: dec_intro)

lemma gwqids_ok [dec_intro]:
  "\<lbrakk> ep \<le> length b; wf_rfcall f; i + n \<le> MAXWELEM \<rbrakk> \<Longrightarrow> dec_ok b ep (gwqids i n b p ep f)"
  by (induction n arbitrary: i b p f)
    (auto simp: wf_rfcall_def set_wqid_def intro!: dec_intro)

lemma wf_rfcall_updates [simp]:
  "wf_rfcall (f_version_update u f) = wf_rfcall f" "wf_rfcall (f_uname_update u f) = wf_rfcall f"
  "wf_rfcall (f_aname_update u f) = wf_rfcall f" "wf_rfcall (f_name_update u f) = wf_rfcall f"
  "wf_rfcall (f_ename_update u f) = wf_rfcall f" "wf_rfcall (f_qid_update v f) = wf_rfcall f"
  "wf_rfcall (f_aqid_update v f) = wf_rfcall f" "wf_rfcall (f_fid_update w f) = wf_rfcall f"
  "wf_rfcall (f_afid_update w f) = wf_rfcall f" "wf_rfcall (f_newfid_update w f) = wf_rfcall f"
  "wf_rfcall (f_msize_update w f) = wf_rfcall f" "wf_rfcall (f_iounit_update w f) = wf_rfcall f"
  "wf_rfcall (f_perm_update w f) = wf_rfcall f" "wf_rfcall (f_count_update w f) = wf_rfcall f"
  "wf_rfcall (f_tag_update x f) = wf_rfcall f" "wf_rfcall (f_oldtag_update x f) = wf_rfcall f"
  "wf_rfcall (f_nwname_update x f) = wf_rfcall f" "wf_rfcall (f_nwqid_update x f) = wf_rfcall f"
  "wf_rfcall (f_nstat_update x f) = wf_rfcall f" "wf_rfcall (f_mode_update y f) = wf_rfcall f"
  "wf_rfcall (f_type_update y f) = wf_rfcall f" "wf_rfcall (f_offset_update z f) = wf_rfcall f"
  "wf_rfcall (f_data_update u f) = wf_rfcall f" "wf_rfcall (f_stat_update u f) = wf_rfcall f"
  by (simp_all add: wf_rfcall_def)

lemmas [dec_intro] = f8.bind_get [where Q = "dec_ok b ep" for b ep] f16.bind_get [where Q = "dec_ok b ep" for b ep]
  f32.bind_get [where Q = "dec_ok b ep" for b ep] f64.bind_get [where Q = "dec_ok b ep" for b ep]

lemma convM2S_R_ok: "\<lbrakk> ep \<le> length b; wf_rfcall f \<rbrakk> \<Longrightarrow> dec_ok b ep (convM2S_R b p ep f)"
  unfolding convM2S_R_def Let_def by (intro dec_intro; simp)

lemma convM2S_T_ok: "\<lbrakk> ep \<le> length b; wf_rfcall f \<rbrakk> \<Longrightarrow> dec_ok b ep (convM2S_T b p ep f)"
  unfolding convM2S_T_def Let_def by (intro dec_intro convM2S_R_ok; simp)


lemma convM2S_dec:
  assumes w: "window b ep 0 (enc tag m @ ys)" and wf: "wf_msg m" "wf_rfcall f"
  shows "\<exists>b' f'. convM2S b ep f = Some (msize m, b', f') \<and> rview b' f' = Some m \<and> f_tag f' = tag"
proof -
  have m: "unat (of_nat (msize m) :: u32) = msize m" "7 \<le> msize m"
    using wf(1) by (simp add: wf_msg_def unat_of_nat, simp add: msize_def)
  have ep: "msize m \<le> ep" using window_length [OF w] by (simp add: enc_def msize_def)
  have r: "GBIT32 b 0 = Some (of_nat (msize m))" "GBIT8 b 4 = Some (mtype m)" "GBIT16 b 5 = Some tag"
    and w7: "window b ep 7 (enc_body m @ ys)"
    using w by (auto simp: enc_def dest!: window_dest)
  obtain b' f' where "convM2S_T b 7 ep (f\<lparr>f_type := mtype m, f_tag := tag\<rparr>) = Some (b', Some (msize m), f')"
    "rview b' f' = Some m" "f_tag f' = tag"
    using convM2S_T_dec [OF w7 wf(1), of "f\<lparr>f_type := mtype m, f_tag := tag\<rparr>"] wf(2)
    by (auto simp: wf_rfcall_def)
  with m ep r show ?thesis by (simp add: convM2S_def)
qed


section \<open>A sample message\<close>

definition ex_qid :: qid where "ex_qid = \<lparr>q_path = 7, q_vers = 1, q_type = 128\<rparr>"

definition ex_call :: sfcall where
  "ex_call = \<lparr>f_type = Twalk, f_fid = 1, f_tag = 5, f_msize = 0, f_version = None, f_oldtag = 0,
     f_ename = None, f_qid = ex_qid, f_iounit = 0, f_aqid = ex_qid, f_afid = 0, f_uname = None,
     f_aname = None, f_perm = 0, f_name = None, f_mode = 0, f_newfid = 2, f_nwname = 2,
     f_wname = [Some [117, 115, 114], Some [46, 46]] @ replicate 14 None, f_nwqid = 0,
     f_wqid = replicate 16 ex_qid, f_offset = 0, f_count = 0, f_data = [], f_nstat = 0, f_stat = []\<rparr>"

definition ex_recv :: rfcall where
  "ex_recv = \<lparr>f_type = 0, f_fid = 0, f_tag = 0, f_msize = 0, f_version = 0, f_oldtag = 0,
     f_ename = 0, f_qid = ex_qid, f_iounit = 0, f_aqid = ex_qid, f_afid = 0, f_uname = 0,
     f_aname = 0, f_perm = 0, f_name = 0, f_mode = 0, f_newfid = 0, f_nwname = 0,
     f_wname = replicate 16 0, f_nwqid = 0, f_wqid = replicate 16 ex_qid, f_offset = 0,
     f_count = 0, f_data = 0, f_nstat = 0, f_stat = 0\<rparr>"

definition ex_msg :: msg where "ex_msg = MTwalk 1 2 [[117, 115, 114], [46, 46]]"

lemma ex_facts:
  "wf_sfcall ex_call" "sview ex_call = Some ex_msg" "wf_msg ex_msg" "msize ex_msg = 26" "wf_rfcall ex_recv"
  by (simp_all add: wf_sfcall_def ex_call_def sview_def view_simps ex_msg_def sval_def wf_msg_def msize_def
      wf_str_def wf_rfcall_def ex_recv_def)

section \<open>Safety and totality\<close>

lemma convM2S_total:
  assumes "nap \<le> length b" "wf_rfcall f"
  shows "\<exists>n b' f'. convM2S b nap f = Some (n, b', f') \<and> n \<le> nap \<and> length b' = length b \<and>
    drop nap b' = drop nap b \<and> (n = 0 \<or> 7 \<le> n \<and> map_option unat (GBIT32 b 0) = Some n)"
proof (cases "7 \<le> nap")
  case True
  obtain size t tag where r: "GBIT32 b 0 = Some size" "GBIT8 b 4 = Some t" "GBIT16 b 5 = Some tag"
    using True assms f32.get_total [of 0 b] f8.get_total [of 4 b] f16.get_total [of 5 b] by auto
  obtain b' p f' where "convM2S_T b 7 nap (f\<lparr>f_type := t, f_tag := tag\<rparr>) = Some (b', p, f')"
      "within b nap b'"
    using convM2S_T_ok [of nap b "f\<lparr>f_type := t, f_tag := tag\<rparr>" 7] assms by (auto simp: dec_ok_def)
  then show ?thesis using True r by (auto simp: convM2S_def within_def split: option.splits)
qed (simp add: convM2S_def)


text \<open>C2 (safety). For every buffer and every count within it, \<open>convM2S\<close> makes no access
  outside the buffer, changes nothing beyond the count, and returns either 0 or the value of
  the message's own size field, which is then at least 7 and at most the count.\<close>

theorem convM2S_safe:
  assumes "nap \<le> length b" "wf_rfcall f"
  shows "\<exists>n b' f'. convM2S b nap f = Some (n, b', f') \<and> n \<le> nap \<and> length b' = length b \<and>
    drop nap b' = drop nap b \<and> (n = 0 \<or> 7 \<le> n \<and> map_option unat (GBIT32 b 0) = Some n)"
  using convM2S_total [OF assms] .

theorem convM2S_safe_witness:
  "\<exists>n b' f'. convM2S (replicate 64 255) 40 ex_recv = Some (n, b', f') \<and> n \<le> 40"
  using convM2S_safe [of 40 "replicate 64 255" ex_recv] ex_facts(5) by auto

text \<open>A message whose size field claims more bytes than were received is refused.\<close>

lemma convM2S_truncated:
  assumes "nap \<le> length b" "wf_rfcall f" "GBIT32 b 0 = Some sz" "nap < unat sz"
  shows "\<exists>b' f'. convM2S b nap f = Some (0, b', f')"
  using convM2S_total [OF assms(1,2)] assms(3,4) by auto

section \<open>The encoder implements the wire format\<close>

text \<open>C3 (refinement). The encoder produces exactly the bytes of the abstract wire format at
  the start of the buffer, leaves the rest of the buffer alone and returns the size of the
  message; when the message does not fit, it returns 0 and writes nothing.\<close>

theorem convS2M_refines:
  assumes "wf_sfcall f" "sview f = Some m" "wf_msg m" "nap \<le> length b"
  shows "convS2M f b nap =
    Some (if msize m \<le> nap then (msize m, overlay b (enc (f_tag f) m)) else (0, b))"
  using convS2M_enc [OF assms(1-3) _ assms(4)] sizeS2M_msize [OF assms(1-3)]
  by (auto simp: convS2M_def)

theorem convS2M_refines_witness:
  "convS2M ex_call (replicate 64 0) 40 = Some (26, overlay (replicate 64 0) (enc 5 ex_msg))
   \<and> convS2M ex_call (replicate 64 0) 25 = Some (0, replicate 64 0)"
  using convS2M_refines [OF ex_facts(1-3), of 40 "replicate 64 0"]
    convS2M_refines [OF ex_facts(1-3), of 25 "replicate 64 0"] ex_facts(4)
  by (simp add: ex_call_def)

section \<open>The round trip\<close>

text \<open>C1 (roundtrip). Encoding any well-formed message into a buffer and decoding the buffer
  gives back the message: the decoder accepts it, returns its size, restores the tag, and
  the strings, names, qids and data its structure points to in the (rewritten) buffer are
  those that were sent. Bytes after the message are not touched by the encoder.\<close>

theorem Fcall_roundtrip:
  assumes f: "wf_sfcall f" "sview f = Some m" "wf_msg m"
    and b: "msize m \<le> nap" "nap \<le> length b" and g: "wf_rfcall g"
  shows "\<exists>b1 b2 f'. convS2M f b nap = Some (msize m, b1) \<and> length b1 = length b \<and>
    drop (msize m) b1 = drop (msize m) b \<and>
    convM2S b1 nap g = Some (msize m, b2, f') \<and> rview b2 f' = sview f \<and> f_tag f' = f_tag f"
proof -
  let ?e = "enc (f_tag f) m"
  have len: "length ?e = msize m" by (simp add: enc_def msize_def)
  have "window (overlay b ?e) nap 0 (?e @ take (nap - msize m) (drop (msize m) b))"
    using b len by (simp add: window_def overlay_def)
  then obtain b2 f' where "convM2S (overlay b ?e) nap g = Some (msize m, b2, f')"
    "rview b2 f' = Some m" "f_tag f' = f_tag f"
    using convM2S_dec [OF _ f(3) g] by blast
  moreover have "convS2M f b nap = Some (msize m, overlay b ?e)" using f b by (rule convS2M_enc)
  ultimately show ?thesis using b f(2) len by (auto simp: overlay_def)
qed


theorem Fcall_roundtrip_witness:
  "\<exists>b1 b2 f'. convS2M ex_call (replicate 64 0) 40 = Some (26, b1) \<and>
    convM2S b1 40 ex_recv = Some (26, b2, f') \<and> rview b2 f' = Some ex_msg"
  using Fcall_roundtrip [OF ex_facts(1-3), of 40 "replicate 64 0" ex_recv] ex_facts by auto

section \<open>Unchecked inputs\<close>

text \<open>C4 (bounds). \<open>convS2M\<close> tests the number of walk elements only after \<open>sizeS2M\<close> has read
  \<open>wname[nwname-1]\<close>: with more than \<open>MAXWELEM\<close> names the call leaves the array.\<close>

theorem convS2M_wname_overrun:
  assumes "f_type f = Twalk" "length (f_wname f) = MAXWELEM" "unat (f_nwname f) > MAXWELEM"
  shows "convS2M f b nap = None"
  using assms by (simp add: convS2M_def sizeS2M_def arr_def Let_def)


theorem convS2M_wname_overrun_witness:
  "convS2M (ex_call\<lparr>f_nwname := 17\<rparr>) (replicate 64 0) 64 = None"
  using convS2M_wname_overrun [of "ex_call\<lparr>f_nwname := 17\<rparr>"] by (simp add: ex_call_def)

lemma gstring_ptr: "gstring b p ep = Some (b', Some (p', s)) \<Longrightarrow> GBIT16 b p = Some n \<Longrightarrow> p' = p + 2 + unat n"
  by (auto simp: gstring_def Let_def bind_eq_Some_conv split: if_splits)

lemma pstring_long:
  assumes "p = length xs" "length s < 2 ^ 32" "p + 2 + length s \<le> length b"
  shows "pstring (overlay b xs) p (Some s)
    = Some (overlay b (xs @ le16 (of_nat (length s)) @ s), p + 2 + length s)"
  using assms by (simp add: pstring_def PBIT_overlay wrn_overlay Let_def)


text \<open>A string of 65536 bytes or more is not refused by the encoder: it reports
  success, with a truncated count in front of the whole string, and the decoder refuses the
  message it wrote.\<close>

lemma long_string_undecodable:
  assumes f: "f_type f = Rerror" "f_ename f = Some s" "2 ^ 16 \<le> length s" "9 + length s < 2 ^ 32"
    and b: "9 + length s \<le> nap" "nap \<le> length b" and g: "wf_rfcall g"
  shows "\<exists>b1 b2 g'. convS2M f b nap = Some (9 + length s, b1) \<and> convM2S b1 nap g = Some (0, b2, g')"
proof -
  let ?h = "le32 (of_nat (9 + length s)) @ le8 Rerror @ le16 (f_tag f)"
  let ?e = "?h @ le16 (of_nat (length s)) @ s"
  have "sizeS2M f = Some (9 + length s)"
    using f by (simp add: sizeS2M_def stringsz_def Let_def)
  then have enc: "convS2M f b nap = Some (9 + length s, overlay b ?e)"
    using f b by (simp add: convS2M_def convS2M_T_def convS2M_R_def mem_simps pstring_long)
  have "window (overlay b ?e) nap 0 (?e @ take (nap - (9 + length s)) (drop (9 + length s) b))"
    using b by (simp add: window_def overlay_def)
  then obtain tag where r: "GBIT32 (overlay b ?e) 0 = Some (of_nat (9 + length s))"
    "GBIT8 (overlay b ?e) 4 = Some Rerror" "GBIT16 (overlay b ?e) 5 = Some tag"
    and n: "GBIT16 (overlay b ?e) 7 = Some (of_nat (length s))"
    by (auto dest!: window_dest)
  obtain b2 q where g2: "gstring (overlay b ?e) 7 nap = Some (b2, q)"
    using gstring_within [of nap "overlay b ?e" 7] b by auto
  have "p' \<noteq> 9 + length s" if "q = Some (p', u)" for p' u
    using gstring_ptr [OF g2 [unfolded that] n] f(3) unsigned_less [of "of_nat (length s) :: u16", where ?'a = nat] by simp
  moreover have "unat (9 + of_nat (length s) :: u32) = 9 + length s"
    using unat_of_nat [of "9 + length s", where 'a = 32] f(4) by simp
  ultimately have "\<exists>b2 g'. convM2S (overlay b ?e) nap g = Some (0, b2, g')"
    using r g2 b f by (auto simp: convM2S_def convM2S_T_def convM2S_R_def gstr_def unat_of_nat split: option.splits)
  then show ?thesis using enc by blast
qed

end
