(* ===== verification/Stat.thy ===== *)
theory Stat
  imports FcallSpec
begin

text \<open>
  Directory entries: \<open>struct Dir\<close> (\<open>fs/module/kern.h\<close>), the encoder \<open>sizeD2M\<close>, \<open>convD2M\<close>
  (\<open>lib9/convD2M.c\<close>), the decoder \<open>convM2D\<close> and the check \<open>statcheck\<close> (\<open>lib9/convM2D.c\<close>).
  The decoder copies the four strings into a caller-supplied object \<open>strs\<close> (or none) and leaves
  pointers into it in the structure: an offset, or \<open>None\<close> for the static empty string.
\<close>

abbreviation STATFIXLEN :: nat where "STATFIXLEN \<equiv> 49"

record 's dir =
  d_type :: u32
  d_dev :: u32
  d_qid :: qid
  d_mode :: u32
  d_atime :: u32
  d_mtime :: u32
  d_length :: u64
  d_name :: 's
  d_uid :: 's
  d_gid :: 's
  d_muid :: 's

type_synonym sdir = "byte list option dir"
type_synonym rdir = "nat option dir"

section \<open>The encoder\<close>

definition dstrs :: "'s dir \<Rightarrow> 's list" where
  "dstrs d = [d_name d, d_uid d, d_gid d, d_muid d]"

definition nsv :: "byte list option \<Rightarrow> nat" where
  "nsv s = (case s of None \<Rightarrow> 0 | Some s \<Rightarrow> length s)"

definition sizeD2M :: "sdir \<Rightarrow> nat" where
  "sizeD2M d = wrap32 (STATFIXLEN + sum_list (map nsv (dstrs d)))"

text \<open>The loop over the four strings; no pointer is \<open>return 0\<close>.\<close>

fun d2m_strs :: "byte list option list \<Rightarrow> byte list \<Rightarrow> nat \<Rightarrow> nat \<Rightarrow> (byte list \<times> nat option) option" where
  "d2m_strs [] b p ebuf = Some (b, Some p)"
| "d2m_strs (s # ss) b p ebuf = (let ns = nsv s in
     if p + ns + BIT16SZ > ebuf then Some (b, None)
     else do {
       b \<leftarrow> PBIT16 b p (of_nat ns);
       let p = p + BIT16SZ;
       b \<leftarrow> wrn b p (case s of None \<Rightarrow> [] | Some s \<Rightarrow> s);
       d2m_strs ss b (p + ns) ebuf })"

definition convD2M :: "sdir \<Rightarrow> byte list \<Rightarrow> nat \<Rightarrow> (nat \<times> byte list) option" where
  "convD2M d b nbuf = (if nbuf < BIT16SZ then Some (0, b)
     else do {
       let ss = wrap32 (STATFIXLEN + sum_list (map nsv (dstrs d)));
       b \<leftarrow> PBIT16 b 0 (of_nat (ss - BIT16SZ));
       if ss > nbuf then Some (BIT16SZ, b)
       else do {
         b \<leftarrow> PBIT16 b 2 (ucast (d_type d));
         b \<leftarrow> PBIT32 b 4 (d_dev d);
         b \<leftarrow> PBIT8 b 8 (q_type (d_qid d));
         b \<leftarrow> PBIT32 b 9 (q_vers (d_qid d));
         b \<leftarrow> PBIT64 b 13 (q_path (d_qid d));
         b \<leftarrow> PBIT32 b 21 (d_mode d);
         b \<leftarrow> PBIT32 b 25 (d_atime d);
         b \<leftarrow> PBIT32 b 29 (d_mtime d);
         b \<leftarrow> PBIT64 b 33 (d_length d);
         (b, p) \<leftarrow> d2m_strs (dstrs d) b 41 nbuf;
         Some (case p of None \<Rightarrow> 0 | Some p \<Rightarrow> if ss \<noteq> p then 0 else p, b) } })"

section \<open>The decoder\<close>

text \<open>
  The loop over the four strings of \<open>convM2D\<close>: \<open>so\<close> is the offset the pointer \<open>strs\<close> has reached.
  The result has the string object, the pointer into the message (none for \<open>return 0\<close>) and \<open>sv\<close>.
\<close>

fun m2d_strs :: "nat \<Rightarrow> byte list \<Rightarrow> nat \<Rightarrow> nat \<Rightarrow> byte list option \<Rightarrow> nat
    \<Rightarrow> (byte list option \<times> nat option \<times> nat list) option" where
  "m2d_strs 0 b p ebuf strs so = Some (strs, Some p, [])"
| "m2d_strs (Suc n) b p ebuf strs so = (if p + BIT16SZ > ebuf then Some (strs, None, [])
     else do {
       ns \<leftarrow> GBIT16 b p;
       let p = p + BIT16SZ;
       if p + unat ns > ebuf then Some (strs, None, [])
       else (case strs of
         None \<Rightarrow> m2d_strs n b (p + unat ns) ebuf None so
       | Some t \<Rightarrow> do {
           xs \<leftarrow> rdn b p (unat ns);
           t \<leftarrow> wrn t so xs;
           t \<leftarrow> wrn t (so + unat ns) [0];
           (t, q, sv) \<leftarrow> m2d_strs n b (p + unat ns) ebuf (Some t) (so + unat ns + 1);
           Some (t, q, so # sv) }) })"

definition convM2D :: "byte list \<Rightarrow> nat \<Rightarrow> rdir \<Rightarrow> byte list option
    \<Rightarrow> (nat \<times> rdir \<times> byte list option) option" where
  "convM2D b nbuf d strs = (if nbuf < STATFIXLEN then Some (0, d, strs)
     else do {
       t \<leftarrow> GBIT16 b 2;
       dev \<leftarrow> GBIT32 b 4;
       qt \<leftarrow> GBIT8 b 8;
       qv \<leftarrow> GBIT32 b 9;
       qp \<leftarrow> GBIT64 b 13;
       mode \<leftarrow> GBIT32 b 21;
       atime \<leftarrow> GBIT32 b 25;
       mtime \<leftarrow> GBIT32 b 29;
       len \<leftarrow> GBIT64 b 33;
       let d = d\<lparr>d_type := ucast t, d_dev := dev, d_qid := \<lparr>q_path = qp, q_vers = qv, q_type = qt\<rparr>,
         d_mode := mode, d_atime := atime, d_mtime := mtime, d_length := len\<rparr>;
       (st, p, sv) \<leftarrow> m2d_strs 4 b 41 nbuf strs 0;
       Some (case p of None \<Rightarrow> (0, d, st)
         | Some p \<Rightarrow> (p, (case st of
               None \<Rightarrow> d\<lparr>d_name := None, d_uid := None, d_gid := None, d_muid := None\<rparr>
             | Some _ \<Rightarrow> d\<lparr>d_name := Some (sv ! 0), d_uid := Some (sv ! 1),
                           d_gid := Some (sv ! 2), d_muid := Some (sv ! 3)\<rparr>), st)) })"

text \<open>\<open>statcheck\<close>: \<open>True\<close> stands for the result 0, \<open>False\<close> for -1.\<close>

fun statskip :: "nat \<Rightarrow> byte list \<Rightarrow> nat \<Rightarrow> nat \<Rightarrow> nat option option" where
  "statskip 0 b p ebuf = Some (Some p)"
| "statskip (Suc n) b p ebuf = (if p + BIT16SZ > ebuf then Some None
     else do { ns \<leftarrow> GBIT16 b p; statskip n b (p + (BIT16SZ + unat ns)) ebuf })"

definition statcheck :: "byte list \<Rightarrow> nat \<Rightarrow> bool option" where
  "statcheck b nbuf = (if nbuf < STATFIXLEN then Some False
     else do {
       n \<leftarrow> GBIT16 b 0;
       if nbuf \<noteq> BIT16SZ + unat n then Some False
       else do {
         p \<leftarrow> statskip 4 b (STATFIXLEN - 4 * BIT16SZ) nbuf;
         Some (case p of None \<Rightarrow> False | Some p \<Rightarrow> p = nbuf) } })"

section \<open>The wire format of a directory entry\<close>

definition enc_strs :: "byte list option list \<Rightarrow> byte list" where
  "enc_strs ss = concat (map (estr \<circ> sval) ss)"

definition enc_dir :: "sdir \<Rightarrow> byte list" where
  "enc_dir d = le16 (of_nat (47 + sum_list (map nsv (dstrs d)))) @ le16 (ucast (d_type d)) @
     le32 (d_dev d) @ eqid (d_qid d) @ le32 (d_mode d) @ le32 (d_atime d) @ le32 (d_mtime d) @
     le64 (d_length d) @ enc_strs (dstrs d)"

text \<open>An entry the format can carry: the total length fits the 16-bit count in front of it.\<close>

definition wf_sdir :: "sdir \<Rightarrow> bool" where
  "wf_sdir d \<longleftrightarrow> list_all (\<lambda>s. 0 \<notin> set (sval s)) (dstrs d) \<and>
     STATFIXLEN + sum_list (map nsv (dstrs d)) < 2 ^ 16 + BIT16SZ"

definition sdir_size :: "sdir \<Rightarrow> nat" where
  "sdir_size d = STATFIXLEN + sum_list (map nsv (dstrs d))"

text \<open>The values the two sides see: the string pointers read, \<open>nil\<close> as the empty string.\<close>

definition dval :: "('s \<Rightarrow> byte list) \<Rightarrow> 's dir \<Rightarrow> byte list dir" where
  "dval str d = \<lparr>d_type = d_type d, d_dev = d_dev d, d_qid = d_qid d, d_mode = d_mode d,
     d_atime = d_atime d, d_mtime = d_mtime d, d_length = d_length d, d_name = str (d_name d),
     d_uid = str (d_uid d), d_gid = str (d_gid d), d_muid = str (d_muid d)\<rparr>"

definition strs_val :: "byte list option \<Rightarrow> nat option \<Rightarrow> byte list" where
  "strs_val t p = (case t of None \<Rightarrow> [] | Some t \<Rightarrow> (case p of None \<Rightarrow> [] | Some p \<Rightarrow> cstr t p))"

lemma nsv_sval: "nsv s = length (sval s)"
  by (simp add: nsv_def sval_def split: option.split)

lemma length_enc_strs: "length (enc_strs ss) = 2 * length ss + sum_list (map nsv ss)"
  by (induction ss) (simp_all add: enc_strs_def nsv_sval)

lemma length_dstrs [simp]: "length (dstrs d) = 4"
  by (simp add: dstrs_def)

lemma length_enc_dir: "length (enc_dir d) = sdir_size d"
  by (simp add: enc_dir_def sdir_size_def length_enc_strs)

lemma d2m_strs_overlay:
  "\<lbrakk> p = length xs; p + length (enc_strs ss) \<le> ebuf; ebuf \<le> length b \<rbrakk> \<Longrightarrow>
    d2m_strs ss (overlay b xs) p ebuf = Some (overlay b (xs @ enc_strs ss), Some (p + length (enc_strs ss)))"
proof (induction ss arbitrary: xs p)
  case (Cons s ss)
  have v: "(case s of None \<Rightarrow> [] | Some s \<Rightarrow> s) = sval s" by (simp add: sval_def)
  have "d2m_strs ss (overlay b (xs @ estr (sval s))) (p + 2 + nsv s) ebuf
    = Some (overlay b (xs @ enc_strs (s # ss)), Some (p + length (enc_strs (s # ss))))"
    using Cons.prems by (subst Cons.IH) (simp_all add: enc_strs_def nsv_sval)
  then show ?case
    using Cons.prems
    by (simp add: mem_simps nsv_sval v Let_def estr_def) (simp add: enc_strs_def nsv_sval)
qed (simp add: enc_strs_def)

lemma convD2M_enc:
  assumes "wf_sdir d" "sdir_size d \<le> nbuf" "nbuf \<le> length b"
  shows "convD2M d b nbuf = Some (sdir_size d, overlay b (enc_dir d))"
proof -
  let ?n = "sum_list (map nsv (dstrs d))"
  have ss: "wrap32 (49 + ?n) = 49 + ?n" using assms(1) by (simp add: wf_sdir_def)
  have b: "49 + ?n \<le> length b" using assms by (simp add: sdir_size_def)
  have strs: "length (enc_strs (dstrs d)) = 8 + ?n" by (simp add: length_enc_strs)
  show ?thesis
    using assms b unfolding convD2M_def Let_def ss
    by (simp add: PBIT16_def [of b 0] wrn_start PBIT_overlay d2m_strs_overlay strs sdir_size_def
        enc_dir_def eqid_def)
qed

end
