(* ===== verification/StatThms.thy ===== *)
theory StatThms
  imports Stat
begin

text \<open>
  The correctness of the directory-entry codec: the decoder recovers what the encoder wrote, the
  encoder reports the size it needs, \<open>statcheck\<close> decides exactly which inputs \<open>convM2D\<close> accepts
  whole, and neither leaves its buffers.
\<close>

section \<open>Decoding what was encoded\<close>


fun soffs :: "nat \<Rightarrow> byte list option list \<Rightarrow> nat list" where
  "soffs so [] = []"
| "soffs so (s # ss) = so # soffs (so + nsv s + 1) ss"

lemma enc_strs_Cons: "enc_strs (s # ss) = le16 (of_nat (nsv s)) @ sval s @ enc_strs ss"
  by (simp add: enc_strs_def estr_def nsv_sval)

lemma enc_strs_Nil [simp]: "enc_strs [] = []" by (simp add: enc_strs_def)

lemma m2d_strs_window:
  assumes "window b ep p (enc_strs ss @ ys)" "list_all (\<lambda>s. 0 \<notin> set (sval s) \<and> nsv s < 2 ^ 16) ss"
    "so + length ss + sum_list (map nsv ss) \<le> length t"
  shows "\<exists>t'. m2d_strs (length ss) b p ep (Some t) so
      = Some (Some t', Some (p + length (enc_strs ss)), soffs so ss) \<and>
    keeps so t t' \<and> map (cstr t') (soffs so ss) = map sval ss"
  using assms
proof (induction ss arbitrary: p so t)
  case (Cons s ss)
  let ?n = "nsv s"
  have w: "window b ep p (le16 (of_nat ?n) @ sval s @ enc_strs ss @ ys)"
    using Cons.prems(1) by (simp add: enc_strs_Cons)
  have g: "GBIT16 b p = Some (of_nat ?n)" "p + 2 \<le> ep"
    and w2: "window b ep (p + 2) (sval s @ enc_strs ss @ ys)"
    using f16.window_get [OF w] by auto
  have un: "unat (of_nat ?n :: u16) = ?n" using Cons.prems(2) by (simp add: unat_of_nat)
  have r: "rdn b (p + 2) ?n = Some (sval s)" using rdn_window [OF w2] by (simp add: nsv_sval)
  have e: "p + 2 + ?n \<le> ep" using window_length [OF w2] by (simp add: nsv_sval)
  let ?t1 = "take so t @ sval s @ drop (so + ?n) t"
  let ?t2 = "take so t @ sval s @ [0] @ drop (so + ?n + 1) t"
  have wr: "wrn t so (sval s) = Some ?t1" "wrn ?t1 (so + ?n) [0] = Some ?t2"
    using Cons.prems(3) by (simp_all add: wrn_def nsv_sval min.absorb1 drop_Cons' )
  have w3: "window b ep (p + 2 + ?n) (enc_strs ss @ ys)"
    using window_append [OF w2] by (simp add: nsv_sval)
  have room: "so + ?n + 1 + length ss + sum_list (map nsv ss) \<le> length ?t2"
    using Cons.prems(3) wrn_length [OF wr(1)] wrn_length [OF wr(2)] by simp
  obtain t' where IH: "m2d_strs (length ss) b (p + 2 + ?n) ep (Some ?t2) (so + ?n + 1)
      = Some (Some t', Some (p + 2 + ?n + length (enc_strs ss)), soffs (so + ?n + 1) ss)"
    "keeps (so + ?n + 1) ?t2 t'" "map (cstr t') (soffs (so + ?n + 1) ss) = map sval ss"
    using Cons.IH [OF w3 _ room] Cons.prems(2) by auto
  have "holds ?t2 so (sval s @ [0])"
    using Cons.prems(3) by (simp add: holds_def nsv_sval min.absorb1)
  then have "cstr t' so = sval s"
    using holds_keeps [OF _ IH(2)] Cons.prems(2) by (auto intro!: holds_cstr simp: nsv_sval)
  moreover have "keeps so t ?t2" using Cons.prems(3) by (simp add: keeps_def nsv_sval min.absorb1)
  then have "keeps so t t'" using IH(2) by (rule keeps_trans) simp
  ultimately show ?case
    using IH g un r wr e by (simp add: enc_strs_Cons nsv_sval ac_simps)
qed simp

lemma m2d_strs_None:
  "\<lbrakk> statskip n b p ebuf = Some (Some q); q \<le> ebuf \<rbrakk> \<Longrightarrow>
    m2d_strs n b p ebuf None so = Some (None, Some q, []) \<and> p \<le> q"
proof (induction n arbitrary: p)
  case (Suc n)
  then obtain ns where "GBIT16 b p = Some ns" "p + 2 \<le> ebuf"
    "statskip n b (p + (2 + unat ns)) ebuf = Some (Some q)"
    by (auto simp: bind_eq_Some_conv split: if_splits)
  with Suc.IH [of "p + (2 + unat ns)"] Suc.prems show ?case by (simp add: add.assoc)
qed simp

lemma statskip_total: "ebuf \<le> length b \<Longrightarrow> \<exists>r. statskip n b p ebuf = Some r"
proof (induction n arbitrary: p)
  case (Suc n)
  then show ?case using f16.get_total [of p b] by fastforce
qed simp

lemma enc_dir_window:
  assumes w: "window b nbuf 0 (enc_dir d @ ys)"
  shows "GBIT16 b 0 = Some (of_nat (47 + sum_list (map nsv (dstrs d))))"
    "GBIT16 b 2 = Some (ucast (d_type d))" "GBIT32 b 4 = Some (d_dev d)"
    "GBIT8 b 8 = Some (q_type (d_qid d))" "GBIT32 b 9 = Some (q_vers (d_qid d))"
    "GBIT64 b 13 = Some (q_path (d_qid d))" "GBIT32 b 21 = Some (d_mode d)"
    "GBIT32 b 25 = Some (d_atime d)" "GBIT32 b 29 = Some (d_mtime d)" "GBIT64 b 33 = Some (d_length d)"
    "window b nbuf 41 (enc_strs (dstrs d) @ ys)"
proof -
  have w0: "window b nbuf 0 (le16 (of_nat (47 + sum_list (map nsv (dstrs d)))) @
      le16 (ucast (d_type d)) @ drop 4 (enc_dir d) @ ys)"
    using w by (simp add: enc_dir_def)
  note g0 = f16.window_get [OF this] 
  have w2: "window b nbuf 2 (le16 (ucast (d_type d)) @ drop 4 (enc_dir d) @ ys)"
    using g0 by (simp only: add_0)
  note g2 = f16.window_get [OF this]
  have w4: "window b nbuf 4 (drop 4 (enc_dir d) @ ys)" using g2 by simp
  show "GBIT16 b 0 = Some (of_nat (47 + sum_list (map nsv (dstrs d))))" using g0 by simp
  show "GBIT16 b 2 = Some (ucast (d_type d))" using g2 by simp
  show "GBIT32 b 4 = Some (d_dev d)"
    "GBIT8 b 8 = Some (q_type (d_qid d))" "GBIT32 b 9 = Some (q_vers (d_qid d))"
    "GBIT64 b 13 = Some (q_path (d_qid d))" "GBIT32 b 21 = Some (d_mode d)"
    "GBIT32 b 25 = Some (d_atime d)" "GBIT32 b 29 = Some (d_mtime d)" "GBIT64 b 33 = Some (d_length d)"
    "window b nbuf 41 (enc_strs (dstrs d) @ ys)"
    using w4 by (auto simp: enc_dir_def eqid_def dest!: window_dest)
qed

lemma wf_sdir_short: "wf_sdir d \<Longrightarrow> list_all (\<lambda>s. 0 \<notin> set (sval s) \<and> nsv s < 2 ^ 16) (dstrs d)"
  by (auto simp: wf_sdir_def dstrs_def)

lemma convM2D_dec:
  assumes w: "window b nbuf 0 (enc_dir d @ ys)" and wf: "wf_sdir d"
    and t: "4 + sum_list (map nsv (dstrs d)) \<le> length t"
  shows "\<exists>d' t'. convM2D b nbuf g (Some t) = Some (sdir_size d, d', Some t') \<and>
    dval (strs_val (Some t')) d' = (dval sval d)\<lparr>d_type := ucast (ucast (d_type d) :: u16)\<rparr>"
proof -
  note f = enc_dir_window [OF w]
  have nb: "49 \<le> nbuf" using window_length [OF w] by (simp add: length_enc_dir sdir_size_def)
  obtain t' where t': "m2d_strs 4 b 41 nbuf (Some t) 0
      = Some (Some t', Some (41 + length (enc_strs (dstrs d))), soffs 0 (dstrs d))"
    "map (cstr t') (soffs 0 (dstrs d)) = map sval (dstrs d)"
    using m2d_strs_window [OF f(11) wf_sdir_short [OF wf], of 0 t] t by auto
  have "41 + length (enc_strs (dstrs d)) = sdir_size d"
    by (simp add: length_enc_strs sdir_size_def)
  then show ?thesis
    using t' nb f(2-10) by (simp add: convM2D_def dval_def strs_val_def dstrs_def)
qed

section \<open>Arbitrary input\<close>

lemma m2d_strs_safe:
  "\<lbrakk> p \<le> ebuf; ebuf \<le> length b; so + (ebuf - p) \<le> length t \<rbrakk> \<Longrightarrow>
    \<exists>t' q sv. m2d_strs n b p ebuf (Some t) so = Some (Some t', q, sv) \<and> length t' = length t"
proof (induction n arbitrary: p so t)
  case (Suc n)
  show ?case
  proof (cases "p + 2 \<le> ebuf")
    case True
    then obtain ns where g: "GBIT16 b p = Some ns" using f16.get_total [of p b] Suc.prems by auto
    show ?thesis
    proof (cases "p + 2 + unat ns \<le> ebuf")
      case fits: True
      then obtain xs where r: "rdn b (p + 2) (unat ns) = Some xs" and l: "length xs = unat ns"
        using Suc.prems by (auto simp: rdn_def)
      obtain t1 where t1: "wrn t so xs = Some t1"
        using Suc.prems fits l wrn_Some_iff [of t so xs] by fastforce
      obtain t2 where t2: "wrn t1 (so + unat ns) [0] = Some t2"
        using Suc.prems fits wrn_Some_iff [of t1 "so + unat ns" "[0]"] wrn_length [OF t1] by fastforce
      have "so + unat ns + 1 + (ebuf - (p + 2 + unat ns)) \<le> length t2"
        using Suc.prems fits wrn_length [OF t1] wrn_length [OF t2] by simp
      then show ?thesis
        using Suc.IH [OF fits Suc.prems(2)] g r t1 t2 fits True wrn_length [OF t1] wrn_length [OF t2]
        by fastforce
    next
      case False
      then show ?thesis using g True by simp
    qed
  qed simp
qed simp

lemma m2d_strs_statskip:
  "\<lbrakk> m2d_strs n b p ebuf (Some t) so = Some (t', q, sv); statskip n b p ebuf = Some (Some r); r \<le> ebuf \<rbrakk>
    \<Longrightarrow> q = Some r \<and> p \<le> r"
proof (induction n arbitrary: p so t t' sv)
  case (Suc n)
  then obtain ns where g: "GBIT16 b p = Some ns" "p + 2 \<le> ebuf"
    and sk: "statskip n b (p + 2 + unat ns) ebuf = Some (Some r)"
    by (auto simp: bind_eq_Some_conv add.assoc split: if_splits)
  have "p + 2 + unat ns \<le> r" using m2d_strs_None [OF sk Suc.prems(3), of 0] by simp
  then show ?case
    using Suc.prems(1) g Suc.prems(3) Suc.IH [OF _ sk Suc.prems(3)]
    by (fastforce simp: bind_eq_Some_conv split: if_splits)
qed simp

lemma convM2D_fields_total:
  assumes "49 \<le> nbuf" "nbuf \<le> length b"
  shows "\<exists>t dev qt qv qp mode atime mtime len. GBIT16 b 2 = Some t \<and> GBIT32 b 4 = Some dev \<and>
    GBIT8 b 8 = Some qt \<and> GBIT32 b 9 = Some qv \<and> GBIT64 b 13 = Some qp \<and> GBIT32 b 21 = Some mode \<and>
    GBIT32 b 25 = Some atime \<and> GBIT32 b 29 = Some mtime \<and> GBIT64 b 33 = Some len"
  using assms f16.get_total [of 2 b] f32.get_total [of 4 b] f8.get_total [of 8 b] f32.get_total [of 9 b]
    f64.get_total [of 13 b] f32.get_total [of 21 b] f32.get_total [of 25 b] f32.get_total [of 29 b]
    f64.get_total [of 33 b] by simp

lemma statcheck_total: "nbuf \<le> length b \<Longrightarrow> \<exists>r. statcheck b nbuf = Some r"
  using f16.get_total [of 0 b] statskip_total [of nbuf b 4 41] by (fastforce simp: statcheck_def)

lemma statcheck_True:
  assumes "statcheck b nbuf = Some True"
  shows "49 \<le> nbuf" "statskip 4 b 41 nbuf = Some (Some nbuf)"
  using assms by (auto simp: statcheck_def bind_eq_Some_conv split: if_splits option.splits)

lemma statskip_enc:
  "\<lbrakk> window b ebuf p (enc_strs ss); list_all (\<lambda>s. 0 \<notin> set (sval s) \<and> nsv s < 2 ^ 16) ss \<rbrakk> \<Longrightarrow>
    statskip (length ss) b p ebuf = Some (Some (p + length (enc_strs ss)))"
proof (induction ss arbitrary: p)
  case (Cons s ss)
  then have w: "window b ebuf p (le16 (of_nat (nsv s)) @ sval s @ enc_strs ss)"
    by (simp add: enc_strs_Cons)
  note g = f16.window_get [OF w]
  have un: "unat (of_nat (nsv s) :: u16) = nsv s" using Cons.prems(2) by (simp add: unat_of_nat)
  have "window b ebuf (p + 2 + nsv s) (enc_strs ss)"
    using window_append [of b ebuf "p + 2" "sval s" "enc_strs ss"] g by (simp add: nsv_sval)
  from Cons.IH [OF this] Cons.prems(2) show ?case
    using g un by (simp add: enc_strs_Cons nsv_sval ac_simps)
qed simp

section \<open>Properties\<close>

definition ex_dir :: sdir where
  "ex_dir = \<lparr>d_type = 0x10005, d_dev = 7, d_qid = \<lparr>q_path = 5, q_vers = 1, q_type = 0x80\<rparr>,
     d_mode = 0x800001ED, d_atime = 10, d_mtime = 11, d_length = 3, d_name = Some [0x61, 0x62],
     d_uid = Some [0x63], d_gid = None, d_muid = Some []\<rparr>"

definition ex_rdir :: rdir where
  "ex_rdir = \<lparr>d_type = 0, d_dev = 0, d_qid = \<lparr>q_path = 0, q_vers = 0, q_type = 0\<rparr>, d_mode = 0,
     d_atime = 0, d_mtime = 0, d_length = 0, d_name = None, d_uid = None, d_gid = None, d_muid = None\<rparr>"

lemma ex_dir_facts: "wf_sdir ex_dir" "sdir_size ex_dir = 52" "sum_list (map nsv (dstrs ex_dir)) = 3"
  by (simp_all add: wf_sdir_def sdir_size_def ex_dir_def dstrs_def nsv_def sval_def)

text \<open>C5 (roundtrip). An entry whose encoding fits the buffer is written by \<open>convD2M\<close> with exactly
  \<open>sizeD2M\<close> bytes, passes \<open>statcheck\<close>, and \<open>convM2D\<close> reads it back: every field is recovered, the
  strings with \<open>nil\<close> read as the empty string, except that \<open>type\<close> keeps only its low 16 bits. The
  string object needs one byte more than each string; nothing outside the buffers is touched.\<close>

theorem Dir_roundtrip:
  assumes "wf_sdir d" "sdir_size d \<le> nbuf" "nbuf \<le> length b"
    "4 + sum_list (map nsv (dstrs d)) \<le> length t"
  shows "\<exists>b' d' t'. convD2M d b nbuf = Some (sizeD2M d, b') \<and> statcheck b' (sizeD2M d) = Some True \<and>
    convM2D b' (sizeD2M d) g (Some t) = Some (sizeD2M d, d', Some t') \<and>
    dval (strs_val (Some t')) d' = (dval sval d)\<lparr>d_type := ucast (ucast (d_type d) :: u16)\<rparr>"
proof -
  let ?b = "overlay b (enc_dir d)"
  have n: "sizeD2M d = sdir_size d"
    using assms(1) by (simp add: sizeD2M_def sdir_size_def wf_sdir_def)
  have "take (sdir_size d) ?b = enc_dir d" by (simp add: length_enc_dir [symmetric])
  then have w: "window ?b (sdir_size d) 0 (enc_dir d)"
    using assms by (simp add: window_def length_enc_dir)
  have u: "unat (of_nat (47 + sum_list (map nsv (dstrs d))) :: u16) = 47 + sum_list (map nsv (dstrs d))"
    using assms(1) by (simp add: unat_of_nat wf_sdir_def del: of_nat_add)
  have "statcheck ?b (sdir_size d) = Some True"
    using statskip_enc [OF _ wf_sdir_short [OF assms(1)]] enc_dir_window [of ?b "sdir_size d" d "[]"] w u
    by (simp add: statcheck_def length_enc_strs del: of_nat_add) (simp add: sdir_size_def)
  then show ?thesis
    using convD2M_enc [OF assms(1-3)] convM2D_dec [of ?b "sdir_size d" d "[]" t g] w assms n by auto
qed

theorem Dir_roundtrip_witness:
  "\<exists>b' d' t'. convD2M ex_dir (replicate 60 0) 60 = Some (sizeD2M ex_dir, b') \<and>
    statcheck b' (sizeD2M ex_dir) = Some True \<and>
    convM2D b' (sizeD2M ex_dir) ex_rdir (Some (replicate 7 0)) = Some (sizeD2M ex_dir, d', Some t') \<and>
    dval (strs_val (Some t')) d' = (dval sval ex_dir)\<lparr>d_type := ucast (ucast (d_type ex_dir) :: u16)\<rparr>"
  by (rule Dir_roundtrip) (simp_all add: ex_dir_facts)

text \<open>When the buffer has room for the count but not for the entry, \<open>convD2M\<close> writes the
  count alone and returns \<open>BIT16SZ\<close>; the count, plus its own two bytes, is the size the caller must
  provide for the encoding to succeed.\<close>

lemma convD2M_short:
  assumes "wf_sdir d" "BIT16SZ \<le> nbuf" "nbuf < sdir_size d" "nbuf \<le> length b"
  shows "\<exists>b' n. convD2M d b nbuf = Some (BIT16SZ, b') \<and> drop BIT16SZ b' = drop BIT16SZ b \<and>
    GBIT16 b' 0 = Some n \<and> unat n + BIT16SZ = sizeD2M d \<and>
    convD2M d (replicate (unat n + BIT16SZ) 0) (unat n + BIT16SZ)
      = Some (sizeD2M d, enc_dir d)"
proof -
  let ?k = "47 + sum_list (map nsv (dstrs d))" and ?c = "\<lambda>k. le16 (of_nat k)"
  have ss: "wrap32 (49 + sum_list (map nsv (dstrs d))) = 2 + ?k" using assms(1) by (simp add: wf_sdir_def)
  have n: "sizeD2M d = sdir_size d" "sdir_size d = ?k + 2"
    using assms(1) by (simp_all add: sizeD2M_def sdir_size_def wf_sdir_def)
  have u: "unat (of_nat ?k :: u16) = ?k"
    using assms(1) by (simp add: unat_of_nat wf_sdir_def del: of_nat_add)
  have "PBIT16 b 0 (of_nat ?k) = Some (overlay b (?c ?k))"
    using assms by (simp add: PBIT16_def wrn_start)
  then have 1: "convD2M d b nbuf = Some (BIT16SZ, overlay b (?c ?k))"
    using assms n unfolding convD2M_def Let_def ss by (simp del: of_nat_add)
  have 2: "GBIT16 (overlay b (?c ?k)) 0 = Some (of_nat ?k)"
    using assms by (intro f16.get_put) (simp_all add: overlay_def)
  have 3: "overlay (replicate (sdir_size d) 0) (enc_dir d) = enc_dir d"
    by (simp add: overlay_def length_enc_dir)
  show ?thesis
    using 1 2 u n convD2M_enc [OF assms(1), of "sdir_size d" "replicate (sdir_size d) 0"] 3
    by (intro exI [of _ "overlay b (?c ?k)"] exI [of _ "of_nat ?k"]) (simp add: overlay_def del: of_nat_add)
qed

text \<open>C6 (safety). On arbitrary input inside its object, \<open>statcheck\<close> and \<open>convM2D\<close> read nothing
  outside the \<open>nbuf\<close> bytes, and a string object of \<open>nbuf\<close> bytes is enough for whatever the input
  says; and what \<open>statcheck\<close> accepts, \<open>convM2D\<close> decodes to the last byte, with or without strings.\<close>

theorem statcheck_convM2D:
  assumes "nbuf \<le> length b" "nbuf \<le> length t"
  shows "\<exists>r n d' t'. statcheck b nbuf = Some r \<and>
    convM2D b nbuf d (Some t) = Some (n, d', Some t') \<and> length t' = length t \<and>
    (r \<longrightarrow> n = nbuf \<and> (\<exists>d'. convM2D b nbuf d None = Some (nbuf, d', None)))"
proof (cases "49 \<le> nbuf")
  case True
  obtain r where r: "statcheck b nbuf = Some r" using statcheck_total [OF assms(1)] ..
  have room: "0 + (nbuf - 41) \<le> length t" using assms(2) by simp
  obtain t' q sv where m: "m2d_strs 4 b 41 nbuf (Some t) 0 = Some (Some t', q, sv)" "length t' = length t"
    using m2d_strs_safe [OF _ assms(1) room, of 4] True by auto
  note f = convM2D_fields_total [OF True assms(1)]
  have sk: "q = Some nbuf" "m2d_strs 4 b 41 nbuf None 0 = Some (None, Some nbuf, [])" if "r"
    using that statcheck_True [of b nbuf] r m2d_strs_statskip [OF m(1)] m2d_strs_None [of 4 b 41 nbuf nbuf 0]
    by auto
  show ?thesis
  proof (cases r)
    case True
    then show ?thesis using r m sk f \<open>49 \<le> nbuf\<close> by (auto simp: convM2D_def)
  next
    case False
    then show ?thesis using r m f \<open>49 \<le> nbuf\<close> by (cases q) (auto simp: convM2D_def)
  qed
qed (auto simp: statcheck_def convM2D_def)

theorem statcheck_convM2D_witness:
  "\<exists>r n d' t'. statcheck (replicate 60 1) 50 = Some r \<and>
    convM2D (replicate 60 1) 50 ex_rdir (Some (replicate 50 0)) = Some (n, d', Some t') \<and>
    length t' = length (replicate 50 (0::byte)) \<and>
    (r \<longrightarrow> n = 50 \<and> (\<exists>d'. convM2D (replicate 60 1) 50 ex_rdir None = Some (50, d', None)))"
  by (rule statcheck_convM2D) simp_all

end
