(* ===== verification/Block.thy ===== *)
theory Block
  imports Prelude
begin

text \<open>
  The data blocks of \<open>svcs/qio.c\<close> and the operations on chains of blocks. A block is an object
  from \<open>base\<close> (offset 0) to \<open>lim\<close> (its length) with the read pointer \<open>rp\<close> and the write
  pointer \<open>wp\<close>; a chain linked by \<open>next\<close> is a list, the null pointer the empty list.
  Dereferencing the null pointer, and copying outside an object, is the outer \<open>None\<close>. Errors
  that the code raises are \<open>Inl\<close>: \<open>allocb\<close> calls \<open>exhausted\<close> when memory runs out. Whether
  \<open>kmalloc\<close> gives a block of some data size is the parameter \<open>km\<close>; the memory it gives is zero.
  A freed block is a block that occurs no longer in any chain.
\<close>

record block =
  b_mem :: "byte list"
  b_rp :: nat
  b_wp :: nat

definition BLEN :: "block \<Rightarrow> nat" where
  "BLEN b = b_wp b - b_rp b"

definition BALLOC :: "block \<Rightarrow> nat" where
  "BALLOC b = length (b_mem b)"

text \<open>\<open>Raised s\<close> is \<open>error(s)\<close>, \<open>Exhausted\<close> the error of \<open>exhausted("allocb")\<close>.\<close>

datatype kerror = Exhausted | Panic | Raised "byte list"

type_synonym 'a kres = "(kerror + 'a) option"

text \<open>\<open>checkb\<close> panics unless the pointers are in order; with \<open>base\<close> 0 the tests 0 to 2 hold.\<close>

definition checkb :: "block \<Rightarrow> bool" where
  "checkb b \<longleftrightarrow> \<not> b_rp b > length (b_mem b) \<and> \<not> b_wp b > length (b_mem b)"

definition iallocb :: "(nat \<Rightarrow> bool) \<Rightarrow> nat \<Rightarrow> block option" where
  "iallocb km n = (if km n then Some \<lparr>b_mem = replicate n 0, b_rp = 0, b_wp = 0\<rparr> else None)"

text \<open>\<open>allocb\<close> and the code that runs after it returns.\<close>

definition allocb :: "(nat \<Rightarrow> bool) \<Rightarrow> nat \<Rightarrow> (block \<Rightarrow> 'a kres) \<Rightarrow> 'a kres" where
  "allocb km n k = (case iallocb km n of None \<Rightarrow> Some (Inl Exhausted) | Some b \<Rightarrow> k b)"

text \<open>\<open>memmove(b->wp, xs, n); b->wp += n\<close>, and the first bytes from \<open>b->rp\<close>.\<close>

definition bput :: "block \<Rightarrow> byte list \<Rightarrow> block option" where
  "bput b xs = do { m \<leftarrow> wrn (b_mem b) (b_wp b) xs; Some (b\<lparr>b_mem := m, b_wp := b_wp b + length xs\<rparr>) }"

definition bget :: "block \<Rightarrow> nat \<Rightarrow> byte list option" where
  "bget b n = rdn (b_mem b) (b_rp b) n"

section \<open>Operations on chains\<close>

definition padblock :: "(nat \<Rightarrow> bool) \<Rightarrow> block list \<Rightarrow> int \<Rightarrow> block list kres" where
  "padblock km bs sz = (case bs of [] \<Rightarrow> None
     | bp # rest \<Rightarrow>
        if sz \<ge> 0 then
          if int (b_rp bp) \<ge> sz then Some (Inr (bp\<lparr>b_rp := b_rp bp - nat sz\<rparr> # rest))
          else if rest \<noteq> [] then Some (Inl Panic)
          else let n = BLEN bp in allocb km (nat sz + n) (\<lambda>nbp. do {
            let nbp = nbp\<lparr>b_rp := b_rp nbp + nat sz\<rparr>;
            let nbp = nbp\<lparr>b_wp := b_rp nbp\<rparr>;
            xs \<leftarrow> bget bp n;
            nbp \<leftarrow> bput nbp xs;
            Some (Inr [nbp\<lparr>b_rp := b_rp nbp - nat sz\<rparr>]) })
        else let k = nat (- sz) in
          if rest \<noteq> [] then Some (Inl Panic)
          else if BALLOC bp - b_wp bp \<ge> k then Some (Inr [bp])
          else let n = BLEN bp in allocb km (k + n) (\<lambda>nbp. do {
            xs \<leftarrow> bget bp n;
            nbp \<leftarrow> bput nbp xs;
            Some (Inr [nbp]) }))"

fun blocklen :: "block list \<Rightarrow> nat" where
  "blocklen [] = 0"
| "blocklen (bp # bs) = BLEN bp + blocklen bs"

fun blockalloclen :: "block list \<Rightarrow> nat" where
  "blockalloclen [] = 0"
| "blockalloclen (bp # bs) = BALLOC bp + blockalloclen bs"

fun concat_loop :: "block \<Rightarrow> block list \<Rightarrow> block option" where
  "concat_loop nb [] = Some nb"
| "concat_loop nb (f # fs) = do { xs \<leftarrow> bget f (BLEN f); nb \<leftarrow> bput nb xs; concat_loop nb fs }"

definition concatblock :: "(nat \<Rightarrow> bool) \<Rightarrow> block list \<Rightarrow> block list kres" where
  "concatblock km bs = (case bs of [] \<Rightarrow> None
     | [bp] \<Rightarrow> Some (Inr [bp])
     | _ \<Rightarrow> allocb km (blocklen bs) (\<lambda>nb. do { nb \<leftarrow> concat_loop nb bs; Some (Inr [nb]) }))"

text \<open>The loop of \<open>pullupblock\<close>: \<open>n\<close> bytes are missing in \<open>bp\<close>; the chain is freed when they are not there.\<close>

fun pullup_loop :: "block \<Rightarrow> block list \<Rightarrow> nat \<Rightarrow> block list option" where
  "pullup_loop bp [] n = Some []"
| "pullup_loop bp (nbp # rest) n = (let i = BLEN nbp in
     if i > n then do {
       xs \<leftarrow> bget nbp n;
       bp \<leftarrow> bput bp xs;
       Some (bp # nbp\<lparr>b_rp := b_rp nbp + n\<rparr> # rest) }
     else do {
       xs \<leftarrow> bget nbp i;
       bp \<leftarrow> bput bp xs;
       if n - i = 0 then Some (bp # rest) else pullup_loop bp rest (n - i) })"

definition pullupblock :: "(nat \<Rightarrow> bool) \<Rightarrow> block list \<Rightarrow> nat \<Rightarrow> block list kres" where
  "pullupblock km bs n = (case bs of [] \<Rightarrow> None
     | bp # rest \<Rightarrow>
        if BLEN bp \<ge> n then Some (Inr bs)
        else if BALLOC bp - b_rp bp < n then
          allocb km n (\<lambda>nbp. map_option Inr (pullup_loop nbp (bp # rest) (n - BLEN nbp)))
        else map_option Inr (pullup_loop bp rest (n - BLEN bp)))"

fun trim_front :: "block list \<Rightarrow> nat \<Rightarrow> (block list \<times> nat) option" where
  "trim_front [] off = None"
| "trim_front (bp # bs) off = (if BLEN bp < off then trim_front bs (off - BLEN bp) else Some (bp # bs, off))"

fun trim_back :: "block list \<Rightarrow> nat \<Rightarrow> block list option" where
  "trim_back [] len = None"
| "trim_back (bp # bs) len = (if BLEN bp < len then map_option ((#) bp) (trim_back bs (len - BLEN bp))
     else Some [bp\<lparr>b_wp := b_wp bp - (BLEN bp - len)\<rparr>])"

definition trimblock :: "block list \<Rightarrow> nat \<Rightarrow> nat \<Rightarrow> block list option" where
  "trimblock bs off len = (if blocklen bs < off + len then Some []
     else do {
       (bs, off) \<leftarrow> trim_front bs off;
       (case bs of [] \<Rightarrow> None | bp # rest \<Rightarrow> trim_back (bp\<lparr>b_rp := b_rp bp + off\<rparr> # rest) len) })"

fun copy_loop :: "block \<Rightarrow> block list \<Rightarrow> nat \<Rightarrow> (block \<times> nat) option" where
  "copy_loop nbp [] count = Some (nbp, count)"
| "copy_loop nbp (bp # bs) count = (if count > 0 then do {
       let l = BLEN bp;
       let l = (if l > count then count else l);
       xs \<leftarrow> bget bp l;
       nbp \<leftarrow> bput nbp xs;
       copy_loop nbp bs (count - l) }
     else Some (nbp, count))"

definition copyblock :: "(nat \<Rightarrow> bool) \<Rightarrow> block list \<Rightarrow> nat \<Rightarrow> block kres" where
  "copyblock km bs count = allocb km count (\<lambda>nbp. do {
     (nbp, count) \<leftarrow> copy_loop nbp bs count;
     if count > 0 then map_option Inr (bput nbp (replicate count 0)) else Some (Inr nbp) })"

definition adjustblock :: "(nat \<Rightarrow> bool) \<Rightarrow> block list \<Rightarrow> int \<Rightarrow> block list kres" where
  "adjustblock km bs len = (if len < 0 then Some (Inr [])
     else case bs of [] \<Rightarrow> None
     | bp # rest \<Rightarrow> let l = nat len in
        if b_rp bp + l > BALLOC bp then map_option (map_sum id (\<lambda>nbp. [nbp])) (copyblock km bs l)
        else do {
          let n = BLEN bp;
          m \<leftarrow> (if l > n then wrn (b_mem bp) (b_wp bp) (replicate (l - n) 0) else Some (b_mem bp));
          Some (Inr (bp\<lparr>b_mem := m, b_wp := b_rp bp + l\<rparr> # rest)) })"

text \<open>\<open>pullblock\<close> throws bytes away and answers how many; the chain the caller's pointer is left with.\<close>

function pullblock :: "block list \<Rightarrow> nat \<Rightarrow> nat \<times> block list" where
  "pullblock [] count = (0, [])"
| "pullblock (bp # bs) count = (if count = 0 then (0, bp # bs)
     else let n = (if count < BLEN bp then count else BLEN bp);
              bp' = bp\<lparr>b_rp := b_rp bp + n\<rparr>;
              (bytes, r) = pullblock (if BLEN bp' = 0 then bs else bp' # bs) (count - n)
          in (n + bytes, r))"
  by pat_completeness auto

termination
  by (relation "measure (\<lambda>(bs, count). length bs + count)") (auto simp: BLEN_def)

fun packblock :: "(nat \<Rightarrow> bool) \<Rightarrow> block list \<Rightarrow> block list kres" where
  "packblock km [] = Some (Inr [])"
| "packblock km (nbp # bs) = (let n = BLEN nbp in
     if 4 * n < BALLOC nbp then allocb km n (\<lambda>b. do {
       xs \<leftarrow> bget nbp n;
       b \<leftarrow> bput b xs;
       r \<leftarrow> packblock km bs;
       Some (map_sum id ((#) b) r) })
     else do { r \<leftarrow> packblock km bs; Some (map_sum id ((#) nbp) r) })"

text \<open>\<open>bl2mem(p, b, n)\<close>: \<open>m\<close> is the object \<open>p\<close> points into.\<close>

fun bl2mem :: "byte list \<Rightarrow> nat \<Rightarrow> block list \<Rightarrow> nat \<Rightarrow> (byte list \<times> block list) option" where
  "bl2mem m p [] n = Some (m, [])"
| "bl2mem m p (b # bs) n = (let i = BLEN b in
     if i > n then do {
       xs \<leftarrow> bget b n;
       m \<leftarrow> wrn m p xs;
       Some (m, b\<lparr>b_rp := b_rp b + n\<rparr> # bs) }
     else do {
       xs \<leftarrow> bget b i;
       m \<leftarrow> wrn m p xs;
       bl2mem m (p + i) bs (n - i) })"

abbreviation Maxatomic :: nat where "Maxatomic \<equiv> 32 * 1024"

text \<open>\<open>mem2bl(p, len)\<close>, a loop that runs at least once; an error frees the blocks made so far.\<close>

function mem2bl :: "(nat \<Rightarrow> bool) \<Rightarrow> byte list \<Rightarrow> nat \<Rightarrow> nat \<Rightarrow> block list kres" where
  "mem2bl km m p len = (let n = (if len > Maxatomic then Maxatomic else len) in
     allocb km n (\<lambda>b. do {
       xs \<leftarrow> rdn m p n;
       b \<leftarrow> bput b xs;
       if len - n > 0 then do {
         r \<leftarrow> mem2bl km m (p + n) (len - n);
         Some (map_sum id ((#) b) r) }
       else Some (Inr [b]) }))"
  by pat_completeness auto

termination
  by (relation "measure (\<lambda>(km, m, p, len). len)") (auto split: if_splits)

declare mem2bl.simps [simp del]

section \<open>What a chain carries\<close>

definition wf_block :: "block \<Rightarrow> bool" where
  "wf_block b \<longleftrightarrow> b_rp b \<le> b_wp b \<and> b_wp b \<le> length (b_mem b)"

definition bbytes :: "block \<Rightarrow> byte list" where
  "bbytes b = take (BLEN b) (drop (b_rp b) (b_mem b))"

abbreviation wf_chain :: "block list \<Rightarrow> bool" where
  "wf_chain bs \<equiv> list_all wf_block bs"

definition cbytes :: "block list \<Rightarrow> byte list" where
  "cbytes bs = concat (map bbytes bs)"

text \<open>
  The outcome of an operation that may run out of memory: it does not fault, an error is
  \<open>Exhausted\<close> and happens only when some allocation is refused, and a result satisfies \<open>P\<close>.
\<close>

definition outcome :: "(nat \<Rightarrow> bool) \<Rightarrow> 'a kres \<Rightarrow> ('a \<Rightarrow> bool) \<Rightarrow> bool" where
  "outcome km r P = (case r of None \<Rightarrow> False
     | Some (Inl e) \<Rightarrow> e = Exhausted \<and> (\<exists>n. \<not> km n)
     | Some (Inr x) \<Rightarrow> P x)"

named_theorems chain_simps \<open>blocks and chains of blocks\<close>

lemma outcome_Inr [simp]: "outcome km (Some (Inr x)) P \<longleftrightarrow> P x"
  by (simp add: outcome_def)

lemma outcome_total: "outcome (\<lambda>n. True) r P \<longleftrightarrow> (\<exists>x. r = Some (Inr x) \<and> P x)"
  by (auto simp: outcome_def split: option.split sum.split)

lemma outcome_mono: "outcome km r P \<Longrightarrow> (\<And>x. P x \<Longrightarrow> Q x) \<Longrightarrow> outcome km r Q"
  by (auto simp: outcome_def split: option.splits sum.splits)

lemma outcome_map: "outcome km r (\<lambda>x. P (f x)) \<Longrightarrow> outcome km (map_option (map_sum id f) r) P"
  by (auto simp: outcome_def split: option.splits sum.splits)

definition newb :: "nat \<Rightarrow> block" where
  "newb n = \<lparr>b_mem = replicate n 0, b_rp = 0, b_wp = 0\<rparr>"

lemma iallocb_newb: "iallocb km n = (if km n then Some (newb n) else None)"
  by (simp add: iallocb_def newb_def)

lemma outcome_allocb: "outcome km (k (newb n)) P \<Longrightarrow> outcome km (allocb km n k) P"
  by (auto simp: allocb_def iallocb_newb outcome_def)

lemma newb_simps [simp]: "b_rp (newb n) = 0" "b_wp (newb n) = 0" "length (b_mem (newb n)) = n"
    "wf_block (newb n)" "BLEN (newb n) = 0" "bbytes (newb n) = []"
  by (simp_all add: newb_def wf_block_def BLEN_def bbytes_def)

lemma length_bbytes [chain_simps]: "wf_block b \<Longrightarrow> length (bbytes b) = BLEN b"
  by (auto simp: bbytes_def BLEN_def wf_block_def)

lemma cbytes_simps [simp]: "cbytes [] = []" "cbytes (b # bs) = bbytes b @ cbytes bs"
    "cbytes (xs @ ys) = cbytes xs @ cbytes ys"
  by (simp_all add: cbytes_def)

lemma length_cbytes [chain_simps]: "wf_chain bs \<Longrightarrow> length (cbytes bs) = blocklen bs"
  by (induction bs) (simp_all add: chain_simps)

lemma blocklen_append [simp]: "blocklen (xs @ ys) = blocklen xs + blocklen ys"
  by (induction xs) simp_all

lemma blockalloclen_append [simp]: "blockalloclen (xs @ ys) = blockalloclen xs + blockalloclen ys"
  by (induction xs) simp_all

lemma wf_block_BALLOC: "wf_block b \<Longrightarrow> BLEN b \<le> BALLOC b"
  by (auto simp: wf_block_def BLEN_def BALLOC_def)

lemma blocklen_le_alloc: "wf_chain bs \<Longrightarrow> blocklen bs \<le> blockalloclen bs"
  by (induction bs) (auto dest: wf_block_BALLOC)

lemma wf_block_checkb: "wf_block b \<Longrightarrow> checkb b"
  by (simp add: wf_block_def checkb_def)

lemma bget_bbytes [chain_simps]: "wf_block b \<Longrightarrow> n \<le> BLEN b \<Longrightarrow> bget b n = Some (take n (bbytes b))"
  by (auto simp: bget_def rdn_def wf_block_def BLEN_def bbytes_def min.absorb1)

text \<open>Appending to a block with room, and the two ways of dropping bytes at its ends.\<close>

definition room :: "block \<Rightarrow> nat" where
  "room b = length (b_mem b) - b_wp b"

lemma room_newb [simp]: "room (newb n) = n"
  by (simp add: room_def)

lemma bput_Some:
  assumes "wf_block b" "length xs \<le> room b"
  shows "\<exists>b'. bput b xs = Some b' \<and> wf_block b' \<and> bbytes b' = bbytes b @ xs \<and>
    room b' = room b - length xs \<and> b_rp b' = b_rp b \<and> BALLOC b' = BALLOC b \<and> BLEN b' = BLEN b + length xs"
proof -
  have le: "b_rp b \<le> b_wp b" "b_wp b + length xs \<le> length (b_mem b)"
    using assms by (auto simp: wf_block_def room_def)
  let ?m = "take (b_wp b) (b_mem b) @ xs @ drop (b_wp b + length xs) (b_mem b)"
  have d: "drop (b_rp b) ?m = drop (b_rp b) (take (b_wp b) (b_mem b)) @ xs @ drop (b_wp b + length xs) (b_mem b)"
    using le by simp
  have "take (b_wp b + length xs - b_rp b) (drop (b_rp b) ?m) = drop (b_rp b) (take (b_wp b) (b_mem b)) @ xs"
    unfolding d using le by simp
  then show ?thesis
    using le by (simp add: bput_def wrn_def wf_block_def bbytes_def BLEN_def BALLOC_def room_def drop_take)
qed

lemma bput_newb: "length xs \<le> n \<Longrightarrow>
    \<exists>b'. bput (newb n) xs = Some b' \<and> wf_block b' \<and> bbytes b' = xs \<and> BALLOC b' = n \<and> BLEN b' = length xs"
  using bput_Some [of "newb n" xs] by (auto simp: BALLOC_def)

lemma rp_advance [chain_simps]:
  assumes "wf_block b" "n \<le> BLEN b"
  shows "wf_block (b\<lparr>b_rp := b_rp b + n\<rparr>)" "bbytes (b\<lparr>b_rp := b_rp b + n\<rparr>) = drop n (bbytes b)"
    "BLEN (b\<lparr>b_rp := b_rp b + n\<rparr>) = BLEN b - n" "BALLOC (b\<lparr>b_rp := b_rp b + n\<rparr>) = BALLOC b"
  using assms by (auto simp: wf_block_def bbytes_def BLEN_def BALLOC_def drop_take add.commute)

lemma wp_truncate [chain_simps]:
  assumes "wf_block b" "n \<le> BLEN b"
  shows "wf_block (b\<lparr>b_wp := b_rp b + n\<rparr>)" "bbytes (b\<lparr>b_wp := b_rp b + n\<rparr>) = take n (bbytes b)"
    "BLEN (b\<lparr>b_wp := b_rp b + n\<rparr>) = n" "BALLOC (b\<lparr>b_wp := b_rp b + n\<rparr>) = BALLOC b"
  using assms by (auto simp: wf_block_def bbytes_def BLEN_def BALLOC_def min.absorb1)

end
