(* ===== verification/BlockThms.thy ===== *)
theory BlockThms
  imports Block
begin

text \<open>
  What the operations on chains of blocks do to the bytes the chain carries: every operation
  keeps the pointers of its blocks in order and inside the block, no copy leaves a block, and
  the bytes are those the comments of \<open>svcs/qio.c\<close> promise.
\<close>


lemma concat_loop_Some:
  "\<lbrakk> wf_block nb; wf_chain fs; blocklen fs \<le> room nb \<rbrakk> \<Longrightarrow>
    \<exists>b. concat_loop nb fs = Some b \<and> wf_block b \<and> bbytes b = bbytes nb @ cbytes fs"
proof (induction fs arbitrary: nb)
  case (Cons f fs)
  from Cons.prems have "length (bbytes f) \<le> room nb" by (simp add: chain_simps)
  from bput_Some [OF Cons.prems(1) this] obtain b where b: "bput nb (bbytes f) = Some b" "wf_block b"
    "bbytes b = bbytes nb @ bbytes f" "room b = room nb - length (bbytes f)" by blast
  with Cons.IH [of b] Cons.prems show ?case by (simp add: chain_simps)
qed simp

lemma concatblock_ok:
  assumes "wf_chain bs" "bs \<noteq> []"
  shows "outcome km (concatblock km bs) (\<lambda>r. \<exists>b. r = [b] \<and> wf_block b \<and> bbytes b = cbytes bs)"
proof (cases "length bs = 1")
  case True
  then obtain b where "bs = [b]" by (auto simp: length_Suc_conv)
  with assms show ?thesis by (simp add: concatblock_def)
next
  case False
  with assms obtain x y zs where bs: "bs = x # y # zs" by (cases bs; cases "tl bs") auto
  have "\<exists>b. concat_loop (newb (blocklen bs)) bs = Some b \<and> wf_block b \<and> bbytes b = cbytes bs"
    using concat_loop_Some [of "newb (blocklen bs)" bs] assms by simp
  then have "outcome km (allocb km (blocklen bs) (\<lambda>nb. do { nb \<leftarrow> concat_loop nb bs; Some (Inr [nb]) }))
      (\<lambda>r. \<exists>b. r = [b] \<and> wf_block b \<and> bbytes b = cbytes bs)"
    by (intro outcome_allocb) auto
  then show ?thesis by (simp add: concatblock_def bs)
qed

lemma pullup_loop_Some:
  "\<lbrakk> wf_block bp; wf_chain bs; 0 < n; n \<le> room bp \<rbrakk> \<Longrightarrow>
    \<exists>r. pullup_loop bp bs n = Some r \<and> wf_chain r \<and>
      (if n \<le> blocklen bs then cbytes r = bbytes bp @ cbytes bs \<and> r \<noteq> [] \<and> BLEN (hd r) = BLEN bp + n
       else r = [])"
proof (induction bs arbitrary: bp n)
  case (Cons nbp rest)
  show ?case
  proof (cases "BLEN nbp > n")
    case True
    obtain b where b: "bput bp (take n (bbytes nbp)) = Some b" "wf_block b"
      "bbytes b = bbytes bp @ take n (bbytes nbp)" "BLEN b = BLEN bp + n"
      using bput_Some [of bp "take n (bbytes nbp)"] Cons.prems True by (auto simp: chain_simps)
    then show ?thesis using Cons.prems True by (simp add: chain_simps)
  next
    case False
    obtain b where b: "bput bp (bbytes nbp) = Some b" "wf_block b" "bbytes b = bbytes bp @ bbytes nbp"
      "BLEN b = BLEN bp + BLEN nbp" "room b = room bp - BLEN nbp"
      using bput_Some [of bp "bbytes nbp"] Cons.prems False by (auto simp: chain_simps)
    show ?thesis
    proof (cases "n = BLEN nbp")
      case True
      then show ?thesis using b Cons.prems by (simp add: chain_simps)
    next
      case neq: False
      have "\<exists>r. pullup_loop b rest (n - BLEN nbp) = Some r \<and> wf_chain r \<and>
        (if n - BLEN nbp \<le> blocklen rest then cbytes r = bbytes b @ cbytes rest \<and> r \<noteq> [] \<and>
           BLEN (hd r) = BLEN b + (n - BLEN nbp) else r = [])"
        by (rule Cons.IH) (use b Cons.prems False neq in auto)
      then obtain r where r: "pullup_loop b rest (n - BLEN nbp) = Some r" "wf_chain r"
        "if n - BLEN nbp \<le> blocklen rest then cbytes r = bbytes b @ cbytes rest \<and> r \<noteq> [] \<and>
           BLEN (hd r) = BLEN b + (n - BLEN nbp) else r = []" by blast
      then show ?thesis using b Cons.prems False neq
        by (cases "n \<le> BLEN nbp + blocklen rest") (auto simp: chain_simps)
    qed
  qed
qed simp

lemma trim_front_Some:
  "\<lbrakk> wf_chain bs; off \<le> blocklen bs; bs \<noteq> [] \<rbrakk> \<Longrightarrow> \<exists>bp rest o'. trim_front bs off = Some (bp # rest, o') \<and>
     wf_chain (bp # rest) \<and> o' \<le> BLEN bp \<and> drop o' (cbytes (bp # rest)) = drop off (cbytes bs)"
proof (induction bs arbitrary: off)
  case (Cons b bs)
  show ?case
  proof (cases "BLEN b < off")
    case True
    then have "bs \<noteq> []" using Cons.prems by auto
    with Cons.IH [of "off - BLEN b"] Cons.prems True show ?thesis by (auto simp: chain_simps)
  qed (use Cons.prems in auto)
qed simp

lemma trim_back_Some:
  "\<lbrakk> wf_chain bs; len \<le> blocklen bs; bs \<noteq> [] \<rbrakk> \<Longrightarrow> \<exists>r. trim_back bs len = Some r \<and> wf_chain r \<and>
     r \<noteq> [] \<and> cbytes r = take len (cbytes bs)"
proof (induction bs arbitrary: len)
  case (Cons b bs)
  show ?case
  proof (cases "BLEN b < len")
    case True
    then have "bs \<noteq> []" using Cons.prems by auto
    moreover have "len - BLEN b \<le> blocklen bs" using Cons.prems by simp
    ultimately obtain r where "trim_back bs (len - BLEN b) = Some r" "wf_chain r"
      "cbytes r = take (len - BLEN b) (cbytes bs)" using Cons.IH Cons.prems(1) by fastforce
    with Cons.prems True show ?thesis by (simp add: chain_simps)
  next
    case False
    then have "b_wp b - (BLEN b - len) = b_rp b + len" using Cons.prems by (auto simp: wf_block_def BLEN_def)
    with False Cons.prems show ?thesis by (simp add: chain_simps)
  qed
qed simp

lemma copy_loop_Some:
  "\<lbrakk> wf_block nbp; wf_chain bs; count \<le> room nbp \<rbrakk> \<Longrightarrow>
    \<exists>b c. copy_loop nbp bs count = Some (b, c) \<and> wf_block b \<and> c = count - blocklen bs \<and>
      bbytes b = bbytes nbp @ take count (cbytes bs) \<and> c \<le> room b \<and> BALLOC b = BALLOC nbp"
proof (induction bs arbitrary: nbp count)
  case (Cons bp bs)
  show ?case
  proof (cases "count > 0")
    case True
    let ?l = "if BLEN bp > count then count else BLEN bp"
    have "length (take ?l (bbytes bp)) \<le> room nbp" using Cons.prems by (simp add: chain_simps)
    from bput_Some [OF Cons.prems(1) this] obtain b where b: "bput nbp (take ?l (bbytes bp)) = Some b"
      "wf_block b" "bbytes b = bbytes nbp @ take ?l (bbytes bp)" "room b = room nbp - length (take ?l (bbytes bp))"
      "BALLOC b = BALLOC nbp" by blast
    have l: "length (take ?l (bbytes bp)) = ?l" using Cons.prems by (simp add: chain_simps)
    have "count - ?l \<le> room b" using Cons.prems b(4) l by simp
    from Cons.IH [OF b(2) _ this] Cons.prems obtain b' where
      "copy_loop b bs (count - ?l) = Some (b', count - ?l - blocklen bs)" "wf_block b'"
      "bbytes b' = bbytes b @ take (count - ?l) (cbytes bs)" "count - ?l - blocklen bs \<le> room b'"
      "BALLOC b' = BALLOC b" by auto
    moreover have "copy_loop nbp (bp # bs) count = copy_loop b bs (count - ?l)"
      using True b(1) Cons.prems by (simp add: chain_simps)
    ultimately show ?thesis using b Cons.prems by (cases "BLEN bp > count") (auto simp: chain_simps)
  qed (use Cons.prems in auto)
qed simp

lemma copyblock_ok:
  assumes "wf_chain bs"
  shows "outcome km (copyblock km bs count) (\<lambda>b. wf_block b \<and> BALLOC b = count \<and>
    bbytes b = take count (cbytes bs) @ replicate (count - blocklen bs) 0)"
proof -
  obtain b where b: "copy_loop (newb count) bs count = Some (b, count - blocklen bs)" "wf_block b"
    "bbytes b = take count (cbytes bs)" "count - blocklen bs \<le> room b" "BALLOC b = count"
    using copy_loop_Some [of "newb count" bs count] assms by (auto simp: BALLOC_def)
  obtain b' where "bput b (replicate (count - blocklen bs) 0) = Some b'" "wf_block b'" "BALLOC b' = count"
    "bbytes b' = take count (cbytes bs) @ replicate (count - blocklen bs) 0"
    using bput_Some [OF b(2), of "replicate (count - blocklen bs) 0"] b by auto
  with b show ?thesis unfolding copyblock_def by (intro outcome_allocb) auto
qed

lemma adjustblock_ok:
  assumes "wf_block b" "0 \<le> len"
  shows "outcome km (adjustblock km [b] len) (\<lambda>r. \<exists>b'. r = [b'] \<and> wf_block b' \<and>
    bbytes b' = take (nat len) (bbytes b) @ replicate (nat len - BLEN b) 0)"
proof (cases "b_rp b + nat len > BALLOC b")
  case True
  have "outcome km (map_option (map_sum id (\<lambda>nbp. [nbp])) (copyblock km [b] (nat len)))
    (\<lambda>r. \<exists>b'. r = [b'] \<and> wf_block b' \<and>
      bbytes b' = take (nat len) (bbytes b) @ replicate (nat len - BLEN b) 0)"
    by (rule outcome_map, rule outcome_mono [OF copyblock_ok]) (use assms in auto)
  with True assms show ?thesis by (simp add: adjustblock_def)
next
  case fits: False
  show ?thesis
  proof (cases "nat len > BLEN b")
    case True
    then have "length (replicate (nat len - BLEN b) (0::byte)) \<le> room b"
      using fits assms by (auto simp: room_def BALLOC_def BLEN_def wf_block_def)
    from bput_Some [OF assms(1) this] obtain b' where b':
      "bput b (replicate (nat len - BLEN b) 0) = Some b'" "wf_block b'"
      "bbytes b' = bbytes b @ replicate (nat len - BLEN b) 0" by blast
    then obtain m where m: "wrn (b_mem b) (b_wp b) (replicate (nat len - BLEN b) 0) = Some m"
      "b' = b\<lparr>b_mem := m, b_wp := b_wp b + (nat len - BLEN b)\<rparr>" by (auto simp: bput_def bind_eq_Some_conv)
    have "b_wp b + (nat len - BLEN b) = b_rp b + nat len"
      using True assms(1) by (auto simp: BLEN_def wf_block_def)
    with True fits m b' assms show ?thesis by (simp add: adjustblock_def chain_simps)
  next
    case False
    then show ?thesis using fits assms by (simp add: adjustblock_def chain_simps)
  qed
qed

lemma wrn_append: "wrn m p xs = Some m1 \<Longrightarrow> p + length xs + length ys \<le> length m \<Longrightarrow>
    wrn m1 (p + length xs) ys = wrn m p (xs @ ys)"
  by (auto simp: wrn_def min.absorb1 ac_simps split: if_splits)

lemma bl2mem_ok:
  "\<lbrakk> wf_chain bs; p + n \<le> length m \<rbrakk> \<Longrightarrow>
    \<exists>m' r. bl2mem m p bs n = Some (m', r) \<and> wf_chain r \<and> cbytes r = drop n (cbytes bs) \<and>
      wrn m p (take n (cbytes bs)) = Some m' \<and> length r \<le> length bs \<and>
      (r = [] \<longleftrightarrow> blocklen bs \<le> n) \<and> blockalloclen r \<le> blockalloclen bs"
proof (induction bs arbitrary: m p n)
  case (Cons b bs)
  show ?case
  proof (cases "BLEN b > n")
    case True
    obtain m' where "wrn m p (take n (bbytes b)) = Some m'"
      using Cons.prems True by (simp add: wrn_def chain_simps)
    then show ?thesis using True Cons.prems by (simp add: chain_simps)
  next
    case False
    have l: "length (bbytes b) = BLEN b" using Cons.prems by (simp add: chain_simps)
    obtain m1 where m1: "wrn m p (bbytes b) = Some m1"
      using Cons.prems False l by (simp add: wrn_def)
    have "p + BLEN b + (n - BLEN b) \<le> length m1" using wrn_length [OF m1] Cons.prems False by simp
    from Cons.IH [OF _ this] Cons.prems obtain m' r where
      r: "bl2mem m1 (p + BLEN b) bs (n - BLEN b) = Some (m', r)" "wf_chain r"
      "cbytes r = drop (n - BLEN b) (cbytes bs)" "wrn m1 (p + BLEN b) (take (n - BLEN b) (cbytes bs)) = Some m'"
      "length r \<le> length bs" "r = [] \<longleftrightarrow> blocklen bs \<le> n - BLEN b" "blockalloclen r \<le> blockalloclen bs" by auto
    have "wrn m p (take n (cbytes (b # bs))) = Some m'"
      using wrn_append [OF m1, of "take (n - BLEN b) (cbytes bs)"] r(4) Cons.prems False l by simp
    then show ?thesis using r m1 False Cons.prems l by (auto simp: chain_simps)
  qed
qed (simp add: wrn_def)

lemma mem2bl_ok:
  "p + len \<le> length m \<Longrightarrow> outcome km (mem2bl km m p len) (\<lambda>r. wf_chain r \<and> r \<noteq> [] \<and>
     cbytes r = take len (drop p m) \<and> list_all (\<lambda>b. BALLOC b \<le> Maxatomic \<and> BALLOC b = BLEN b) r)"
proof (induction km m p len rule: mem2bl.induct)
  case (1 km m p len)
  let ?P = "\<lambda>p len r. wf_chain r \<and> r \<noteq> [] \<and> cbytes r = take len (drop p m) \<and>
     list_all (\<lambda>b. BALLOC b \<le> Maxatomic \<and> BALLOC b = BLEN b) r"
  define n where "n = (if len > Maxatomic then Maxatomic else len)"
  define xs where "xs = take n (drop p m)"
  have n: "n \<le> len" "n \<le> Maxatomic" by (simp_all add: n_def)
  have l: "length xs = n" using "1.prems" n by (simp add: xs_def)
  obtain b where b: "bput (newb n) xs = Some b" "wf_block b" "bbytes b = xs" "BALLOC b = n" "BLEN b = n"
    using bput_newb [of xs n] l by auto
  have rd: "rdn m p n = Some xs" using "1.prems" n by (simp add: rdn_def xs_def)
  have tk: "take len (drop p m) = xs @ take (len - n) (drop (p + n) m)"
    using take_add [of n "len - n" "drop p m"] n by (simp add: xs_def add.commute)
  have IH: "outcome km (mem2bl km m (p + n) (len - n)) (?P (p + n) (len - n))" if "len - n > 0"
    by (rule "1.IH" [OF n_def rd b(1) that]) (use "1.prems" n in simp)
  have "outcome km (do { r \<leftarrow> mem2bl km m (p + n) (len - n); Some (map_sum id ((#) b) r) }) (?P p len)"
    if "len - n > 0"
    using IH [OF that] b n unfolding tk by (auto simp: outcome_def split: option.splits sum.splits)
  then show ?case
    using b rd tk n unfolding mem2bl.simps [of km m p len] Let_def n_def [symmetric]
    by (intro outcome_allocb) auto
qed

lemma pullupblock_ok:
  assumes "wf_chain bs" "bs \<noteq> []"
  shows "outcome km (pullupblock km bs n) (\<lambda>r. wf_chain r \<and>
    (if n \<le> blocklen bs then cbytes r = cbytes bs \<and> r \<noteq> [] \<and> BLEN (hd r) = max n (BLEN (hd bs)) else r = []))"
proof -
  obtain bp rest where bs: "bs = bp # rest" using assms(2) by (cases bs) auto
  show ?thesis
  proof (cases "BLEN bp \<ge> n")
    case True
    then show ?thesis using assms by (simp add: pullupblock_def bs)
  next
    case False
    show ?thesis
    proof (cases "BALLOC bp - b_rp bp < n")
      case True
      obtain r where "pullup_loop (newb n) bs n = Some r" "wf_chain r"
        "if n \<le> blocklen bs then cbytes r = cbytes bs \<and> r \<noteq> [] \<and> BLEN (hd r) = n else r = []"
        using pullup_loop_Some [of "newb n" bs n] False assms(1) by auto
      then show ?thesis using True False
        by (auto simp: pullupblock_def bs max_def intro!: outcome_allocb)
    next
      case fits: False
      have "n - BLEN bp \<le> room bp"
        using fits False assms(1) by (auto simp: bs room_def BALLOC_def BLEN_def wf_block_def)
      then obtain r where "pullup_loop bp rest (n - BLEN bp) = Some r" "wf_chain r"
        "if n - BLEN bp \<le> blocklen rest then cbytes r = bbytes bp @ cbytes rest \<and> r \<noteq> [] \<and> BLEN (hd r) = n else r = []"
        using pullup_loop_Some [of bp rest "n - BLEN bp"] False assms(1) by (auto simp: bs)
      then show ?thesis using fits False by (auto simp: pullupblock_def bs max_def)
    qed
  qed
qed

lemma padblock_front:
  assumes "wf_block b" "b_rp b < k"
  shows "outcome km (padblock km [b] (int k)) (\<lambda>r. \<exists>b'. r = [b'] \<and> wf_block b' \<and>
    BLEN b' = k + BLEN b \<and> drop k (bbytes b') = bbytes b)"
proof -
  let ?nb = "newb (k + BLEN b)\<lparr>b_rp := k, b_wp := k\<rparr>"
  have nb: "wf_block ?nb" "room ?nb = BLEN b" "bbytes ?nb = []"
    by (simp_all add: newb_def wf_block_def room_def bbytes_def BLEN_def)
  have "length (bbytes b) \<le> room ?nb" using assms nb by (simp add: chain_simps)
  from bput_Some [OF nb(1) this] obtain b' where b': "bput ?nb (bbytes b) = Some b'" "wf_block b'"
    "bbytes b' = bbytes b" "b_rp b' = k" using nb(3) by auto
  have "BLEN (b'\<lparr>b_rp := 0\<rparr>) = k + BLEN b"
    using b' length_bbytes [OF b'(2)] length_bbytes [OF assms(1)] by (auto simp: BLEN_def wf_block_def)
  moreover have "drop k (bbytes (b'\<lparr>b_rp := 0\<rparr>)) = bbytes b"
    using b' by (simp add: bbytes_def BLEN_def drop_take)
  moreover have "wf_block (b'\<lparr>b_rp := 0\<rparr>)" using b' by (simp add: wf_block_def)
  ultimately have "outcome km (allocb km (k + BLEN b) (\<lambda>nbp. do {
      xs \<leftarrow> bget b (BLEN b); nbp \<leftarrow> bput (nbp\<lparr>b_rp := b_rp nbp + k, b_wp := b_rp nbp + k\<rparr>) xs;
      Some (Inr [nbp\<lparr>b_rp := b_rp nbp - k\<rparr>]) }))
    (\<lambda>r. \<exists>b'. r = [b'] \<and> wf_block b' \<and> BLEN b' = k + BLEN b \<and> drop k (bbytes b') = bbytes b)"
    using assms b' by (intro outcome_allocb) (simp add: chain_simps)
  then show ?thesis using assms by (simp add: padblock_def Let_def)
qed

lemma padblock_back:
  assumes "wf_block b" "0 < k"
  shows "outcome km (padblock km [b] (- int k)) (\<lambda>r. \<exists>b'. r = [b'] \<and> wf_block b' \<and>
    bbytes b' = bbytes b \<and> k \<le> room b')"
proof (cases "BALLOC b - b_wp b \<ge> k")
  case True
  then show ?thesis using assms by (simp add: padblock_def room_def BALLOC_def)
next
  case False
  obtain b' where b': "bput (newb (k + BLEN b)) (bbytes b) = Some b'" "wf_block b'" "bbytes b' = bbytes b"
    "room b' = k" using bput_Some [of "newb (k + BLEN b)" "bbytes b"] assms(1) by (auto simp: chain_simps)
  then have "outcome km (allocb km (k + BLEN b) (\<lambda>nbp. do {
      xs \<leftarrow> bget b (BLEN b); nbp \<leftarrow> bput nbp xs; Some (Inr [nbp]) }))
    (\<lambda>r. \<exists>b'. r = [b'] \<and> wf_block b' \<and> bbytes b' = bbytes b \<and> k \<le> room b')"
    using assms(1) by (intro outcome_allocb) (simp add: chain_simps)
  then show ?thesis using False assms by (simp add: padblock_def Let_def)
qed

section \<open>Properties\<close>

text \<open>\<open>trimblock\<close> leaves exactly the \<open>len\<close> bytes from \<open>offset\<close>, in a non-empty chain
  of well-formed blocks, and frees everything when the chain is shorter than that.\<close>

lemma trimblock_ok:
  assumes "wf_chain bs" "bs \<noteq> []"
  shows "\<exists>r. trimblock bs off len = Some r \<and> wf_chain r \<and>
    (if off + len \<le> blocklen bs then r \<noteq> [] \<and> cbytes r = take len (drop off (cbytes bs)) else r = [])"
proof (cases "off + len \<le> blocklen bs")
  case True
  then obtain bp rest o' where f: "trim_front bs off = Some (bp # rest, o')" "wf_chain (bp # rest)"
    "o' \<le> BLEN bp" "drop o' (cbytes (bp # rest)) = drop off (cbytes bs)"
    using trim_front_Some [OF assms(1) _ assms(2), of off] by auto
  let ?bs = "bp\<lparr>b_rp := b_rp bp + o'\<rparr> # rest"
  have c: "cbytes ?bs = drop off (cbytes bs)" "wf_chain ?bs"
    using f by (auto simp: chain_simps)
  then have "blocklen ?bs = blocklen bs - off" using assms(1)
    by (simp only: length_cbytes [symmetric] length_drop)
  then have "len \<le> blocklen ?bs" using True by simp
  from trim_back_Some [OF c(2) this]
  obtain r where "trim_back ?bs len = Some r" "wf_chain r" "r \<noteq> []" "cbytes r = take len (cbytes ?bs)" by blast
  then show ?thesis using True f(1) unfolding c(1) by (simp add: trimblock_def)
qed (simp add: trimblock_def)


text \<open>\<open>pullblock\<close> throws away the first \<open>count\<close> bytes of a chain, or all of them when
  there are fewer, answers how many, and keeps the rest.\<close>

lemma pullblock_ok:
  "wf_chain bs \<Longrightarrow> \<exists>r. pullblock bs count = (min count (blocklen bs), r) \<and> wf_chain r \<and>
    cbytes r = drop count (cbytes bs)"
proof (induction bs count rule: pullblock.induct)
  case (2 bp bs count)
  show ?case
  proof (cases "count = 0")
    case False
    let ?n = "if count < BLEN bp then count else BLEN bp"
    let ?bp = "bp\<lparr>b_rp := b_rp bp + ?n\<rparr>"
    let ?bs = "if BLEN ?bp = 0 then bs else ?bp # bs"
    have wf: "wf_block bp" "wf_block ?bp" "bbytes ?bp = drop ?n (bbytes bp)" "BLEN ?bp = BLEN bp - ?n" "wf_chain bs"
      using "2.prems" by (auto simp: chain_simps)
    have "bbytes ?bp = [] \<longleftrightarrow> BLEN ?bp = 0" using wf length_bbytes [of ?bp] by auto
    then have c: "cbytes ?bs = drop ?n (cbytes (bp # bs))" "blocklen ?bs = blocklen (bp # bs) - ?n"
      using wf by (auto simp: chain_simps)
    have "wf_chain ?bs" using wf by simp
    from "2.IH" [OF False refl refl this]
    obtain r where r: "pullblock ?bs (count - ?n) = (min (count - ?n) (blocklen ?bs), r)" "wf_chain r"
      "cbytes r = drop (count - ?n) (cbytes ?bs)" by blast
    have "pullblock (bp # bs) count = (?n + min (count - ?n) (blocklen ?bs), r)"
      using r(1) False unfolding pullblock.simps(2) by (simp only: Let_def prod.case if_False)
    moreover have "?n + min (count - ?n) (blocklen ?bs) = min count (blocklen (bp # bs))"
      unfolding c(2) by auto
    moreover have "cbytes r = drop count (cbytes (bp # bs))" unfolding r(3) c(1) drop_drop by simp
    ultimately show ?thesis using r(2) by simp
  qed (use "2.prems" in simp)
qed simp

text \<open>\<open>packblock\<close> keeps the blocks of a chain and the bytes of each, and afterwards no
  block has more than four times the space it uses and the chain has no more space than before.\<close>

lemma packblock_ok:
  "wf_chain bs \<Longrightarrow> outcome km (packblock km bs) (\<lambda>r. wf_chain r \<and> map bbytes r = map bbytes bs \<and>
     list_all (\<lambda>b. BALLOC b \<le> 4 * BLEN b) r \<and> blockalloclen r \<le> blockalloclen bs)"
proof (induction bs)
  case (Cons b bs)
  let ?P = "\<lambda>bs r. wf_chain r \<and> map bbytes r = map bbytes bs \<and> list_all (\<lambda>b. BALLOC b \<le> 4 * BLEN b) r \<and>
    blockalloclen r \<le> blockalloclen bs"
  have IH: "outcome km (packblock km bs) (?P bs)" using Cons by simp
  have step: "outcome km (do { r \<leftarrow> packblock km bs; Some (map_sum id ((#) c) r) }) (?P (b # bs))"
    if "wf_block c" "bbytes c = bbytes b" "BALLOC c \<le> 4 * BLEN c" "BALLOC c \<le> BALLOC b" for c
    using IH that by (auto simp: outcome_def split: option.splits sum.splits)
  obtain c where c: "bput (newb (BLEN b)) (bbytes b) = Some c" "wf_block c" "bbytes c = bbytes b"
    "BALLOC c = BLEN b" "BLEN c = BLEN b" using bput_newb [of "bbytes b" "BLEN b"] Cons.prems by (auto simp: chain_simps)
  have "outcome km (do { xs \<leftarrow> bget b (BLEN b); c \<leftarrow> bput (newb (BLEN b)) xs; r \<leftarrow> packblock km bs; Some (map_sum id ((#) c) r) })
    (?P (b # bs))" if "4 * BLEN b < BALLOC b"
    using step [of c] c that Cons.prems by (simp add: chain_simps)
  then show ?case using step [of b] Cons.prems
    by (cases "4 * BLEN b < BALLOC b") (simp_all add: Let_def outcome_allocb)
qed simp

text \<open>\<open>padblock\<close> with a positive size puts that many bytes in front of the data of a
  single block, with a negative size it makes room behind it, keeping the data; a chain of more
  than one block without the room in front is a panic.\<close>

lemma padblock_ok:
  assumes "wf_block b"
  shows "outcome km (padblock km [b] sz) (\<lambda>r. \<exists>b'. r = [b'] \<and> wf_block b' \<and>
      (if sz \<ge> 0 then BLEN b' = nat sz + BLEN b \<and> drop (nat sz) (bbytes b') = bbytes b
       else bbytes b' = bbytes b \<and> nat (- sz) \<le> room b')) \<and>
    (\<forall>rest. rest \<noteq> [] \<and> int (b_rp b) < sz \<longrightarrow> padblock km (b # rest) sz = Some (Inl Panic))"
proof (intro conjI)
  show "outcome km (padblock km [b] sz) (\<lambda>r. \<exists>b'. r = [b'] \<and> wf_block b' \<and>
      (if sz \<ge> 0 then BLEN b' = nat sz + BLEN b \<and> drop (nat sz) (bbytes b') = bbytes b
       else bbytes b' = bbytes b \<and> nat (- sz) \<le> room b'))"
  proof (cases "sz \<ge> 0")
    case True
    then show ?thesis
    proof (cases "int (b_rp b) \<ge> sz")
      case fits: True
      then have r: "b_rp b = nat sz + (b_rp b - nat sz)" by simp
      have "bbytes b = drop (nat sz) (bbytes (b\<lparr>b_rp := b_rp b - nat sz\<rparr>))"
        using assms fits True by (simp add: bbytes_def BLEN_def wf_block_def drop_take)
      moreover have "BLEN (b\<lparr>b_rp := b_rp b - nat sz\<rparr>) = nat sz + BLEN b" "wf_block (b\<lparr>b_rp := b_rp b - nat sz\<rparr>)"
        using assms r by (auto simp: BLEN_def wf_block_def)
      ultimately show ?thesis using fits True by (simp add: padblock_def)
    next
      case False
      with True padblock_front [OF assms, of "nat sz" km] show ?thesis by simp
    qed
  next
    case False
    with padblock_back [OF assms, of "nat (- sz)" km] show ?thesis by simp
  qed
qed (auto simp: padblock_def)

text \<open>Memory copied into a chain by \<open>mem2bl\<close> and out again by \<open>bl2mem\<close> is unchanged,
  in blocks of at most \<open>Maxatomic\<close> bytes, and the chain is used up.\<close>

lemma mem2bl_bl2mem:
  assumes "p + len \<le> length m" "q + len \<le> length m2"
  shows "outcome km (mem2bl km m p len) (\<lambda>bs. list_all (\<lambda>b. BALLOC b \<le> Maxatomic) bs \<and>
    (\<exists>m'. bl2mem m2 q bs len = Some (m', []) \<and> wrn m2 q (take len (drop p m)) = Some m'))"
proof (rule outcome_mono [OF mem2bl_ok [OF assms(1)]])
  fix bs
  assume bs: "wf_chain bs \<and> bs \<noteq> [] \<and> cbytes bs = take len (drop p m) \<and>
    list_all (\<lambda>b. BALLOC b \<le> Maxatomic \<and> BALLOC b = BLEN b) bs"
  then have "blocklen bs = len" using assms(1) by (simp flip: length_cbytes)
  with bl2mem_ok [of bs q len m2] bs assms(2) obtain m' where
    "bl2mem m2 q bs len = Some (m', [])" "wrn m2 q (take len (drop p m)) = Some m'" by auto
  with bs show "list_all (\<lambda>b. BALLOC b \<le> Maxatomic) bs \<and>
    (\<exists>m'. bl2mem m2 q bs len = Some (m', []) \<and> wrn m2 q (take len (drop p m)) = Some m')"
    by (auto simp: list_all_iff)
qed

end
