(* ===== verification/Kstr.thy ===== *)
theory Kstr
  imports Prelude
begin

text \<open>
  The kernel's bounded string copy, \<open>kstrcpy\<close> and \<open>emptystr\<close> of \<open>svcs/chan.c\<close>. The destination
  is an object of \<open>ns\<close> bytes or more; the source string is given by its bytes before the NUL.
\<close>

definition continuation :: "byte \<Rightarrow> bool" where
  "continuation x \<longleftrightarrow> x AND 0xC0 = 0x80"

text \<open>\<open>while(ns>0 && (s[--ns]&0xC0)==0x80)\<close>: the value of \<open>ns\<close> when the loop ends.\<close>

fun char_start :: "byte list \<Rightarrow> nat \<Rightarrow> nat option" where
  "char_start s 0 = Some 0"
| "char_start s (Suc ns) = do { x \<leftarrow> rd s ns; if continuation x then char_start s ns else Some ns }"

abbreviation dots :: "byte list" where "dots \<equiv> [0x2E, 0x2E, 0x2E]"

definition kstrcpy :: "byte list \<Rightarrow> byte list \<Rightarrow> nat \<Rightarrow> byte list option" where
  "kstrcpy s t ns = (let nt = length t in
     if nt + 1 \<le> ns then wrn s 0 (t @ [0])
     else if ns < 4 then wrn s 0 (take ns t)
     else do {
       s \<leftarrow> wrn s 0 (take (ns - 4) t);
       s \<leftarrow> wrn s (ns - 4) [0];
       k \<leftarrow> char_start s (ns - 4);
       wrn s k (dots @ [0]) })"

definition emptystr :: "byte list option \<Rightarrow> bool" where
  "emptystr s \<longleftrightarrow> (case s of None \<Rightarrow> True | Some s \<Rightarrow> s = [])"

lemma char_start_Some:
  "n \<le> length s \<Longrightarrow> \<exists>k. char_start s n = Some k \<and> k \<le> n \<and> (0 < n \<longrightarrow> k < n) \<and>
    (\<forall>i. k < i \<and> i < n \<longrightarrow> continuation (s ! i)) \<and> (k = 0 \<or> \<not> continuation (s ! k))"
proof (induction n)
  case (Suc n)
  then show ?case by (fastforce simp: rd_def less_Suc_eq)
qed simp

lemma kstrcpy_trunc:
  assumes "4 \<le> ns" "ns \<le> length t" "ns \<le> length s"
  shows "\<exists>s' k. kstrcpy s t ns = Some s' \<and> holds s' 0 (take k t @ dots @ [0]) \<and> k + 4 \<le> ns \<and>
    (k = 0 \<or> \<not> continuation (t ! k)) \<and> drop ns s' = drop ns s \<and> length s' = length s"
proof -
  obtain s1 where s1: "wrn s 0 (take (ns - 4) t) = Some s1"
    using assms wrn_Some_iff [of s 0 "take (ns - 4) t"] by auto
  obtain s2 where s2: "wrn s1 (ns - 4) [0] = Some s2"
    using assms wrn_Some_iff [of s1 "ns - 4" "[0]"] wrn_length [OF s1] by auto
  have t2: "holds s2 0 (take (ns - 4) t)"
    using holds_keeps [OF wrn_holds [OF s1] wrn_keeps [OF s2]] assms by simp
  then have tk: "take (ns - 4) s2 = take (ns - 4) t" using assms by (simp add: holds_def min.absorb1)
  have nth: "s2 ! i = t ! i" if "i < ns - 4" for i
  proof -
    have "s2 ! i = take (ns - 4) s2 ! i" using that by simp
    also have "\<dots> = t ! i" using that unfolding tk by simp
    finally show ?thesis .
  qed
  have len: "ns - 4 \<le> length s2" using wrn_length [OF s1] wrn_length [OF s2] assms by simp
  obtain k where k: "char_start s2 (ns - 4) = Some k" "k \<le> ns - 4" "0 < ns - 4 \<longrightarrow> k < ns - 4"
    "k = 0 \<or> \<not> continuation (s2 ! k)"
    using char_start_Some [OF len] by auto
  obtain s3 where s3: "wrn s2 k (dots @ [0]) = Some s3"
    using assms k wrn_Some_iff [of s2 k "dots @ [0]"] wrn_length [OF s1] wrn_length [OF s2] by auto
  have "take k s2 = take k t" using tk k by (metis min.absorb1 take_take)
  then have "holds s3 0 (take k t @ dots @ [0])"
    using s3 k assms by (auto simp: wrn_def holds_def split: if_splits)
  moreover have "k = 0 \<or> \<not> continuation (t ! k)" using k nth by auto
  moreover have "drop ns s3 = drop ns s"
    using wrn_drop [OF s1, of ns] wrn_drop [OF s2, of ns] wrn_drop [OF s3, of ns] k assms by simp
  moreover have "length s3 = length s" using wrn_length [OF s1] wrn_length [OF s2] wrn_length [OF s3] by simp
  ultimately show ?thesis using s1 s2 k s3 assms by (auto simp: kstrcpy_def Let_def)
qed

lemma kstrcpy_total:
  assumes "4 \<le> ns" "ns \<le> length s"
  shows "\<exists>s'. kstrcpy s t ns = Some s' \<and> length s' = length s"
proof (cases "length t < ns")
  case True
  then show ?thesis using assms by (simp add: kstrcpy_def Let_def wrn_def)
next
  case False
  then show ?thesis using assms kstrcpy_trunc [of ns t s] by auto
qed

text \<open>\<open>kstrcpy\<close> into a buffer of at least four bytes leaves a terminated string: the
  source when it fits, and otherwise a proper prefix of it, cut where a UTF-8 sequence starts,
  followed by three dots; nothing is written outside the \<open>ns\<close> bytes.\<close>

lemma kstrcpy_ok:
  assumes "4 \<le> ns" "ns \<le> length s" "0 \<notin> set t"
  shows "\<exists>s'. kstrcpy s t ns = Some s' \<and> drop ns s' = drop ns s \<and>
    (if length t < ns then cstr s' 0 = t
     else \<exists>k. k + 4 \<le> ns \<and> cstr s' 0 = take k t @ dots \<and> (k = 0 \<or> \<not> continuation (t ! k)))"
proof (cases "length t < ns")
  case True
  then have "wrn s 0 (t @ [0]) = Some (overlay s (t @ [0]))" using assms by (simp add: wrn_start)
  moreover have "cstr (overlay s (t @ [0])) 0 = t"
    using holds_cstr [OF holds_overlay] True assms by simp
  ultimately show ?thesis using True wrn_drop [of s 0 "t @ [0]"] by (simp add: kstrcpy_def Let_def)
next
  case False
  then obtain s' k where s': "kstrcpy s t ns = Some s'" "holds s' 0 (take k t @ dots @ [0])" "k + 4 \<le> ns"
    "k = 0 \<or> \<not> continuation (t ! k)" "drop ns s' = drop ns s" using kstrcpy_trunc [of ns t s] assms by auto
  have "0 \<notin> set (take k t)" using assms(3) set_take_subset [of k t] by blast
  then have "cstr s' 0 = take k t @ dots" using s'(2) by (intro holds_cstr) auto
  then show ?thesis using s' False by auto
qed

end
