(* ===== verification/Qio.thy ===== *)
theory Qio
  imports BlockThms Kstr
begin

text \<open>
  The I/O queues of \<open>svcs/qio.c\<close>. A queue is the chain from \<open>bfirst\<close> to \<open>blast\<close> with its two
  counters, limits and state bits. Each definition is one critical section of the code under
  \<open>q->l\<close>, with what follows it up to the next point where the process can block. The calls
  \<open>Wakeup(&q->rr)\<close>, \<open>Wakeup(&q->wr)\<close>, \<open>q->kick\<close> and \<open>q->bypass\<close> leave the queue; they are listed,
  in order, as events. Where the code sleeps, the operation answers \<open>Asleep\<close> with the queue as it
  is left, and the code after the sleep is the operation that resumes there. The \<open>int\<close> counters
  are integers, so signed overflow (more than 2 GB queued) is outside the model.
\<close>

abbreviation Qstarve :: u32 where "Qstarve \<equiv> 1"
abbreviation Qmsg :: u32 where "Qmsg \<equiv> 2"
abbreviation Qclosed :: u32 where "Qclosed \<equiv> 4"
abbreviation Qflow :: u32 where "Qflow \<equiv> 8"
abbreviation Qcoalesce :: u32 where "Qcoalesce \<equiv> 16"
abbreviation Qkick :: u32 where "Qkick \<equiv> 32"

abbreviation ERRMAX :: nat where "ERRMAX \<equiv> 128"

text \<open>\<open>Ehungup\<close> of \<open>svcs/error.c\<close>: "i/o on hungup channel".\<close>

definition Ehungup :: "byte list" where
  "Ehungup = [0x69, 0x2F, 0x6F, 0x20, 0x6F, 0x6E, 0x20, 0x68, 0x75, 0x6E, 0x67, 0x75, 0x70, 0x20,
     0x63, 0x68, 0x61, 0x6E, 0x6E, 0x65, 0x6C]"

record queue =
  q_blocks :: "block list"
  q_len :: int
  q_dlen :: int
  q_limit :: int
  q_inilim :: int
  q_state :: u32
  q_noblock :: bool
  q_eof :: int
  q_kick :: bool       \<comment> \<open>\<open>kick\<close> is not nil\<close>
  q_bypass :: bool     \<comment> \<open>\<open>bypass\<close> is not nil\<close>
  q_err :: "byte list" \<comment> \<open>the array \<open>err\<close> of \<open>ERRMAX\<close> bytes\<close>

datatype event = Wake_rr | Wake_wr | Kick | Bypass block

datatype 'a reply = Ret 'a | Asleep nat | Err kerror

definition has :: "queue \<Rightarrow> u32 \<Rightarrow> bool" where
  "has q f \<longleftrightarrow> q_state q AND f \<noteq> 0"

definition setf :: "u32 \<Rightarrow> queue \<Rightarrow> queue" where
  "setf f q = q\<lparr>q_state := q_state q OR f\<rparr>"

definition clrf :: "u32 \<Rightarrow> queue \<Rightarrow> queue" where
  "clrf f q = q\<lparr>q_state := q_state q AND NOT f\<rparr>"

text \<open>\<open>q->limit/2\<close>, the C division of an \<open>int\<close>.\<close>

definition half :: "int \<Rightarrow> int" where
  "half n = (if n \<ge> 0 then n div 2 else - ((- n) div 2))"

section \<open>Adding and removing blocks\<close>

definition qaddlist :: "queue \<Rightarrow> block list \<Rightarrow> queue" where
  "qaddlist q bs = q\<lparr>q_blocks := q_blocks q @ bs, q_len := q_len q + int (blockalloclen bs),
     q_dlen := q_dlen q + int (blocklen bs)\<rparr>"

definition qremove :: "queue \<Rightarrow> queue \<times> block option" where
  "qremove q = (case q_blocks q of [] \<Rightarrow> (q, None)
     | b # bs \<Rightarrow> (q\<lparr>q_blocks := bs, q_dlen := q_dlen q - int (BLEN b), q_len := q_len q - int (BALLOC b)\<rparr>, Some b))"

definition qputback :: "queue \<Rightarrow> block \<Rightarrow> queue" where
  "qputback q b = q\<lparr>q_blocks := b # q_blocks q, q_len := q_len q + int (BALLOC b), q_dlen := q_dlen q + int (BLEN b)\<rparr>"

text \<open>The consumer restarts a flow-controlled writer below the threshold \<open>thr\<close>.\<close>

definition restart :: "queue \<Rightarrow> int \<Rightarrow> queue \<times> event list" where
  "restart q thr = (if has q Qflow \<and> q_len q < thr then (clrf Qflow q, [Wake_wr]) else (q, []))"

definition qwakeup_unlock :: "queue \<Rightarrow> queue \<times> event list" where
  "qwakeup_unlock q = (if has q Qflow \<and> q_len q < half (q_limit q)
     then (clrf Qflow q, (if q_kick q then [Kick] else []) @ [Wake_wr]) else (q, []))"

text \<open>The producer tells a starved reader.\<close>

definition unstarve :: "queue \<Rightarrow> queue \<times> bool" where
  "unstarve q = (if has q Qstarve then (clrf Qstarve q, True) else (q, False))"

section \<open>Consuming\<close>

definition qget :: "queue \<Rightarrow> queue \<times> event list \<times> block option" where
  "qget q = (case q_blocks q of [] \<Rightarrow> (setf Qstarve q, [], None)
     | b # bs \<Rightarrow>
        let q = q\<lparr>q_blocks := bs, q_len := q_len q - int (BALLOC b), q_dlen := q_dlen q - int (BLEN b)\<rparr>;
            (q, ev) = restart q (half (q_limit q))
        in (q, ev, Some b))"

text \<open>The loop of \<open>qdiscard\<close> on the chain; it answers the rest of the chain, \<open>len\<close>, \<open>dlen\<close> and \<open>sofar\<close>.\<close>

function discard :: "block list \<Rightarrow> int \<Rightarrow> int \<Rightarrow> nat \<Rightarrow> nat \<Rightarrow> block list \<times> int \<times> int \<times> nat" where
  "discard bs l d sofar len = (if sofar < len then
     case bs of [] \<Rightarrow> (bs, l, d, sofar)
     | b # rest \<Rightarrow> let n = BLEN b in
        if n \<le> len - sofar then discard rest (l - int (BALLOC b)) (d - int (BLEN b)) (sofar + n) len
        else let n = len - sofar in
          discard (b\<lparr>b_rp := b_rp b + n\<rparr> # rest) l (d - int n) (sofar + n) len
   else (bs, l, d, sofar))"
  by pat_completeness auto

termination
  by (relation "measure (\<lambda>(bs, l, d, sofar, len). length bs + (len - sofar))") auto

declare discard.simps [simp del]

definition qdiscard :: "queue \<Rightarrow> nat \<Rightarrow> queue \<times> event list \<times> nat" where
  "qdiscard q len = (let (bs, l, d, sofar) = discard (q_blocks q) (q_len q) (q_dlen q) 0 len;
       q = q\<lparr>q_blocks := bs, q_len := l, q_dlen := d\<rparr>;
       (q, ev) = restart q (q_limit q)
     in (q, ev, sofar))"

text \<open>\<open>qconsume(q, vp, len)\<close> into the object \<open>m\<close> from \<open>p\<close>; empty blocks are dropped first.\<close>

fun drop_empty :: "block list \<Rightarrow> int \<Rightarrow> block list \<times> int" where
  "drop_empty [] l = ([], l)"
| "drop_empty (b # bs) l = (if BLEN b > 0 then (b # bs, l) else drop_empty bs (l - int (BALLOC b)))"

definition qconsume :: "queue \<Rightarrow> byte list \<Rightarrow> nat \<Rightarrow> nat \<Rightarrow> (queue \<times> event list \<times> byte list \<times> int) option" where
  "qconsume q m p len = (let (bs, l) = drop_empty (q_blocks q) (q_len q); q = q\<lparr>q_blocks := bs, q_len := l\<rparr> in
     case bs of [] \<Rightarrow> Some (setf Qstarve q, [], m, -1)
     | b # rest \<Rightarrow> do {
         let n = BLEN b;
         let len = (if n < len then n else len);
         xs \<leftarrow> bget b len;
         m \<leftarrow> wrn m p xs;
         let b = b\<lparr>b_rp := b_rp b + len\<rparr>;
         let q = q\<lparr>q_dlen := q_dlen q - int len\<rparr>;
         let q = (if has q Qmsg \<or> len = n
                  then q\<lparr>q_blocks := rest, q_len := q_len q - int (BALLOC b), q_dlen := q_dlen q - int (BLEN b)\<rparr>
                  else q\<lparr>q_blocks := b # rest\<rparr>);
         let (q, ev) = restart q (half (q_limit q));
         Some (q, ev, m, int len) })"

section \<open>Producing\<close>

text \<open>\<open>qpass\<close> and \<open>qpassnolim\<close> take a non-empty chain.\<close>

definition pass_chain :: "queue \<Rightarrow> block list \<Rightarrow> queue \<times> event list" where
  "pass_chain q bs = (let q = qaddlist q bs;
       q = (if q_len q \<ge> half (q_limit q) then setf Qflow q else q);
       (q, dowakeup) = unstarve q
     in (q, if dowakeup then [Wake_rr] else []))"

definition qpass :: "queue \<Rightarrow> block list \<Rightarrow> (queue \<times> event list \<times> int) option" where
  "qpass q bs = (if q_len q \<ge> q_limit q then Some (q, [], -1)
     else if has q Qclosed then Some (q, [], int (blocklen bs))
     else if bs = [] then None
     else let (q, ev) = pass_chain q bs in Some (q, ev, int (blockalloclen bs)))"

definition qpassnolim :: "queue \<Rightarrow> block list \<Rightarrow> (queue \<times> event list \<times> int) option" where
  "qpassnolim q bs = (case bs of [] \<Rightarrow> None
     | b # _ \<Rightarrow> if has q Qclosed then Some (q, [], int (BALLOC b))
        else let (q, ev) = pass_chain q bs in Some (q, ev, int (blockalloclen bs)))"

definition qproduce :: "(nat \<Rightarrow> bool) \<Rightarrow> queue \<Rightarrow> byte list \<Rightarrow> nat \<Rightarrow> nat \<Rightarrow> (queue \<times> event list \<times> int) option" where
  "qproduce km q m p len = (if has q Qclosed then Some (q, [], -1)
     else if q_len q \<ge> q_limit q then Some (setf Qflow q, [], -1)
     else case iallocb km len of None \<Rightarrow> Some (q, [], -1)
     | Some b \<Rightarrow> do {
         xs \<leftarrow> rdn m p len;
         b \<leftarrow> bput b xs;
         let q = q\<lparr>q_blocks := q_blocks q @ [b], q_len := q_len q + int (BALLOC b), q_dlen := q_dlen q + int (BLEN b)\<rparr>;
         let (q, dowakeup) = unstarve q;
         let q = (if q_len q \<ge> q_limit q then setf Qflow q else q);
         Some (q, if dowakeup then [Wake_rr] else [], int len) })"

section \<open>Copying without consuming\<close>

text \<open>The loops of \<open>qcopy\<close>: go to the offset, then copy blocks.\<close>

fun copy_seek :: "block list \<Rightarrow> nat \<Rightarrow> nat \<Rightarrow> (block list \<times> nat \<times> nat) option" where
  "copy_seek [] sofar off = None"
| "copy_seek (b # bs) sofar off = (let n = BLEN b in
     if sofar + n > off then Some (b # bs, b_rp b + off - sofar, n - (off - sofar))
     else copy_seek bs (sofar + n) off)"

fun copy_blocks :: "block \<Rightarrow> block list \<Rightarrow> nat \<Rightarrow> nat \<Rightarrow> nat \<Rightarrow> nat \<Rightarrow> block option" where
  "copy_blocks nb [] p n sofar len = Some nb"
| "copy_blocks nb (b # bs) p n sofar len = (if sofar < len then do {
       let n = (if n > len - sofar then len - sofar else n);
       xs \<leftarrow> rdn (b_mem b) p n;
       nb \<leftarrow> bput nb xs;
       (case bs of [] \<Rightarrow> Some nb
        | b' # _ \<Rightarrow> copy_blocks nb bs (b_rp b') (BLEN b') (sofar + n) len) }
     else Some nb)"

definition qcopy :: "(nat \<Rightarrow> bool) \<Rightarrow> queue \<Rightarrow> nat \<Rightarrow> nat \<Rightarrow> block kres" where
  "qcopy km q len off = allocb km len (\<lambda>nb.
     case copy_seek (q_blocks q) 0 off of None \<Rightarrow> Some (Inr nb)
     | Some (bs, p, n) \<Rightarrow> map_option Inr (copy_blocks nb bs p n 0 len))"

section \<open>Creation\<close>

definition qopen :: "bool \<Rightarrow> int \<Rightarrow> u32 \<Rightarrow> bool \<Rightarrow> queue option" where
  "qopen mem limit msg kick = (if \<not> mem then None
     else Some \<lparr>q_blocks = [], q_len = 0, q_dlen = 0, q_limit = limit, q_inilim = limit,
       q_state = msg OR Qstarve, q_noblock = False, q_eof = 0, q_kick = kick, q_bypass = False,
       q_err = replicate ERRMAX 0\<rparr>)"

definition qbypass :: "bool \<Rightarrow> queue option" where
  "qbypass mem = (if \<not> mem then None
     else Some \<lparr>q_blocks = [], q_len = 0, q_dlen = 0, q_limit = 0, q_inilim = 0, q_state = 0,
       q_noblock = False, q_eof = 0, q_kick = False, q_bypass = True, q_err = replicate ERRMAX 0\<rparr>)"

section \<open>Blocking reads\<close>

definition notempty :: "queue \<Rightarrow> bool" where
  "notempty q \<longleftrightarrow> has q Qclosed \<or> q_blocks q \<noteq> []"

text \<open>One turn of the loop of \<open>qwait\<close>: 1, 0, -1, or asleep on \<open>q->rr\<close> until \<open>notempty\<close>.\<close>

datatype wait = Wdata | Weof | Werror | Wsleep

definition qwait :: "queue \<Rightarrow> queue \<times> wait" where
  "qwait q = (if q_blocks q \<noteq> [] then (q, Wdata)
     else if has q Qclosed then
       let q = q\<lparr>q_eof := q_eof q + 1\<rparr> in
       if q_eof q > 3 then (q, Werror)
       else if cstr (q_err q) 0 \<noteq> [] \<and> cstr (q_err q) 0 \<noteq> Ehungup then (q, Werror)
       else (q, Weof)
     else (setf Qstarve q, Wsleep))"

definition qbread :: "(nat \<Rightarrow> bool) \<Rightarrow> queue \<Rightarrow> nat \<Rightarrow> (queue \<times> event list \<times> block option reply) option" where
  "qbread km q len = (case qwait q of
       (q, Weof) \<Rightarrow> Some (q, [], Ret None)
     | (q, Werror) \<Rightarrow> Some (q, [], Err (Raised (cstr (q_err q) 0)))
     | (q, Wsleep) \<Rightarrow> Some (q, [], Asleep 0)
     | (q, Wdata) \<Rightarrow>
        (case qremove q of (q, None) \<Rightarrow> None
         | (q, Some nb) \<Rightarrow> let n = BLEN nb in
            if n > len then
              if \<not> has q Qmsg then
                (case iallocb km (n - len) of None \<Rightarrow> Some (q, [], Err Exhausted)
                 | Some b \<Rightarrow> do {
                     xs \<leftarrow> rdn (b_mem nb) (b_rp nb + len) (n - len);
                     b \<leftarrow> bput b xs;
                     let (q, ev) = qwakeup_unlock (qputback q b);
                     Some (q, ev, Ret (Some (nb\<lparr>b_wp := b_rp nb + len\<rparr>))) })
              else let (q, ev) = qwakeup_unlock q in
                Some (q, ev, Ret (Some (nb\<lparr>b_wp := b_rp nb + len\<rparr>)))
            else let (q, ev) = qwakeup_unlock q in Some (q, ev, Ret (Some nb))))"

text \<open>
  \<open>qread\<close> in its two critical sections. \<open>grab\<close> is the loop that takes the first block and the
  following ones that fit completely; \<open>m\<close> is the length of the block at the front.
\<close>

function grab :: "queue \<Rightarrow> nat \<Rightarrow> nat \<Rightarrow> nat \<Rightarrow> queue \<times> block list \<times> nat" where
  "grab q n m len = (case qremove q of (q', None) \<Rightarrow> (q', [], n)
     | (q', Some b) \<Rightarrow> let n = n + m in
        case q_blocks q' of [] \<Rightarrow> (q', [b], n)
        | b' # _ \<Rightarrow> let m = BLEN b' in
           if n + m > len then (q', [b], n)
           else let (q', bs, n) = grab q' n m len in (q', b # bs, n))"
  by pat_completeness auto

termination
  by (relation "measure (\<lambda>(q, n, m, len). length (q_blocks q))")
    (auto simp: qremove_def split: list.splits)

declare grab.simps [simp del]

datatype taken = Took "block list" nat | Waited wait

function qread_take :: "queue \<Rightarrow> nat \<Rightarrow> queue \<times> taken" where
  "qread_take q len = (case qwait q of
       (q', Wdata) \<Rightarrow>
         if has q' Qcoalesce then
           (case q_blocks q' of [] \<Rightarrow> (q', Waited Wdata)
            | b # _ \<Rightarrow> if BLEN b = 0 then qread_take (fst (qremove q')) len
               else let (q', first, n) = grab q' 0 (BLEN b) len in (q', Took first n))
         else (case qremove q' of (q', None) \<Rightarrow> (q', Waited Wdata)
            | (q', Some b) \<Rightarrow> (q', Took [b] (BLEN b)))
     | (q', w) \<Rightarrow> (q', Waited w))"
  by pat_completeness auto

termination
  by (relation "measure (\<lambda>(q, len). length (q_blocks q))")
    (auto simp: qremove_def qwait_def Let_def split: if_splits list.splits)

declare qread_take.simps [simp del]

text \<open>The second section, with the queue as the writers left it meanwhile; \<open>bs\<close> is what \<open>bl2mem\<close> left.\<close>

definition qread_put :: "queue \<Rightarrow> block list \<Rightarrow> nat \<Rightarrow> queue \<times> event list \<times> nat" where
  "qread_put q bs n = (let (q, n) = (case bs of [] \<Rightarrow> (q, n)
         | b # _ \<Rightarrow> (if has q Qmsg then q else qputback q b, n - BLEN b));
       (q, ev) = qwakeup_unlock q
     in (q, ev, n))"

definition qread :: "queue \<Rightarrow> byte list \<Rightarrow> nat \<Rightarrow> nat \<Rightarrow> (queue \<times> event list \<times> byte list \<times> nat reply) option" where
  "qread q m p len = (case qread_take q len of
       (q, Waited w) \<Rightarrow> (case w of
           Weof \<Rightarrow> Some (q, [], m, Ret 0)
         | Werror \<Rightarrow> Some (q, [], m, Err (Raised (cstr (q_err q) 0)))
         | Wsleep \<Rightarrow> Some (q, [], m, Asleep 0)
         | Wdata \<Rightarrow> None)
     | (q, Took first n) \<Rightarrow> do {
         (m, bs) \<leftarrow> bl2mem m p first len;
         let (q, ev, n) = qread_put q bs n;
         Some (q, ev, m, Ret n) })"

section \<open>Writes under flow control\<close>

definition qnotfull :: "queue \<Rightarrow> bool" where
  "qnotfull q \<longleftrightarrow> q_len q < q_limit q \<or> has q Qclosed"

text \<open>The loop at the end of \<open>qbwrite\<close>, where a writer that was woken continues.\<close>

definition qbwrite_wait :: "queue \<Rightarrow> nat \<Rightarrow> queue \<times> nat reply" where
  "qbwrite_wait q n = (if q_noblock q \<or> qnotfull q then (q, Ret n) else (setf Qflow q, Asleep n))"

text \<open>\<open>qbwrite\<close> up to that loop; \<open>None\<close> where it goes on to the loop.\<close>

definition qbwrite_add :: "queue \<Rightarrow> block \<Rightarrow> queue \<times> event list \<times> nat reply option" where
  "qbwrite_add q b = (let n = BLEN b in
     if q_bypass q then (q, [Bypass b], Some (Ret n))
     else if has q Qclosed then (q, [], Some (Err (Raised (cstr (q_err q) 0))))
     else if q_len q \<ge> q_limit q \<and> q_noblock q then (q, [], Some (Ret n))
     else let q = q\<lparr>q_blocks := q_blocks q @ [b], q_len := q_len q + int (BALLOC b), q_dlen := q_dlen q + int n\<rparr>;
              (q, dowakeup) = unstarve q
          in (q, (if q_kick q \<and> (dowakeup \<or> has q Qkick) then [Kick] else []) @ (if dowakeup then [Wake_rr] else []), None))"

definition qbwrite :: "queue \<Rightarrow> block \<Rightarrow> queue \<times> event list \<times> nat reply" where
  "qbwrite q b = (case qbwrite_add q b of (q, ev, Some r) \<Rightarrow> (q, ev, r)
     | (q, ev, None) \<Rightarrow> let (q, r) = qbwrite_wait q (BLEN b) in (q, ev, r))"

text \<open>
  \<open>qwrite\<close> from \<open>sofar\<close>. When a \<open>qbwrite\<close> sleeps, its block is queued: \<open>Asleep\<close> has the number of
  bytes queued by then, and \<open>qwrite_resume\<close> is what runs after the wakeup.
\<close>

function qwrite_from :: "(nat \<Rightarrow> bool) \<Rightarrow> queue \<Rightarrow> byte list \<Rightarrow> nat \<Rightarrow> nat \<Rightarrow> nat
    \<Rightarrow> (queue \<times> event list \<times> nat reply) option" where
  "qwrite_from km q m p len sofar = (let n = (if len - sofar > Maxatomic then Maxatomic else len - sofar) in
     case iallocb km n of None \<Rightarrow> Some (q, [], Err Exhausted)
     | Some b \<Rightarrow> do {
         xs \<leftarrow> rdn m (p + sofar) n;
         b \<leftarrow> bput b xs;
         (case qbwrite q b of
            (q, ev, Err e) \<Rightarrow> Some (q, ev, Err e)
          | (q, ev, Asleep _) \<Rightarrow> Some (q, ev, Asleep (sofar + n))
          | (q, ev, Ret _) \<Rightarrow>
              if sofar + n < len \<and> \<not> has q Qmsg then do {
                (q, ev', r) \<leftarrow> qwrite_from km q m p len (sofar + n);
                Some (q, ev @ ev', r) }
              else Some (q, ev, Ret len)) })"
  by pat_completeness auto

termination
  by (relation "measure (\<lambda>(km, q, m, p, len, sofar). len - sofar)") (auto split: if_splits)

declare qwrite_from.simps [simp del]

definition qwrite :: "(nat \<Rightarrow> bool) \<Rightarrow> queue \<Rightarrow> byte list \<Rightarrow> nat \<Rightarrow> nat \<Rightarrow> (queue \<times> event list \<times> nat reply) option" where
  "qwrite km q m p len = qwrite_from km q m p len 0"

definition qwrite_resume :: "(nat \<Rightarrow> bool) \<Rightarrow> queue \<Rightarrow> byte list \<Rightarrow> nat \<Rightarrow> nat \<Rightarrow> nat
    \<Rightarrow> (queue \<times> event list \<times> nat reply) option" where
  "qwrite_resume km q m p len sofar = (case qbwrite_wait q sofar of
       (q, Ret _) \<Rightarrow> if sofar < len \<and> \<not> has q Qmsg then qwrite_from km q m p len sofar else Some (q, [], Ret len)
     | (q, r) \<Rightarrow> Some (q, [], r))"

text \<open>\<open>qiwrite\<close>: no flow control; \<open>dowakeup\<close> stays set once a block found the reader starved.\<close>

function qiwrite_from :: "(nat \<Rightarrow> bool) \<Rightarrow> queue \<Rightarrow> byte list \<Rightarrow> nat \<Rightarrow> nat \<Rightarrow> nat \<Rightarrow> bool
    \<Rightarrow> (queue \<times> event list \<times> nat) option" where
  "qiwrite_from km q m p len sofar dowakeup =
    (let n = (if len - sofar > Maxatomic then Maxatomic else len - sofar) in
     case iallocb km n of None \<Rightarrow> Some (q, [], sofar)
     | Some b \<Rightarrow> do {
         xs \<leftarrow> rdn m (p + sofar) n;
         b \<leftarrow> bput b xs;
         let q = q\<lparr>q_blocks := q_blocks q @ [b], q_len := q_len q + int (BALLOC b), q_dlen := q_dlen q + int n\<rparr>;
         let (q, w) = unstarve q;
         let dowakeup = (dowakeup \<or> w);
         let ev = (if dowakeup then (if q_kick q then [Kick] else []) @ [Wake_rr] else []);
         if sofar + n < len \<and> \<not> has q Qmsg then do {
           (q, ev', r) \<leftarrow> qiwrite_from km q m p len (sofar + n) dowakeup;
           Some (q, ev @ ev', r) }
         else Some (q, ev, sofar + n) })"
  by pat_completeness auto

termination
  by (relation "measure (\<lambda>(km, q, m, p, len, sofar, w). len - sofar)") (auto split: if_splits)

declare qiwrite_from.simps [simp del]

definition qiwrite :: "(nat \<Rightarrow> bool) \<Rightarrow> queue \<Rightarrow> byte list \<Rightarrow> nat \<Rightarrow> nat \<Rightarrow> (queue \<times> event list \<times> nat) option" where
  "qiwrite km q m p len = qiwrite_from km q m p len 0 False"

section \<open>Closing, reopening, inspecting\<close>

definition qclose :: "queue \<Rightarrow> (queue \<times> event list) option" where
  "qclose q = do {
     let q = clrf (Qflow OR Qstarve) (setf Qclosed q);
     e \<leftarrow> wrn (q_err q) 0 (Ehungup @ [0]);
     Some (q\<lparr>q_err := e, q_blocks := [], q_len := 0, q_dlen := 0, q_noblock := False\<rparr>, [Wake_rr, Wake_wr]) }"

definition qhangup :: "queue \<Rightarrow> byte list option \<Rightarrow> (queue \<times> event list) option" where
  "qhangup q msg = do {
     let q = setf Qclosed q;
     e \<leftarrow> (case msg of None \<Rightarrow> wrn (q_err q) 0 (Ehungup @ [0])
           | Some s \<Rightarrow> if s = [] then wrn (q_err q) 0 (Ehungup @ [0]) else kstrcpy (q_err q) s ERRMAX);
     Some (q\<lparr>q_err := e\<rparr>, [Wake_rr, Wake_wr]) }"

definition qreopen :: "queue \<Rightarrow> queue" where
  "qreopen q = (setf Qstarve (clrf Qclosed q))\<lparr>q_eof := 0, q_limit := q_inilim q\<rparr>"

definition qlen :: "queue \<Rightarrow> int" where
  "qlen q = q_dlen q"

definition qwindow :: "queue \<Rightarrow> int" where
  "qwindow q = (let l = q_limit q - q_len q in if l < 0 then 0 else l)"

definition qcanread :: "queue \<Rightarrow> bool" where
  "qcanread q \<longleftrightarrow> q_blocks q \<noteq> []"

definition qsetlimit :: "queue \<Rightarrow> int \<Rightarrow> queue" where
  "qsetlimit q limit = q\<lparr>q_limit := limit\<rparr>"

definition qnoblock :: "queue \<Rightarrow> bool \<Rightarrow> queue" where
  "qnoblock q onoff = q\<lparr>q_noblock := onoff\<rparr>"

definition qflush :: "queue \<Rightarrow> queue \<times> event list" where
  "qflush q = (q\<lparr>q_blocks := [], q_len := 0, q_dlen := 0\<rparr>, [Wake_wr])"

definition qfull :: "queue \<Rightarrow> bool" where
  "qfull q \<longleftrightarrow> has q Qflow"

definition qisclosed :: "queue \<Rightarrow> bool" where
  "qisclosed q \<longleftrightarrow> has q Qclosed"

definition qstate :: "queue \<Rightarrow> u32" where
  "qstate q = q_state q"

definition qclosed :: "queue \<Rightarrow> bool" where
  "qclosed q \<longleftrightarrow> has q Qclosed"

text \<open>\<open>qfree\<close> closes the queue and frees it: only the events are left.\<close>

definition qfree :: "queue \<Rightarrow> event list option" where
  "qfree q = map_option snd (qclose q)"

text \<open>\<open>pullupqueue\<close> replaces the chain; the counters stay.\<close>

definition pullupqueue :: "(nat \<Rightarrow> bool) \<Rightarrow> queue \<Rightarrow> nat \<Rightarrow> queue kres" where
  "pullupqueue km q n = (case q_blocks q of [] \<Rightarrow> None
     | b # _ \<Rightarrow> if BLEN b \<ge> n then Some (Inr q)
        else map_option (map_sum id (\<lambda>bs. q\<lparr>q_blocks := bs\<rparr>)) (pullupblock km (q_blocks q) n))"

end
