(* ===== verification/QioInv.thy ===== *)
theory QioInv
  imports Qio
begin

text \<open>
  The invariant of a queue, and for every operation of \<open>svcs/qio.c\<close> that it keeps the invariant and
  what it does to the bytes queued, on every branch.
\<close>


section \<open>State bits\<close>

lemma has_setf: "has (setf f q) g \<longleftrightarrow> has q g \<or> f AND g \<noteq> 0"
  by (simp add: has_def setf_def bit.conj_disj_distrib2 or_eq_0_iff)

lemma has_clrf: "has (clrf f q) g \<longleftrightarrow> q_state q AND (NOT f AND g) \<noteq> 0"
  by (simp add: has_def clrf_def and.assoc)

lemma has_Q [simp]:
  "has (setf Qflow q) Qflow" "has (setf Qstarve q) Qstarve" "has (setf Qclosed q) Qclosed"
  "\<not> has (clrf Qflow q) Qflow" "\<not> has (clrf Qstarve q) Qstarve" "\<not> has (clrf Qclosed q) Qclosed"
  "has (setf Qflow q) Qstarve = has q Qstarve" "has (setf Qflow q) Qclosed = has q Qclosed"
  "has (setf Qflow q) Qmsg = has q Qmsg" "has (setf Qflow q) Qcoalesce = has q Qcoalesce"
  "has (setf Qstarve q) Qflow = has q Qflow" "has (setf Qstarve q) Qclosed = has q Qclosed"
  "has (setf Qstarve q) Qmsg = has q Qmsg" "has (setf Qstarve q) Qcoalesce = has q Qcoalesce"
  "has (setf Qclosed q) Qflow = has q Qflow" "has (setf Qclosed q) Qstarve = has q Qstarve"
  "has (setf Qclosed q) Qmsg = has q Qmsg" "has (setf Qclosed q) Qcoalesce = has q Qcoalesce"
  "has (clrf Qflow q) Qstarve = has q Qstarve" "has (clrf Qflow q) Qclosed = has q Qclosed"
  "has (clrf Qflow q) Qmsg = has q Qmsg" "has (clrf Qflow q) Qcoalesce = has q Qcoalesce"
  "has (clrf Qstarve q) Qflow = has q Qflow" "has (clrf Qstarve q) Qclosed = has q Qclosed"
  "has (clrf Qstarve q) Qmsg = has q Qmsg" "has (clrf Qstarve q) Qcoalesce = has q Qcoalesce"
  "has (clrf Qclosed q) Qflow = has q Qflow" "has (clrf Qclosed q) Qstarve = has q Qstarve"
  "has (clrf Qclosed q) Qmsg = has q Qmsg" "has (clrf Qclosed q) Qcoalesce = has q Qcoalesce"
  by (simp_all add: has_setf has_clrf) (simp_all add: has_def)

lemma setf_fields [simp]:
  "q_blocks (setf f q) = q_blocks q" "q_len (setf f q) = q_len q" "q_dlen (setf f q) = q_dlen q"
  "q_limit (setf f q) = q_limit q" "q_err (setf f q) = q_err q" "q_noblock (setf f q) = q_noblock q"
  "q_eof (setf f q) = q_eof q" "q_bypass (setf f q) = q_bypass q" "q_kick (setf f q) = q_kick q"
  by (simp_all add: setf_def)

lemma clrf_fields [simp]:
  "q_blocks (clrf f q) = q_blocks q" "q_len (clrf f q) = q_len q" "q_dlen (clrf f q) = q_dlen q"
  "q_limit (clrf f q) = q_limit q" "q_err (clrf f q) = q_err q" "q_noblock (clrf f q) = q_noblock q"
  "q_eof (clrf f q) = q_eof q" "q_bypass (clrf f q) = q_bypass q" "q_kick (clrf f q) = q_kick q"
  by (simp_all add: clrf_def)

lemma has_fields [simp]:
  "has (q\<lparr>q_blocks := bs\<rparr>) f = has q f" "has (q\<lparr>q_len := l\<rparr>) f = has q f" "has (q\<lparr>q_dlen := l\<rparr>) f = has q f"
  "has (q\<lparr>q_limit := l\<rparr>) f = has q f" "has (q\<lparr>q_err := e\<rparr>) f = has q f" "has (q\<lparr>q_eof := l\<rparr>) f = has q f"
  "has (q\<lparr>q_noblock := nb\<rparr>) f = has q f"
  by (simp_all add: has_def)

section \<open>The invariant\<close>

text \<open>The counters are the space and the data of the chain, and the chain is well formed.\<close>

definition wf_queue :: "queue \<Rightarrow> bool" where
  "wf_queue q \<longleftrightarrow> wf_chain (q_blocks q) \<and> q_len q = int (blockalloclen (q_blocks q)) \<and>
     q_dlen q = int (blocklen (q_blocks q)) \<and> length (q_err q) = ERRMAX"

definition qbytes :: "queue \<Rightarrow> byte list" where
  "qbytes q = cbytes (q_blocks q)"

lemma wf_queue_bits [simp]: "wf_queue (setf f q) = wf_queue q" "wf_queue (clrf f q) = wf_queue q"
  "qbytes (setf f q) = qbytes q" "qbytes (clrf f q) = qbytes q"
  by (simp_all add: wf_queue_def qbytes_def)

lemma wf_queue_other [simp]: "wf_queue (q\<lparr>q_eof := n\<rparr>) = wf_queue q" "wf_queue (q\<lparr>q_limit := l\<rparr>) = wf_queue q"
  "wf_queue (q\<lparr>q_noblock := nb\<rparr>) = wf_queue q"
  "qbytes (q\<lparr>q_eof := n\<rparr>) = qbytes q" "qbytes (q\<lparr>q_limit := l\<rparr>) = qbytes q" "qbytes (q\<lparr>q_noblock := nb\<rparr>) = qbytes q"
  by (simp_all add: wf_queue_def qbytes_def)

lemma restart_simps [simp]:
  "q_dlen (fst (restart q t)) = q_dlen q" "q_err (fst (restart q t)) = q_err q"
  "wf_queue (fst (restart q t)) = wf_queue q" "qbytes (fst (restart q t)) = qbytes q"
  "q_blocks (fst (restart q t)) = q_blocks q" "q_len (fst (restart q t)) = q_len q"
  "has (fst (restart q t)) Qclosed = has q Qclosed" "has (fst (restart q t)) Qmsg = has q Qmsg"
  "has (fst (restart q t)) Qstarve = has q Qstarve"
  by (simp_all add: restart_def)

lemma qwakeup_simps [simp]:
  "q_dlen (fst (qwakeup_unlock q)) = q_dlen q" "q_err (fst (qwakeup_unlock q)) = q_err q"
  "wf_queue (fst (qwakeup_unlock q)) = wf_queue q" "qbytes (fst (qwakeup_unlock q)) = qbytes q"
  "q_blocks (fst (qwakeup_unlock q)) = q_blocks q" "q_len (fst (qwakeup_unlock q)) = q_len q"
  "has (fst (qwakeup_unlock q)) Qclosed = has q Qclosed" "has (fst (qwakeup_unlock q)) Qmsg = has q Qmsg"
  "has (fst (qwakeup_unlock q)) Qstarve = has q Qstarve"
  by (simp_all add: qwakeup_unlock_def)

lemma unstarve_simps [simp]:
  "q_bypass (fst (unstarve q)) = q_bypass q" "q_dlen (fst (unstarve q)) = q_dlen q" "q_err (fst (unstarve q)) = q_err q"
  "wf_queue (fst (unstarve q)) = wf_queue q" "qbytes (fst (unstarve q)) = qbytes q"
  "q_blocks (fst (unstarve q)) = q_blocks q" "q_len (fst (unstarve q)) = q_len q" "snd (unstarve q) = has q Qstarve"
  "q_limit (fst (unstarve q)) = q_limit q" "q_noblock (fst (unstarve q)) = q_noblock q" 
  "q_kick (fst (unstarve q)) = q_kick q"
  "has (fst (unstarve q)) Qclosed = has q Qclosed" "has (fst (unstarve q)) Qmsg = has q Qmsg"
  "\<not> has (fst (unstarve q)) Qstarve"
  by (simp_all add: unstarve_def)

lemma add_block:
  assumes "wf_queue q" "wf_block b"
  shows "wf_queue (q\<lparr>q_blocks := q_blocks q @ [b], q_len := q_len q + int (BALLOC b), q_dlen := q_dlen q + int (BLEN b)\<rparr>)"
    "qbytes (q\<lparr>q_blocks := q_blocks q @ [b], q_len := q_len q + int (BALLOC b), q_dlen := q_dlen q + int (BLEN b)\<rparr>)
      = qbytes q @ bbytes b"
  using assms by (simp_all add: wf_queue_def qbytes_def)

lemma qaddlist_ok:
  assumes "wf_queue q" "wf_chain bs"
  shows "wf_queue (qaddlist q bs)" "qbytes (qaddlist q bs) = qbytes q @ cbytes bs"
  using assms by (simp_all add: wf_queue_def qbytes_def qaddlist_def)

lemma qremove_ok:
  assumes "wf_queue q" "q_blocks q = b # bs"
  shows "\<exists>q'. qremove q = (q', Some b) \<and> wf_queue q' \<and> wf_block b \<and> q_blocks q' = bs \<and>
    qbytes q = bbytes b @ qbytes q' \<and> q_state q' = q_state q \<and> q_limit q' = q_limit q"
  using assms by (simp add: wf_queue_def qbytes_def qremove_def)

lemma qputback_ok:
  assumes "wf_queue q" "wf_block b"
  shows "wf_queue (qputback q b)" "qbytes (qputback q b) = bbytes b @ qbytes q"
  using assms by (simp_all add: wf_queue_def qbytes_def qputback_def)

section \<open>Consumers\<close>

lemma qget_ok:
  assumes "wf_queue q"
  shows "\<exists>q' ev. (q_blocks q = [] \<and> qget q = (q', ev, None) \<and> wf_queue q' \<and> qbytes q' = [] \<and> has q' Qstarve) \<or>
    (\<exists>b. qget q = (q', ev, Some b) \<and> wf_queue q' \<and> wf_block b \<and> q_blocks q = b # q_blocks q')"
proof (cases "q_blocks q")
  case Nil
  with assms show ?thesis by (simp add: qget_def qbytes_def)
next
  case (Cons b bs)
  let ?q = "q\<lparr>q_blocks := bs, q_len := q_len q - int (BALLOC b), q_dlen := q_dlen q - int (BLEN b)\<rparr>"
  have "wf_queue ?q" "wf_block b" using assms Cons by (simp_all add: wf_queue_def)
  then show ?thesis using Cons by (simp add: qget_def Let_def split_beta)
qed

lemma discard_ok:
  "\<lbrakk> wf_chain bs; l = int (blockalloclen bs); d = int (blocklen bs); sofar \<le> len \<rbrakk> \<Longrightarrow>
    \<exists>r. discard bs l d sofar len = (r, int (blockalloclen r), int (blocklen r), min len (sofar + blocklen bs)) \<and>
      wf_chain r \<and> cbytes r = drop (len - sofar) (cbytes bs)"
proof (induction bs l d sofar len rule: discard.induct)
  case (1 bs l d sofar len)
  show ?case
  proof (cases "sofar < len \<and> bs \<noteq> []")
    case False
    then show ?thesis using "1.prems" by (subst discard.simps) (auto split: list.split)
  next
    case True
    then obtain b rest where bs: "bs = b # rest" by (cases bs) auto
    have wf: "wf_block b" "wf_chain rest" using "1.prems" bs by simp_all
    show ?thesis
    proof (cases "BLEN b \<le> len - sofar")
      case fits: True
      have "\<exists>r. discard rest (l - int (BALLOC b)) (d - int (BLEN b)) (sofar + BLEN b) len =
          (r, int (blockalloclen r), int (blocklen r), min len (sofar + BLEN b + blocklen rest)) \<and>
          wf_chain r \<and> cbytes r = drop (len - (sofar + BLEN b)) (cbytes rest)"
        by (rule "1.IH"(1) [OF _ bs refl fits]) (use True wf "1.prems" fits bs in auto)
      then show ?thesis using fits True bs wf
        by (subst discard.simps) (auto simp: chain_simps add.assoc)
    next
      case False
      define n where "n = len - sofar"
      have len: "len = sofar + n" "n \<le> BLEN b" using True False by (simp_all add: n_def)
      have "discard bs l d sofar len = discard (b\<lparr>b_rp := b_rp b + n\<rparr> # rest) l (d - int n) (sofar + n) len"
        using False True bs unfolding n_def by (subst discard.simps) simp
      also have "\<dots> = (b\<lparr>b_rp := b_rp b + n\<rparr> # rest, l, d - int n, len)"
        unfolding len by (subst discard.simps) simp
      finally show ?thesis using bs wf "1.prems" len by (simp add: chain_simps)
    qed
  qed
qed

lemma qdiscard_ok:
  assumes "wf_queue q"
  shows "\<exists>q' ev. qdiscard q len = (q', ev, min len (length (qbytes q))) \<and> wf_queue q' \<and>
    qbytes q' = drop len (qbytes q)"
proof -
  obtain r where r: "discard (q_blocks q) (q_len q) (q_dlen q) 0 len =
      (r, int (blockalloclen r), int (blocklen r), min len (blocklen (q_blocks q)))" "wf_chain r"
      "cbytes r = drop len (cbytes (q_blocks q))"
    using discard_ok [of "q_blocks q" "q_len q" "q_dlen q" 0 len] assms by (auto simp: wf_queue_def)
  let ?q = "q\<lparr>q_blocks := r, q_len := int (blockalloclen r), q_dlen := int (blocklen r)\<rparr>"
  have "wf_queue ?q" "qbytes ?q = drop len (qbytes q)" using assms r by (simp_all add: wf_queue_def qbytes_def)
  then show ?thesis using r assms by (simp add: qdiscard_def Let_def split_beta qbytes_def length_cbytes wf_queue_def)
qed

lemma drop_empty_ok:
  "\<lbrakk> wf_chain bs; l = int (blockalloclen bs) \<rbrakk> \<Longrightarrow> \<exists>r. drop_empty bs l = (r, int (blockalloclen r)) \<and>
    wf_chain r \<and> cbytes r = cbytes bs \<and> blocklen r = blocklen bs \<and> (r \<noteq> [] \<longrightarrow> 0 < BLEN (hd r))"
proof (induction bs arbitrary: l)
  case (Cons b bs)
  show ?case
  proof (cases "BLEN b > 0")
    case False
    then have "bbytes b = []" using Cons.prems length_bbytes [of b] by simp
    with False Cons.prems Cons.IH [of "l - int (BALLOC b)"] show ?thesis by auto
  qed (use Cons.prems in simp)
qed simp

lemma qconsume_ok:
  assumes "wf_queue q" "p + len \<le> length m"
  shows "\<exists>q' ev m' r. qconsume q m p len = Some (q', ev, m', r) \<and> wf_queue q' \<and>
    (if qbytes q = [] then r = -1 \<and> m' = m \<and> qbytes q' = [] \<and> has q' Qstarve
     else \<exists>n. r = int n \<and> n \<le> len \<and> n \<le> length (qbytes q) \<and> (0 < len \<longrightarrow> 0 < n) \<and>
       wrn m p (take n (qbytes q)) = Some m' \<and> (\<not> has q Qmsg \<longrightarrow> qbytes q' = drop n (qbytes q)) \<and>
       (\<exists>ys. qbytes q = take n (qbytes q) @ ys @ qbytes q'))"
proof -
  obtain bs where bs: "drop_empty (q_blocks q) (q_len q) = (bs, int (blockalloclen bs))" "wf_chain bs"
    "cbytes bs = qbytes q" "blocklen bs = blocklen (q_blocks q)" "bs \<noteq> [] \<longrightarrow> 0 < BLEN (hd bs)"
    using drop_empty_ok [of "q_blocks q" "q_len q"] assms by (auto simp: wf_queue_def qbytes_def)
  have e: "qbytes q = [] \<longleftrightarrow> bs = []"
    using bs length_cbytes [OF bs(2)] by (cases bs) auto
  show ?thesis
  proof (cases bs)
    case Nil
    then show ?thesis using bs e assms by (simp add: qconsume_def wf_queue_def qbytes_def)
  next
    case (Cons b rest)
    define n where "n = (if BLEN b < len then BLEN b else len)"
    have n: "n \<le> BLEN b" "n \<le> len" "0 < len \<longrightarrow> 0 < n" using bs(5) Cons by (auto simp: n_def)
    have wf: "wf_block b" "wf_chain rest" using bs Cons by simp_all
    have dl: "q_dlen q = int (BLEN b + blocklen rest)" using assms bs Cons by (simp add: wf_queue_def)
    obtain m' where m': "wrn m p (take n (bbytes b)) = Some m'"
      using assms n wf wrn_Some_iff [of m p "take n (bbytes b)"] by (auto simp: chain_simps)
    let ?b = "b\<lparr>b_rp := b_rp b + n\<rparr>"
    let ?q = "q\<lparr>q_blocks := bs, q_len := int (blockalloclen bs), q_dlen := q_dlen q - int n\<rparr>"
    let ?q' = "if has q Qmsg \<or> n = BLEN b
      then ?q\<lparr>q_blocks := rest, q_len := int (blockalloclen bs) - int (BALLOC ?b), q_dlen := q_dlen q - int n - int (BLEN ?b)\<rparr>
      else ?q\<lparr>q_blocks := ?b # rest\<rparr>"
    have tk: "take n (qbytes q) = take n (bbytes b)" "n \<le> length (qbytes q)"
      using bs(3) Cons n wf by (auto simp: chain_simps simp flip: bs(3))
    have q': "wf_queue ?q'"
      using assms wf n Cons bs dl by (auto simp: wf_queue_def chain_simps)
    have "\<not> has q Qmsg \<longrightarrow> qbytes ?q' = drop n (qbytes q)"
      using wf n Cons by (auto simp: qbytes_def chain_simps simp flip: bs(3) [unfolded qbytes_def])
    moreover have "\<exists>ys. qbytes q = take n (qbytes q) @ ys @ qbytes ?q'"
      using wf n Cons unfolding tk(1)
      by (intro exI [of _ "if has q Qmsg then drop n (bbytes b) else []"]) (auto simp: qbytes_def chain_simps simp flip: bs(3) [unfolded qbytes_def])
    moreover have "qconsume q m p len = Some (fst (restart ?q' (half (q_limit ?q'))),
        snd (restart ?q' (half (q_limit ?q'))), m', int n)"
      using bs(1) Cons m' n wf
      by (simp add: qconsume_def Let_def split_beta chain_simps n_def [symmetric] bget_bbytes)
    ultimately show ?thesis using e Cons m' n tk q' by simp
  qed
qed


section \<open>Producers\<close>

lemma qproduce_ok:
  assumes "wf_queue q" "p + len \<le> length m"
  shows "\<exists>q' ev r. qproduce km q m p len = Some (q', ev, r) \<and> wf_queue q' \<and>
    (if has q Qclosed \<or> q_len q \<ge> q_limit q \<or> \<not> km len then r = -1 \<and> qbytes q' = qbytes q \<and> q_blocks q' = q_blocks q
     else r = int len \<and> qbytes q' = qbytes q @ take len (drop p m) \<and> \<not> has q' Qstarve \<and>
       (has q Qstarve \<longrightarrow> Wake_rr \<in> set ev))"
proof (cases "has q Qclosed \<or> q_len q \<ge> q_limit q \<or> \<not> km len")
  case True
  then show ?thesis using assms by (auto simp: qproduce_def iallocb_newb)
next
  case False
  obtain b where b: "bput (newb len) (take len (drop p m)) = Some b" "wf_block b" "bbytes b = take len (drop p m)"
    "BALLOC b = len" "BLEN b = len"
    using bput_newb [of "take len (drop p m)" len] assms(2) by auto
  have "rdn m p len = Some (take len (drop p m))" using assms(2) by (simp add: rdn_def)
  then show ?thesis using False b add_block [OF assms(1) b(2)]
    by (simp add: qproduce_def iallocb_newb Let_def split_beta)
qed

lemma pass_chain_ok:
  assumes "wf_queue q" "wf_chain bs"
  shows "wf_queue (fst (pass_chain q bs))" "qbytes (fst (pass_chain q bs)) = qbytes q @ cbytes bs"
    "q_blocks (fst (pass_chain q bs)) = q_blocks q @ bs"
    "\<not> has (fst (pass_chain q bs)) Qstarve" "has q Qstarve \<Longrightarrow> Wake_rr \<in> set (snd (pass_chain q bs))"
  using qaddlist_ok [OF assms] by (auto simp: pass_chain_def Let_def split_beta qaddlist_def)

lemma qbwrite_add_ok:
  assumes "wf_queue q" "wf_block b" "qbwrite_add q b = (q', ev, r)"
  shows "wf_queue q' \<and> (q' = q \<or> q_blocks q' = q_blocks q @ [b] \<and> \<not> has q' Qstarve \<and> (has q Qstarve \<longrightarrow> Wake_rr \<in> set ev))"
  using assms(1,3) add_block [OF assms(1,2)] by (auto simp: qbwrite_add_def Let_def split_beta split: if_splits)

lemma qbwrite_ok:
  assumes "wf_queue q" "wf_block b"
  shows "\<exists>q' ev r. qbwrite q b = (q', ev, r) \<and> wf_queue q' \<and>
    (if q_bypass q then q' = q \<and> r = Ret (BLEN b) \<and> ev = [Bypass b]
     else if has q Qclosed then q' = q \<and> r = Err (Raised (cstr (q_err q) 0)) \<and> ev = []
     else if q_len q \<ge> q_limit q \<and> q_noblock q then q' = q \<and> r = Ret (BLEN b) \<and> ev = []
     else q_blocks q' = q_blocks q @ [b] \<and> \<not> has q' Qstarve \<and> (has q Qstarve \<longrightarrow> Wake_rr \<in> set ev) \<and>
       has q' Qmsg = has q Qmsg \<and> q_noblock q' = q_noblock q \<and> q_bypass q' = q_bypass q \<and> \<not> has q' Qclosed \<and>
       r = (if q_noblock q \<or> q_len q' < q_limit q' then Ret (BLEN b) else Asleep (BLEN b)) \<and>
       (r = Asleep (BLEN b) \<longrightarrow> has q' Qflow))"
  using assms add_block [OF assms]
  by (auto simp: qbwrite_def qbwrite_add_def qbwrite_wait_def Let_def split_beta qnotfull_def)


section \<open>Blocking reads\<close>

lemma qwait_cases:
  assumes "wf_queue q"
  obtains (data) "q_blocks q \<noteq> []" "qwait q = (q, Wdata)"
  | (eof) q' where "q_blocks q = []" "has q Qclosed" "q' = q\<lparr>q_eof := q_eof q + 1\<rparr>" "qwait q = (q', Weof)"
      "q_eof q < 3" "cstr (q_err q) 0 = [] \<or> cstr (q_err q) 0 = Ehungup"
  | (err) q' where "q_blocks q = []" "has q Qclosed" "q' = q\<lparr>q_eof := q_eof q + 1\<rparr>" "qwait q = (q', Werror)"
      "3 \<le> q_eof q \<or> (cstr (q_err q) 0 \<noteq> [] \<and> cstr (q_err q) 0 \<noteq> Ehungup)"
  | (sleep) "q_blocks q = []" "\<not> has q Qclosed" "qwait q = (setf Qstarve q, Wsleep)"
proof (cases "q_blocks q = [] \<and> has q Qclosed")
  case True
  then show thesis using eof err
    by (cases "q_eof q < 3"; cases "cstr (q_err q) 0 \<noteq> [] \<and> cstr (q_err q) 0 \<noteq> Ehungup")
      (auto simp: qwait_def Let_def)
qed (use data sleep in \<open>auto simp: qwait_def\<close>)

lemma qbread_split:
  assumes "wf_block nb" "len < BLEN nb"
  shows "\<exists>b. (do { xs \<leftarrow> rdn (b_mem nb) (b_rp nb + len) (BLEN nb - len); bput (newb (BLEN nb - len)) xs }) = Some b \<and>
    wf_block b \<and> bbytes b = drop len (bbytes nb)"
proof -
  have r: "rdn (b_mem nb) (b_rp nb + len) (BLEN nb - len) = Some (drop len (bbytes nb))"
    using assms by (auto simp: rdn_def bbytes_def BLEN_def wf_block_def drop_take add.commute)
  obtain b where "bput (newb (BLEN nb - len)) (drop len (bbytes nb)) = Some b" "wf_block b" "bbytes b = drop len (bbytes nb)"
    using bput_newb [of "drop len (bbytes nb)" "BLEN nb - len"] assms by (auto simp: chain_simps)
  then show ?thesis using r by simp
qed

lemma qbread_data:
  assumes "wf_queue q" "q_blocks q = b # bs"
  shows "\<exists>q' ev r. qbread km q len = Some (q', ev, r) \<and> wf_queue q' \<and>
    (r = Err Exhausted \<and> \<not> km (BLEN b - len) \<and> q_blocks q' = bs \<or>
     (\<exists>nb. r = Ret (Some nb) \<and> wf_block nb \<and> bbytes nb = take len (bbytes b) \<and>
       (if has q Qmsg then q_blocks q' = bs else qbytes q = bbytes nb @ qbytes q')))"
proof -
  obtain q1 where q1: "qremove q = (q1, Some b)" "wf_queue q1" "wf_block b" "q_blocks q1 = bs"
    "qbytes q = bbytes b @ qbytes q1" "q_state q1 = q_state q"
    using qremove_ok [OF assms] by auto
  have qw: "qwait q = (q, Wdata)" "has q1 f = has q f" for f using assms q1 by (simp_all add: qwait_def has_def)
  show ?thesis
  proof (cases "len < BLEN b \<and> \<not> has q Qmsg")
    case True
    obtain b' where "(do { xs \<leftarrow> rdn (b_mem b) (b_rp b + len) (BLEN b - len); bput (newb (BLEN b - len)) xs }) = Some b'"
      "wf_block b'" "bbytes b' = drop len (bbytes b)"
      using qbread_split [OF q1(3)] True by blast
    then show ?thesis using True qw q1 qputback_ok [OF q1(2), of b']
      by (auto simp: qbread_def iallocb_newb bind_eq_Some_conv Let_def split_beta chain_simps)
  next
    case False
    then show ?thesis using qw q1
      by (cases "len < BLEN b") (auto simp: qbread_def Let_def split_beta chain_simps)
  qed
qed

lemma grab_ok:
  "\<lbrakk> wf_queue q; q_blocks q = b # bs; m = BLEN b \<rbrakk> \<Longrightarrow> \<exists>q' first n'. grab q n m len = (q', first, n') \<and> wf_queue q' \<and>
    first \<noteq> [] \<and> q_blocks q = first @ q_blocks q' \<and> n' = n + blocklen first \<and> (length first = 1 \<or> n' \<le> len) \<and>
    q_state q' = q_state q \<and> q_limit q' = q_limit q \<and> (q_blocks q' \<noteq> [] \<longrightarrow> len < n' + BLEN (hd (q_blocks q')))"
proof (induction q n m len arbitrary: b bs rule: grab.induct)
  case (1 q n m len)
  obtain q1 where q1: "qremove q = (q1, Some b)" "wf_queue q1" "q_blocks q1 = bs" "q_state q1 = q_state q" "q_limit q1 = q_limit q"
    using qremove_ok [OF "1.prems"(1,2)] by auto
  show ?case
  proof (cases "bs = [] \<or> n + m + BLEN (hd bs) > len")
    case True
    then show ?thesis using q1 "1.prems"
      by (subst grab.simps) (auto simp: Let_def split: list.split)
  next
    case False
    then obtain b' rest where bs: "bs = b' # rest" by (cases bs) auto
    have "\<exists>q' first n'. grab q1 (n + m) (BLEN b') len = (q', first, n') \<and> wf_queue q' \<and> first \<noteq> [] \<and>
      q_blocks q1 = first @ q_blocks q' \<and> n' = n + m + blocklen first \<and> (length first = 1 \<or> n' \<le> len) \<and>
      q_state q' = q_state q1 \<and> q_limit q' = q_limit q1 \<and> (q_blocks q' \<noteq> [] \<longrightarrow> len < n' + BLEN (hd (q_blocks q')))"
      by (rule "1.IH" [OF q1(1) [symmetric] refl refl]) (use q1 bs False in auto)
    then obtain q' first n' where IH: "grab q1 (n + m) (BLEN b') len = (q', first, n')" "wf_queue q'" "first \<noteq> []"
      "q_blocks q1 = first @ q_blocks q'" "n' = n + m + blocklen first" "length first = 1 \<or> n' \<le> len"
      "q_state q' = q_state q1" "q_limit q' = q_limit q1" "q_blocks q' \<noteq> [] \<longrightarrow> len < n' + BLEN (hd (q_blocks q'))" by blast
    have "hd first = b'" using IH(3,4) q1(3) bs by (cases first) auto
    then have "n' \<le> len" using IH False bs by (cases first) auto
    moreover have "grab q n m len = (q', b # first, n')"
      using q1(1,3) bs IH(1) False by (subst grab.simps) simp
    moreover have "q_blocks q = (b # first) @ q_blocks q'" using IH(4) q1(3) "1.prems"(2) by simp
    ultimately show ?thesis using IH q1(4,5) "1.prems"(3) by (intro exI [of _ q'] exI [of _ "b # first"] exI [of _ n']) simp
  qed
qed

definition took_ok :: "queue \<Rightarrow> nat \<Rightarrow> queue \<Rightarrow> block list \<Rightarrow> nat \<Rightarrow> bool" where
  "took_ok q len q' first n \<longleftrightarrow> wf_queue q' \<and> wf_chain first \<and> first \<noteq> [] \<and> n = blocklen first \<and>
     (length first = 1 \<or> n \<le> len) \<and> q_state q' = q_state q \<and> q_limit q' = q_limit q \<and> qbytes q = cbytes first @ qbytes q' \<and>
     (if has q Qcoalesce then 0 < n else q_blocks q = first @ q_blocks q' \<and> length first = 1)"

lemma qread_take_ok:
  "wf_queue q \<Longrightarrow> (\<exists>q' first n. qread_take q len = (q', Took first n) \<and> took_ok q len q' first n) \<or>
    (\<exists>q' w. qread_take q len = (q', Waited w) \<and> w \<noteq> Wdata \<and> wf_queue q' \<and> qbytes q = [] \<and> q_blocks q' = [])"
proof (induction q len rule: qread_take.induct)
  case (1 q len)
  from "1.prems" show ?case
  proof (cases rule: qwait_cases)
    case data
    then obtain b bs where q: "q_blocks q = b # bs" by (cases "q_blocks q") auto
    obtain q1 where q1: "qremove q = (q1, Some b)" "wf_queue q1" "wf_block b" "q_blocks q1 = bs"
      "qbytes q = bbytes b @ qbytes q1" "q_state q1 = q_state q" "\<And>f. has q1 f = has q f" "q_limit q1 = q_limit q"
      using qremove_ok [OF "1.prems" q] by (auto simp: has_def)
    show ?thesis
    proof (cases "has q Qcoalesce")
      case co: True
      show ?thesis
      proof (cases "BLEN b = 0")
        case True
        then have "bbytes b = []" using q1 length_bbytes [of b] by simp
        moreover have "qread_take q len = qread_take q1 len"
          using data q q1 co True by (subst qread_take.simps) simp
        moreover note "1.IH" [OF data(2) [symmetric] refl co q True]
        ultimately show ?thesis using q1 co by (auto simp: took_ok_def)
      next
        case False
        obtain q' first n where g: "grab q 0 (BLEN b) len = (q', first, n)" "wf_queue q'" "first \<noteq> []"
          "q_blocks q = first @ q_blocks q'" "n = blocklen first" "length first = 1 \<or> n \<le> len" "q_state q' = q_state q" "q_limit q' = q_limit q"
          using grab_ok [OF "1.prems" q refl, of 0 len] by auto
        have "hd first = b" using g(3,4) q by (cases first) auto
        then have "0 < n" using g False by (cases first) auto
        moreover have "wf_chain first" using "1.prems" g(4) by (simp add: wf_queue_def)
        moreover have "qread_take q len = (q', Took first n)"
          using data q g co False by (subst qread_take.simps) simp
        ultimately show ?thesis using g co by (simp add: took_ok_def qbytes_def has_def)
      qed
    next
      case False
      have "qread_take q len = (q1, Took [b] (BLEN b))" using data q1 False by (subst qread_take.simps) simp
      then show ?thesis using q1 q False by (simp add: took_ok_def)
    qed
  qed (use "1.prems" in \<open>subst qread_take.simps, simp add: qbytes_def\<close>)+
qed

lemma qread_put_ok:
  assumes "wf_queue q" "wf_chain bs" "length bs \<le> 1"
  shows "\<exists>q' ev. qread_put q bs n = (q', ev, n - blocklen bs) \<and> wf_queue q' \<and>
    qbytes q' = (if has q Qmsg then qbytes q else cbytes bs @ qbytes q)"
proof (cases bs)
  case (Cons b rest)
  with assms qputback_ok [OF assms(1), of b] show ?thesis
    by (simp add: qread_put_def Let_def split_beta)
qed (use assms in \<open>simp add: qread_put_def Let_def split_beta\<close>)

text \<open>A read whose copy runs while writers append \<open>ys\<close> to the queue.\<close>

lemma qread_sections:
  assumes "took_ok q len q1 first n" "p + len \<le> length m"
    "wf_queue q2" "qbytes q2 = qbytes q1 @ ys" "has q2 Qmsg = has q1 Qmsg"
  shows "\<exists>m' bs q3 ev k. bl2mem m p first len = Some (m', bs) \<and> qread_put q2 bs n = (q3, ev, k) \<and> wf_queue q3 \<and>
    k = min len (blocklen first) \<and> wrn m p (take k (cbytes first)) = Some m' \<and>
    (\<not> has q Qmsg \<longrightarrow> take k (cbytes first) @ qbytes q3 = qbytes q @ ys) \<and>
    (has q Qmsg \<longrightarrow> qbytes q3 = qbytes q1 @ ys)"
proof -
  note t = assms(1) [unfolded took_ok_def]
  have qm: "has q1 Qmsg = has q Qmsg" using t by (simp add: has_def)
  obtain m' bs where b: "bl2mem m p first len = Some (m', bs)" "wf_chain bs" "cbytes bs = drop len (cbytes first)"
    "wrn m p (take len (cbytes first)) = Some m'" "length bs \<le> length first" "bs = [] \<longleftrightarrow> blocklen first \<le> len"
    using bl2mem_ok [of first p len m] t assms(2) by blast
  have l: "length bs \<le> 1" using b t by fastforce
  obtain q3 ev where p: "qread_put q2 bs n = (q3, ev, n - blocklen bs)" "wf_queue q3"
    "qbytes q3 = (if has q2 Qmsg then qbytes q2 else cbytes bs @ qbytes q2)"
    using qread_put_ok [OF assms(3) b(2) l, of n] by auto
  have lf: "length (cbytes first) = blocklen first" using t by (simp add: length_cbytes)
  have "blocklen bs = blocklen first - len" using length_cbytes [OF b(2)] b(3) lf by simp
  then have k: "n - blocklen bs = min len (blocklen first)" using t by simp
  moreover have "take (min len (blocklen first)) (cbytes first) = take len (cbytes first)"
    using lf by (metis min_def take_all_iff nle_le)
  ultimately show ?thesis using b p t qm assms by simp
qed

lemma qread_ok:
  assumes "wf_queue q" "p + len \<le> length m"
  shows "\<exists>q' ev m' r. qread q m p len = Some (q', ev, m', r) \<and> wf_queue q' \<and>
    (\<forall>k. r = Ret k \<longrightarrow> k \<le> len \<and> wrn m p (take k (qbytes q)) = Some m' \<and> k \<le> length (qbytes q) \<and>
       (\<not> has q Qmsg \<longrightarrow> qbytes q = take k (qbytes q) @ qbytes q')) \<and>
    ((\<forall>k. r \<noteq> Ret k) \<longrightarrow> qbytes q = [] \<and> m' = m \<and> qbytes q' = [])"
  using qread_take_ok [OF assms(1), of len]
proof (elim disjE exE conjE)
  fix q1 first n
  assume q1: "qread_take q len = (q1, Took first n)" and t: "took_ok q len q1 first n"
  obtain m' bs q3 ev k where r: "bl2mem m p first len = Some (m', bs)" "qread_put q1 bs n = (q3, ev, k)" "wf_queue q3"
    "k = min len (blocklen first)" "wrn m p (take k (cbytes first)) = Some m'"
    "\<not> has q Qmsg \<longrightarrow> take k (cbytes first) @ qbytes q3 = qbytes q"
    using qread_sections [OF t assms(2), of q1 "[]"] t [unfolded took_ok_def] by fastforce
  have "length (cbytes first) = blocklen first" "qbytes q = cbytes first @ qbytes q1"
    using t by (simp_all add: took_ok_def length_cbytes)
  then have "take k (cbytes first) = take k (qbytes q)" "k \<le> length (qbytes q)" "k \<le> len" using r(4) by simp_all
  then show ?thesis using q1 r by (simp add: qread_def)
next
  fix q1 w
  assume q1: "qread_take q len = (q1, Waited w)" "w \<noteq> Wdata" "wf_queue q1" "qbytes q = []" "q_blocks q1 = []"
  have "wrn m p [] = Some m" using assms(2) by (simp add: wrn_def)
  then show ?thesis using q1 by (cases w) (simp_all add: qread_def qbytes_def)
qed


section \<open>Writes\<close>

lemma write_chunk:
  assumes "p + len \<le> length m" "sofar \<le> len" "n = (if len - sofar > Maxatomic then Maxatomic else len - sofar)"
  shows "\<exists>b. rdn m (p + sofar) n = Some (take n (drop (p + sofar) m)) \<and>
    bput (newb n) (take n (drop (p + sofar) m)) = Some b \<and> wf_block b \<and> bbytes b = take n (drop (p + sofar) m) \<and>
    BALLOC b = n \<and> BLEN b = n"
proof -
  have "p + sofar + n \<le> length m" using assms by (auto split: if_splits)
  then show ?thesis using bput_newb [of "take n (drop (p + sofar) m)" n] by (auto simp: rdn_def)
qed

lemma take_chunks: "take n (drop p m) @ take k (drop (p + n) m) = take (n + k) (drop p m)"
  by (simp add: take_add add.commute [of p])

lemma qiwrite_from_ok:
  "\<lbrakk> wf_queue q; p + len \<le> length m; sofar \<le> len \<rbrakk> \<Longrightarrow>
    \<exists>q' ev k. qiwrite_from km q m p len sofar w = Some (q', ev, sofar + k) \<and> wf_queue q' \<and> sofar + k \<le> len \<and>
      qbytes q' = qbytes q @ take k (drop (p + sofar) m) \<and>
      ((\<forall>n. km n) \<longrightarrow> q_blocks q' \<noteq> [] \<and> \<not> has q' Qstarve \<and> (has q Qstarve \<longrightarrow> Wake_rr \<in> set ev) \<and>
         (\<not> has q Qmsg \<longrightarrow> sofar + k = len))"
proof (induction "len - sofar" arbitrary: q sofar w rule: less_induct)
  case less
  define n where "n = (if len - sofar > Maxatomic then Maxatomic else len - sofar)"
  obtain b where b: "rdn m (p + sofar) n = Some (take n (drop (p + sofar) m))"
    "bput (newb n) (take n (drop (p + sofar) m)) = Some b" "wf_block b" "bbytes b = take n (drop (p + sofar) m)"
    "BALLOC b = n" "BLEN b = n"
    using write_chunk [OF less.prems(2,3) n_def] by blast
  have nle: "sofar + n \<le> len" "sofar < len \<Longrightarrow> 0 < n" using less.prems(3) by (auto simp: n_def)
  define q1 where "q1 = q\<lparr>q_blocks := q_blocks q @ [b], q_len := q_len q + int (BALLOC b), q_dlen := q_dlen q + int n\<rparr>"
  define q2 where "q2 = fst (unstarve q1)"
  define ev where "ev = (if w \<or> has q Qstarve then (if q_kick q2 then [Kick] else []) @ [Wake_rr] else [])"
  have us: "unstarve q1 = (q2, has q Qstarve)" by (simp add: q2_def q1_def prod_eq_iff)
  have q2: "wf_queue q2" "qbytes q2 = qbytes q @ take n (drop (p + sofar) m)" "q_blocks q2 \<noteq> []" "\<not> has q2 Qstarve"
    "has q2 Qmsg = has q Qmsg"
    using add_block [OF less.prems(1) b(3)] b by (simp_all add: q2_def q1_def)
  have step: "qiwrite_from km q m p len sofar w = (if \<not> km n then Some (q, [], sofar)
      else if sofar + n < len \<and> \<not> has q2 Qmsg then do {
        (q', ev', r) \<leftarrow> qiwrite_from km q2 m p len (sofar + n) (w \<or> has q Qstarve); Some (q', ev @ ev', r) }
      else Some (q2, ev, sofar + n))"
    unfolding qiwrite_from.simps [of km q m p len sofar] n_def [symmetric] Let_def
    by (simp add: iallocb_newb b(1,2) us [unfolded q1_def] ev_def)
  consider "\<not> km n" | "km n" "sofar + n < len" "\<not> has q Qmsg" | "km n" "\<not> (sofar + n < len \<and> \<not> has q Qmsg)" by blast
  then show ?case
  proof cases
    case 2
    then have "len - (sofar + n) < len - sofar" using nle by simp
    from less.hyps [OF this q2(1) less.prems(2) nle(1)] obtain q' ev' k where
      r: "qiwrite_from km q2 m p len (sofar + n) (w \<or> has q Qstarve) = Some (q', ev', sofar + n + k)" "wf_queue q'"
      "sofar + n + k \<le> len" "qbytes q' = qbytes q2 @ take k (drop (p + (sofar + n)) m)"
      "(\<forall>n. km n) \<longrightarrow> q_blocks q' \<noteq> [] \<and> \<not> has q' Qstarve \<and> (\<not> has q2 Qmsg \<longrightarrow> sofar + n + k = len)" by blast
    have "qbytes q' = qbytes q @ take (n + k) (drop (p + sofar) m)"
      unfolding r(4) q2(2) by (simp add: take_chunks [symmetric] add.assoc)
    then show ?thesis using 2 r q2 step by (intro exI [of _ q'] exI [of _ "ev @ ev'"] exI [of _ "n + k"]) (auto simp: ev_def add.assoc)
  next
    case 3
    then show ?thesis using step q2 nle by (intro exI [of _ q2] exI [of _ ev] exI [of _ n]) (auto simp: ev_def)
  qed (use step less.prems in auto)
qed

text \<open>A blocking writer to a stream queue: what it reports, and what is queued by then.\<close>

lemma qwrite_from_ok:
  "\<lbrakk> wf_queue q; p + len \<le> length m; sofar \<le> len; \<not> has q Qmsg; \<not> q_noblock q; \<not> q_bypass q \<rbrakk> \<Longrightarrow>
    \<exists>q' ev r k. qwrite_from km q m p len sofar = Some (q', ev, r) \<and> wf_queue q' \<and> sofar + k \<le> len \<and>
      qbytes q' = qbytes q @ take k (drop (p + sofar) m) \<and>
      (case r of Ret n \<Rightarrow> n = len \<and> sofar + k = len | Asleep n \<Rightarrow> n = sofar + k \<and> has q' Qflow
       | Err e \<Rightarrow> (e = Exhausted \<and> (\<exists>n. \<not> km n)) \<or> (e = Raised (cstr (q_err q) 0) \<and> has q Qclosed \<and> k = 0))"
proof (induction "len - sofar" arbitrary: q sofar rule: less_induct)
  case less
  define n where "n = (if len - sofar > Maxatomic then Maxatomic else len - sofar)"
  obtain b where b: "rdn m (p + sofar) n = Some (take n (drop (p + sofar) m))"
    "bput (newb n) (take n (drop (p + sofar) m)) = Some b" "wf_block b" "bbytes b = take n (drop (p + sofar) m)"
    "BALLOC b = n" "BLEN b = n"
    using write_chunk [OF less.prems(2,3) n_def] by blast
  have nle: "sofar + n \<le> len" "sofar < len \<Longrightarrow> 0 < n" using less.prems(3) by (auto simp: n_def)
  obtain q2 ev r where q2: "qbwrite q b = (q2, ev, r)" "wf_queue q2"
    "has q Qclosed \<Longrightarrow> q2 = q \<and> r = Err (Raised (cstr (q_err q) 0))"
    "\<not> has q Qclosed \<Longrightarrow> q_blocks q2 = q_blocks q @ [b] \<and> has q2 Qmsg = has q Qmsg \<and> \<not> q_noblock q2 \<and> \<not> q_bypass q2 \<and>
       r = (if q_len q2 < q_limit q2 then Ret n else Asleep n) \<and> (r = Asleep n \<longrightarrow> has q2 Qflow) \<and> \<not> has q2 Qclosed"
    using qbwrite_ok [OF less.prems(1) b(3)] less.prems(5,6) b(6) by (auto split: if_splits)
  have step: "qwrite_from km q m p len sofar = (if \<not> km n then Some (q, [], Err Exhausted)
      else case r of Err e \<Rightarrow> Some (q2, ev, Err e) | Asleep _ \<Rightarrow> Some (q2, ev, Asleep (sofar + n))
        | Ret _ \<Rightarrow> if sofar + n < len \<and> \<not> has q2 Qmsg then do {
            (q', ev', r) \<leftarrow> qwrite_from km q2 m p len (sofar + n); Some (q', ev @ ev', r) }
          else Some (q2, ev, Ret len))"
    unfolding qwrite_from.simps [of km q m p len sofar] n_def [symmetric] Let_def
    by (simp add: iallocb_newb b(1,2) q2(1) split: reply.split)
  have qb: "qbytes q2 = qbytes q @ take n (drop (p + sofar) m)" if "\<not> has q Qclosed"
    using q2(4) [OF that] b(4) by (simp add: qbytes_def)
  consider (nomem) "\<not> km n" | "km n" "has q Qclosed" | (asleep) "km n" "\<not> has q Qclosed" "r = Asleep n"
    | (more) "km n" "\<not> has q Qclosed" "r = Ret n" "sofar + n < len"
    | (fin) "km n" "\<not> has q Qclosed" "r = Ret n" "sofar + n = len"
    using q2(4) nle(1) by (cases "sofar + n < len"; cases "q_len q2 < q_limit q2") auto
  then show ?case
  proof cases
    case more
    then have "len - (sofar + n) < len - sofar" using nle by simp
    from less.hyps [OF this q2(2) less.prems(2) nle(1)] q2(4) less.prems(4) more obtain q' ev' r' k where
      r: "qwrite_from km q2 m p len (sofar + n) = Some (q', ev', r')" "wf_queue q'" "sofar + n + k \<le> len"
      "qbytes q' = qbytes q2 @ take k (drop (p + (sofar + n)) m)"
      "case r' of Ret j \<Rightarrow> j = len \<and> sofar + n + k = len | Asleep j \<Rightarrow> j = sofar + n + k \<and> has q' Qflow
       | Err e \<Rightarrow> (e = Exhausted \<and> (\<exists>n. \<not> km n)) \<or> (e = Raised (cstr (q_err q2) 0) \<and> has q2 Qclosed \<and> k = 0)"
      by blast
    have "qbytes q' = qbytes q @ take (n + k) (drop (p + sofar) m)"
      unfolding r(4) qb [OF more(2)] by (simp add: take_chunks [symmetric] add.assoc)
    then show ?thesis using more r q2(4) step less.prems(4)
      by (intro exI [of _ q'] exI [of _ "ev @ ev'"] exI [of _ r'] exI [of _ "n + k"])
        (auto simp: add.assoc split: reply.splits)
  next
    case nomem
    then show ?thesis using step less.prems by (intro exI [of _ q] exI [of _ "[]"] exI [of _ "Err Exhausted"] exI [of _ 0]) auto
  next
    case asleep
    then show ?thesis using step q2(2,4) qb nle by (intro exI [of _ q2] exI [of _ ev] exI [of _ "Asleep (sofar + n)"] exI [of _ n]) auto
  next
    case fin
    then show ?thesis using step q2(2,4) qb nle by (intro exI [of _ q2] exI [of _ ev] exI [of _ "Ret len"] exI [of _ n]) auto
  qed (use step less.prems q2(3) in auto)
qed

section \<open>Closing\<close>

lemma Ehungup_simps [simp]: "length Ehungup = 21" "0 \<notin> set Ehungup" "Ehungup \<noteq> []"
  by (simp_all add: Ehungup_def)

lemma err_hungup: "length e = ERRMAX \<Longrightarrow> \<exists>e'. wrn e 0 (Ehungup @ [0]) = Some e' \<and> length e' = ERRMAX \<and> cstr e' 0 = Ehungup"
  using wrn_Some_iff [of e 0 "Ehungup @ [0]"] holds_cstr [OF wrn_holds] wrn_length by fastforce

lemma has_close [simp]: "has (clrf 9 (setf Qclosed q)) Qclosed" "\<not> has (clrf 9 q) Qflow" "\<not> has (clrf 9 q) Qstarve"
  by (simp_all add: has_clrf setf_def bit.conj_disj_distrib2)

lemma qclose_ok:
  assumes "wf_queue q"
  shows "\<exists>q'. qclose q = Some (q', [Wake_rr, Wake_wr]) \<and> wf_queue q' \<and> q_blocks q' = [] \<and> has q' Qclosed \<and>
    \<not> has q' Qflow \<and> \<not> has q' Qstarve \<and> cstr (q_err q') 0 = Ehungup"
  using assms err_hungup [of "q_err q"]
  by (auto simp: qclose_def wf_queue_def)

lemma qhangup_ok:
  assumes "wf_queue q" "msg \<noteq> None \<Longrightarrow> 0 \<notin> set (the msg)"
  shows "\<exists>q'. qhangup q msg = Some (q', [Wake_rr, Wake_wr]) \<and> wf_queue q' \<and> q_blocks q' = q_blocks q \<and> has q' Qclosed"
proof -
  have "\<exists>e. (if msg = None \<or> msg = Some [] then wrn (q_err q) 0 (Ehungup @ [0])
      else kstrcpy (q_err q) (the msg) ERRMAX) = Some e \<and> length e = ERRMAX"
    using err_hungup [of "q_err q"] kstrcpy_total [of ERRMAX "q_err q" "the msg"] assms by (auto simp: wf_queue_def)
  then show ?thesis using assms(1) by (cases msg) (auto simp: qhangup_def wf_queue_def Let_def)
qed

end
