(* ===== verification/Fifo.thy ===== *)
theory Fifo
  imports Prelude "HOL-Library.Sublist"
begin

text \<open>
  The contract of a byte queue, as a locale over its steps: a step puts bytes in at the back, takes
  bytes out at the front to a reader, takes out a message and drops the rest of it, loses bytes
  (a flush, a close), or moves none. From the contract of the single steps follows that of every
  interleaving: what comes out comes out in the order in which it was put in, each byte at most once,
  and all of it unless a step lost bytes.
\<close>

datatype io = In "byte list" | Out "byte list" | Msg "byte list" "byte list" | Lost "byte list" | Tau

fun ins :: "io list \<Rightarrow> byte list" where
  "ins [] = []"
| "ins (In xs # tr) = xs @ ins tr"
| "ins (l # tr) = ins tr"

text \<open>The bytes given to readers, and the bytes dropped.\<close>

fun dels :: "io list \<Rightarrow> byte list" where
  "dels [] = []"
| "dels (Out xs # tr) = xs @ dels tr"
| "dels (Msg xs ys # tr) = xs @ dels tr"
| "dels (l # tr) = dels tr"

fun drops :: "io list \<Rightarrow> byte list" where
  "drops [] = []"
| "drops (Msg xs ys # tr) = ys @ drops tr"
| "drops (Lost xs # tr) = xs @ drops tr"
| "drops (l # tr) = drops tr"

text \<open>All bytes that left the queue.\<close>

fun outs :: "io list \<Rightarrow> byte list" where
  "outs [] = []"
| "outs (Out xs # tr) = xs @ outs tr"
| "outs (Msg xs ys # tr) = xs @ ys @ outs tr"
| "outs (Lost xs # tr) = xs @ outs tr"
| "outs (l # tr) = outs tr"

lemma outs_Nil: "outs tr = [] \<Longrightarrow> dels tr = [] \<and> drops tr = []"
  by (induction tr rule: outs.induct) auto

inductive run :: "('s \<Rightarrow> io \<Rightarrow> 's \<Rightarrow> bool) \<Rightarrow> 's \<Rightarrow> io list \<Rightarrow> 's \<Rightarrow> bool" for step where
  run_Nil: "run step s [] s"
| run_Cons: "\<lbrakk> step s l s'; run step s' tr s'' \<rbrakk> \<Longrightarrow> run step s (l # tr) s''"

text \<open>How one step changes the content.\<close>

fun moves :: "io \<Rightarrow> byte list \<Rightarrow> byte list \<Rightarrow> bool" where
  "moves (In xs) c c' \<longleftrightarrow> c' = c @ xs"
| "moves (Out xs) c c' \<longleftrightarrow> c = xs @ c'"
| "moves (Msg xs ys) c c' \<longleftrightarrow> c = xs @ ys @ c'"
| "moves (Lost xs) c c' \<longleftrightarrow> (\<exists>a b. c = a @ xs @ b \<and> c' = a @ b)"
| "moves Tau c c' \<longleftrightarrow> c' = c"

lemma moves_Lost_front: "c = xs @ c' \<Longrightarrow> moves (Lost xs) c c'"
  by (auto intro: exI [of _ "[]"])

text \<open>A step that takes nothing out works behind bytes that a reader has in hand.\<close>

fun taking :: "io \<Rightarrow> bool" where
  "taking (Out _) = True" | "taking (Msg _ _) = True" | "taking _ = False"

lemma moves_behind:
  assumes "moves l c c'" "\<not> taking l"
  shows "moves l (a @ c) (a @ c')"
proof (cases l)
  case (Lost xs)
  then obtain d b where "c = d @ xs @ b" "c' = d @ b" using assms(1) by auto
  then show ?thesis using Lost by (simp, intro exI [of _ "a @ d"] exI [of _ b]) simp
qed (use assms in auto)

locale byte_fifo =
  fixes step :: "'s \<Rightarrow> io \<Rightarrow> 's \<Rightarrow> bool" and inv :: "'s \<Rightarrow> bool" and content :: "'s \<Rightarrow> byte list"
  assumes step_inv: "\<lbrakk> inv s; step s l s' \<rbrakk> \<Longrightarrow> inv s'"
    and step_moves: "\<lbrakk> inv s; step s l s' \<rbrakk> \<Longrightarrow> moves l (content s) (content s')"
begin

lemma run_inv: "run step s tr s' \<Longrightarrow> inv s \<Longrightarrow> inv s'"
  by (induction rule: run.induct) (auto intro: step_inv)

lemma run_exact: "run step s tr s' \<Longrightarrow> inv s \<Longrightarrow> drops tr = [] \<Longrightarrow> content s @ ins tr = dels tr @ content s'"
proof (induction rule: run.induct)
  case (run_Cons s l s' tr s'')
  have m: "moves l (content s) (content s')" "inv s'" using run_Cons.hyps(1) run_Cons.prems(1) step_inv step_moves by blast+
  then show ?case using run_Cons.IH run_Cons.prems(2) by (cases l) auto
qed simp

lemma run_order: "run step s tr s' \<Longrightarrow> inv s \<Longrightarrow> subseq (dels tr @ content s') (content s @ ins tr)"
proof (induction rule: run.induct)
  case (run_Cons s l s' tr s'')
  have m: "moves l (content s) (content s')" "inv s'" using run_Cons.hyps(1) run_Cons.prems step_inv step_moves by blast+
  then have ih: "subseq (dels tr @ content s'') (content s' @ ins tr)" using run_Cons.IH by blast
  show ?case
  proof (cases l)
    case (Lost xs)
    then obtain a b where "content s = a @ xs @ b" "content s' = a @ b" using m(1) by auto
    moreover have "subseq (a @ (b @ ins tr)) (a @ (xs @ (b @ ins tr)))" by (intro list_emb_append_mono list_emb_append2) simp_all
    ultimately have "subseq (content s' @ ins tr) (content s @ ins tr)" by simp
    then show ?thesis using ih Lost by (auto intro: subseq_order.trans)
  next
    case (Out xs)
    moreover have "subseq (xs @ (dels tr @ content s'')) (xs @ (content s' @ ins tr))" by (intro list_emb_append_mono ih) simp
    ultimately show ?thesis using m(1) by simp
  next
    case (Msg xs ys)
    moreover have "subseq (xs @ (dels tr @ content s'')) (xs @ (ys @ (content s' @ ins tr)))" by (intro list_emb_append_mono list_emb_append2 ih) simp
    ultimately show ?thesis using m(1) by simp
  qed (use ih m(1) in auto)
qed simp

lemma run_count: "run step s tr s' \<Longrightarrow> inv s \<Longrightarrow>
    length (content s) + length (ins tr) = length (dels tr) + length (drops tr) + length (content s')"
proof (induction rule: run.induct)
  case (run_Cons s l s' tr s'')
  have m: "moves l (content s) (content s')" "inv s'" using run_Cons.hyps(1) run_Cons.prems step_inv step_moves by blast+
  then have "length (content s') + length (ins tr) = length (dels tr) + length (drops tr) + length (content s'')" using run_Cons.IH by blast
  then show ?case using m(1) by (cases l) auto
qed simp

end

end
