(* ===== verification/QioThms.thy ===== *)
theory QioThms
  imports QioInv Fifo
begin

text \<open>
  The queue as a state machine: one rule per critical section of the operations, with the bytes it moves
  and the events it causes, and \<open>qread\<close> in its two sections with other steps in between. The byte-queue
  contract is interpreted on these steps; and no step loses a wakeup.
\<close>

section \<open>Steps\<close>

text \<open>The bytes that left the front of the queue; what a consumer was given of them, and on a message queue the rest of the message.\<close>

definition gone :: "queue \<Rightarrow> queue \<Rightarrow> byte list" where
  "gone q q' = take (length (qbytes q) - length (qbytes q')) (qbytes q)"

definition taken_io :: "queue \<Rightarrow> queue \<Rightarrow> byte list \<Rightarrow> io" where
  "taken_io q q' xs = (if has q Qmsg then Msg xs (drop (length xs) (gone q q')) else Out xs)"

text \<open>
  The steps of all operations but \<open>qread\<close>; a \<open>qiwrite\<close> of more than \<open>Maxatomic\<close> bytes is a sequence of steps, one for each
  block. With \<open>am\<close>, \<open>qbread\<close> may fail to allocate the second part of a block it splits: the code then raises an error with
  \<open>q->l\<close> held and the block gone. \<open>qaddlist\<close>, \<open>qremove\<close>, \<open>qputback\<close> and \<open>pullupqueue\<close> are no steps: they are called under the lock, or by
  the mount driver on a queue that no other process uses.
\<close>

inductive qact :: "bool \<Rightarrow> queue \<Rightarrow> event list \<Rightarrow> io \<Rightarrow> queue \<Rightarrow> bool" for am where
  produce: "\<lbrakk> p + len \<le> length m; qproduce km q m p len = Some (q', ev, r) \<rbrakk> \<Longrightarrow>
    qact am q ev (if r = -1 then Tau else In (take len (drop p m))) q'"
| pass: "\<lbrakk> wf_chain bs; qpass q bs = Some (q', ev, r) \<rbrakk> \<Longrightarrow>
    qact am q ev (if q_len q \<ge> q_limit q \<or> has q Qclosed then Tau else In (cbytes bs)) q'"
| passnolim: "\<lbrakk> wf_chain bs; qpassnolim q bs = Some (q', ev, r) \<rbrakk> \<Longrightarrow>
    qact am q ev (if has q Qclosed then Tau else In (cbytes bs)) q'"
| bwrite: "\<lbrakk> wf_block b; qbwrite_add q b = (q', ev, r) \<rbrakk> \<Longrightarrow>
    qact am q ev (if q_blocks q' = q_blocks q then Tau else In (bbytes b)) q'"
| bwrite_wait: "qbwrite_wait q n = (q', r) \<Longrightarrow> qact am q [] Tau q'"
| iwrite: "\<lbrakk> len \<le> Maxatomic; p + len \<le> length m; qiwrite km q m p len = Some (q', ev, r) \<rbrakk> \<Longrightarrow>
    qact am q ev (In (take r (drop p m))) q'"
| get: "qget q = (q', ev, r) \<Longrightarrow> qact am q ev (case r of None \<Rightarrow> Tau | Some b \<Rightarrow> Out (bbytes b)) q'"
| discard: "qdiscard q len = (q', ev, n) \<Longrightarrow> qact am q ev (Lost (take n (qbytes q))) q'"
| consume: "\<lbrakk> p + len \<le> length m; qconsume q m p len = Some (q', ev, m', r) \<rbrakk> \<Longrightarrow>
    qact am q ev (if r = -1 then Tau else taken_io q q' (take (nat r) (drop p m'))) q'"
| bread: "\<lbrakk> qbread km q len = Some (q', ev, r); r \<noteq> Err Exhausted \<rbrakk> \<Longrightarrow>
    qact am q ev (case r of Ret (Some b) \<Rightarrow> taken_io q q' (bbytes b) | _ \<Rightarrow> Tau) q'"
| bread_fails: "\<lbrakk> am; qbread km q len = Some (q', ev, Err Exhausted) \<rbrakk> \<Longrightarrow> qact am q ev (Lost (gone q q')) q'"
| read_wait: "qread_take q len = (q', Waited w) \<Longrightarrow> qact am q [] Tau q'"
| close: "qclose q = Some (q', ev) \<Longrightarrow> qact am q ev (Lost (qbytes q)) q'"
| hangup: "\<lbrakk> msg \<noteq> None \<longrightarrow> 0 \<notin> set (the msg); qhangup q msg = Some (q', ev) \<rbrakk> \<Longrightarrow> qact am q ev Tau q'"
| reopen: "qact am q [] Tau (qreopen q)"
| setlimit: "qact am q [] Tau (qsetlimit q limit)"
| noblock: "qact am q [] Tau (qnoblock q onoff)"
| flush: "qflush q = (q', ev) \<Longrightarrow> qact am q ev (Lost (qbytes q)) q'"

definition qstep :: "queue \<Rightarrow> io \<Rightarrow> queue \<Rightarrow> bool" where
  "qstep q l q' \<longleftrightarrow> (\<exists>am ev. qact am q ev l q')"

text \<open>
  The queue with the \<open>qread\<close> in progress, if there is one: the blocks it has in hand, their bytes and the number asked for. \<open>rlock\<close>
  keeps out other calls of \<open>qread\<close> and \<open>qbread\<close>. It does not keep out \<open>qget\<close> and \<open>qconsume\<close>, whose bytes would overtake those in
  hand; so \<open>during\<close> has the steps that give nothing to a consumer.
\<close>

type_synonym rstate = "queue \<times> (block list \<times> nat \<times> nat) option"

inductive ract :: "bool \<Rightarrow> rstate \<Rightarrow> event list \<Rightarrow> io \<Rightarrow> rstate \<Rightarrow> bool" for am where
  quiet: "qact am q ev l q' \<Longrightarrow> ract am (q, None) ev l (q', None)"
| during: "\<lbrakk> qact am q ev l q'; \<not> taking l \<rbrakk> \<Longrightarrow> ract am (q, Some h) ev l (q', Some h)"
| read_takes: "qread_take q len = (q', Took first n) \<Longrightarrow> ract am (q, None) [] Tau (q', Some (first, n, len))"
| read_puts: "\<lbrakk> p + len \<le> length m; bl2mem m p first len = Some (m', bs); qread_put q bs n = (q', ev, k) \<rbrakk> \<Longrightarrow>
    ract am (q, Some (first, n, len)) ev
      (if has q Qmsg then Msg (take k (drop p m')) (cbytes bs) else Out (take k (drop p m'))) (q', None)"

definition rstep :: "rstate \<Rightarrow> io \<Rightarrow> rstate \<Rightarrow> bool" where
  "rstep s l s' \<longleftrightarrow> (\<exists>am ev. ract am s ev l s')"

definition in_hand :: "(block list \<times> nat \<times> nat) option \<Rightarrow> byte list" where
  "in_hand h = (case h of None \<Rightarrow> [] | Some (first, n, len) \<Rightarrow> cbytes first)"

definition rbytes :: "rstate \<Rightarrow> byte list" where
  "rbytes s = in_hand (snd s) @ qbytes (fst s)"

definition wf_hand :: "(block list \<times> nat \<times> nat) option \<Rightarrow> bool" where
  "wf_hand h = (case h of None \<Rightarrow> True | Some (first, n, len) \<Rightarrow> wf_chain first \<and> n = blocklen first \<and> (length first = 1 \<or> n \<le> len))"

definition wf_rstate :: "rstate \<Rightarrow> bool" where
  "wf_rstate s \<longleftrightarrow> wf_queue (fst s) \<and> wf_hand (snd s)"

lemma gone_eq: "qbytes q = xs @ qbytes q' \<Longrightarrow> gone q q' = xs"
  by (simp add: gone_def)

lemma taken_moves: "qbytes q = xs @ ys @ qbytes q' \<Longrightarrow> (\<not> has q Qmsg \<Longrightarrow> ys = []) \<Longrightarrow> moves (taken_io q q' xs) (qbytes q) (qbytes q')"
  using gone_eq [of q "xs @ ys" q'] by (auto simp: taken_io_def)

lemma wrn_delivered: "wrn m p xs = Some m' \<Longrightarrow> take (length xs) (drop p m') = xs"
  using wrn_holds [of m p xs m'] by (simp add: holds_def)

lemma qbread_empty:
  assumes "wf_queue q" "q_blocks q = []"
  shows "\<exists>q' r. qbread km q len = Some (q', [], r) \<and> wf_queue q' \<and> q_blocks q' = [] \<and> r \<noteq> Err Exhausted \<and>
    (\<forall>b. r \<noteq> Ret (Some b)) \<and> (\<not> has q Qclosed \<longrightarrow> has q' Qstarve \<and> \<not> has q' Qclosed) "
  using assms(1) by (cases rule: qwait_cases) (use assms in \<open>auto simp: qbread_def\<close>)

lemma qact_ok: "qact am q ev l q' \<Longrightarrow> wf_queue q \<Longrightarrow> wf_queue q' \<and> moves l (qbytes q) (qbytes q')"
proof (induction rule: qact.induct)
  case (produce p len m km q q' ev r)
  then show ?case using qproduce_ok [of q p len m km] by (auto split: if_splits)
next
  case (pass bs q q' ev r)
  then show ?case using pass_chain_ok [of q bs] by (auto simp: qpass_def split_beta split: if_splits)
next
  case (passnolim bs q q' ev r)
  then show ?case using pass_chain_ok [of q bs] by (auto simp: qpassnolim_def split_beta split: if_splits list.splits)
next
  case (bwrite b q q' ev r)
  then show ?case using qbwrite_add_ok [of q b q' ev r] by (auto simp: qbytes_def split: if_splits)
next
  case (bwrite_wait q n q' r)
  then show ?case by (auto simp: qbwrite_wait_def split: if_splits)
next
  case (iwrite len p m km q q' ev r)
  then show ?case using qiwrite_from_ok [of q p len m 0 km False] by (auto simp: qiwrite_def)
next
  case (get q q' ev r)
  then show ?case using qget_ok [of q] by (auto simp: qbytes_def)
next
  case (discard q len q' ev n)
  then have "wf_queue q'" "n = min len (length (qbytes q))" "qbytes q' = drop len (qbytes q)" using qdiscard_ok [of q len] by auto
  moreover have "qbytes q = take n (qbytes q) @ qbytes q'" using calculation by (simp add: min_def)
  ultimately show ?case using moves_Lost_front by blast
next
  case (consume p len m q q' ev m' r)
  note c = qconsume_ok [OF consume.prems consume.hyps(1)]
  show ?case
  proof (cases "qbytes q = []")
    case False
    then obtain n ys where n: "wf_queue q'" "r = int n" "n \<le> length (qbytes q)" "wrn m p (take n (qbytes q)) = Some m'" "\<not> has q Qmsg \<longrightarrow> qbytes q' = drop n (qbytes q)"
      "qbytes q = take n (qbytes q) @ ys @ qbytes q'" using c consume.hyps(2) by auto
    have t: "take n (drop p m') = take n (qbytes q)" using wrn_delivered [OF n(4)] n(3) by simp
    have "ys = []" if "\<not> has q Qmsg" using n(5,6) that by (metis append_take_drop_id append_same_eq append_self_conv2 same_append_eq)
    then show ?thesis using taken_moves [OF n(6)] n(1,2) t by simp
  qed (use c consume.hyps(2) in auto)
next
  case (bread km q len q' ev r)
  show ?case
  proof (cases "q_blocks q")
    case Nil
    then show ?thesis using qbread_empty [OF bread.prems, of km len] bread.hyps
      by (auto simp: qbytes_def split: reply.split option.split)
  next
    case (Cons b bs)
    then obtain nb where nb: "wf_queue q'" "r = Ret (Some nb)" "bbytes nb = take len (bbytes b)" "if has q Qmsg then q_blocks q' = bs else qbytes q = bbytes nb @ qbytes q'"
      using qbread_data [OF bread.prems Cons, of km len] bread.hyps by auto
    have "moves (taken_io q q' (bbytes nb)) (qbytes q) (qbytes q')"
      by (rule taken_moves [where ys = "if has q Qmsg then drop len (bbytes b) else []"]) (use nb Cons in \<open>auto simp: qbytes_def\<close>)
    then show ?thesis using nb(1,2) by simp
  qed
next
  case (bread_fails km q len q' ev)
  then obtain b bs where b: "q_blocks q = b # bs" using qbread_empty [of q km len] by (cases "q_blocks q") auto
  then have "wf_queue q'" "q_blocks q' = bs" using qbread_data [OF bread_fails.prems b, of km len] bread_fails.hyps by auto
  then show ?case using b gone_eq [of q "bbytes b" q'] moves_Lost_front [of "qbytes q" "bbytes b" "qbytes q'"] by (simp add: qbytes_def del: moves.simps)
next
  case (read_wait q len q' w)
  then show ?case using qread_take_ok [of q len] by (auto simp: qbytes_def)
next
  case (close q q' ev)
  then show ?case using qclose_ok [of q] by (auto simp: qbytes_def)
next
  case (hangup msg q q' ev)
  then show ?case using qhangup_ok [of q msg] by (auto simp: qbytes_def)
next
  case (reopen q)
  then show ?case by (simp add: qreopen_def)
next
  case (setlimit q limit)
  then show ?case by (simp add: qsetlimit_def)
next
  case (noblock q onoff)
  then show ?case by (simp add: qnoblock_def)
next
  case (flush q q' ev)
  then show ?case by (auto simp: qflush_def wf_queue_def qbytes_def)
qed

interpretation qs: byte_fifo qstep wf_queue qbytes
  by unfold_locales (auto simp: qstep_def dest: qact_ok)

lemma read_puts_ok:
  assumes "wf_queue q" "wf_hand (Some (first, n, len))" "p + len \<le> length m" "bl2mem m p first len = Some (m', bs)" "qread_put q bs n = (q', ev, k)"
  shows "wf_queue q'" "if has q Qmsg then cbytes first = take k (drop p m') @ cbytes bs \<and> qbytes q' = qbytes q
    else cbytes first @ qbytes q = take k (drop p m') @ qbytes q'"
proof -
  have f: "wf_chain first" "n = blocklen first" "length first = 1 \<or> n \<le> len" using assms(2) by (auto simp: wf_hand_def)
  obtain r: "wf_chain bs" "cbytes bs = drop len (cbytes first)" "wrn m p (take len (cbytes first)) = Some m'" "length bs \<le> length first" "bs = [] \<longleftrightarrow> n \<le> len"
    using bl2mem_ok [OF f(1) assms(3)] assms(4) f(2) by auto
  have "length bs \<le> 1" using f(3) r(4,5) by auto
  note p = qread_put_ok [OF assms(1) r(1) this, of n]
  have k: "k = length (take len (cbytes first))" using p assms(5) length_cbytes [OF f(1)] length_cbytes [OF r(1)] r(2) f(2) by auto
  have t: "take k (drop p m') = take len (cbytes first)" using wrn_delivered [OF r(3)] k by simp
  show "wf_queue q'" using p assms(5) by auto
  show "if has q Qmsg then cbytes first = take k (drop p m') @ cbytes bs \<and> qbytes q' = qbytes q else cbytes first @ qbytes q = take k (drop p m') @ qbytes q'"
    using p assms(5) t r(2) by auto
qed

lemma ract_ok: "ract am s ev l s' \<Longrightarrow> wf_rstate s \<Longrightarrow> wf_rstate s' \<and> moves l (rbytes s) (rbytes s')"
proof (induction rule: ract.induct)
  case (quiet q ev l q')
  then show ?case using qact_ok by (simp add: wf_rstate_def rbytes_def in_hand_def)
next
  case (during q ev l q' h)
  then show ?case using qact_ok [OF during.hyps(1)] moves_behind [OF _ during.hyps(2)] by (simp add: wf_rstate_def rbytes_def)
next
  case (read_takes q len q' first n)
  then have "took_ok q len q' first n" using qread_take_ok [of q len] by (auto simp: wf_rstate_def)
  then show ?case by (auto simp: took_ok_def wf_rstate_def wf_hand_def rbytes_def in_hand_def)
next
  case (read_puts p len m first m' bs q n q' ev k)
  then show ?case using read_puts_ok [of q first n len p m m' bs q' ev k] by (auto simp: wf_rstate_def rbytes_def in_hand_def wf_hand_def [of None])
qed

interpretation qf: byte_fifo rstep wf_rstate rbytes
  by unfold_locales (auto simp: rstep_def dest: ract_ok)

section \<open>Sleeping readers and writers\<close>

text \<open>The states in which a reader, a writer may be asleep.\<close>

definition reader_asleep :: "queue \<Rightarrow> bool" where
  "reader_asleep q \<longleftrightarrow> \<not> notempty q \<and> has q Qstarve"

definition writer_asleep :: "queue \<Rightarrow> bool" where
  "writer_asleep q \<longleftrightarrow> has q Qflow \<and> half (q_limit q) \<le> q_len q \<and> \<not> has q Qclosed"

lemma qread_take_empty:
  "q_blocks q = [] \<Longrightarrow> \<not> has q Qclosed \<Longrightarrow> qread_take q len = (setf Qstarve q, Waited Wsleep)"
  by (subst qread_take.simps) (simp add: qwait_def)

lemma qiwrite_reader:
  assumes "qiwrite_from km q m p len 0 False = Some (q', ev, r)" "reader_asleep q"
  shows "reader_asleep q' \<or> Wake_rr \<in> set ev"
  using assms unfolding qiwrite_from.simps [of km q m p len 0] Let_def
  by (auto simp: reader_asleep_def iallocb_newb split_beta bind_eq_Some_conv split: if_splits)

lemma qact_reader: "qact am q ev l q' \<Longrightarrow> wf_queue q \<Longrightarrow> reader_asleep q \<Longrightarrow> reader_asleep q' \<or> Wake_rr \<in> set ev"
proof (induction rule: qact.induct)
  case (produce p len m km q q' ev r)
  then show ?case using qproduce_ok [of q p len m km]
    by (auto simp: reader_asleep_def notempty_def qproduce_def iallocb_newb split: if_splits)
next
  case (pass bs q q' ev r)
  then show ?case using pass_chain_ok [of q bs]
    by (auto simp: qpass_def split_beta reader_asleep_def split: if_splits)
next
  case (passnolim bs q q' ev r)
  then show ?case using pass_chain_ok [of q bs]
    by (auto simp: qpassnolim_def split_beta reader_asleep_def notempty_def split: if_splits list.splits)
next
  case (bwrite b q q' ev r)
  then show ?case using qbwrite_add_ok [of q b q' ev r] by (auto simp: reader_asleep_def)
next
  case (bwrite_wait q n q' r)
  then show ?case by (auto simp: qbwrite_wait_def reader_asleep_def notempty_def split: if_splits)
next
  case (iwrite len p m km q q' ev r)
  then show ?case using qiwrite_reader by (auto simp: qiwrite_def)
next
  case (get q q' ev r)
  then show ?case by (auto simp: qget_def reader_asleep_def notempty_def)
next
  case (discard q len q' ev n)
  then have "discard (q_blocks q) (q_len q) (q_dlen q) 0 len = ([], q_len q, q_dlen q, 0)"
    by (subst discard.simps) (simp add: reader_asleep_def notempty_def)
  with discard show ?case by (auto simp: qdiscard_def reader_asleep_def notempty_def split_beta Let_def)
next
  case (consume p len m q q' ev m' r)
  then show ?case by (auto simp: qconsume_def reader_asleep_def notempty_def)
next
  case (bread km q len q' ev r)
  then show ?case using qbread_empty [of q km len] by (auto simp: reader_asleep_def notempty_def)
next
  case (bread_fails km q len q' ev)
  then show ?case using qbread_empty [of q km len] by (auto simp: reader_asleep_def notempty_def)
next
  case (read_wait q len q' w)
  then show ?case by (auto simp: qread_take_empty reader_asleep_def notempty_def)
next
  case (close q q' ev)
  then show ?case using qclose_ok [of q] by auto
next
  case (hangup msg q q' ev)
  then show ?case using qhangup_ok [of q msg] by auto
qed (auto simp: qreopen_def qsetlimit_def qnoblock_def qflush_def reader_asleep_def notempty_def)

text \<open>A step that finds a writer asleep leaves it so, or wakes it.\<close>

definition writer_ok :: "queue \<Rightarrow> event list \<Rightarrow> bool" where
  "writer_ok q ev \<longleftrightarrow> writer_asleep q \<or> Wake_wr \<in> set ev"

definition flowing :: "queue \<Rightarrow> bool" where
  "flowing q \<longleftrightarrow> has q Qflow \<and> \<not> has q Qclosed"

lemma writer_flowing: "writer_asleep q \<Longrightarrow> flowing q"
  by (simp add: writer_asleep_def flowing_def)

lemma flowing_fields [simp]:
  "flowing (q\<lparr>q_blocks := bs\<rparr>) = flowing q" "flowing (q\<lparr>q_len := n\<rparr>) = flowing q" "flowing (q\<lparr>q_dlen := n\<rparr>) = flowing q"
  "flowing (setf Qstarve q) = flowing q" "flowing (qputback q b) = flowing q"
  by (simp_all add: flowing_def qputback_def)

lemma restart_writer [intro]: "\<lbrakk> flowing q; half (q_limit q) \<le> thr \<rbrakk> \<Longrightarrow>
    writer_ok (fst (restart q thr)) (snd (restart q thr))"
  by (auto simp: restart_def writer_asleep_def writer_ok_def flowing_def)

lemma qwakeup_writer [intro]: "flowing q \<Longrightarrow> writer_ok (fst (qwakeup_unlock q)) (snd (qwakeup_unlock q))"
  by (auto simp: qwakeup_unlock_def writer_asleep_def writer_ok_def flowing_def)

lemma half_le: "0 \<le> n \<Longrightarrow> half n \<le> n"
  by (simp add: half_def)

text \<open>No block without data: \<open>qread\<close> and \<open>qconsume\<close> drop such blocks without restarting the writer.\<close>

definition no_empty :: "queue \<Rightarrow> bool" where
  "no_empty q \<longleftrightarrow> list_all (\<lambda>b. 0 < BLEN b) (q_blocks q)"

lemma qread_put_writer [intro]:
  "flowing q \<Longrightarrow> writer_ok (fst (qread_put q bs n)) (fst (snd (qread_put q bs n)))"
  by (cases bs) (auto simp: qread_put_def split_beta Let_def split: if_splits)

lemma qread_wait_writer:
  assumes "wf_queue q" "no_empty q" "writer_asleep q" "qread_take q len = (q', Waited w)"
  shows "writer_ok q' []"
proof (cases "q_blocks q")
  case Nil
  then show ?thesis using assms(3,4) by (auto simp: qread_take_empty writer_asleep_def writer_ok_def)
next
  case (Cons b bs)
  then show ?thesis using qread_take_ok [OF assms(1), of len] assms(1,2,4) length_bbytes [of b] by (auto simp: no_empty_def qbytes_def wf_queue_def)
qed

lemma qbread_writer:
  assumes "writer_asleep q" "qbread km q len = Some (q', ev, r)" "r \<noteq> Err Exhausted"
  shows "writer_ok q' ev"
proof (cases "q_blocks q")
  case Nil
  then show ?thesis using assms by (auto simp: qbread_def qwait_def writer_asleep_def writer_ok_def)
next
  case (Cons b bs)
  then show ?thesis
    using assms(2-) writer_flowing [OF assms(1)]
    by (auto simp: qbread_def qwait_def qremove_def Let_def split_beta bind_eq_Some_conv
        split: if_splits option.splits)
qed

lemma qconsume_writer:
  assumes "no_empty q" "writer_asleep q" "qconsume q m p len = Some (q', ev, m', r)"
  shows "writer_ok q' ev"
proof (cases "q_blocks q")
  case Nil
  then show ?thesis using assms by (auto simp: qconsume_def writer_asleep_def writer_ok_def)
next
  case (Cons b bs)
  moreover have "0 < BLEN b" using assms(1) Cons by (simp add: no_empty_def)
  ultimately show ?thesis
    using assms(3) writer_flowing [OF assms(2)]
    by (auto simp: qconsume_def Let_def split_beta bind_eq_Some_conv split: if_splits)
qed

lemma add_writer: "writer_asleep q \<Longrightarrow>
    writer_asleep (fst (unstarve (q\<lparr>q_blocks := bs, q_len := q_len q + int n, q_dlen := d\<rparr>)))"
  by (auto simp: writer_asleep_def unstarve_def)

lemma qiwrite_writer:
  "\<lbrakk> qiwrite_from km q m p len sofar w = Some (q', ev, r); writer_asleep q \<rbrakk> \<Longrightarrow> writer_asleep q'"
proof (induction "len - sofar" arbitrary: q sofar w ev rule: less_induct)
  case less
  define n where "n = (if len - sofar > Maxatomic then Maxatomic else len - sofar)"
  let ?q = "\<lambda>b. fst (unstarve (q\<lparr>q_blocks := q_blocks q @ [b], q_len := q_len q + int (BALLOC b), q_dlen := q_dlen q + int n\<rparr>))"
  have n: "len - (sofar + n) < len - sofar" if "sofar + n < len" using that by (auto simp: n_def split: if_splits)
  from less.prems(1) consider "q' = q" | b where "q' = ?q b"
    | b w' ev' where "qiwrite_from km (?q b) m p len (sofar + n) w' = Some (q', ev', r)" "sofar + n < len"
    unfolding qiwrite_from.simps [of km q m p len sofar] n_def [symmetric] Let_def
    by (auto simp: iallocb_newb split_beta bind_eq_Some_conv split: if_splits)
  then show ?case
    using less.prems(2) less.hyps [OF n] add_writer [OF less.prems(2)] by cases blast+
qed

lemma qproduce_writer:
  assumes "writer_asleep q" "qproduce km q m p len = Some (q', ev, r)"
  shows "writer_asleep q'"
proof -
  have "writer_asleep (setf Qflow x)" if "writer_asleep x" for x
    using that by (simp add: writer_asleep_def)
  then show ?thesis
    using assms by (auto simp: qproduce_def iallocb_newb split_beta bind_eq_Some_conv Let_def
        intro!: add_writer split: if_splits)
qed

lemma pass_chain_writer: "writer_asleep q \<Longrightarrow> writer_asleep (fst (pass_chain q bs))"
  by (auto simp: pass_chain_def qaddlist_def unstarve_def Let_def split_beta writer_asleep_def)

lemma qbwrite_writer: "writer_asleep q \<Longrightarrow> writer_asleep (fst (qbwrite_add q b))"
  using add_writer [of q] by (simp add: qbwrite_add_def Let_def split_beta)

lemma qact_writer:
  "\<lbrakk> qact False q ev l q'; wf_queue q; no_empty q; writer_asleep q; 0 \<le> q_limit q; q_limit q' = q_limit q \<rbrakk> \<Longrightarrow> writer_ok q' ev"
proof (induction rule: qact.induct)
  case (produce p len m km q q' ev r)
  show ?case using produce.hyps produce.prems(1-5) qproduce_writer by (auto simp: writer_ok_def)
next
  case (pass bs q q' ev r)
  show ?case using pass.hyps(2) pass_chain_writer [OF pass.prems(3), of bs] pass.prems(3)
    by (auto simp: qpass_def split_beta writer_ok_def split: if_splits)
next
  case (passnolim bs q q' ev r)
  show ?case using passnolim.hyps(2) pass_chain_writer [OF passnolim.prems(3), of bs] passnolim.prems(3)
    by (cases bs) (auto simp: qpassnolim_def split_beta writer_ok_def split: if_splits)
next
  case (bwrite b q q' ev r)
  show ?case using bwrite.hyps bwrite.prems(1-5) qbwrite_writer [of q b] by (simp add: writer_ok_def)
next
  case (bwrite_wait q n q' r)
  show ?case using bwrite_wait.hyps bwrite_wait.prems(3) by (auto simp: qbwrite_wait_def writer_asleep_def writer_ok_def split: if_splits)
next
  case (iwrite len p m km q q' ev r)
  show ?case using iwrite.hyps iwrite.prems(1-5) qiwrite_writer by (auto simp: qiwrite_def writer_ok_def)
next
  case (get q q' ev r)
  show ?case using get.hyps get.prems(1-5) writer_flowing [OF get.prems(3)]
    by (cases "q_blocks q") (auto simp: qget_def Let_def split_beta writer_asleep_def writer_ok_def [of "setf _ _"])
next
  case (discard q len q' ev n)
  show ?case using discard.hyps discard.prems(1-5) writer_flowing [OF discard.prems(3)] half_le [of "q_limit q"]
    by (auto simp: qdiscard_def split_beta Let_def)
next
  case (consume p len m q q' ev m' r)
  then show ?case using qconsume_writer by blast
next
  case (bread km q len q' ev r)
  then show ?case using qbread_writer [of q km len q' ev r] by auto
next
  case (read_wait q len q' w)
  then show ?case using qread_wait_writer by blast
next
  case (close q q' ev)
  show ?case using close.hyps close.prems(1-5) qclose_ok [of q] by (auto simp: writer_ok_def)
next
  case (hangup msg q q' ev)
  show ?case using hangup.hyps hangup.prems(1-5) qhangup_ok [of q msg] by (auto simp: writer_ok_def)
qed (auto simp: qreopen_def qsetlimit_def qnoblock_def qflush_def writer_asleep_def writer_ok_def)

text \<open>While a \<open>qread\<close> is in progress, the writer is woken at its end; what others do meanwhile leaves the mark or wakes the writer.\<close>

lemma qread_take_waits: "\<lbrakk> qread_take q len = (q', Waited w); flowing q \<rbrakk> \<Longrightarrow> flowing q'"
proof (induction q len rule: qread_take.induct)
  case (1 q len)
  show ?case
  proof (cases "q_blocks q")
    case Nil
    then show ?thesis using "1.prems" by (auto simp: qread_take_empty flowing_def)
  next
    case (Cons b bs)
    then have w: "qwait q = (q, Wdata)" "flowing (fst (qremove q))" using "1.prems"(2) by (simp_all add: qwait_def qremove_def)
    have "has q Qcoalesce \<and> BLEN b = 0 \<and> qread_take (fst (qremove q)) len = (q', Waited w)"
      using "1.prems"(1) w(1) Cons unfolding qread_take.simps [of q len] by (auto simp: qremove_def split_beta Let_def split: if_splits)
    then show ?thesis using "1.IH" [OF w(1) [symmetric] refl _ Cons] w(2) by blast
  qed
qed

lemma qiwrite_flowing: "\<lbrakk> qiwrite_from km q m p len sofar w = Some (q', ev, r); flowing q \<rbrakk> \<Longrightarrow> flowing q'"
proof (induction "len - sofar" arbitrary: q sofar w ev rule: less_induct)
  case less
  define n where "n = (if len - sofar > Maxatomic then Maxatomic else len - sofar)"
  let ?q = "\<lambda>b. fst (unstarve (q\<lparr>q_blocks := q_blocks q @ [b], q_len := q_len q + int (BALLOC b), q_dlen := q_dlen q + int n\<rparr>))"
  have n: "len - (sofar + n) < len - sofar" if "sofar + n < len" using that by (auto simp: n_def split: if_splits)
  have f: "flowing (?q b)" for b using less.prems(2) by (auto simp: flowing_def unstarve_def)
  from less.prems(1) consider "q' = q" | b where "q' = ?q b"
    | b w' ev' where "qiwrite_from km (?q b) m p len (sofar + n) w' = Some (q', ev', r)" "sofar + n < len"
    unfolding qiwrite_from.simps [of km q m p len sofar] n_def [symmetric] Let_def
    by (auto simp: iallocb_newb split_beta bind_eq_Some_conv split: if_splits)
  then show ?case using less.prems(2) less.hyps [OF n] f by cases blast+
qed

lemma qact_flowing: "\<lbrakk> qact am q ev l q'; \<not> taking l; wf_queue q; flowing q \<rbrakk> \<Longrightarrow> flowing q' \<or> Wake_wr \<in> set ev"
proof (induction rule: qact.induct)
  case (produce p len m km q q' ev r)
  then show ?case by (auto simp: qproduce_def iallocb_newb split_beta bind_eq_Some_conv Let_def flowing_def unstarve_def split: if_splits)
next
  case (pass bs q q' ev r)
  then show ?case by (auto simp: qpass_def pass_chain_def qaddlist_def Let_def split_beta flowing_def unstarve_def split: if_splits)
next
  case (passnolim bs q q' ev r)
  then show ?case by (auto simp: qpassnolim_def pass_chain_def qaddlist_def Let_def split_beta flowing_def unstarve_def split: if_splits list.splits)
next
  case (bwrite b q q' ev r)
  then show ?case by (auto simp: qbwrite_add_def Let_def split_beta flowing_def unstarve_def split: if_splits)
next
  case (bwrite_wait q n q' r)
  then show ?case by (auto simp: qbwrite_wait_def flowing_def split: if_splits)
next
  case (iwrite len p m km q q' ev r)
  then show ?case using qiwrite_flowing by (auto simp: qiwrite_def)
next
  case (get q q' ev r)
  then show ?case by (auto simp: qget_def flowing_def split_beta Let_def split: list.splits)
next
  case (discard q len q' ev n)
  then show ?case by (auto simp: qdiscard_def split_beta Let_def flowing_def restart_def split: if_splits)
next
  case (consume p len m q q' ev m' r)
  then have "r = -1" by (auto simp: taken_io_def split: if_splits)
  then show ?case using consume.hyps(2) consume.prems(3) by (auto simp: qconsume_def Let_def split_beta bind_eq_Some_conv flowing_def split: list.splits if_splits)
next
  case (bread km q len q' ev r)
  have "r \<noteq> Ret (Some b)" for b using bread.prems(1) by (auto simp: taken_io_def split: if_splits)
  then have "q_blocks q = []" using qbread_data [OF bread.prems(2), of _ _ km len] bread.hyps by (cases "q_blocks q") auto
  then show ?case using bread.hyps bread.prems(3) by (auto simp: qbread_def qwait_def flowing_def)
next
  case (bread_fails km q len q' ev)
  then show ?case by (auto simp: qbread_def qwait_def qremove_def Let_def split_beta bind_eq_Some_conv flowing_def split: if_splits list.splits option.splits)
next
  case (read_wait q len q' w)
  then show ?case using qread_take_waits by auto
next
  case (close q q' ev)
  then show ?case using qclose_ok [of q] by auto
next
  case (hangup msg q q' ev)
  then show ?case using qhangup_ok [of q msg] by auto
qed (auto simp: qreopen_def qsetlimit_def qnoblock_def qflush_def flowing_def)

text \<open>
  With a \<open>qread\<close> in progress: the reader that sleeps is then none of this queue, for a reader sleeps with \<open>rlock\<close> held. A writer
  may sleep on, marked, however little is queued, until the read has put back what it did not copy and tests the mark.
\<close>

definition writer_waits :: "rstate \<Rightarrow> bool" where
  "writer_waits s \<longleftrightarrow> flowing (fst s) \<and> (half (q_limit (fst s)) \<le> q_len (fst s) \<or> snd s \<noteq> None)"

lemma writer_waits_None: "writer_waits (q, None) = writer_asleep q"
  by (auto simp: writer_waits_def flowing_def writer_asleep_def)

lemma ract_reader: "\<lbrakk> ract am s ev l s'; snd s = None; wf_queue (fst s); reader_asleep (fst s) \<rbrakk> \<Longrightarrow> reader_asleep (fst s') \<or> Wake_rr \<in> set ev"
proof (induction rule: ract.induct)
  case (quiet q ev l q')
  then show ?case using qact_reader by simp
next
  case (read_takes q len q' first n)
  then show ?case by (auto simp: reader_asleep_def notempty_def qread_take_empty)
qed auto

lemma ract_writer:
  "\<lbrakk> ract False s ev l s'; wf_rstate s; no_empty (fst s); writer_waits s; 0 \<le> q_limit (fst s); q_limit (fst s') = q_limit (fst s) \<rbrakk> \<Longrightarrow>
    writer_waits s' \<or> Wake_wr \<in> set ev"
proof (induction rule: ract.induct)
  case (quiet q ev l q')
  then show ?case using qact_writer [of q ev l q'] by (simp add: writer_waits_None writer_ok_def wf_rstate_def)
next
  case (during q ev l q' h)
  then show ?case using qact_flowing [of False q ev l q'] by (auto simp: writer_waits_def wf_rstate_def)
next
  case (read_takes q len q' first n)
  then have "q_state q' = q_state q" using qread_take_ok [of q len] by (auto simp: wf_rstate_def took_ok_def)
  then show ?case using read_takes.prems(3) by (simp add: writer_waits_def flowing_def has_def)
next
  case (read_puts p len m first m' bs q n q' ev k)
  then have "flowing q" by (simp add: writer_waits_def)
  then show ?case using qread_put_writer [of q bs n] read_puts.hyps(3) by (simp add: writer_waits_None writer_ok_def)
qed

section \<open>Copying\<close>

lemma copy_seek_ok:
  "\<lbrakk> wf_chain bs; sofar \<le> off \<rbrakk> \<Longrightarrow>
    if off < sofar + blocklen bs
    then \<exists>b rest i. copy_seek bs sofar off = Some (b # rest, b_rp b + i, BLEN b - i) \<and> i < BLEN b \<and> wf_chain (b # rest) \<and>
      drop i (cbytes (b # rest)) = drop (off - sofar) (cbytes bs)
    else copy_seek bs sofar off = None"
proof (induction bs arbitrary: sofar)
  case (Cons b bs)
  show ?case
  proof (cases "sofar + BLEN b > off")
    case True
    then show ?thesis using Cons.prems
      by (simp, intro exI [of _ b] exI [of _ bs] exI [of _ "off - sofar"]) auto
  next
    case False
    have "drop (off - (sofar + BLEN b)) (cbytes bs) = drop (off - sofar) (cbytes (b # bs))"
      using False Cons.prems by (simp add: chain_simps)
    then show ?thesis using Cons.IH [of "sofar + BLEN b"] Cons.prems False
      by (auto simp: add.assoc split: if_splits)
  qed
qed simp

lemma copy_chunk:
  assumes "wf_block nb" "wf_block b" "n + i \<le> BLEN b" "n \<le> room nb"
  shows "\<exists>nb'. (do { xs \<leftarrow> rdn (b_mem b) (b_rp b + i) n; bput nb xs }) = Some nb' \<and> wf_block nb' \<and>
    bbytes nb' = bbytes nb @ take n (drop i (bbytes b)) \<and> room nb' = room nb - n"
proof -
  have "rdn (b_mem b) (b_rp b + i) n = Some (take n (drop i (bbytes b)))"
    using assms(2,3) by (auto simp: rdn_def bbytes_def BLEN_def wf_block_def drop_take min.absorb1 add.commute)
  moreover have "length (take n (drop i (bbytes b))) = n" using assms(2,3) by (simp add: chain_simps)
  ultimately show ?thesis using bput_Some [OF assms(1), of "take n (drop i (bbytes b))"] assms(4) by auto
qed

lemma copy_blocks_ok:
  "\<lbrakk> wf_block nb; wf_chain (b # bs); i \<le> BLEN b; sofar \<le> len; len - sofar \<le> room nb \<rbrakk> \<Longrightarrow>
    \<exists>nb'. copy_blocks nb (b # bs) (b_rp b + i) (BLEN b - i) sofar len = Some nb' \<and> wf_block nb' \<and>
      bbytes nb' = bbytes nb @ take (len - sofar) (drop i (cbytes (b # bs)))"
proof (induction bs arbitrary: nb b i sofar)
  case Nil
  define n where "n = (if BLEN b - i > len - sofar then len - sofar else BLEN b - i)"
  have n: "n + i \<le> BLEN b" "n \<le> room nb" using Nil.prems by (auto simp: n_def)
  have "take n (drop i (bbytes b)) = take (len - sofar) (drop i (bbytes b))"
    using Nil.prems by (auto simp: n_def chain_simps)
  then show ?case using copy_chunk [OF Nil.prems(1) _ n] Nil.prems
    by (auto simp: n_def [symmetric] bind_eq_Some_conv)
next
  case (Cons c bs)
  define n where "n = (if BLEN b - i > len - sofar then len - sofar else BLEN b - i)"
  have n: "n + i \<le> BLEN b" "n \<le> room nb" "sofar + n \<le> len" using Cons.prems by (auto simp: n_def)
  have wf: "wf_block b" using Cons.prems by simp
  obtain nb1 where nb1: "(do { xs \<leftarrow> rdn (b_mem b) (b_rp b + i) n; bput nb xs }) = Some nb1" "wf_block nb1"
    "bbytes nb1 = bbytes nb @ take n (drop i (bbytes b))" "room nb1 = room nb - n"
    using copy_chunk [OF Cons.prems(1) wf n(1,2)] by auto
  show ?case
  proof (cases "sofar < len")
    case True
    have "\<exists>nb'. copy_blocks nb1 (c # bs) (b_rp c + 0) (BLEN c - 0) (sofar + n) len = Some nb' \<and> wf_block nb' \<and>
      bbytes nb' = bbytes nb1 @ take (len - (sofar + n)) (drop 0 (cbytes (c # bs)))"
      by (rule Cons.IH) (use Cons.prems nb1 n in auto)
    then obtain nb' where nb': "copy_blocks nb1 (c # bs) (b_rp c) (BLEN c) (sofar + n) len = Some nb'" "wf_block nb'"
      "bbytes nb' = bbytes nb1 @ take (len - (sofar + n)) (cbytes (c # bs))" by (simp only: add_0_right diff_zero drop_0) blast
    have "copy_blocks nb (b # c # bs) (b_rp b + i) (BLEN b - i) sofar len = Some nb'"
      using True nb1(1) nb'(1) unfolding copy_blocks.simps(2) [of nb b] Let_def n_def [symmetric]
      by (auto simp: bind_eq_Some_conv simp del: copy_blocks.simps)
    moreover have "take n (drop i (bbytes b)) @ take (len - (sofar + n)) (cbytes (c # bs))
        = take (len - sofar) (drop i (cbytes (b # c # bs)))"
      using Cons.prems by (auto simp: n_def chain_simps)
    ultimately show ?thesis using nb'(2,3) nb1(3) by simp
  qed (use Cons.prems in simp)
qed

section \<open>Properties\<close>

definition ex_q0 :: queue where
  "ex_q0 = \<lparr>q_blocks = [], q_len = 0, q_dlen = 0, q_limit = 4, q_inilim = 4, q_state = Qstarve,
     q_noblock = False, q_eof = 0, q_kick = False, q_bypass = False, q_err = replicate ERRMAX 0\<rparr>"

text \<open>Two queued blocks, flow control on.\<close>

definition ex_q :: queue where
  "ex_q = ex_q0\<lparr>q_blocks := [\<lparr>b_mem = [1, 2, 3], b_rp = 0, b_wp = 3\<rparr>, \<lparr>b_mem = [4, 5], b_rp = 0, b_wp = 2\<rparr>],
     q_len := 5, q_dlen := 5, q_state := Qflow\<rparr>"

lemma ex_q_facts: "wf_queue ex_q" "wf_queue ex_q0" "qbytes ex_q = [1, 2, 3, 4, 5]" "\<not> has ex_q Qmsg" "no_empty ex_q"
  "writer_asleep ex_q" "reader_asleep ex_q0" "\<not> q_noblock ex_q" "\<not> q_bypass ex_q" "q_limit ex_q = 4"
  by (simp_all add: ex_q_def ex_q0_def wf_queue_def wf_block_def BALLOC_def BLEN_def qbytes_def bbytes_def has_def
      no_empty_def writer_asleep_def reader_asleep_def notempty_def half_def)

text \<open>C7 (invariant). From \<open>qopen\<close> on, through any interleaving of the critical sections of the producers and consumers, \<open>qread\<close> in
  its two sections, and of discarding, flushing, closing, hanging up, reopening and changes of limit or mode, on stream and
  on message queues: the bytes given to consumers, followed by those a read in progress has in hand and those still
  queued, are bytes put in, in the order in which they were put in and each at most once; they are all of them when no step dropped bytes, and the
  numbers of bytes add up in any case. The counters \<open>len\<close> and \<open>dlen\<close> are the space and the data of the chain, and \<open>qlen\<close> is the number of bytes
  queued. The interleavings are those of \<open>ract\<close>: no \<open>qget\<close> or \<open>qconsume\<close> that finds data runs between the sections of a \<open>qread\<close>,
  and \<open>qaddlist\<close>, \<open>qremove\<close>, \<open>qputback\<close> and \<open>pullupqueue\<close> are not called from outside.\<close>

theorem qio_fifo:
  assumes "qopen True limit msg kick = Some q0" "run rstep (q0, None) tr (q, h)"
  shows "subseq (dels tr @ rbytes (q, h)) (ins tr) \<and> (drops tr = [] \<longrightarrow> ins tr = dels tr @ rbytes (q, h)) \<and>
    length (ins tr) = length (dels tr) + length (drops tr) + length (rbytes (q, h)) \<and>
    wf_queue q \<and> qlen q = int (length (qbytes q))"
proof -
  have q0: "wf_rstate (q0, None)" "rbytes (q0, None) = []"
    using assms(1) by (auto simp: qopen_def wf_rstate_def wf_hand_def rbytes_def in_hand_def wf_queue_def qbytes_def)
  have wf: "wf_queue q" using qf.run_inv [OF assms(2) q0(1)] by (simp add: wf_rstate_def)
  then have "qlen q = int (length (qbytes q))" by (simp add: qlen_def wf_queue_def qbytes_def length_cbytes)
  then show ?thesis
    using wf q0 qf.run_order [OF assms(2)] qf.run_exact [OF assms(2)] qf.run_count [OF assms(2)] by simp
qed

text \<open>Three bytes are put in and a read of two takes the block; one more is put in before the read puts back the rest.\<close>

definition ex_r :: "block list \<Rightarrow> int \<Rightarrow> int \<Rightarrow> queue" where
  "ex_r bs l d = ex_q0\<lparr>q_blocks := bs, q_len := l, q_dlen := d, q_state := 0\<rparr>"

definition ex_b :: "byte list \<Rightarrow> nat \<Rightarrow> block" where
  "ex_b xs rp = \<lparr>b_mem = xs, b_rp = rp, b_wp = length xs\<rparr>"

definition ex_tr :: "io list" where
  "ex_tr = [In [7, 8, 9], Tau, In [4], Out [7, 8]]"

lemmas ex_defs = ex_r_def ex_b_def ex_q0_def has_def BALLOC_def BLEN_def bbytes_def Let_def

lemma ex_produce: "rstep (ex_q0, None) (In [7, 8, 9]) (ex_r [ex_b [7, 8, 9] 0] 3 3, None)"
proof -
  have "qproduce (\<lambda>n. True) ex_q0 [7, 8, 9] 0 3 = Some (ex_r [ex_b [7, 8, 9] 0] 3 3, [Wake_rr], 3)"
    by (simp add: qproduce_def ex_defs iallocb_def rdn_def bput_def wrn_def unstarve_def clrf_def numeral_3_eq_3)
  from ract.quiet [OF qact.produce [OF _ this]] show ?thesis by (auto simp: rstep_def)
qed

lemma ex_take: "qread_take (ex_r [ex_b [7, 8, 9] 0] 3 3) 2 = (ex_r [] 0 0, Took [ex_b [7, 8, 9] 0] 3)"
  by (subst qread_take.simps) (simp add: qwait_def qremove_def ex_defs)

lemma ex_meanwhile: "qact am (ex_r [] 0 0) [] (In [4]) (ex_r [ex_b [4] 0] 1 1)"
proof -
  have "qproduce (\<lambda>n. True) (ex_r [] 0 0) [4] 0 1 = Some (ex_r [ex_b [4] 0] 1 1, [], 1)"
    by (simp add: qproduce_def ex_defs iallocb_def rdn_def bput_def wrn_def unstarve_def)
  from qact.produce [OF _ this] show ?thesis by simp
qed

lemma ex_takes: "rstep (ex_r [ex_b [7, 8, 9] 0] 3 3, None) Tau (ex_r [] 0 0, Some ([ex_b [7, 8, 9] 0], 3, 2))"
  using ract.read_takes [OF ex_take] by (auto simp: rstep_def)

lemma ex_during: "rstep (ex_r [] 0 0, Some h) (In [4]) (ex_r [ex_b [4] 0] 1 1, Some h)"
  unfolding rstep_def by (intro exI, rule ract.during [OF ex_meanwhile]) simp

lemma ex_puts: "rstep (ex_r [ex_b [4] 0] 1 1, Some ([ex_b [7, 8, 9] 0], 3, 2)) (Out [7, 8]) (ex_r [ex_b [7, 8, 9] 2, ex_b [4] 0] 4 2, None)"
proof -
  have b: "bl2mem [0, 0] 0 [ex_b [7, 8, 9] 0] 2 = Some ([7, 8], [ex_b [7, 8, 9] 2])"
    by (simp add: ex_defs bget_def rdn_def wrn_def numeral_2_eq_2)
  have p: "qread_put (ex_r [ex_b [4] 0] 1 1) [ex_b [7, 8, 9] 2] 3 = (ex_r [ex_b [7, 8, 9] 2, ex_b [4] 0] 4 2, [], 2)"
    by (simp add: qread_put_def qputback_def qwakeup_unlock_def ex_defs)
  from ract.read_puts [OF _ b p] show ?thesis by (auto simp: rstep_def ex_defs)
qed

lemma ex_run: "run rstep (ex_q0, None) ex_tr (ex_r [ex_b [7, 8, 9] 2, ex_b [4] 0] 4 2, None)"
  unfolding ex_tr_def by (rule run_Cons, rule ex_produce, rule run_Cons, rule ex_takes, rule run_Cons, rule ex_during, rule run_Cons, rule ex_puts, rule run_Nil)

theorem qio_fifo_witness:
  "qopen True 4 0 False = Some ex_q0 \<and> rbytes (ex_r [ex_b [7, 8, 9] 2, ex_b [4] 0] 4 2, None) = [9, 4] \<and>
    ins ex_tr = dels ex_tr @ rbytes (ex_r [ex_b [7, 8, 9] 2, ex_b [4] 0] 4 2, None)"
  using qio_fifo [OF _ ex_run, of 4 0 False] by (simp add: qopen_def ex_tr_def rbytes_def in_hand_def qbytes_def ex_defs)

text \<open>C9 (safety). A reader asleep on an empty queue is never forgotten: a step of the queue either leaves it
  empty, open and marked starved, or wakes the reader.\<close>

theorem reader_not_lost:
  assumes "ract am (q, None) ev l (q', h)" "wf_queue q" "reader_asleep q"
  shows "reader_asleep q' \<or> Wake_rr \<in> set ev"
  using ract_reader [OF assms(1)] assms(2,3) by simp

lemma ex_hangup: "ract False (ex_q0, None) [Wake_rr, Wake_wr] Tau (fst (the (qhangup ex_q0 None)), None)"
proof -
  obtain q' where "qhangup ex_q0 None = Some (q', [Wake_rr, Wake_wr])"
    using qhangup_ok [of ex_q0 None] ex_q_facts by auto
  then show ?thesis using ract.quiet [OF qact.hangup [of None ex_q0 q' "[Wake_rr, Wake_wr]"]] by simp
qed

theorem reader_not_lost_witness:
  "reader_asleep ex_q0 \<and> (reader_asleep (fst (the (qhangup ex_q0 None))) \<or> Wake_rr \<in> set [Wake_rr, Wake_wr])"
  using reader_not_lost [OF ex_hangup] ex_q_facts by simp

text \<open>C10 (safety). A flow-controlled writer is not forgotten either, on a queue that holds no block without data and whose limit is not negative: as long as the limit
  stays, and unless \<open>qbread\<close> finds no memory for the second part of a block it splits, every step
  leaves the queue open, marked, and at least half full or with a \<open>qread\<close> in progress, or wakes the writer; the step that ends a
  \<open>qread\<close> leaves it half full or wakes the writer. (With a block without data it can be forgotten: see the end of \<open>QioReads\<close>.)\<close>

theorem writer_not_lost:
  assumes "ract False s ev l s'" "wf_rstate s" "no_empty (fst s)" "writer_waits s" "0 \<le> q_limit (fst s)" "q_limit (fst s') = q_limit (fst s)"
  shows "writer_waits s' \<or> Wake_wr \<in> set ev"
  using ract_writer [OF assms] .

lemma ex_get: "ract False (ex_q, None) [] (Out [1, 2, 3]) (ex_q\<lparr>q_blocks := [\<lparr>b_mem = [4, 5], b_rp = 0, b_wp = 2\<rparr>], q_len := 2, q_dlen := 2\<rparr>, None)"
proof -
  let ?q = "ex_q\<lparr>q_blocks := [\<lparr>b_mem = [4, 5], b_rp = 0, b_wp = 2\<rparr>], q_len := 2, q_dlen := 2\<rparr>"
  have "qget ex_q = (?q, [], Some \<lparr>b_mem = [1, 2, 3], b_rp = 0, b_wp = 3\<rparr>)"
    by (simp add: qget_def ex_q_def ex_q0_def restart_def has_def BALLOC_def BLEN_def half_def)
  from ract.quiet [OF qact.get [OF this]] show ?thesis by (simp add: bbytes_def BLEN_def)
qed

theorem writer_not_lost_witness:
  "writer_waits (ex_q\<lparr>q_blocks := [\<lparr>b_mem = [4, 5], b_rp = 0, b_wp = 2\<rparr>], q_len := 2, q_dlen := 2\<rparr>, None) \<or> Wake_wr \<in> set []"
  by (rule writer_not_lost [OF ex_get]) (simp_all add: ex_q_facts writer_waits_None wf_rstate_def wf_hand_def)

end
