(* ===== verification/QioReads.thy ===== *)
theory QioReads
  imports QioThms
begin

text \<open>
  What single calls deliver: a read whose copy runs while writers append, message boundaries, the end of
  a closed queue, a blocking write, a copy; and three places where the counters or the wakeups of
  \<open>svcs/qio.c\<close> go wrong.
\<close>

text \<open>C8 (functional). \<open>qread\<close> on a stream queue, whose copy to the user runs without the lock: however the
  queue was stepped on meanwhile without taking bytes out, the bytes delivered followed by the bytes
  queued at the end are the bytes queued at the start followed by those put in; the copy stays inside
  the \<open>len\<close> bytes and the count returned is the number of bytes delivered.\<close>

theorem qread_concurrent:
  assumes "wf_queue q" "\<not> has q Qmsg" "p + len \<le> length m" "qread_take q len = (q1, Took first n)"
    "run qstep q1 tr q2" "outs tr = []" "\<not> has q2 Qmsg"
  shows "\<exists>m' bs q3 ev k. bl2mem m p first len = Some (m', bs) \<and> qread_put q2 bs n = (q3, ev, k) \<and> wf_queue q3 \<and>
    k \<le> len \<and> take k (drop p m') @ qbytes q3 = qbytes q @ ins tr \<and>
    take p m' = take p m \<and> drop (p + len) m' = drop (p + len) m"
proof -
  have t: "took_ok q len q1 first n" using qread_take_ok [OF assms(1), of len] assms(4) by auto
  then have q1: "wf_queue q1" "has q1 Qmsg = has q Qmsg" by (simp_all add: took_ok_def has_def)
  have q2: "wf_queue q2" "qbytes q2 = qbytes q1 @ ins tr" "has q2 Qmsg = has q1 Qmsg"
    using qs.run_inv [OF assms(5) q1(1)] qs.run_exact [OF assms(5) q1(1)] outs_Nil [OF assms(6)] assms(2,7) q1(2) by simp_all
  obtain m' bs q3 ev k where r: "bl2mem m p first len = Some (m', bs)" "qread_put q2 bs n = (q3, ev, k)" "wf_queue q3"
    "k = min len (blocklen first)" "wrn m p (take k (cbytes first)) = Some m'"
    "take k (cbytes first) @ qbytes q3 = qbytes q @ ins tr"
    using qread_sections [OF t assms(3) q2] assms(2) by blast
  have l: "length (take k (cbytes first)) = k" using r(4) t by (simp add: took_ok_def length_cbytes)
  have "take k (drop p m') = take k (cbytes first)" using wrn_delivered [OF r(5)] unfolding l .
  moreover have "take p m' = take p m" using wrn_keeps [OF r(5)] by (simp add: keeps_def)
  moreover have "drop (p + len) m' = drop (p + len) m" using wrn_drop [OF r(5), of "p + len"] l r(4) by simp
  ultimately show ?thesis using r by auto
qed

lemma ex_others: "run qstep (ex_r [] 0 0) [In [4]] (ex_r [ex_b [4] 0] 1 1)"
  by (rule run_Cons [OF _ run_Nil], unfold qstep_def, intro exI, rule ex_meanwhile)

theorem qread_concurrent_witness:
  "\<exists>m' bs q3 ev k. bl2mem [0, 0, 0] 1 [ex_b [7, 8, 9] 0] 2 = Some (m', bs) \<and>
    qread_put (ex_r [ex_b [4] 0] 1 1) bs 3 = (q3, ev, k) \<and>
    wf_queue q3 \<and> k \<le> 2 \<and> take k (drop 1 m') @ qbytes q3 = qbytes (ex_r [ex_b [7, 8, 9] 0] 3 3) @ ins [In [4]] \<and>
    take 1 m' = take 1 [0, 0, 0] \<and> drop (1 + 2) m' = drop (1 + 2) [0, 0, 0]"
  by (rule qread_concurrent [OF _ _ _ ex_take ex_others]) (simp_all add: wf_queue_def wf_block_def ex_defs)

text \<open>On a message queue a read returns the start of the first message, at most \<open>len\<close>
  bytes, drops the rest of that message and leaves the other messages as they are.\<close>

lemma qread_message:
  assumes "wf_queue q" "has q Qmsg" "\<not> has q Qcoalesce" "q_blocks q = b # bs" "p + len \<le> length m"
  shows "\<exists>q' ev m'. qread q m p len = Some (q', ev, m', Ret (min len (BLEN b))) \<and> wf_queue q' \<and> q_blocks q' = bs \<and>
    wrn m p (take len (bbytes b)) = Some m'"
proof -
  obtain q1 where q1: "qremove q = (q1, Some b)" "wf_queue q1" "wf_block b" "q_blocks q1 = bs" "has q1 Qmsg"
    using qremove_ok [OF assms(1,4)] assms(2) by (auto simp: has_def)
  have take: "qread_take q len = (q1, Took [b] (BLEN b))"
    using assms(3,4) q1(1) by (subst qread_take.simps) (simp add: qwait_def)
  obtain m' r where m: "bl2mem m p [b] len = Some (m', r)" "wrn m p (take len (bbytes b)) = Some m'"
    "length r \<le> 1" "wf_chain r" "cbytes r = drop len (bbytes b)"
    using bl2mem_ok [of "[b]" p len m] q1(3) assms(5) by auto
  have "blocklen r = BLEN b - len" using length_cbytes [OF m(4)] m(5) q1(3) by (simp add: chain_simps)
  moreover have "qread_put q1 r (BLEN b) = (fst (qwakeup_unlock q1), snd (qwakeup_unlock q1), BLEN b - blocklen r)"
    using m(3) q1(5) by (cases r) (auto simp: qread_put_def split_beta)
  ultimately show ?thesis using take m q1 by (simp add: qread_def min_def)
qed

lemma qread_eof:
  assumes "wf_queue q" "q_blocks q = []" "has q Qclosed" "cstr (q_err q) 0 = Ehungup"
  shows "qread q m p len = Some (q\<lparr>q_eof := q_eof q + 1\<rparr>, [], m,
    if q_eof q < 3 then Ret 0 else Err (Raised Ehungup))"
proof -
  have "qread_take q len = (q\<lparr>q_eof := q_eof q + 1\<rparr>, Waited (if q_eof q < 3 then Weof else Werror))"
    using assms by (subst qread_take.simps) (simp add: qwait_def Let_def)
  then show ?thesis using assms(4) by (simp add: qread_def)
qed

text \<open>After \<open>qclose\<close> three reads report the end of the data, and the fourth raises
  "i/o on hungup channel"; a write raises it at once.\<close>

lemma closed_reads:
  assumes "wf_queue q" "q_eof q = 0" "qclose q = Some (q0, ev)" "\<not> q_bypass q"
  shows "\<exists>q1 q2 q3 q4. qread q0 m p len = Some (q1, [], m, Ret 0) \<and> qread q1 m p len = Some (q2, [], m, Ret 0) \<and>
    qread q2 m p len = Some (q3, [], m, Ret 0) \<and> qread q3 m p len = Some (q4, [], m, Err (Raised Ehungup)) \<and>
    qbwrite q0 b = (q0, [], Err (Raised Ehungup))"
proof -
  obtain q0': "wf_queue q0" "q_blocks q0 = []" "has q0 Qclosed" "cstr (q_err q0) 0 = Ehungup"
    using qclose_ok [OF assms(1)] assms(3) by auto
  have f: "q_eof q0 = 0" "q_bypass q0 = q_bypass q" using assms(2,3) by (auto simp: qclose_def bind_eq_Some_conv)
  note r = qread_eof [of "q0\<lparr>q_eof := _\<rparr>", simplified]
  show ?thesis
    using qread_eof [of q0] r q0' f assms(4) by (simp add: qbwrite_def qbwrite_add_def)
qed

text \<open>C11 (functional). A blocking \<open>qwrite\<close> of \<open>len\<close> bytes to a stream queue queues a prefix of them at the
  back: all of them when it returns \<open>len\<close>, the number it reports when it sleeps on flow control, none
  when the queue is closed; an error is that of the closed queue or of exhausted memory.\<close>

theorem qwrite_ok:
  assumes "wf_queue q" "p + len \<le> length m" "\<not> has q Qmsg" "\<not> q_noblock q" "\<not> q_bypass q"
  shows "\<exists>q' ev r k. qwrite km q m p len = Some (q', ev, r) \<and> wf_queue q' \<and> k \<le> len \<and>
      qbytes q' = qbytes q @ take k (drop p m) \<and>
      (case r of Ret n \<Rightarrow> n = len \<and> k = len | Asleep n \<Rightarrow> n = k \<and> has q' Qflow
       | Err e \<Rightarrow> (e = Exhausted \<and> (\<exists>n. \<not> km n)) \<or> (e = Raised (cstr (q_err q) 0) \<and> has q Qclosed \<and> k = 0))"
  using qwrite_from_ok [of q p len m 0 km, unfolded add_0 add_0_right] assms by (simp add: qwrite_def)

theorem qwrite_ok_witness:
  "\<exists>q' ev r k. qwrite (\<lambda>n. True) ex_q [6, 7, 8] 1 2 = Some (q', ev, r) \<and> wf_queue q' \<and> k \<le> 2 \<and>
      qbytes q' = qbytes ex_q @ take k (drop 1 [6, 7, 8]) \<and>
      (case r of Ret n \<Rightarrow> n = 2 \<and> k = 2 | Asleep n \<Rightarrow> n = k \<and> has q' Qflow
       | Err e \<Rightarrow> (e = Exhausted \<and> (\<exists>n :: nat. \<not> True)) \<or> (e = Raised (cstr (q_err ex_q) 0) \<and> has ex_q Qclosed \<and> k = 0))"
  by (rule qwrite_ok) (simp_all add: ex_q_facts)

text \<open>\<open>qcopy\<close> gives a block with the \<open>len\<close> bytes of the queue from \<open>offset\<close>, or fewer when
  the queue ends before, across the borders of the blocks, and takes nothing out.\<close>

lemma qcopy_ok:
  assumes "wf_queue q"
  shows "outcome km (qcopy km q len off) (\<lambda>b. wf_block b \<and> bbytes b = take len (drop off (qbytes q)))"
proof -
  have wf: "wf_chain (q_blocks q)" using assms by (simp add: wf_queue_def)
  have l: "length (qbytes q) = blocklen (q_blocks q)" using wf by (simp add: qbytes_def length_cbytes)
  show ?thesis
  proof (cases "off < blocklen (q_blocks q)")
    case True
    then obtain b rest i where s: "copy_seek (q_blocks q) 0 off = Some (b # rest, b_rp b + i, BLEN b - i)" "i < BLEN b"
      "wf_chain (b # rest)" "drop i (cbytes (b # rest)) = drop off (qbytes q)"
      using copy_seek_ok [OF wf, of 0 off] by (auto simp: qbytes_def)
    have "\<exists>nb'. copy_blocks (newb len) (b # rest) (b_rp b + i) (BLEN b - i) 0 len = Some nb' \<and> wf_block nb' \<and>
      bbytes nb' = bbytes (newb len) @ take (len - 0) (drop i (cbytes (b # rest)))"
      by (rule copy_blocks_ok) (use s in auto)
    then show ?thesis unfolding qcopy_def s(4) by (intro outcome_allocb) (auto simp: s(1) simp del: copy_blocks.simps)
  next
    case False
    then show ?thesis using copy_seek_ok [OF wf, of 0 off] l
      unfolding qcopy_def by (intro outcome_allocb) simp
  qed
qed

section \<open>Where the counters or wakeups go wrong\<close>

definition ex_pull :: queue where
  "ex_pull = ex_q0\<lparr>q_blocks := [\<lparr>b_mem = [1], b_rp = 0, b_wp = 1\<rparr>, \<lparr>b_mem = [2, 3], b_rp = 0, b_wp = 2\<rparr>],
     q_len := 3, q_dlen := 3, q_state := 0\<rparr>"

text \<open>\<open>pullupqueue\<close>, which the mount driver calls, moves bytes between blocks, adds a block
  and frees others without changing \<open>len\<close>: the bytes stay, but \<open>len\<close> is no longer the space of the
  chain, so flow control works with a wrong number from then on.\<close>

lemma pullupqueue_len:
  "wf_queue ex_pull \<and> (\<exists>q'. pullupqueue (\<lambda>n. True) ex_pull 2 = Some (Inr q') \<and> qbytes q' = qbytes ex_pull \<and>
     q_len q' \<noteq> int (blockalloclen (q_blocks q')))"
  by (simp add: ex_pull_def ex_q0_def wf_queue_def wf_block_def BALLOC_def BLEN_def qbytes_def bbytes_def
      pullupqueue_def pullupblock_def allocb_def iallocb_def bget_def bput_def rdn_def wrn_def numeral_2_eq_2 Let_def)

lemma qread_take_drops:
  "\<lbrakk> has q Qcoalesce; \<not> has q Qclosed; list_all (\<lambda>b. BLEN b = 0) (q_blocks q) \<rbrakk> \<Longrightarrow>
    qread_take q len = (setf Qstarve (q\<lparr>q_blocks := [], q_len := q_len q - int (blockalloclen (q_blocks q))\<rparr>), Waited Wsleep)"
proof (induction "q_blocks q" arbitrary: q)
  case Nil
  then have "q\<lparr>q_blocks := [], q_len := q_len q - int (blockalloclen (q_blocks q))\<rparr> = q" by (cases q) simp
  then show ?case using Nil qread_take_empty [of q len] by (simp only: simp_thms)
next
  case (Cons b bs)
  note blocks = Cons.hyps(2) [symmetric]
  have q: "q_blocks q = b # bs" "BLEN b = 0" "list_all (\<lambda>b. BLEN b = 0) bs" using Cons.prems(3) unfolding blocks by simp_all
  let ?q = "q\<lparr>q_blocks := bs, q_len := q_len q - int (BALLOC b)\<rparr>"
  have "qread_take q len = qread_take ?q len"
    using q Cons.prems(1) by (subst qread_take.simps) (simp add: qwait_def qremove_def)
  also have "\<dots> = (setf Qstarve (?q\<lparr>q_blocks := [], q_len := q_len ?q - int (blockalloclen bs)\<rparr>), Waited Wsleep)"
    using Cons.hyps(1) [of ?q] Cons.prems(1,2) q(3) by simp
  finally show ?case using q(1) by (simp add: algebra_simps)
qed

text \<open>C12 (liveness). On an open, blocking, coalescing queue whose blocks all have no data, a writer whose block, without data too, brings
  the queue to its limit goes to sleep marked; the next read, however long, frees all the blocks and sleeps without restarting the
  writer: reader and writer are then both asleep, on an empty queue below its limit.\<close>

theorem coalesce_both_asleep:
  assumes "wf_queue q" "has q Qcoalesce" "\<not> has q Qclosed" "\<not> q_noblock q" "\<not> q_bypass q" "0 < q_limit q"
    "list_all (\<lambda>b. BLEN b = 0) (b # q_blocks q)" "q_limit q \<le> q_len q + int (BALLOC b)"
  shows "\<exists>q1 ev q2. qbwrite q b = (q1, ev, Asleep 0) \<and> Wake_wr \<notin> set ev \<and> qread q1 m p len = Some (q2, [], m, Asleep 0) \<and>
     q_blocks q2 = [] \<and> qnotfull q2 \<and> has q2 Qflow"
proof -
  let ?q = "q\<lparr>q_blocks := q_blocks q @ [b], q_len := q_len q + int (BALLOC b)\<rparr>"
  define q1 where "q1 = setf Qflow (fst (unstarve ?q))"
  have w: "\<exists>ev. qbwrite q b = (q1, ev, Asleep 0) \<and> Wake_wr \<notin> set ev"
    using assms(3-5,7,8) by (auto simp: q1_def qbwrite_def qbwrite_add_def qbwrite_wait_def qnotfull_def Let_def split_beta unstarve_def)
  have q1: "has q1 Qcoalesce" "\<not> has q1 Qclosed" "has q1 Qflow" "q_blocks q1 = q_blocks q @ [b]" "q_limit q1 = q_limit q"
    "q_len q1 = int (blockalloclen (q_blocks q1))"
    using assms(1-3) by (auto simp: q1_def unstarve_def wf_queue_def)
  have "qread_take q1 len = (setf Qstarve (q1\<lparr>q_blocks := [], q_len := 0\<rparr>), Waited Wsleep)"
    using qread_take_drops [OF q1(1,2), of len] q1(4,6) assms(7) by simp
  then have "qread q1 m p len = Some (setf Qstarve (q1\<lparr>q_blocks := [], q_len := 0\<rparr>), [], m, Asleep 0)" by (simp add: qread_def)
  moreover have "qnotfull (setf Qstarve (q1\<lparr>q_blocks := [], q_len := 0\<rparr>))" using assms(6) q1(5) by (simp add: qnotfull_def)
  ultimately show ?thesis using w q1(3) by auto
qed

theorem coalesce_both_asleep_witness:
  "\<exists>q1 ev q2. qbwrite (ex_q0\<lparr>q_state := Qcoalesce\<rparr>) (newb 5) = (q1, ev, Asleep 0) \<and> Wake_wr \<notin> set ev \<and>
     qread q1 [0] 0 1 = Some (q2, [], [0], Asleep 0) \<and> q_blocks q2 = [] \<and> qnotfull q2 \<and> has q2 Qflow"
  by (rule coalesce_both_asleep) (simp_all add: ex_q0_def wf_queue_def has_def BALLOC_def)

end
