(* ===== verification/Lock.thy ===== *)
theory Lock
  imports Prelude
begin

text \<open>
  The blocking locks of \<open>svcs/lock.c\<close>. A \<open>QLock\<close> is the flag \<open>locked\<close> and the queue of processes
  linked through \<open>qnext\<close> from \<open>head\<close> to \<open>tail\<close>, as a list. Its fields change only under the spin lock
  \<open>use\<close>, so each operation is one atomic function; \<open>osblock\<close> and \<open>osready\<close> are the answer \<open>Blocks\<close> of
  \<open>qlock\<close> and the process \<open>qunlock\<close> makes ready, which then holds the lock. The readers/writer lock is
  built from two of them, \<open>x\<close> and \<open>k\<close>, and a counter under the spin lock \<open>l\<close>: its operations are runs of
  atomic steps, and any number of processes interleave them.
\<close>

record 'p qlock_t =
  l_locked :: bool
  l_queue :: "'p list"

datatype grant = Holds | Blocks

definition qlock :: "'p \<Rightarrow> 'p qlock_t \<Rightarrow> 'p qlock_t \<times> grant" where
  "qlock up q = (if \<not> l_locked q then (q\<lparr>l_locked := True\<rparr>, Holds)
     else (q\<lparr>l_queue := l_queue q @ [up]\<rparr>, Blocks))"

text \<open>\<open>canqlock\<close> when it gets the spin lock \<open>use\<close>; the users below hold a lock that excludes the others.\<close>

definition canqlock :: "'p qlock_t \<Rightarrow> 'p qlock_t \<times> bool" where
  "canqlock q = (if l_locked q then (q, False) else (q\<lparr>l_locked := True\<rparr>, True))"

definition qunlock :: "'p qlock_t \<Rightarrow> 'p qlock_t \<times> 'p option" where
  "qunlock q = (case l_queue q of
       p # ps \<Rightarrow> (q\<lparr>l_queue := ps\<rparr>, Some p)
     | [] \<Rightarrow> (q\<lparr>l_locked := False\<rparr>, None))"

section \<open>The readers/writer lock\<close>

text \<open>
  Where a process is in the code: outside; waiting for \<open>x\<close> in \<open>rlock\<close> or \<open>wlock\<close>; in \<open>rlock\<close> holding \<open>x\<close>,
  before and after it counted itself; reading; in \<open>wlock\<close> holding \<open>x\<close>, before or while it waits for \<open>k\<close>;
  writing; in \<open>wunlock\<close> between the two calls of \<open>qunlock\<close>.
\<close>

datatype pc = Away | RWaitX | RHasX | RCounted | Reading | WWaitX | WHasX | WWaitK | Writing | WDone

record 'p rwlock =
  rw_x :: "'p qlock_t"
  rw_k :: "'p qlock_t"
  rw_readers :: int
  rw_pc :: "'p \<Rightarrow> pc"

definition at :: "'p \<Rightarrow> pc \<Rightarrow> 'p rwlock \<Rightarrow> 'p rwlock" where
  "at p c s = s\<lparr>rw_pc := (rw_pc s)(p := c)\<rparr>"

text \<open>\<open>qunlock(&l->x)\<close>: the process made ready goes on holding \<open>x\<close>, in \<open>rlock\<close> or \<open>wlock\<close>.\<close>

definition unlock_x :: "'p rwlock \<Rightarrow> 'p rwlock" where
  "unlock_x s = (case qunlock (rw_x s) of (x, None) \<Rightarrow> s\<lparr>rw_x := x\<rparr>
     | (x, Some p) \<Rightarrow> at p (if rw_pc s p = RWaitX then RHasX else WHasX) (s\<lparr>rw_x := x\<rparr>))"

text \<open>\<open>qunlock(&l->k)\<close>: only a writer waits for \<open>k\<close>.\<close>

definition unlock_k :: "'p rwlock \<Rightarrow> 'p rwlock" where
  "unlock_k s = (case qunlock (rw_k s) of (k, None) \<Rightarrow> s\<lparr>rw_k := k\<rparr>
     | (k, Some p) \<Rightarrow> at p Writing (s\<lparr>rw_k := k\<rparr>))"

text \<open>The steps of \<open>rlock\<close>.\<close>

definition rlock_enter :: "'p \<Rightarrow> 'p rwlock \<Rightarrow> 'p rwlock" where
  "rlock_enter p s = (case qlock p (rw_x s) of
       (x, Holds) \<Rightarrow> at p RHasX (s\<lparr>rw_x := x\<rparr>) | (x, Blocks) \<Rightarrow> at p RWaitX (s\<lparr>rw_x := x\<rparr>))"

definition rlock_count :: "'p \<Rightarrow> 'p rwlock \<Rightarrow> 'p rwlock" where
  "rlock_count p s = at p RCounted (s\<lparr>rw_readers := rw_readers s + 1, rw_k := fst (canqlock (rw_k s))\<rparr>)"

definition rlock_leave :: "'p \<Rightarrow> 'p rwlock \<Rightarrow> 'p rwlock" where
  "rlock_leave p s = unlock_x (at p Reading s)"

text \<open>\<open>canrlock\<close> takes \<open>x\<close> only when it is free.\<close>

definition canrlock_enter :: "'p \<Rightarrow> 'p rwlock \<Rightarrow> 'p rwlock" where
  "canrlock_enter p s = (case canqlock (rw_x s) of
       (x, True) \<Rightarrow> at p RHasX (s\<lparr>rw_x := x\<rparr>) | (x, False) \<Rightarrow> s)"

definition runlock :: "'p \<Rightarrow> 'p rwlock \<Rightarrow> 'p rwlock" where
  "runlock p s = (let s = at p Away (s\<lparr>rw_readers := rw_readers s - 1\<rparr>) in
     if rw_readers s = 0 then unlock_k s else s)"

text \<open>The steps of \<open>wlock\<close> and \<open>wunlock\<close>.\<close>

definition wlock_enter :: "'p \<Rightarrow> 'p rwlock \<Rightarrow> 'p rwlock" where
  "wlock_enter p s = (case qlock p (rw_x s) of
       (x, Holds) \<Rightarrow> at p WHasX (s\<lparr>rw_x := x\<rparr>) | (x, Blocks) \<Rightarrow> at p WWaitX (s\<lparr>rw_x := x\<rparr>))"

definition wlock_k :: "'p \<Rightarrow> 'p rwlock \<Rightarrow> 'p rwlock" where
  "wlock_k p s = (case qlock p (rw_k s) of
       (k, Holds) \<Rightarrow> at p Writing (s\<lparr>rw_k := k\<rparr>) | (k, Blocks) \<Rightarrow> at p WWaitK (s\<lparr>rw_k := k\<rparr>))"

definition wunlock_k :: "'p \<Rightarrow> 'p rwlock \<Rightarrow> 'p rwlock" where
  "wunlock_k p s = unlock_k (at p WDone s)"

definition wunlock_x :: "'p \<Rightarrow> 'p rwlock \<Rightarrow> 'p rwlock" where
  "wunlock_x p s = unlock_x (at p Away s)"

inductive rwstep :: "'p rwlock \<Rightarrow> 'p rwlock \<Rightarrow> bool" where
  r_enter: "rw_pc s p = Away \<Longrightarrow> rwstep s (rlock_enter p s)"
| r_try: "rw_pc s p = Away \<Longrightarrow> rwstep s (canrlock_enter p s)"
| r_count: "rw_pc s p = RHasX \<Longrightarrow> rwstep s (rlock_count p s)"
| r_leave: "rw_pc s p = RCounted \<Longrightarrow> rwstep s (rlock_leave p s)"
| r_unlock: "rw_pc s p = Reading \<Longrightarrow> rwstep s (runlock p s)"
| w_enter: "rw_pc s p = Away \<Longrightarrow> rwstep s (wlock_enter p s)"
| w_k: "rw_pc s p = WHasX \<Longrightarrow> rwstep s (wlock_k p s)"
| w_unlock: "rw_pc s p = Writing \<Longrightarrow> rwstep s (wunlock_k p s)"
| w_leave: "rw_pc s p = WDone \<Longrightarrow> rwstep s (wunlock_x p s)"

definition free_qlock :: "'p qlock_t" where
  "free_qlock = \<lparr>l_locked = False, l_queue = []\<rparr>"

definition rw_init :: "'p rwlock" where
  "rw_init = \<lparr>rw_x = free_qlock, rw_k = free_qlock, rw_readers = 0, rw_pc = (\<lambda>p. Away)\<rparr>"

inductive reachable :: "'p rwlock \<Rightarrow> bool" where
  init: "reachable rw_init"
| step: "reachable s \<Longrightarrow> rwstep s s' \<Longrightarrow> reachable s'"

end
