(* ===== verification/LockThms.thy ===== *)
theory LockThms
  imports Lock
begin

text \<open>
  The invariant of the readers/writer lock over all interleavings, by rule induction on the reachable
  states: who holds \<open>x\<close>, who writes, who waits where, and that the reader count is exact. Exclusion and
  freedom from deadlock follow.
\<close>


fun hasx :: "pc \<Rightarrow> bool" where
  "hasx RHasX = True" | "hasx RCounted = True" | "hasx WHasX = True" | "hasx WWaitK = True"
| "hasx Writing = True" | "hasx WDone = True" | "hasx _ = False"

fun waitx :: "pc \<Rightarrow> bool" where
  "waitx RWaitX = True" | "waitx WWaitX = True" | "waitx _ = False"

fun counted :: "pc \<Rightarrow> bool" where
  "counted RCounted = True" | "counted Reading = True" | "counted _ = False"

definition counted_set :: "'p rwlock \<Rightarrow> 'p set" where
  "counted_set s = {p. counted (rw_pc s p)}"

text \<open>
  \<open>h\<close> is the process that holds \<open>x\<close>, \<open>w\<close> the process that writes. Both queues hold exactly the
  processes that wait there, each once; the counter is the number of readers counted; \<open>k\<close> is held
  while there are readers or a writer, never both, and only the holder of \<open>x\<close> waits for it.
\<close>

definition rw_owned :: "'p option \<Rightarrow> 'p option \<Rightarrow> 'p rwlock \<Rightarrow> bool" where
  "rw_owned h w s \<longleftrightarrow> (\<forall>p. hasx (rw_pc s p) \<longleftrightarrow> h = Some p) \<and> (\<forall>p. rw_pc s p = Writing \<longleftrightarrow> w = Some p) \<and>
     (l_locked (rw_x s) \<longleftrightarrow> h \<noteq> None) \<and> (l_queue (rw_x s) \<noteq> [] \<longrightarrow> h \<noteq> None) \<and>
     distinct (l_queue (rw_x s)) \<and> (\<forall>p. p \<in> set (l_queue (rw_x s)) \<longleftrightarrow> waitx (rw_pc s p))"

definition rw_counts :: "'p option \<Rightarrow> 'p option \<Rightarrow> 'p rwlock \<Rightarrow> bool" where
  "rw_counts h w s \<longleftrightarrow> finite (counted_set s) \<and> rw_readers s = int (card (counted_set s)) \<and>
     (l_locked (rw_k s) \<longleftrightarrow> counted_set s \<noteq> {} \<or> w \<noteq> None) \<and> (w \<noteq> None \<longrightarrow> counted_set s = {}) \<and>
     (l_queue (rw_k s) = (case h of None \<Rightarrow> [] | Some p \<Rightarrow> if rw_pc s p = WWaitK then [p] else [])) \<and>
     (l_queue (rw_k s) \<noteq> [] \<longrightarrow> counted_set s \<noteq> {})"

definition rw_inv :: "'p rwlock \<Rightarrow> bool" where
  "rw_inv s \<longleftrightarrow> (\<exists>h w. rw_owned h w s \<and> rw_counts h w s)"

lemma rw_invI: "rw_owned h w s \<Longrightarrow> rw_counts h w s \<Longrightarrow> rw_inv s"
  by (auto simp: rw_inv_def)

lemma at_simps [simp]: "rw_x (at p c s) = rw_x s" "rw_k (at p c s) = rw_k s" "rw_readers (at p c s) = rw_readers s"
  "rw_pc (at p c s) = (rw_pc s)(p := c)"
  by (simp_all add: at_def)

lemma counted_at: "counted_set (at p c s) = (if counted c then insert p (counted_set s) else counted_set s - {p})"
  by (auto simp: counted_set_def)

lemma counted_fields [simp]: "counted_set (s\<lparr>rw_x := x\<rparr>) = counted_set s" "counted_set (s\<lparr>rw_k := x\<rparr>) = counted_set s"
  "counted_set (s\<lparr>rw_readers := r\<rparr>) = counted_set s"
  by (simp_all add: counted_set_def)

lemma counted_mem [simp]: "p \<in> counted_set s \<longleftrightarrow> counted (rw_pc s p)"
  by (simp add: counted_set_def)

lemma pc_disjoint: "hasx c \<Longrightarrow> \<not> waitx c" "waitx c \<Longrightarrow> \<not> counted c" "waitx c \<Longrightarrow> c \<noteq> Writing"
  by (cases c; simp)+

lemma counted_same: "counted c = counted (rw_pc s p) \<Longrightarrow> counted_set (at p c s) = counted_set s"
  by (auto simp: counted_set_def)

lemma writer_holder:
  assumes "rw_owned h w s" "w = Some p"
  shows "h = Some p" "rw_pc s p = Writing"
proof -
  show pc: "rw_pc s p = Writing" using assms by (simp add: rw_owned_def)
  then have "hasx (rw_pc s p)" by simp
  then show "h = Some p" using assms(1) by (simp add: rw_owned_def)
qed

lemma owned_other: "rw_owned h w s \<Longrightarrow> \<not> hasx (rw_pc s p) \<Longrightarrow> h \<noteq> Some p \<and> w \<noteq> Some p"
  unfolding rw_owned_def by (metis hasx.simps(5))

lemma owned_writer:
  assumes "rw_owned (Some p) w s"
  shows "w = (if rw_pc s p = Writing then Some p else None)"
proof (cases w)
  case None
  then have "rw_pc s p \<noteq> Writing" using assms by (simp add: rw_owned_def)
  with None show ?thesis by simp
next
  case (Some r)
  then show ?thesis using writer_holder [OF assms Some] by simp
qed

lemma inv_holder:
  assumes "rw_inv s" "hasx (rw_pc s p)"
  shows "\<exists>w. rw_owned (Some p) w s \<and> rw_counts (Some p) w s"
proof -
  obtain h w where "rw_owned h w s" "rw_counts h w s" using assms(1) by (auto simp: rw_inv_def)
  moreover from this have "h = Some p" using assms(2) by (simp add: rw_owned_def)
  ultimately show ?thesis by blast
qed

lemmas rw_defs = rw_owned_def rw_counts_def counted_at

lemma enter_ok:
  assumes "rw_inv s" "rw_pc s p = Away" "hasx c" "\<not> counted c" "c \<noteq> Writing" "c \<noteq> WWaitK" "waitx w"
  shows "rw_inv (case qlock p (rw_x s) of (x, Holds) \<Rightarrow> at p c (s\<lparr>rw_x := x\<rparr>) | (x, Blocks) \<Rightarrow> at p w (s\<lparr>rw_x := x\<rparr>))"
proof -
  obtain h v where o: "rw_owned h v s" "rw_counts h v s" using assms(1) by (auto simp: rw_inv_def)
  have p: "h \<noteq> Some p" "v \<noteq> Some p" using owned_other [OF o(1)] assms(2) by simp_all
  have w: "\<not> hasx w" "\<not> counted w" "w \<noteq> Writing" "w \<noteq> WWaitK" using assms(7) by (cases w; simp)+
  have c: "\<not> waitx c" using assms(3) by (cases c) simp_all
  show ?thesis
  proof (cases "l_locked (rw_x s)")
    case True
    have "rw_owned h v (at p w (s\<lparr>rw_x := (rw_x s)\<lparr>l_queue := l_queue (rw_x s) @ [p]\<rparr>\<rparr>))"
      using o assms(2,7) True p w by (auto simp: rw_owned_def)
    moreover have "rw_counts h v (at p w (s\<lparr>rw_x := (rw_x s)\<lparr>l_queue := l_queue (rw_x s) @ [p]\<rparr>\<rparr>))"
      using o(2) p w assms(2) by (auto simp: rw_counts_def counted_same split: option.splits)
    ultimately show ?thesis using True by (simp add: qlock_def rw_invI)
  next
    case False
    have "rw_owned (Some p) v (at p c (s\<lparr>rw_x := (rw_x s)\<lparr>l_locked := True\<rparr>\<rparr>))"
      using o assms(2,3,5) False p c by (auto simp: rw_owned_def)
    moreover have "rw_counts (Some p) v (at p c (s\<lparr>rw_x := (rw_x s)\<lparr>l_locked := True\<rparr>\<rparr>))"
      using o assms(2-6) False p by (auto simp: rw_owned_def rw_counts_def counted_same)
    ultimately show ?thesis using False by (simp add: qlock_def rw_invI)
  qed
qed

text \<open>Releasing \<open>x\<close>: it goes to the process at the head of its queue, or is free.\<close>

lemma unlock_x_ok:
  assumes "rw_owned (Some p) w s" "rw_counts (Some p) w s" "\<not> hasx c" "\<not> waitx c" "c \<noteq> Writing"
    "counted c = counted (rw_pc s p)" "rw_pc s p \<noteq> WWaitK" "w \<noteq> Some p"
  shows "rw_inv (unlock_x (at p c s))"
proof (cases "l_queue (rw_x s)")
  case Nil
  have eq: "unlock_x (at p c s) = at p c (s\<lparr>rw_x := (rw_x s)\<lparr>l_locked := False\<rparr>\<rparr>)"
    using Nil by (simp add: unlock_x_def qunlock_def at_def)
  have "rw_owned None w (unlock_x (at p c s))"
    unfolding eq using assms(1,3-5,8) Nil by (auto simp: rw_owned_def)
  moreover have "rw_counts None w (unlock_x (at p c s))"
    unfolding eq using assms(2,6,7) by (simp add: rw_counts_def counted_same)
  ultimately show ?thesis by (rule rw_invI)
next
  case (Cons r rs)
  let ?c = "if rw_pc s r = RWaitX then RHasX else WHasX"
  have "hasx (rw_pc s p)" using assms(1) by (simp add: rw_owned_def)
  then have "p \<notin> set rs" using assms(1) Cons pc_disjoint(1) by (auto simp: rw_owned_def)
  then have wr: "waitx (rw_pc s r)" "hasx (rw_pc s p)" "r \<notin> set rs" "p \<notin> set rs" using assms(1) Cons by (auto simp: rw_owned_def)
  then have r: "r \<noteq> p" "\<not> counted (rw_pc s r)" "rw_pc s r \<noteq> Writing" "\<not> hasx (rw_pc s r)"
    using pc_disjoint [of "rw_pc s r"] pc_disjoint [of "rw_pc s p"] by auto
  have eq: "unlock_x (at p c s) = at r ?c (at p c (s\<lparr>rw_x := (rw_x s)\<lparr>l_queue := rs\<rparr>\<rparr>))"
    using Cons r(1) by (simp add: unlock_x_def qunlock_def at_def)
  have "rw_owned (Some r) w (unlock_x (at p c s))"
    unfolding eq using assms(1,3-5,8) Cons r wr by (auto simp: rw_owned_def)
  moreover have "rw_counts (Some r) w (unlock_x (at p c s))"
    unfolding eq using assms(2,6,7) r by (simp add: rw_counts_def counted_same)
  ultimately show ?thesis by (rule rw_invI)
qed

text \<open>Releasing \<open>k\<close> when no reader is left: a writer that waits for it writes.\<close>

lemma unlock_k_ok:
  assumes "rw_owned h None s" "finite (counted_set s)" "counted_set s = {}" "rw_readers s = 0"
    "l_queue (rw_k s) = (case h of None \<Rightarrow> [] | Some p \<Rightarrow> if rw_pc s p = WWaitK then [p] else [])" "l_locked (rw_k s)"
  shows "rw_inv (unlock_k s)"
proof (cases "l_queue (rw_k s)")
  case Nil
  have "rw_owned h None (unlock_k s)" "rw_counts h None (unlock_k s)"
    using assms Nil by (auto simp: unlock_k_def qunlock_def rw_defs split: option.splits)
  then show ?thesis by (rule rw_invI)
next
  case (Cons r rs)
  then have r: "h = Some r" "rw_pc s r = WWaitK" "rs = []" using assms(5) by (auto split: option.splits if_splits)
  have "rw_owned h (Some r) (unlock_k s)" "rw_counts h (Some r) (unlock_k s)"
    using assms Cons r by (auto simp: unlock_k_def qunlock_def rw_defs)
  then show ?thesis by (rule rw_invI)
qed

lemma rwstep_inv: "rwstep s s' \<Longrightarrow> rw_inv s \<Longrightarrow> rw_inv s'"
proof (induction rule: rwstep.induct)
  case (r_enter s p)
  then show ?case unfolding rlock_enter_def by (intro enter_ok) auto
next
  case (w_enter s p)
  then show ?case unfolding wlock_enter_def by (intro enter_ok) auto
next
  case (r_try s p)
  then obtain h w where o: "rw_owned h w s" "rw_counts h w s" by (auto simp: rw_inv_def)
  show ?case
  proof (cases "l_locked (rw_x s)")
    case False
    have "rw_owned (Some p) w (canrlock_enter p s)" "rw_counts (Some p) w (canrlock_enter p s)"
      using o r_try.hyps False owned_other [OF o(1), of p]
      by (auto simp: canrlock_enter_def canqlock_def rw_owned_def rw_counts_def counted_same)
    then show ?thesis by (rule rw_invI)
  qed (use r_try in \<open>simp add: canrlock_enter_def canqlock_def\<close>)
next
  case (r_count s p)
  then obtain w where o: "rw_owned (Some p) w s" "rw_counts (Some p) w s" using inv_holder [of s p] by auto
  have w: "w = None" using owned_writer [OF o(1)] r_count.hyps by simp
  have "rw_owned (Some p) None (rlock_count p s)" "rw_counts (Some p) None (rlock_count p s)"
    using o r_count.hyps w by (auto simp: rlock_count_def canqlock_def rw_defs)
  then show ?case by (rule rw_invI)
next
  case (r_leave s p)
  then obtain w where o: "rw_owned (Some p) w s" "rw_counts (Some p) w s" using inv_holder [of s p] by auto
  show ?case unfolding rlock_leave_def
    by (rule unlock_x_ok [OF o]) (use r_leave.hyps owned_writer [OF o(1)] in auto)
next
  case (r_unlock s p)
  then obtain h w where o: "rw_owned h w s" "rw_counts h w s" by (auto simp: rw_inv_def)
  have mem: "p \<in> counted_set s" using r_unlock.hyps by simp
  then have "w = None" using o(2) by (auto simp: rw_counts_def)
  then have c: "p \<in> counted_set s" "w = None" "h \<noteq> Some p" using mem owned_other [OF o(1), of p] r_unlock.hyps by auto
  let ?s = "at p Away (s\<lparr>rw_readers := rw_readers s - 1\<rparr>)"
  have s1: "rw_owned h None ?s" using o(1) c(2,3) r_unlock.hyps by (auto simp: rw_owned_def)
  have s2: "counted_set ?s = counted_set s - {p}" by (simp add: counted_at)
  have "card (counted_set s) = Suc (card (counted_set s - {p}))"
    using o(2) mem by (intro card.remove) (auto simp: rw_counts_def)
  then have s3: "rw_readers ?s = int (card (counted_set ?s))" using o(2) unfolding s2 by (simp add: rw_counts_def)
  have q: "l_queue (rw_k ?s) = (case h of None \<Rightarrow> [] | Some r \<Rightarrow> if rw_pc ?s r = WWaitK then [r] else [])"
    using o(2) c(3) by (cases h) (auto simp: rw_counts_def)
  have "counted_set s \<noteq> {}" using mem by blast
  then have k: "l_locked (rw_k ?s)" using o(2) by (simp add: rw_counts_def)
  have f: "finite (counted_set ?s)" using o(2) s2 by (simp add: rw_counts_def)
  show ?case
  proof (cases "rw_readers ?s = 0")
    case True
    then have "counted_set ?s = {}" using s3 f by simp
    from unlock_k_ok [OF s1 f this True q k] True show ?thesis by (simp add: runlock_def Let_def)
  next
    case False
    then have "counted_set ?s \<noteq> {}" using s3 by auto
    then have "rw_counts h None ?s" using f s3 k q by (simp add: rw_counts_def)
    with s1 False show ?thesis by (simp add: runlock_def Let_def rw_invI)
  qed
next
  case (w_k s p)
  then obtain w where o: "rw_owned (Some p) w s" "rw_counts (Some p) w s" using inv_holder [of s p] by auto
  have w: "w = None" using owned_writer [OF o(1)] w_k.hyps by simp
  have "rw_owned (Some p) (if l_locked (rw_k s) then None else Some p) (wlock_k p s)"
    "rw_counts (Some p) (if l_locked (rw_k s) then None else Some p) (wlock_k p s)"
    using o w_k.hyps w by (auto simp: wlock_k_def qlock_def rw_defs)
  then show ?case by (rule rw_invI)
next
  case (w_unlock s p)
  then obtain w where o: "rw_owned (Some p) w s" "rw_counts (Some p) w s" using inv_holder [of s p] by auto
  then have w: "w = Some p" using w_unlock.hyps by (auto simp: rw_owned_def)
  have p: "\<not> waitx (rw_pc s p)" "counted_set (at p WDone s) = counted_set s" "rw_pc s p \<noteq> WWaitK"
    using w_unlock.hyps by (simp_all add: counted_same)
  have "rw_owned (Some p) None (at p WDone s)" using o(1) w p(1) by (auto simp: rw_owned_def)
  then have "rw_inv (unlock_k (at p WDone s))"
    by (rule unlock_k_ok) (use o(2) w p in \<open>auto simp: rw_counts_def\<close>)
  then show ?case by (simp add: wunlock_k_def)
next
  case (w_leave s p)
  then obtain w where o: "rw_owned (Some p) w s" "rw_counts (Some p) w s" using inv_holder [of s p] by auto
  show ?case unfolding wunlock_x_def
    by (rule unlock_x_ok [OF o]) (use w_leave.hyps owned_writer [OF o(1)] in auto)
qed

lemma rw_init_inv: "rw_inv rw_init"
proof (rule rw_invI)
  show "rw_owned None None rw_init" by (simp add: rw_owned_def rw_init_def free_qlock_def)
  show "rw_counts None None rw_init" by (simp add: rw_counts_def rw_init_def free_qlock_def counted_set_def)
qed

lemma reachable_inv: "reachable s \<Longrightarrow> rw_inv s"
  by (induction rule: reachable.induct) (auto intro: rwstep_inv rw_init_inv)

section \<open>Properties\<close>

text \<open>C13 (safety). However many processes run \<open>rlock\<close>, \<open>canrlock\<close>, \<open>runlock\<close>, \<open>wlock\<close> and \<open>wunlock\<close>, in
  any interleaving, a writer excludes readers and other writers.\<close>

theorem rw_exclusion:
  assumes "reachable s" "rw_pc s p = Writing"
  shows "rw_pc s q \<noteq> Reading \<and> (rw_pc s q = Writing \<longrightarrow> q = p)"
proof -
  obtain h w where o: "rw_owned h w s" "rw_counts h w s" using reachable_inv [OF assms(1)] by (auto simp: rw_inv_def)
  have "w = Some p" using o(1) assms(2) by (simp add: rw_owned_def)
  then have "q \<notin> counted_set s" "rw_pc s q = Writing \<longrightarrow> q = p" using o by (auto simp: rw_owned_def rw_counts_def)
  then show ?thesis by auto
qed

definition ex_held :: "nat rwlock" where "ex_held = wlock_enter 1 rw_init"
definition ex_writing :: "nat rwlock" where "ex_writing = wlock_k 1 ex_held"
definition ex_waiting :: "nat rwlock" where "ex_waiting = rlock_enter 2 ex_held"

lemmas ex_rw_defs = ex_held_def ex_writing_def ex_waiting_def rw_init_def wlock_enter_def wlock_k_def rlock_enter_def
  qlock_def free_qlock_def at_def

lemma ex_rw_facts: "reachable ex_writing" "reachable ex_waiting" "rw_pc ex_writing 1 = Writing" "rw_pc ex_waiting 2 = RWaitX"
proof -
  have "reachable ex_held" unfolding ex_held_def
    by (rule reachable.step [OF reachable.init rwstep.w_enter]) (simp add: rw_init_def)
  moreover have "rw_pc ex_held 1 = WHasX" "rw_pc ex_held 2 = Away" by (simp_all add: ex_rw_defs)
  ultimately show "reachable ex_writing" "reachable ex_waiting"
    unfolding ex_writing_def ex_waiting_def by (blast intro: reachable.step rwstep.w_k rwstep.r_enter)+
qed (simp_all add: ex_rw_defs)

theorem rw_exclusion_witness: "rw_pc ex_writing 1 = Writing \<and> rw_pc ex_writing 2 \<noteq> Reading"
  using rw_exclusion [OF ex_rw_facts(1,3), of 2] ex_rw_facts(3) by blast

text \<open>C14 (liveness). The lock never deadlocks: whenever a process waits, some process is in a place where it
  goes on by itself, holding a lock the waiter needs; and a process waits in exactly one queue, once.\<close>

theorem rw_no_deadlock:
  assumes "reachable s" "rw_pc s p \<in> {RWaitX, WWaitX, WWaitK}"
  shows "(\<exists>q. rw_pc s q \<in> {RHasX, RCounted, Reading, WHasX, Writing, WDone}) \<and>
    (if rw_pc s p = WWaitK then l_queue (rw_k s) = [p] else p \<in> set (l_queue (rw_x s)) \<and> distinct (l_queue (rw_x s)))"
proof -
  obtain h w where o: "rw_owned h w s" "rw_counts h w s" using reachable_inv [OF assms(1)] by (auto simp: rw_inv_def)
  have "h \<noteq> None"
  proof (cases "rw_pc s p = WWaitK")
    case True
    then have "hasx (rw_pc s p)" by simp
    then show ?thesis using o(1) by (simp add: rw_owned_def)
  next
    case False
    then have "waitx (rw_pc s p)" using assms(2) by auto
    then have "p \<in> set (l_queue (rw_x s))" using o(1) by (simp add: rw_owned_def)
    then show ?thesis using o(1) by (auto simp: rw_owned_def)
  qed
  then obtain r where r: "h = Some r" "hasx (rw_pc s r)" using o(1) by (auto simp: rw_owned_def)
  have q: "\<exists>q. rw_pc s q \<in> {RHasX, RCounted, Reading, WHasX, Writing, WDone}"
  proof (cases "rw_pc s r = WWaitK")
    case True
    then have "l_queue (rw_k s) = [r]" using o(2) r by (simp add: rw_counts_def)
    then obtain u where "counted (rw_pc s u)" using o(2) by (auto simp: rw_counts_def)
    then show ?thesis by (intro exI [of _ u]) (cases "rw_pc s u"; simp)
  next
    case False
    then show ?thesis using r by (intro exI [of _ r]) (cases "rw_pc s r"; simp)
  qed
  moreover have "l_queue (rw_k s) = [p]" if "rw_pc s p = WWaitK"
  proof -
    have "hasx (rw_pc s p)" using that by simp
    then have "h = Some p" using o(1) by (simp add: rw_owned_def)
    then show ?thesis using o(2) that by (simp add: rw_counts_def)
  qed
  moreover have "p \<in> set (l_queue (rw_x s)) \<and> distinct (l_queue (rw_x s))" if "rw_pc s p \<noteq> WWaitK"
  proof -
    have "waitx (rw_pc s p)" using assms(2) that by auto
    then show ?thesis using o(1) by (simp add: rw_owned_def)
  qed
  ultimately show ?thesis by simp
qed

theorem rw_no_deadlock_witness:
  "(\<exists>q. rw_pc ex_waiting q \<in> {RHasX, RCounted, Reading, WHasX, Writing, WDone}) \<and> 2 \<in> set (l_queue (rw_x ex_waiting))"
  using rw_no_deadlock [OF ex_rw_facts(2), of 2] ex_rw_facts(4) by simp

end
