(* ===== verification/Namespace.thy ===== *)
theory Namespace
  imports Fcall
begin

unbundle bit_operations_syntax

text \<open>
  The mount table of a process group (\<open>svcs/chan.c\<close>, \<open>svcs/pgrp.c\<close>). A channel is what the table
  needs of one: device type and instance, qid, the channel to a mounted server, and its name. The
  table is an array of \<open>MNTHASH\<close> chains of mount heads; a head has the channel mounted upon and the
  union list of mounts. Each operation is one function of the table: \<open>cunmount\<close> and \<open>pgrpcpy\<close> hold the
  write lock \<open>ns\<close> of the table throughout; \<open>cmount\<close> releases it before it links the new mounts, but holds the write lock of the
  head by then, which every reader of the union takes. The global counter \<open>mountid\<close> is passed along. Reference counts are left out: channels
  are values. The pointer \<open>head\<close> of a mount leads to the head the mount is in. Allocation succeeds, but for \<open>cmount_nomem\<close>.
\<close>

datatype chan = Chan (c_type: u16) (c_dev: u64) (c_qid: qid) (c_mchan: "chan option") (c_name: "byte list")

abbreviation QTDIR :: byte where "QTDIR \<equiv> 0x80"
abbreviation MORDER :: u32 where "MORDER \<equiv> 3"
abbreviation MREPL :: u32 where "MREPL \<equiv> 0"
abbreviation MBEFORE :: u32 where "MBEFORE \<equiv> 1"
abbreviation MAFTER :: u32 where "MAFTER \<equiv> 2"
abbreviation MCREATE :: u32 where "MCREATE \<equiv> 4"
abbreviation MNTHASH :: nat where "MNTHASH \<equiv> 32"

definition eqqid :: "qid \<Rightarrow> qid \<Rightarrow> bool" where
  "eqqid a b \<longleftrightarrow> q_path a = q_path b \<and> q_vers a = q_vers b"

definition eqchan :: "chan \<Rightarrow> chan \<Rightarrow> bool \<Rightarrow> bool" where
  "eqchan a b pathonly =
     (if q_path (c_qid a) \<noteq> q_path (c_qid b) then False
      else if \<not> pathonly \<and> q_vers (c_qid a) \<noteq> q_vers (c_qid b) then False
      else if c_type a \<noteq> c_type b then False
      else if c_dev a \<noteq> c_dev b then False
      else True)"

text \<open>Type and instance are passed as \<open>int\<close>: the instance is cut to 32 bits by the call and extended by its sign in the comparison.\<close>

definition eqchantdqid :: "chan \<Rightarrow> u32 \<Rightarrow> u32 \<Rightarrow> qid \<Rightarrow> bool \<Rightarrow> bool" where
  "eqchantdqid a type dev qid pathonly =
     (if q_path (c_qid a) \<noteq> q_path qid then False
      else if \<not> pathonly \<and> q_vers (c_qid a) \<noteq> q_vers qid then False
      else if ucast (c_type a) \<noteq> type then False
      else if c_dev a \<noteq> scast dev then False
      else True)"

text \<open>Mount ids, the values of a \<open>ulong\<close>, are compared and nothing else.\<close>

datatype mountid = Mid (mid: nat)

instantiation mountid :: linorder
begin

definition less_eq_mountid :: "mountid \<Rightarrow> mountid \<Rightarrow> bool" where
  "less_eq_mountid a b \<longleftrightarrow> mid a \<le> mid b"

definition less_mountid :: "mountid \<Rightarrow> mountid \<Rightarrow> bool" where
  "less_mountid a b \<longleftrightarrow> mid a < mid b"

instance
  by standard (auto simp: less_eq_mountid_def less_mountid_def mountid.expand)

end

record mount =
  m_id :: mountid
  m_to :: chan
  m_flag :: u32
  m_spec :: "byte list option"

record mhead =
  h_from :: chan
  h_mount :: "mount list"

type_synonym mnthash = "mhead list list"

datatype nserror = Emount | Eunmount | Eunion | Enocreate

section \<open>Binding\<close>

text \<open>
  \<open>incref(&mountid)\<close>: the counter, a \<open>long\<close>, is a natural number (below 2^63); the value goes through an \<open>int\<close>, of 32
  bits, and is extended by its sign into the \<open>ulong\<close> of the mount.
\<close>

definition incref :: "nat \<Rightarrow> nat \<times> u32" where
  "incref ref = (ref + 1, word_of_nat (ref + 1))"

definition newmount :: "nat \<Rightarrow> chan \<Rightarrow> u32 \<Rightarrow> byte list option \<Rightarrow> nat \<times> mount" where
  "newmount ref t flag spec = (let (ref, x) = incref ref in
     (ref, \<lparr>m_id = Mid (unat (scast x :: u64)), m_to = t, m_flag = flag, m_spec = spec\<rparr>))"

definition mounth :: "qid \<Rightarrow> nat" where
  "mounth q = unat (q_path q AND 31)"

fun find_head :: "mhead list \<Rightarrow> chan \<Rightarrow> mhead option" where
  "find_head [] c = None"
| "find_head (m # ms) c = (if eqchan (h_from m) c True then Some m else find_head ms c)"

text \<open>The chain with the head found replaced, with a new head at its end, and without the head.\<close>

fun put_head :: "mhead list \<Rightarrow> chan \<Rightarrow> mhead \<Rightarrow> mhead list" where
  "put_head [] c h = [h]"
| "put_head (m # ms) c h = (if eqchan (h_from m) c True then h # ms else m # put_head ms c h)"

fun del_head :: "mhead list \<Rightarrow> chan \<Rightarrow> mhead list" where
  "del_head [] c = []"
| "del_head (m # ms) c = (if eqchan (h_from m) c True then ms else m # del_head ms c)"

text \<open>The copies of the further elements of a union that is bound.\<close>

fun copy_union :: "nat \<Rightarrow> mount list \<Rightarrow> u32 \<Rightarrow> nat \<times> mount list" where
  "copy_union ref [] flg = (ref, [])"
| "copy_union ref (um # ums) flg = (let (ref, f) = newmount ref (m_to um) flg (m_spec um);
       (ref, fs) = copy_union ref ums flg in (ref, f # fs))"

text \<open>
  The head the mount goes to: the one found, or a new one, which for a union mount starts with the old
  channel; and the list of its mounts with the new ones put in.
\<close>

definition cmount_head :: "nat \<Rightarrow> mhead option \<Rightarrow> chan \<Rightarrow> u32 \<Rightarrow> nat \<times> mhead" where
  "cmount_head ref m old order = (case m of Some m \<Rightarrow> (ref, m)
     | None \<Rightarrow> if order \<noteq> MREPL then
         (let (ref, o0) = newmount ref old 0 None in (ref, \<lparr>h_from = old, h_mount = [o0]\<rparr>))
       else (ref, \<lparr>h_from = old, h_mount = []\<rparr>))"

definition cmount_list :: "u32 \<Rightarrow> mount list \<Rightarrow> mount list \<Rightarrow> mount list" where
  "cmount_list order ms nm =
     (let ms = (if ms \<noteq> [] \<and> order = MREPL then [] else ms) in
      if ms \<noteq> [] \<and> order = MAFTER then ms @ nm else nm @ ms)"

text \<open>
  \<open>cmount(new, old, flag, spec)\<close>; \<open>umh\<close> is \<open>new->umh->mount\<close>, none when \<open>new->umh\<close> is nil. The result
  has the table, the counter and the mount id.
\<close>

definition cmount :: "mnthash \<Rightarrow> nat \<Rightarrow> chan \<Rightarrow> mount list option \<Rightarrow> chan \<Rightarrow> u32 \<Rightarrow> byte list option
    \<Rightarrow> nserror + (mnthash \<times> nat \<times> mountid)" where
  "cmount ht ref new umh old flag spec =
    (let order = flag AND MORDER; mh = (case umh of None \<Rightarrow> [] | Some ms \<Rightarrow> ms) in
     if QTDIR AND (q_type (c_qid old) XOR q_type (c_qid new)) \<noteq> 0 then Inl Emount
     else if q_type (c_qid old) AND QTDIR = 0 \<and> order \<noteq> MREPL then Inl Emount
     else if flag AND MCREATE \<noteq> 0 \<and> mh \<noteq> [] \<and> (tl mh \<noteq> [] \<or> m_flag (hd mh) AND MCREATE = 0) then Inl Emount
     else
       let l = mounth (c_qid old);
           (ref, m) = cmount_head ref (find_head (ht ! l) old) old order;
           (ref, nm) = newmount ref new flag spec;
           (ref, fs) = (if mh \<noteq> [] then copy_union ref (tl mh) (if order = MREPL then MAFTER else order) else (ref, []));
           nm = (if flag AND MCREATE \<noteq> 0 then nm\<lparr>m_flag := m_flag nm OR MCREATE\<rparr> else nm)
       in Inr (ht[l := put_head (ht ! l) old (m\<lparr>h_mount := cmount_list order (h_mount m) (nm # fs)\<rparr>)], ref, m_id nm))"

text \<open>
  What a \<open>cmount\<close> that passed its checks leaves of the table when \<open>newmount\<close> then fails for lack of memory, for the mount of \<open>new\<close>
  or a copy of a further element: the head is in the chain, the new mounts are not linked. (When it fails before, for the mount of \<open>old\<close> itself,
  \<open>pg->ns\<close> stays locked and the table is used no more.)
\<close>

definition cmount_nomem :: "mnthash \<Rightarrow> nat \<Rightarrow> chan \<Rightarrow> u32 \<Rightarrow> mnthash \<times> nat" where
  "cmount_nomem ht ref old flag = (let l = mounth (c_qid old);
       (ref, m) = cmount_head ref (find_head (ht ! l) old) old (flag AND MORDER)
     in (ht[l := put_head (ht ! l) old m], ref))"

fun unmount_one :: "mount list \<Rightarrow> chan \<Rightarrow> mount list option" where
  "unmount_one [] c = None"
| "unmount_one (f # fs) c =
     (if eqchan (m_to f) c True \<or> (case c_mchan (m_to f) of None \<Rightarrow> False | Some mc \<Rightarrow> eqchan mc c True)
      then Some fs else map_option ((#) f) (unmount_one fs c))"

definition cunmount :: "mnthash \<Rightarrow> chan \<Rightarrow> chan option \<Rightarrow> nserror + mnthash" where
  "cunmount ht mnt mounted = (let l = mounth (c_qid mnt) in
     case find_head (ht ! l) mnt of None \<Rightarrow> Inl Eunmount
     | Some m \<Rightarrow> (case mounted of None \<Rightarrow> Inr (ht[l := del_head (ht ! l) mnt])
        | Some c \<Rightarrow> (case unmount_one (h_mount m) c of None \<Rightarrow> Inl Eunion
           | Some ms \<Rightarrow> if ms = [] then Inr (ht[l := del_head (ht ! l) mnt])
               else Inr (ht[l := put_head (ht ! l) mnt (m\<lparr>h_mount := ms\<rparr>)]))))"

section \<open>Looking up\<close>

text \<open>\<open>findmount\<close>: the head and the first channel of its union; the outer \<open>None\<close> is \<open>m->mount->to\<close> of no mount.\<close>

fun find_mount :: "mhead list \<Rightarrow> u32 \<Rightarrow> u32 \<Rightarrow> qid \<Rightarrow> (mhead \<times> chan) option option" where
  "find_mount [] type dev qid = Some None"
| "find_mount (m # ms) type dev qid = (if eqchantdqid (h_from m) type dev qid True
     then (case h_mount m of [] \<Rightarrow> None | t # _ \<Rightarrow> Some (Some (m, m_to t)))
     else find_mount ms type dev qid)"

definition findmount :: "mnthash \<Rightarrow> u32 \<Rightarrow> u32 \<Rightarrow> qid \<Rightarrow> (mhead \<times> chan) option option" where
  "findmount ht type dev qid = find_mount (ht ! mounth qid) type dev qid"

definition domount :: "mnthash \<Rightarrow> chan \<Rightarrow> (mhead \<times> chan) option option" where
  "domount ht c = findmount ht (ucast (c_type c)) (ucast (c_dev c)) (c_qid c)"

text \<open>\<open>undomount\<close>: the inner loop over the mounts of a head named \<open>name\<close>, then all heads of all chains.\<close>

fun undo_head :: "chan \<Rightarrow> mount list \<Rightarrow> mhead \<Rightarrow> byte list \<Rightarrow> chan" where
  "undo_head c [] f name = c"
| "undo_head c (t # ts) f name = (if eqchan c (m_to t) True
     then if c_name (h_from f) \<noteq> name then undo_head c ts f name else h_from f
     else undo_head c ts f name)"

definition undomount :: "mnthash \<Rightarrow> chan \<Rightarrow> byte list \<Rightarrow> chan" where
  "undomount ht c name = foldl (\<lambda>c f. if c_name (h_from f) \<noteq> name then c else undo_head c (h_mount f) f name) c (concat ht)"

text \<open>\<open>createdir\<close>: the first element of the union that permits creation, before it is cloned.\<close>

fun createdir :: "mount list \<Rightarrow> nserror + chan" where
  "createdir [] = Inl Enocreate"
| "createdir (f # fs) = (if m_flag f AND MCREATE \<noteq> 0 then Inr (m_to f) else createdir fs)"

section \<open>Copying a name space\<close>

text \<open>
  \<open>pgrpinsert\<close> keeps the list linked by \<open>order\<close>; an element is a mount of the parent and the id its copy
  has so far, which stands for the pointer \<open>copy\<close>; these ids are unique while the counter is below 2^31.
\<close>

fun pgrpinsert :: "(mount \<times> mountid) list \<Rightarrow> mount \<times> mountid \<Rightarrow> (mount \<times> mountid) list" where
  "pgrpinsert [] m = [m]"
| "pgrpinsert (f # fs) m = (if m_id (fst m) < m_id (fst f) then m # f # fs else f # pgrpinsert fs m)"

fun copy_mounts :: "nat \<Rightarrow> (mount \<times> mountid) list \<Rightarrow> mount list \<Rightarrow> nat \<times> (mount \<times> mountid) list \<times> mount list" where
  "copy_mounts ref ord [] = (ref, ord, [])"
| "copy_mounts ref ord (m # ms) = (let (ref, n) = newmount ref (m_to m) (m_flag m) (m_spec m);
       (ref, ord, ns) = copy_mounts ref (pgrpinsert ord (m, m_id n)) ms in (ref, ord, n # ns))"

fun copy_heads :: "nat \<Rightarrow> (mount \<times> mountid) list \<Rightarrow> mhead list \<Rightarrow> nat \<times> (mount \<times> mountid) list \<times> mhead list" where
  "copy_heads ref ord [] = (ref, ord, [])"
| "copy_heads ref ord (f # fs) = (let (ref, ord, ns) = copy_mounts ref ord (h_mount f);
       (ref, ord, hs) = copy_heads ref ord fs in (ref, ord, \<lparr>h_from = h_from f, h_mount = ns\<rparr> # hs))"

fun copy_table :: "nat \<Rightarrow> (mount \<times> mountid) list \<Rightarrow> mnthash \<Rightarrow> nat \<times> (mount \<times> mountid) list \<times> mnthash" where
  "copy_table ref ord [] = (ref, ord, [])"
| "copy_table ref ord (b # bs) = (let (ref, ord, hs) = copy_heads ref ord b;
       (ref, ord, ht) = copy_table ref ord bs in (ref, ord, hs # ht))"

text \<open>\<open>m->copy->mountid = mountid.ref++\<close> along the list: the new id of every copy. The \<open>long\<close> goes to the \<open>ulong\<close> directly.\<close>

fun assign :: "nat \<Rightarrow> (mount \<times> mountid) list \<Rightarrow> (mountid \<times> mountid) list" where
  "assign ref [] = []"
| "assign ref (m # ms) = (snd m, Mid (unat (word_of_nat ref :: u64))) # assign (ref + 1) ms"

definition renumber :: "(mountid \<times> mountid) list \<Rightarrow> mount \<Rightarrow> mount" where
  "renumber ids n = (case map_of ids (m_id n) of None \<Rightarrow> n | Some i \<Rightarrow> n\<lparr>m_id := i\<rparr>)"

text \<open>
  \<open>pgrpcpy\<close>. The numbering runs under the lock of the counter, the copying does not: \<open>others\<close> is by how much other groups advance
  the counter before the numbering. (When they do so among the copies, the ids that the numbering replaces differ, and nothing else.)
\<close>

definition pgrpcpy :: "mnthash \<Rightarrow> nat \<Rightarrow> nat \<Rightarrow> mnthash \<times> nat" where
  "pgrpcpy from ref others = (let (ref, ord, ht) = copy_table ref [] from; ref = ref + others; ids = assign ref ord in
     (map (map (\<lambda>h. h\<lparr>h_mount := map (renumber ids) (h_mount h)\<rparr>)) ht, ref + length ord))"

section \<open>File descriptor groups\<close>

abbreviation DELTAFD :: nat where "DELTAFD \<equiv> 20"

text \<open>The descriptors are channel references (numbers here); \<open>maxfd\<close> is the highest in use.\<close>

record fgrp =
  g_fd :: "nat option list"
  g_nfd :: nat
  g_maxfd :: nat
  g_minfd :: nat

definition fd_round :: "nat \<Rightarrow> nat" where
  "fd_round maxfd = (if maxfd \<ge> DELTAFD then (maxfd + 1 + DELTAFD - 1) div DELTAFD * DELTAFD else DELTAFD)"

definition newfgrp :: "fgrp option \<Rightarrow> fgrp" where
  "newfgrp old = (let n = (case old of None \<Rightarrow> DELTAFD | Some g \<Rightarrow> fd_round (g_maxfd g)) in
     \<lparr>g_fd = replicate n None, g_nfd = n, g_maxfd = (case old of None \<Rightarrow> 0 | Some g \<Rightarrow> g_maxfd g), g_minfd = 0\<rparr>)"

text \<open>The loop of \<open>dupfgrp\<close> over the descriptors \<open>i\<close> to \<open>maxfd\<close>; out-of-range accesses are \<open>None\<close>.\<close>

fun dup_loop :: "nat \<Rightarrow> nat \<Rightarrow> nat option list \<Rightarrow> nat option list \<Rightarrow> nat option list option" where
  "dup_loop i 0 old new = Some new"
| "dup_loop i (Suc k) old new = (if i < length old then
     (case old ! i of None \<Rightarrow> dup_loop (i + 1) k old new
      | Some c \<Rightarrow> if i < length new then dup_loop (i + 1) k old (new[i := Some c]) else None)
     else None)"

definition dupfgrp :: "fgrp \<Rightarrow> fgrp option" where
  "dupfgrp f = (let n = fd_round (g_maxfd f) in
     map_option (\<lambda>fd. \<lparr>g_fd = fd, g_nfd = n, g_maxfd = g_maxfd f, g_minfd = g_minfd f\<rparr>)
       (dup_loop 0 (g_maxfd f + 1) (g_fd f) (replicate n None)))"

end
