(* ===== verification/MountTable.thy ===== *)
theory MountTable
  imports Namespace "HOL-Library.Multiset"
begin

unbundle bit_operations_syntax

text \<open>
  The table of mount heads as a map from places to unions: the contract of the hash table, what bind and
  unmount do to the unions, and the invariants of the table and of the mount ids.
\<close>

section \<open>Keys\<close>

definition ckey :: "chan \<Rightarrow> u64 \<times> u16 \<times> u64" where
  "ckey c = (q_path (c_qid c), c_type c, c_dev c)"

lemma eqchan_key [simp]: "eqchan a b True \<longleftrightarrow> ckey a = ckey b"
  by (auto simp: eqchan_def ckey_def)

text \<open>Instances that are not negative as an \<open>int\<close> are passed unchanged.\<close>

definition small_dev :: "chan \<Rightarrow> bool" where
  "small_dev c \<longleftrightarrow> c_dev c < 0x80000000"

lemma small_dev_cast: "small_dev c \<Longrightarrow> scast (ucast (c_dev c) :: u32) = c_dev c"
proof -
  assume "small_dev c"
  then have "uint (c_dev c) < 0x80000000" by (simp add: small_dev_def word_less_def)
  then have u: "sint (ucast (c_dev c) :: u32) = uint (c_dev c)"
    using signed_take_bit_int_eq_self [of 31 "uint (c_dev c)"] uint_ge_0 [of "c_dev c"]
    by (simp add: sint_uint unsigned_ucast_eq take_bit_int_eq_self del: uint_ge_0)
  show ?thesis unfolding scast_eq u by simp
qed

lemma ucast_u16_u32 [simp]: "(ucast (a :: u16) :: u32) = ucast b \<longleftrightarrow> a = b"
  by transfer simp

lemma eqchantdqid_key: "small_dev c \<Longrightarrow> eqchantdqid a (ucast (c_type c)) (ucast (c_dev c)) (c_qid c) True \<longleftrightarrow> ckey a = ckey c"
  by (auto simp: eqchantdqid_def ckey_def small_dev_cast)

lemma mounth_key: "ckey a = ckey b \<Longrightarrow> mounth (c_qid a) = mounth (c_qid b)"
  by (simp add: ckey_def mounth_def)

lemma mounth_less [simp]: "mounth q < MNTHASH"
  using word_and_le1 [of "q_path q" "31 :: u64"] by (simp add: mounth_def word_le_nat_alt)

section \<open>The table as a map\<close>

text \<open>
  The contract of the hash table of mount heads: finding after putting and after deleting. Two channels
  are the same place when device, instance and path agree.
\<close>

locale head_table =
  fixes inv :: "'t \<Rightarrow> bool" and find :: "'t \<Rightarrow> chan \<Rightarrow> mhead option"
    and put :: "'t \<Rightarrow> chan \<Rightarrow> mhead \<Rightarrow> 't" and del :: "'t \<Rightarrow> chan \<Rightarrow> 't"
  assumes find_put: "\<lbrakk> inv t; ckey (h_from h) = ckey c \<rbrakk> \<Longrightarrow> find (put t c h) d = (if ckey d = ckey c then Some h else find t d)"
    and find_del: "inv t \<Longrightarrow> find (del t c) d = (if ckey d = ckey c then None else find t d)"
    and inv_put: "\<lbrakk> inv t; ckey (h_from h) = ckey c; h_mount h \<noteq> [] \<rbrakk> \<Longrightarrow> inv (put t c h)"
    and inv_del: "inv t \<Longrightarrow> inv (del t c)"
    and find_cong: "ckey c = ckey d \<Longrightarrow> find t c = find t d"
    and inv_find: "\<lbrakk> inv t; find t c = Some h \<rbrakk> \<Longrightarrow> h_mount h \<noteq> [] \<and> ckey (h_from h) = ckey c"
begin

definition chans :: "'t \<Rightarrow> chan \<Rightarrow> chan list option" where
  "chans t c = map_option (map m_to \<circ> h_mount) (find t c)"

lemma chans_put:
  "\<lbrakk> inv t; ckey (h_from h) = ckey c \<rbrakk> \<Longrightarrow>
    chans (put t c h) d = (if ckey d = ckey c then Some (map m_to (h_mount h)) else chans t d)"
  by (simp add: chans_def find_put)

lemma chans_del: "inv t \<Longrightarrow> chans (del t c) d = (if ckey d = ckey c then None else chans t d)"
  by (simp add: chans_def find_del)

lemma chans_nonempty: "\<lbrakk> inv t; chans t c = Some cs \<rbrakk> \<Longrightarrow> cs \<noteq> []"
  using inv_find by (auto simp: chans_def)

text \<open>Taking out what was put in restores every union, whatever was there.\<close>

lemma put_restore:
  "\<lbrakk> inv t; find t c = Some h; ckey (h_from h') = ckey c; h_mount h' \<noteq> [] \<rbrakk> \<Longrightarrow>
    chans (put (put t c h') c h) d = chans t d"
  using inv_find [of t c h] find_cong [of c d t] by (auto simp: chans_def find_put inv_put)

lemma del_restore: "\<lbrakk> inv t; find t c = None; ckey (h_from h) = ckey c; h_mount h \<noteq> [] \<rbrakk> \<Longrightarrow>
    chans (del (put t c h) c) d = chans t d"
  using find_cong [of c d t] by (auto simp: chans_def find_del find_put inv_put)

end

definition table_find :: "mnthash \<Rightarrow> chan \<Rightarrow> mhead option" where
  "table_find ht c = find_head (ht ! mounth (c_qid c)) c"

definition table_put :: "mnthash \<Rightarrow> chan \<Rightarrow> mhead \<Rightarrow> mnthash" where
  "table_put ht c h = ht[mounth (c_qid c) := put_head (ht ! mounth (c_qid c)) c h]"

definition table_del :: "mnthash \<Rightarrow> chan \<Rightarrow> mnthash" where
  "table_del ht c = ht[mounth (c_qid c) := del_head (ht ! mounth (c_qid c)) c]"

text \<open>The invariant: every head is in its chain, once, with a mount on it.\<close>

definition wf_heads :: "nat \<Rightarrow> mhead list \<Rightarrow> bool" where
  "wf_heads l b \<longleftrightarrow> list_all (\<lambda>h. mounth (c_qid (h_from h)) = l \<and> h_mount h \<noteq> []) b \<and> distinct (map (ckey \<circ> h_from) b)"

definition wf_table :: "mnthash \<Rightarrow> bool" where
  "wf_table ht \<longleftrightarrow> length ht = MNTHASH \<and> (\<forall>l < MNTHASH. wf_heads l (ht ! l))"

lemma wf_table_heads: "wf_table ht \<Longrightarrow> wf_heads (mounth q) (ht ! mounth q)"
  by (simp add: wf_table_def)

lemma find_put_head: "ckey (h_from h) = ckey c \<Longrightarrow>
    find_head (put_head b c h) d = (if ckey d = ckey c then Some h else find_head b d)"
  by (induction b) auto

lemma find_head_key: "find_head b c = Some h \<Longrightarrow> h \<in> set b \<and> ckey (h_from h) = ckey c"
  by (induction b) (auto split: if_splits)

lemma find_head_None: "find_head b c = None \<longleftrightarrow> ckey c \<notin> set (map (ckey \<circ> h_from) b)"
  by (induction b) auto

lemma find_head_cong: "ckey c = ckey d \<Longrightarrow> find_head b c = find_head b d"
  by (induction b) auto

lemma find_del_head: "distinct (map (ckey \<circ> h_from) b) \<Longrightarrow>
    find_head (del_head b c) d = (if ckey d = ckey c then None else find_head b d)"
  by (induction b) (auto simp: find_head_None)

lemma keys_put_head: "ckey (h_from h) = ckey c \<Longrightarrow>
    map (ckey \<circ> h_from) (put_head b c h) =
      (if ckey c \<in> set (map (ckey \<circ> h_from) b) then map (ckey \<circ> h_from) b else map (ckey \<circ> h_from) b @ [ckey c])"
  by (induction b) auto

lemma set_put_head: "set (put_head b c h) \<subseteq> insert h (set b)"
  by (induction b) auto

lemma set_del_head: "set (del_head b c) \<subseteq> set b"
  by (induction b) auto

lemma distinct_del_head: "distinct (map (ckey \<circ> h_from) b) \<Longrightarrow> distinct (map (ckey \<circ> h_from) (del_head b c))"
  using set_del_head by (induction b) fastforce+

lemma wf_put_head:
  "\<lbrakk> wf_heads (mounth (c_qid c)) b; ckey (h_from h) = ckey c; h_mount h \<noteq> [] \<rbrakk> \<Longrightarrow> wf_heads (mounth (c_qid c)) (put_head b c h)"
  using set_put_head [of b c h] mounth_key [of "h_from h" c]
  by (auto simp: wf_heads_def list_all_iff keys_put_head)

lemma wf_del_head: "wf_heads l b \<Longrightarrow> wf_heads l (del_head b c)"
  using set_del_head [of b c] by (auto simp: wf_heads_def list_all_iff distinct_del_head)

interpretation mt: head_table wf_table table_find table_put table_del
proof (unfold_locales, goal_cases)
  case (1 t h c d)
  then show ?case
    using mounth_key [of d c]
    by (auto simp: table_find_def table_put_def wf_table_def find_put_head nth_list_update)
next
  case (2 t c d)
  then show ?case
    using mounth_key [of d c]
    by (auto simp: table_find_def table_del_def wf_table_def wf_heads_def find_del_head nth_list_update)
next
  case (3 t h c)
  then show ?case
    by (auto simp: table_put_def wf_table_def nth_list_update wf_put_head)
next
  case (4 t c)
  then show ?case by (auto simp: table_del_def wf_table_def nth_list_update wf_del_head)
next
  case (6 t c h)
  then show ?case using 6 wf_table_heads [of t "c_qid c"] find_head_key [of "t ! mounth (c_qid c)" c h]
    by (auto simp: table_find_def wf_heads_def list_all_iff)
next
  case (5 c d t)
  then show ?case by (simp add: table_find_def mounth_key [OF 5] find_head_cong [OF 5])
qed

section \<open>Binding and unbinding\<close>

abbreviation union_chans :: "mnthash \<Rightarrow> chan \<Rightarrow> chan list option" where
  "union_chans \<equiv> mt.chans"

text \<open>What binding does to the union at a place: the channels there before, and those added.\<close>

definition bound :: "u32 \<Rightarrow> chan list option \<Rightarrow> chan \<Rightarrow> chan list \<Rightarrow> chan list" where
  "bound order prev old add = (let p = (case prev of None \<Rightarrow> [old] | Some cs \<Rightarrow> cs) in
     if order = MREPL then add else if order = MAFTER then p @ add else add @ p)"

definition bindable :: "chan \<Rightarrow> mount list option \<Rightarrow> chan \<Rightarrow> u32 \<Rightarrow> bool" where
  "bindable new umh old flag \<longleftrightarrow>
     (q_type (c_qid old) AND QTDIR = 0 \<longleftrightarrow> q_type (c_qid new) AND QTDIR = 0) \<and>
     (q_type (c_qid old) AND QTDIR \<noteq> 0 \<or> flag AND MORDER = MREPL) \<and>
     (flag AND MCREATE = 0 \<or> (case umh of Some (m # ms) \<Rightarrow> ms = [] \<and> m_flag m AND MCREATE \<noteq> 0 | _ \<Rightarrow> True))"

text \<open>The ids of new mounts, and the bound \<open>idmax\<close> of the counter below which they are its values: there the \<open>int\<close> of \<open>incref\<close> becomes negative.\<close>

definition idmax :: nat where "idmax = 2 ^ 31"

definition incref_id :: "nat \<Rightarrow> nat" where
  "incref_id n = unat (scast (word_of_nat n :: u32) :: u64)"

lemma incref_id_small: "n < idmax \<Longrightarrow> incref_id n = n"
proof -
  assume n: "n < idmax"
  then have "sint (word_of_nat n :: u32) = int n"
    using signed_take_bit_int_eq_self [of 31 "int n"] by (simp add: idmax_def sint_uint unsigned_of_nat take_bit_nat_eq_self)
  then have "(scast (word_of_nat n :: u32) :: u64) = word_of_nat n" by (simp add: scast_eq)
  then show ?thesis using n by (simp add: incref_id_def idmax_def unsigned_of_nat take_bit_nat_eq_self)
qed

lemma newmount_eq: "newmount ref t flag spec = (ref + 1, \<lparr>m_id = Mid (incref_id (ref + 1)), m_to = t, m_flag = flag, m_spec = spec\<rparr>)"
  by (simp add: newmount_def incref_def incref_id_def)

text \<open>After 2^32 mounts the ids repeat.\<close>

lemma newmount_repeats: "m_id (snd (newmount (ref + 2 ^ 32) t flag spec)) = m_id (snd (newmount ref t' flag' spec'))"
proof -
  have "(word_of_nat (ref + 2 ^ 32 + 1) :: u32) = word_of_nat (ref + 1)" by transfer simp
  then have "incref_id (ref + 2 ^ 32 + 1) = incref_id (ref + 1)" by (simp only: incref_id_def)
  then show ?thesis by (simp add: newmount_eq)
qed

lemma copy_union_to: "map m_to (snd (copy_union ref ums flg)) = map m_to ums"
  by (induction ref ums flg rule: copy_union.induct) (auto simp: newmount_eq split_beta Let_def)

lemma dir_bit: "(a :: byte) AND QTDIR = 0 \<longleftrightarrow> \<not> bit a 7"
  using and_exp_eq_0_iff_not_bit [of a 7] by simp

lemma dir_bits: "QTDIR AND (a XOR b) = 0 \<longleftrightarrow> (a AND QTDIR = 0 \<longleftrightarrow> b AND QTDIR = 0)"
  using dir_bit [of "a XOR b"] by (simp add: and.commute [of QTDIR] dir_bit bit_xor_iff)

definition rest_of :: "mount list option \<Rightarrow> chan list" where
  "rest_of umh = (case umh of Some (m # ms) \<Rightarrow> map m_to ms | _ \<Rightarrow> [])"

lemma cmount_refused: "\<not> bindable new umh old flag \<Longrightarrow> cmount ht ref new umh old flag spec = Inl Emount"
  by (auto simp: cmount_def bindable_def dir_bits Let_def split: option.splits list.splits)

lemma cmount_head_ok:
  "ckey (h_from (snd (cmount_head ref (table_find ht old) old order))) = ckey old"
  "map m_to (h_mount (snd (cmount_head ref (table_find ht old) old order))) =
    (case union_chans ht old of Some cs \<Rightarrow> cs | None \<Rightarrow> if order \<noteq> MREPL then [old] else [])"
  using find_head_key [of "ht ! mounth (c_qid old)" old]
  by (auto simp: cmount_head_def newmount_eq mt.chans_def table_find_def split: option.splits)

lemma cmount_list_to: "map m_to (cmount_list order ms nm) =
    (if order = MREPL then map m_to nm else if order = MAFTER then map m_to ms @ map m_to nm else map m_to nm @ map m_to ms)"
  by (auto simp: cmount_list_def)

text \<open>New mounts take the next ids.\<close>

definition fresh :: "nat \<Rightarrow> nat \<Rightarrow> mount list \<Rightarrow> bool" where
  "fresh ref ref' ms \<longleftrightarrow> ref \<le> ref' \<and>
     (ref' < idmax \<longrightarrow> distinct (map m_id ms) \<and> (\<forall>m \<in> set ms. ref < mid (m_id m) \<and> mid (m_id m) \<le> ref'))"

lemma fresh_Nil [simp]: "fresh ref ref []"
  by (simp add: fresh_def)

lemma fresh_Cons:
  assumes "m_id m = Mid (incref_id (ref + 1))" "fresh (ref + 1) ref' ms"
  shows "fresh ref ref' (m # ms)"
proof -
  have "m_id m \<noteq> m_id x" if "ref' < idmax" "x \<in> set ms" for x
    using that assms incref_id_small [of "ref + 1"] by (fastforce simp: fresh_def)
  then show ?thesis using assms incref_id_small [of "ref + 1"] by (fastforce simp: fresh_def)
qed

lemma fresh_copy_union: "fresh ref (fst (copy_union ref ums flg)) (snd (copy_union ref ums flg))"
  by (induction ref ums flg rule: copy_union.induct)
    (auto simp: newmount_eq split_beta Let_def intro!: fresh_Cons)

lemma cmount_bind:
  assumes "bindable new umh old flag"
  shows "\<exists>ref' i h ns. cmount ht ref new umh old flag spec = Inr (table_put ht old h, ref', i) \<and>
    ckey (h_from h) = ckey old \<and> h_mount h \<noteq> [] \<and>
    map m_to (h_mount h) = bound (flag AND MORDER) (union_chans ht old) old (new # rest_of umh) \<and>
    fresh ref ref' ns \<and> i \<in> set (map m_id ns) \<and>
    mset (h_mount h) \<subseteq># mset (case table_find ht old of None \<Rightarrow> [] | Some m \<Rightarrow> h_mount m) + mset ns"
proof -
  let ?order = "flag AND MORDER" and ?mh = "case umh of None \<Rightarrow> [] | Some ms \<Rightarrow> ms"
  define m where "m = cmount_head ref (table_find ht old) old ?order"
  define nm where "nm = newmount (fst m) new flag spec"
  define fs where "fs = (if ?mh \<noteq> [] then copy_union (fst nm) (tl ?mh) (if ?order = MREPL then MAFTER else ?order) else (fst nm, []))"
  define nm' where "nm' = (if flag AND MCREATE \<noteq> 0 then (snd nm)\<lparr>m_flag := m_flag (snd nm) OR MCREATE\<rparr> else snd nm)"
  define h where "h = (snd m)\<lparr>h_mount := cmount_list ?order (h_mount (snd m)) (nm' # snd fs)\<rparr>"
  let ?pre = "case table_find ht old of None \<Rightarrow> h_mount (snd m) | Some _ \<Rightarrow> []"
  have "cmount ht ref new umh old flag spec = Inr (table_put ht old h, fst fs, m_id nm')"
    using assms unfolding cmount_def table_find_def [symmetric] m_def [symmetric]
    by (simp add: bindable_def dir_bits Let_def split_beta nm_def fs_def nm'_def h_def m_def table_put_def table_find_def
        split: option.splits list.splits) auto
  moreover have "map m_to (snd fs) = rest_of umh"
    by (auto simp: fs_def rest_of_def copy_union_to split: option.splits list.splits)
  moreover have "m_to nm' = new" by (simp add: nm'_def nm_def newmount_eq)
  moreover have "h_mount h \<noteq> []" "ckey (h_from h) = ckey old"
    using cmount_head_ok(1) [of ref ht old ?order] by (auto simp: h_def cmount_list_def m_def Let_def)
  moreover have "map m_to (h_mount h) = bound ?order (union_chans ht old) old (new # rest_of umh)"
    using cmount_head_ok(2) [of ref ht old ?order] calculation
    by (auto simp: h_def cmount_list_to bound_def m_def split: option.splits)
  moreover have "fresh (fst nm) (fst fs) (snd fs)" by (simp add: fs_def fresh_copy_union)
  then have "fresh (fst m) (fst fs) (nm' # snd fs)" by (simp add: fresh_Cons nm'_def nm_def newmount_eq)
  then have "fresh ref (fst fs) (?pre @ nm' # snd fs)"
    using fresh_Cons by (fastforce simp: m_def cmount_head_def newmount_eq split: option.splits)
  moreover have "mset (h_mount h) \<subseteq># mset (case table_find ht old of None \<Rightarrow> [] | Some m \<Rightarrow> h_mount m) + mset (?pre @ nm' # snd fs)"
    by (auto simp: h_def cmount_list_def m_def cmount_head_def newmount_eq Let_def split: option.splits)
  moreover have "m_id nm' \<in> set (map m_id (?pre @ nm' # snd fs))" by simp
  ultimately show ?thesis by blast
qed

section \<open>Looking up\<close>

lemma find_mount_find_head:
  "\<lbrakk> small_dev c; list_all (\<lambda>h. h_mount h \<noteq> []) b \<rbrakk> \<Longrightarrow> find_mount b (ucast (c_type c)) (ucast (c_dev c)) (c_qid c) =
    Some (map_option (\<lambda>m. (m, m_to (hd (h_mount m)))) (find_head b c))"
  by (induction b) (auto simp: eqchantdqid_key split: list.split)

lemma domount_ok:
  assumes "wf_table ht" "small_dev c"
  shows "domount ht c = Some (map_option (\<lambda>m. (m, m_to (hd (h_mount m)))) (table_find ht c))"
proof -
  have "list_all (\<lambda>h. h_mount h \<noteq> []) (ht ! mounth (c_qid c))"
    using wf_table_heads [OF assms(1)] by (auto simp: wf_heads_def list_all_iff)
  then show ?thesis using find_mount_find_head [OF assms(2)] by (simp add: domount_def findmount_def table_find_def)
qed

lemma domount_chans:
  assumes "wf_table ht" "small_dev c"
  shows "map_option (map_option snd) (domount ht c) = Some (map_option hd (union_chans ht c))"
  using mt.inv_find [OF assms(1), of c]
  by (cases "table_find ht c") (auto simp: domount_ok [OF assms] mt.chans_def hd_map)

section \<open>Unmounting\<close>

definition serves :: "mount \<Rightarrow> chan \<Rightarrow> bool" where
  "serves f c \<longleftrightarrow> ckey (m_to f) = ckey c \<or> (\<exists>mc. c_mchan (m_to f) = Some mc \<and> ckey mc = ckey c)"

lemma unmount_one_ok: "unmount_one ms c = (if \<exists>f \<in> set ms. serves f c
    then Some (takeWhile (\<lambda>f. \<not> serves f c) ms @ tl (dropWhile (\<lambda>f. \<not> serves f c) ms)) else None)"
  by (induction ms) (auto simp: serves_def split: option.splits)

lemma cunmount_cases:
  "cunmount ht mnt mounted = (case table_find ht mnt of None \<Rightarrow> Inl Eunmount
     | Some m \<Rightarrow> (case mounted of None \<Rightarrow> Inr (table_del ht mnt)
        | Some c \<Rightarrow> (case unmount_one (h_mount m) c of None \<Rightarrow> Inl Eunion
           | Some ms \<Rightarrow> Inr (if ms = [] then table_del ht mnt else table_put ht mnt (m\<lparr>h_mount := ms\<rparr>)))))"
  by (auto simp: cunmount_def table_find_def table_put_def table_del_def Let_def split: option.split)


section \<open>Mount ids\<close>

definition mounts :: "mnthash \<Rightarrow> mount list" where
  "mounts ht = concat (map h_mount (concat ht))"

text \<open>Ids are unique in a table and not above the counter.\<close>

definition ids_ok :: "mnthash \<Rightarrow> nat \<Rightarrow> bool" where
  "ids_ok ht ref \<longleftrightarrow> distinct (map m_id (mounts ht)) \<and> (\<forall>m \<in> set (mounts ht). mid (m_id m) \<le> ref)"

abbreviation hmounts :: "mhead list \<Rightarrow> mount list" where
  "hmounts b \<equiv> concat (map h_mount b)"

lemma mset_put_head: "mset (hmounts (put_head b c h)) + mset (case find_head b c of None \<Rightarrow> [] | Some m \<Rightarrow> h_mount m)
    = mset (hmounts b) + mset (h_mount h)"
  by (induction b) (auto split: option.split)

lemma mset_del_head: "mset (hmounts (del_head b c)) + mset (case find_head b c of None \<Rightarrow> [] | Some m \<Rightarrow> h_mount m)
    = mset (hmounts b)"
  by (induction b) (auto split: option.split)

lemma mset_mounts_update: "l < length ht \<Longrightarrow> mset (mounts (ht[l := b])) + mset (hmounts (ht ! l)) = mset (mounts ht) + mset (hmounts b)"
proof (induction ht arbitrary: l)
  case (Cons x xs)
  then show ?case by (cases l) (auto simp: mounts_def)
qed simp

lemma mset_swap: "\<lbrakk> A + B = C + D; D + E = B + H \<rbrakk> \<Longrightarrow> A + E = C + (H :: 'a multiset)"
proof -
  assume 1: "A + B = C + D" and 2: "D + E = B + H"
  have "A + E + B = C + D + E" by (simp add: 1 [symmetric] ac_simps)
  also have "\<dots> = C + H + B" using 2 by (simp add: ac_simps)
  finally show ?thesis by simp
qed

lemma mset_mounts_put:
  assumes "wf_table ht"
  shows "mset (mounts (table_put ht c h)) + mset (case table_find ht c of None \<Rightarrow> [] | Some m \<Rightarrow> h_mount m)
    = mset (mounts ht) + mset (h_mount h)"
proof -
  let ?l = "mounth (c_qid c)"
  have "?l < length ht" using assms by (simp add: wf_table_def)
  from mset_mounts_update [OF this, of "put_head (ht ! ?l) c h"] mset_put_head [of "ht ! ?l" c h]
  show ?thesis unfolding table_put_def table_find_def by (rule mset_swap)
qed

lemma distinct_submset: "\<lbrakk> distinct ys; mset xs \<subseteq># mset ys \<rbrakk> \<Longrightarrow> distinct xs"
proof -
  assume d: "distinct ys" and "mset xs \<subseteq># mset ys"
  then obtain M where "mset ys = mset xs + M" by (auto simp: mset_subset_eq_exists_conv)
  moreover obtain zs where "mset zs = M" using ex_mset by blast
  ultimately have "mset ys = mset (xs @ zs)" by simp
  then show "distinct xs" using d mset_eq_imp_distinct_iff distinct_append by metis
qed

lemma ids_ok_fresh:
  assumes "ids_ok ht ref" "fresh ref ref' new" "mset (mounts ht') \<subseteq># mset (mounts ht) + mset new" "ref' < idmax"
  shows "ids_ok ht' ref'"
proof -
  have d: "distinct (map m_id (mounts ht @ new))"
    using assms(1,2,4) by (fastforce simp: ids_ok_def fresh_def)
  have "mset (map m_id (mounts ht')) \<subseteq># mset (map m_id (mounts ht @ new))"
    using image_mset_subseteq_mono [OF assms(3), of m_id] by simp
  then have "distinct (map m_id (mounts ht'))" by (rule distinct_submset [OF d])
  moreover have "set (mounts ht') \<subseteq> set (mounts ht) \<union> set new"
    using set_mset_mono [OF assms(3)] by simp
  ultimately show ?thesis using assms(1,2,4) by (fastforce simp: ids_ok_def fresh_def)
qed

lemma mset_mounts_del: "wf_table ht \<Longrightarrow> mset (mounts (table_del ht c)) \<subseteq># mset (mounts ht)"
proof -
  assume "wf_table ht"
  let ?l = "mounth (c_qid c)" let ?f = "case find_head (ht ! ?l) c of None \<Rightarrow> [] | Some m \<Rightarrow> h_mount m"
  have "?l < length ht" using \<open>wf_table ht\<close> by (simp add: wf_table_def)
  from mset_mounts_update [OF this, of "del_head (ht ! ?l) c"] mset_del_head [of "ht ! ?l" c]
  have "mset (mounts (table_del ht c)) + mset ?f = mset (mounts ht)"
    unfolding table_del_def using mset_swap [where H = "{#}"] by fastforce
  then show ?thesis by (metis mset_subset_eq_add_left)
qed

lemma mset_put_sub:
  assumes "wf_table ht" "mset (h_mount h) \<subseteq># mset (case table_find ht c of None \<Rightarrow> [] | Some m \<Rightarrow> h_mount m) + mset new"
  shows "mset (mounts (table_put ht c h)) \<subseteq># mset (mounts ht) + mset new"
proof -
  let ?f = "mset (case table_find ht c of None \<Rightarrow> [] | Some m \<Rightarrow> h_mount m)"
  have "mset (mounts (table_put ht c h)) + ?f \<subseteq># (mset (mounts ht) + mset new) + ?f"
    using mset_mounts_put [OF assms(1), of c h] assms(2) by (simp add: ac_simps)
  then show ?thesis by simp
qed

lemma cmount_wf:
  assumes "wf_table ht" "cmount ht ref new umh old flag spec = Inr (ht', ref', i)"
  shows "wf_table ht'" "ref \<le> ref'" "\<lbrakk> ids_ok ht ref; ref' < idmax \<rbrakk> \<Longrightarrow> ids_ok ht' ref'"
proof -
  have "bindable new umh old flag" using assms(2) cmount_refused by fastforce
  from cmount_bind [OF this, of ht ref spec] assms(2) obtain h ns where h: "ht' = table_put ht old h" "ckey (h_from h) = ckey old"
    "h_mount h \<noteq> []" "fresh ref ref' ns"
    "mset (h_mount h) \<subseteq># mset (case table_find ht old of None \<Rightarrow> [] | Some m \<Rightarrow> h_mount m) + mset ns" by auto
  then have "mset (mounts ht') \<subseteq># mset (mounts ht) + mset ns" by (simp add: mset_put_sub [OF assms(1)])
  then show "ids_ok ht' ref'" if "ids_ok ht ref" "ref' < idmax" using ids_ok_fresh [OF that(1) h(4)] that(2) by simp
  show "wf_table ht'" "ref \<le> ref'" using mt.inv_put [OF assms(1) h(2,3)] h(1,4) by (simp_all add: fresh_def)
qed

lemma mset_unmount_one: "unmount_one ms c = Some ms' \<Longrightarrow> mset ms' \<subseteq># mset ms"
  by (induction ms arbitrary: ms') (auto split: if_splits)

lemma ids_ok_sub: "\<lbrakk> ids_ok ht ref; mset (mounts ht') \<subseteq># mset (mounts ht) \<rbrakk> \<Longrightarrow> ids_ok ht' ref"
  using distinct_submset [of "map m_id (mounts ht)" "map m_id (mounts ht')"] image_mset_subseteq_mono [of _ _ m_id] set_mset_mono [of "mset (mounts ht')"]
  by (fastforce simp: ids_ok_def)

lemma cunmount_wf:
  assumes "wf_table ht" "cunmount ht mnt mounted = Inr ht'"
  shows "wf_table ht'" "ids_ok ht ref \<Longrightarrow> ids_ok ht' ref"
proof -
  have "mset (mounts ht') \<subseteq># mset (mounts ht)"
    using assms(2) mset_mounts_del [OF assms(1)] mset_put_sub [OF assms(1), of _ mnt "[]"] mset_unmount_one
    by (auto simp: cunmount_cases split: option.splits if_splits)
  then show "ids_ok ht' ref" if "ids_ok ht ref" using that ids_ok_sub by blast
  show "wf_table ht'"
    using assms(2) mt.inv_del [OF assms(1)] mt.inv_put [OF assms(1)] mt.inv_find [OF assms(1), of mnt]
    by (auto simp: cunmount_cases split: option.splits if_splits)
qed

text \<open>
  A bind that runs out of memory leaves a well-formed table, unless it replaces what is at a place with nothing mounted: there
  it leaves a head without a mount, and the next lookup of the place reads through a null pointer.
\<close>

lemma cmount_nomem_put: "cmount_nomem ht ref old flag =
    (table_put ht old (snd (cmount_head ref (table_find ht old) old (flag AND MORDER))), fst (cmount_head ref (table_find ht old) old (flag AND MORDER)))"
  by (simp add: cmount_nomem_def table_put_def table_find_def Let_def split_beta)

lemma cmount_nomem_wf:
  assumes "wf_table ht" "table_find ht old \<noteq> None \<or> flag AND MORDER \<noteq> MREPL" "cmount_nomem ht ref old flag = (ht', ref')"
  shows "wf_table ht'" "ref \<le> ref'" "\<lbrakk> ids_ok ht ref; ref' < idmax \<rbrakk> \<Longrightarrow> ids_ok ht' ref'"
proof -
  define h where "h = snd (cmount_head ref (table_find ht old) old (flag AND MORDER))"
  have ht': "ht' = table_put ht old h" "ref' = fst (cmount_head ref (table_find ht old) old (flag AND MORDER))"
    using assms(3) by (simp_all add: cmount_nomem_put h_def)
  have h: "ckey (h_from h) = ckey old" "h_mount h \<noteq> []"
    using cmount_head_ok(1) [of ref ht old] mt.inv_find [OF assms(1), of old] assms(2)
    by (auto simp: h_def cmount_head_def newmount_eq split: option.splits)
  let ?ns = "case table_find ht old of None \<Rightarrow> h_mount h | Some _ \<Rightarrow> []"
  have f: "fresh ref ref' ?ns" unfolding ht'(2)
    by (auto simp: h_def cmount_head_def newmount_eq intro!: fresh_Cons split: option.split)
  have "mset (mounts ht') \<subseteq># mset (mounts ht) + mset ?ns" unfolding ht'(1)
    by (rule mset_put_sub [OF assms(1)]) (auto simp: h_def cmount_head_def split: option.split)
  then show "ids_ok ht' ref'" if "ids_ok ht ref" "ref' < idmax" using ids_ok_fresh [OF that(1) f] that(2) by simp
  show "wf_table ht'" "ref \<le> ref'" using mt.inv_put [OF assms(1) h] ht'(1) f by (simp_all add: fresh_def)
qed

lemma cmount_nomem_null:
  assumes "wf_table ht" "table_find ht old = None" "flag AND MORDER = MREPL" "small_dev old" "cmount_nomem ht ref old flag = (ht', ref')"
  shows "domount ht' old = None"
proof -
  let ?l = "mounth (c_qid old)"
  have l: "?l < length ht" using assms(1) by (simp add: wf_table_def)
  have n: "find_head (ht ! ?l) old = None" using assms(2) by (simp add: table_find_def)
  have "find_mount (put_head b old \<lparr>h_from = old, h_mount = []\<rparr>) (ucast (c_type old)) (ucast (c_dev old)) (c_qid old) = None"
    if "find_head b old = None" for b using that
    by (induction b) (auto simp: eqchantdqid_key [OF assms(4)] split: if_splits)
  then show ?thesis using n l assms(3,5) by (auto simp: cmount_nomem_def cmount_head_def domount_def findmount_def Let_def)
qed

end
