(* ===== verification/PgrpCopy.thy ===== *)
theory PgrpCopy
  imports MountTable
begin

unbundle bit_operations_syntax

text \<open>
  Copying a name space: the mounts are copied in place, listed in the order of their ids and numbered anew
  in that order; and the tables a process group can have, by rule induction over bind, unmount and copy.
\<close>

section \<open>The order list\<close>

lemma set_pgrpinsert [simp]: "set (pgrpinsert ord m) = insert m (set ord)"
  by (induction ord) auto

lemma mset_pgrpinsert [simp]: "mset (pgrpinsert ord m) = add_mset m (mset ord)"
  by (induction ord) auto

abbreviation okey :: "mount \<times> mountid \<Rightarrow> mountid" where
  "okey p \<equiv> m_id (fst p)"

lemma sorted_pgrpinsert: "sorted (map okey ord) \<Longrightarrow> sorted (map okey (pgrpinsert ord m))"
  by (induction ord) auto

lemma filter_pgrpinsert: "sorted (map okey ord) \<Longrightarrow>
    filter (\<lambda>x. k = okey x) (pgrpinsert ord m) = filter (\<lambda>x. k = okey x) (ord @ [m])"
proof (induction ord)
  case (Cons f ord)
  have "m_id (fst m) < okey f \<Longrightarrow> filter (\<lambda>x. okey m = okey x) ord = []"
    using Cons.prems by (auto simp: filter_empty_conv)
  then show ?case using Cons by auto
qed simp

text \<open>The insertions build the list of all mounts in the order of their ids, equal ids in the order they were met.\<close>

lemma pgrpinsert_sort: "foldl pgrpinsert [] ms = sort_key okey ms"
proof (induction ms rule: rev_induct)
  case (snoc m ms)
  have "sort_key okey (ms @ [m]) = pgrpinsert (sort_key okey ms) m"
  proof (rule properties_for_sort_key)
    fix k
    have "filter (\<lambda>x. okey k = okey x) (sort_key okey ms) = filter (\<lambda>x. okey k = okey x) ms"
      using sort_key_stable [of okey "okey k" ms] by (simp add: eq_commute)
    then show "filter (\<lambda>x. okey k = okey x) (pgrpinsert (sort_key okey ms) m) = filter (\<lambda>x. okey k = okey x) (ms @ [m])"
      by (simp add: filter_pgrpinsert)
  qed (simp_all add: sorted_pgrpinsert)
  then show ?case using snoc by simp
qed simp

definition strip :: "mount \<Rightarrow> chan \<times> u32 \<times> byte list option" where
  "strip m = (m_to m, m_flag m, m_spec m)"

definition ids_from :: "nat \<Rightarrow> nat \<Rightarrow> mountid list" where
  "ids_from ref n = map (\<lambda>k. Mid (incref_id k)) [ref + 1 ..< ref + 1 + n]"

lemma ids_from_add: "ids_from ref (m + n) = ids_from ref m @ ids_from (ref + m) n"
proof -
  have "[ref + 1 ..< ref + 1 + m + n] = [ref + 1 ..< ref + 1 + m] @ [ref + 1 + m ..< ref + 1 + m + n]"
    by (rule upt_add_eq_append) simp
  then show ?thesis unfolding ids_from_def by (simp add: add.assoc add.left_commute)
qed

lemma length_ids_from [simp]: "length (ids_from ref n) = n"
  by (simp add: ids_from_def)

lemma distinct_ids_from: "ref + n < idmax \<Longrightarrow> distinct (ids_from ref n)"
  by (auto simp: ids_from_def distinct_map inj_on_def incref_id_small)

lemma okey_zip: "length ms = length is \<Longrightarrow> map okey (zip ms is) = map m_id ms"
  by (induction ms "is" rule: list_induct2) simp_all

definition copied :: "nat \<Rightarrow> (mount \<times> mountid) list \<Rightarrow> mount list \<Rightarrow> nat \<times> (mount \<times> mountid) list \<times> mount list \<Rightarrow> bool" where
  "copied ref ord ms r = (case r of (ref', ord', ns) \<Rightarrow> ref' = ref + length ms \<and>
     ord' = foldl pgrpinsert ord (zip ms (ids_from ref (length ms))) \<and>
     map m_id ns = ids_from ref (length ms) \<and> map strip ns = map strip ms)"

lemma copied_append:
  "\<lbrakk> copied ref ord ms (ref1, ord1, ns); copied ref1 ord1 ms' (ref2, ord2, ns') \<rbrakk> \<Longrightarrow> copied ref ord (ms @ ms') (ref2, ord2, ns @ ns')"
  by (auto simp: copied_def ids_from_add zip_append dest: map_eq_imp_length_eq)

lemma copied_Nil: "copied ref ord [] (ref, ord, [])"
  by (simp add: copied_def ids_from_def)

lemma copied_one: "copied ref ord [m] (ref + 1, pgrpinsert ord (m, Mid (incref_id (ref + 1))), [snd (newmount ref (m_to m) (m_flag m) (m_spec m))])"
  by (simp add: copied_def ids_from_def newmount_eq strip_def)

lemma copy_mounts_ok: "copied ref ord ms (copy_mounts ref ord ms)"
proof (induction ms arbitrary: ref ord)
  case (Cons m ms)
  obtain ref' ord' ns where r: "copy_mounts (ref + 1) (pgrpinsert ord (m, Mid (incref_id (ref + 1)))) ms = (ref', ord', ns)"
    using prod_cases3 by blast
  with Cons have "copied (ref + 1) (pgrpinsert ord (m, Mid (incref_id (ref + 1)))) ms (ref', ord', ns)" by metis
  from copied_append [OF copied_one this] r show ?case by (simp add: newmount_eq)
qed (simp add: copied_Nil)

lemma copy_heads_ok: "copied ref ord (hmounts b) (case copy_heads ref ord b of (ref', ord', hs) \<Rightarrow> (ref', ord', hmounts hs))"
proof (induction b arbitrary: ref ord)
  case (Cons f fs)
  obtain ref1 ord1 ns where r: "copy_mounts ref ord (h_mount f) = (ref1, ord1, ns)" using prod_cases3 by blast
  obtain ref2 ord2 hs where r': "copy_heads ref1 ord1 fs = (ref2, ord2, hs)" using prod_cases3 by blast
  from copied_append [OF copy_mounts_ok [of ref ord "h_mount f", unfolded r]] Cons [of ref1 ord1] r r'
  show ?case by simp
qed (simp add: copied_Nil)

lemma copy_table_ok: "copied ref ord (mounts ht) (case copy_table ref ord ht of (ref', ord', ht') \<Rightarrow> (ref', ord', mounts ht'))"
proof (induction ht arbitrary: ref ord)
  case (Cons b bs)
  obtain ref1 ord1 hs where r: "copy_heads ref ord b = (ref1, ord1, hs)" using prod_cases3 by blast
  obtain ref2 ord2 ht' where r': "copy_table ref1 ord1 bs = (ref2, ord2, ht')" using prod_cases3 by blast
  have "copied ref ord (hmounts b) (ref1, ord1, hmounts hs)" using copy_heads_ok [of ref ord b] r by simp
  from copied_append [OF this] Cons [of ref1 ord1] r r' show ?case by (simp add: mounts_def)
qed (simp add: copied_Nil mounts_def)

text \<open>Heads and the number of mounts on each stay.\<close>

abbreviation shape :: "mnthash \<Rightarrow> (chan \<times> nat) list list" where
  "shape \<equiv> map (map (\<lambda>h. (h_from h, length (h_mount h))))"

lemma copy_heads_shape: "map (\<lambda>h. (h_from h, length (h_mount h))) (snd (snd (copy_heads ref ord b)))
    = map (\<lambda>h. (h_from h, length (h_mount h))) b"
proof (induction b arbitrary: ref ord)
  case (Cons f fs)
  have "length (snd (snd (copy_mounts ref ord (h_mount f)))) = length (h_mount f)"
    using copy_mounts_ok [of ref ord "h_mount f"] by (auto simp: copied_def dest: map_eq_imp_length_eq)
  then show ?case using Cons by (simp add: split_beta Let_def)
qed simp

lemma copy_table_shape: "shape (snd (snd (copy_table ref ord ht))) = shape ht"
  by (induction ht arbitrary: ref ord) (auto simp: split_beta Let_def copy_heads_shape)

lemma assign_zip: "assign ref ord = zip (map snd ord) (map (\<lambda>k. Mid (unat (word_of_nat k :: u64))) [ref ..< ref + length ord])"
  by (induction ord arbitrary: ref) (simp_all add: upt_conv_Cons del: upt_Suc)

lemma renumber_nth:
  assumes "distinct (map snd ord)" "k < length ord" "m_id n = snd (ord ! k)" "ref + length ord < idmax"
  shows "m_id (renumber (assign ref ord) n) = Mid (ref + k)"
proof -
  have "unat (word_of_nat (ref + k) :: u64) = ref + k"
    using assms(2,4) by (simp add: idmax_def unsigned_of_nat take_bit_nat_eq_self del: of_nat_add)
  then show ?thesis
    using map_of_zip_nth [of "map snd ord" "map (\<lambda>k. Mid (unat (word_of_nat k :: u64))) [ref ..< ref + length ord]" k] assms(1-3)
    by (simp add: renumber_def assign_zip del: of_nat_add)
qed

lemma strip_renumber [simp]: "strip (renumber ids n) = strip n"
  by (simp add: renumber_def strip_def split: option.split)

lemma pgrpcpy_mounts:
  assumes "pgrpcpy from ref others = (ht', ref')"
  defines "n \<equiv> length (mounts from)" and "P \<equiv> zip (mounts from) (ids_from ref (length (mounts from)))"
  shows "shape ht' = shape from" "map strip (mounts ht') = map strip (mounts from)" "ref' = ref + n + others + n"
    and "\<lbrakk> i < n; ref' < idmax \<rbrakk> \<Longrightarrow> \<exists>k < n. m_id (mounts ht' ! i) = Mid (ref + n + others + k) \<and> sort_key okey P ! k = P ! i"
proof -
  obtain ref0 ord ht where c: "copy_table ref [] from = (ref0, ord, ht)" using prod_cases3 by blast
  define ref1 where "ref1 = ref0 + others"
  have ok: "ref1 = ref + n + others" "ord = sort_key okey P" "map m_id (mounts ht) = ids_from ref n" "map strip (mounts ht) = map strip (mounts from)"
    using copy_table_ok [of ref "[]" "from"] c by (simp_all add: copied_def pgrpinsert_sort n_def P_def ref1_def)
  have len: "length ord = n" by (simp add: ok(2) P_def n_def)
  let ?h = "\<lambda>h. h\<lparr>h_mount := map (renumber (assign ref1 ord)) (h_mount h)\<rparr>"
  have ht': "ht' = map (map ?h) ht" "ref' = ref1 + length ord" using assms(1) c by (simp_all add: pgrpcpy_def ref1_def Let_def)
  have m: "mounts ht' = map (renumber (assign ref1 ord)) (mounts ht)"
    by (simp add: ht'(1) mounts_def map_concat comp_def)
  show "shape ht' = shape from" using copy_table_shape [of ref "[]" "from"] c by (simp add: ht'(1) comp_def)
  show "map strip (mounts ht') = map strip (mounts from)" by (simp add: m ok(4) comp_def)
  show ref': "ref' = ref + n + others + n" by (simp add: ht'(2) ok(1) len)
  assume i: "i < n" and b: "ref' < idmax"
  have "P ! i \<in> set ord" using i nth_mem [of i P] by (simp add: ok(2) P_def n_def)
  then obtain k where k: "k < n" "ord ! k = P ! i" using len by (auto simp: in_set_conv_nth)
  have "mset (map snd ord) = mset (map snd P)" unfolding ok(2) by simp
  moreover have "distinct (map snd P)" unfolding P_def using b ref' by (subst map_snd_zip) (simp_all add: distinct_ids_from n_def)
  ultimately have d: "distinct (map snd ord)" using mset_eq_imp_distinct_iff by blast
  have l: "length (mounts ht) = n" using arg_cong [OF ok(3), of length] by simp
  have "m_id (mounts ht ! i) = snd (P ! i)" using arg_cong [OF ok(3), of "\<lambda>xs. xs ! i"] i l by (simp add: P_def n_def)
  then have "m_id (mounts ht' ! i) = Mid (ref + n + others + k)"
    using renumber_nth [OF d, of k "mounts ht ! i" ref1] k i l len b ref' by (simp add: m ok(1))
  then show "\<exists>k < n. m_id (mounts ht' ! i) = Mid (ref + n + others + k) \<and> sort_key okey P ! k = P ! i"
    using k ok(2) by auto
qed

lemma pgrpcpy_order:
  assumes "pgrpcpy from ref others = (ht', ref')" "distinct (map m_id (mounts from))" "ref' < idmax"
    and i: "i < length (mounts from)" and j: "j < length (mounts from)"
  shows "m_id (mounts ht' ! i) < m_id (mounts ht' ! j) \<longleftrightarrow> m_id (mounts from ! i) < m_id (mounts from ! j)"
proof -
  let ?n = "length (mounts from)" and ?P = "zip (mounts from) (ids_from ref (length (mounts from)))"
  let ?ord = "sort_key okey ?P"
  obtain k where k: "k < ?n" "m_id (mounts ht' ! i) = Mid (ref + ?n + others + k)" "?ord ! k = ?P ! i"
    using pgrpcpy_mounts(4) [OF assms(1) i assms(3)] by blast
  obtain l where l: "l < ?n" "m_id (mounts ht' ! j) = Mid (ref + ?n + others + l)" "?ord ! l = ?P ! j"
    using pgrpcpy_mounts(4) [OF assms(1) j assms(3)] by blast
  have srt: "sorted (map okey ?ord)" by simp
  have "mset (map okey ?ord) = mset (map okey ?P)" by simp
  moreover have "map okey ?P = map m_id (mounts from)" by (simp add: okey_zip)
  ultimately have "distinct (map okey ?ord)" using assms(2) mset_eq_imp_distinct_iff by metis
  with srt have "sorted_wrt (<) (map okey ?ord)" by (simp add: strict_sorted_iff)
  then have lt: "k < l \<Longrightarrow> okey (?P ! i) < okey (?P ! j)" "l < k \<Longrightarrow> okey (?P ! j) < okey (?P ! i)"
    using sorted_wrt_nth_less [of "(<)" "map okey ?ord" k l] sorted_wrt_nth_less [of "(<)" "map okey ?ord" l k] k(1,3) l(1,3)
    by simp_all
  have "k < l \<longleftrightarrow> okey (?P ! i) < okey (?P ! j)"
    using lt k(3) l(3) by (metis linorder_neqE_nat order_less_asym order_less_irrefl)
  then show ?thesis using i j by (simp add: k(2) l(2) less_mountid_def)
qed

section \<open>Every table a process group can have\<close>

text \<open>
  The tables that bind, unmount and the copy of a name space lead to, with the counter of mount ids, which
  other process groups advance as well. A bind that fails for lack of memory is a step too, except at the places where
  \<open>cmount_nomem_null\<close> shows what it does.
\<close>

inductive ns_reach :: "mnthash \<Rightarrow> nat \<Rightarrow> bool" where
  ns_init: "ns_reach (replicate MNTHASH []) ref"
| ns_bind: "\<lbrakk> ns_reach ht ref; cmount ht ref new umh old flag spec = Inr (ht', ref', i) \<rbrakk> \<Longrightarrow> ns_reach ht' ref'"
| ns_fail: "\<lbrakk> ns_reach ht ref; table_find ht old \<noteq> None \<or> flag AND MORDER \<noteq> MREPL; cmount_nomem ht ref old flag = (ht', ref') \<rbrakk> \<Longrightarrow>
    ns_reach ht' ref'"
| ns_unmount: "\<lbrakk> ns_reach ht ref; cunmount ht mnt mounted = Inr ht' \<rbrakk> \<Longrightarrow> ns_reach ht' ref"
| ns_copy: "\<lbrakk> ns_reach ht ref; pgrpcpy ht ref others = (ht', ref') \<rbrakk> \<Longrightarrow> ns_reach ht' ref'"
| ns_other: "\<lbrakk> ns_reach ht ref; ref \<le> ref' \<rbrakk> \<Longrightarrow> ns_reach ht ref'"

lemma wf_init: "wf_table (replicate MNTHASH []) \<and> ids_ok (replicate MNTHASH []) ref"
  by (simp add: wf_table_def wf_heads_def ids_ok_def mounts_def)

lemma union_chans_init [simp]: "union_chans (replicate MNTHASH []) c = None"
  by (simp add: mt.chans_def table_find_def)

lemma wf_heads_shape: "map (\<lambda>h. (h_from h, length (h_mount h))) b = map (\<lambda>h. (h_from h, length (h_mount h))) b' \<Longrightarrow>
    wf_heads l b = wf_heads l b'"
proof -
  assume s: "map (\<lambda>h. (h_from h, length (h_mount h))) b = map (\<lambda>h. (h_from h, length (h_mount h))) b'"
  have w: "wf_heads l b \<longleftrightarrow> list_all (\<lambda>(f, n). mounth (c_qid f) = l \<and> n \<noteq> 0) (map (\<lambda>h. (h_from h, length (h_mount h))) b)
      \<and> distinct (map (ckey \<circ> fst) (map (\<lambda>h. (h_from h, length (h_mount h))) b))" for b
    by (simp add: wf_heads_def list.pred_map comp_def)
  show ?thesis unfolding w s ..
qed

lemma wf_table_shape: "shape ht = shape ht' \<Longrightarrow> wf_table ht' \<Longrightarrow> wf_table ht"
  unfolding wf_table_def by (metis (no_types, lifting) length_map nth_map wf_heads_shape)

lemma pgrpcpy_ids:
  assumes "ids_ok ht ref" "pgrpcpy ht ref others = (ht', ref')" "ref' < idmax"
  shows "distinct (map m_id (mounts ht'))"
proof -
  have d: "distinct (map m_id (mounts ht))" using assms(1) by (simp add: ids_ok_def)
  have "m_id (mounts ht' ! i) \<noteq> m_id (mounts ht' ! j)" if "i < j" "j < length (mounts ht)" for i j
  proof -
    have "m_id (mounts ht ! i) \<noteq> m_id (mounts ht ! j)"
      using d that nth_eq_iff_index_eq [OF d, of i j] by simp
    then show ?thesis
      using pgrpcpy_order [OF assms(2) d assms(3), of i j] pgrpcpy_order [OF assms(2) d assms(3), of j i] that
      by (auto simp: neq_iff)
  qed
  then show ?thesis using arg_cong [OF pgrpcpy_mounts(2) [OF assms(2)], of length]
    by (simp add: distinct_conv_nth) (metis linorder_neqE_nat)
qed

lemma pgrpcpy_wf:
  assumes "wf_table ht" "pgrpcpy ht ref others = (ht', ref')"
  shows "wf_table ht'" "ref \<le> ref'" "\<lbrakk> ids_ok ht ref; ref' < idmax \<rbrakk> \<Longrightarrow> ids_ok ht' ref'"
proof -
  note c = pgrpcpy_mounts [OF assms(2)]
  show "wf_table ht'" "ref \<le> ref'" using wf_table_shape [OF c(1) assms(1)] c(3) by simp_all
  assume ids: "ids_ok ht ref" "ref' < idmax"
  have "length (mounts ht') = length (mounts ht)" using arg_cong [OF c(2), of length] by simp
  then have "mid (m_id m) \<le> ref'" if "m \<in> set (mounts ht')" for m
    using that c(3) c(4) [OF _ ids(2)] by (fastforce simp: in_set_conv_nth)
  with pgrpcpy_ids [OF ids(1) assms(2) ids(2)] show "ids_ok ht' ref'" by (simp add: ids_ok_def)
qed

lemma ns_reach_ok: "ns_reach ht ref \<Longrightarrow> wf_table ht \<and> (ref < idmax \<longrightarrow> ids_ok ht ref)"
proof (induction rule: ns_reach.induct)
  case (ns_bind ht ref new umh old flag spec ht' ref' i)
  then show ?case using cmount_wf [OF _ ns_bind.hyps(2)] by auto
next
  case (ns_fail ht ref old flag ht' ref')
  then show ?case using cmount_nomem_wf [OF _ ns_fail.hyps(2,3)] by auto
next
  case (ns_unmount ht ref mnt mounted ht')
  then show ?case using cunmount_wf [OF _ ns_unmount.hyps(2)] by blast
next
  case (ns_copy ht ref others ht' ref')
  then show ?case using pgrpcpy_wf [OF _ ns_copy.hyps(2)] by auto
next
  case (ns_other ht ref ref')
  then show ?case by (fastforce simp: ids_ok_def)
qed (simp add: wf_init)

end
