(* ===== verification/NamespaceThms.thy ===== *)
theory NamespaceThms
  imports PgrpCopy
begin

unbundle bit_operations_syntax

text \<open>The properties of name spaces and descriptor groups.\<close>

section \<open>Properties\<close>

text \<open>C16 (invariant). In every table that binds, unmounts and copies of the name space lead to, and binds that run out of
  memory (other than, at a place with nothing mounted, a replacement, or a union for the mount of the place itself), each head is in
  the chain its path hashes to, once, with a mount on it; as long as the counter is below 2^31, mount ids are unique and not above it;
  and looking a channel up (its device instance being below 2^31, as the lookup passes it as an \<open>int\<close>) reads no missing mount and returns the first channel of the union there, or nothing where nothing is bound.\<close>

theorem namespace_invariant:
  assumes "ns_reach ht ref" "small_dev c"
  shows "wf_table ht \<and> (ref < idmax \<longrightarrow> ids_ok ht ref) \<and>
    map_option (map_option snd) (domount ht c) = Some (map_option hd (union_chans ht c)) \<and>
    (\<forall>cs. union_chans ht c = Some cs \<longrightarrow> cs \<noteq> [])"
  using ns_reach_ok [OF assms(1)] domount_chans [OF _ assms(2)] mt.chans_nonempty by blast

abbreviation dirq :: "u64 \<Rightarrow> qid" where
  "dirq p \<equiv> \<lparr>q_path = p, q_vers = 0, q_type = QTDIR\<rparr>"

abbreviation dirc :: "u64 \<Rightarrow> chan" where
  "dirc p \<equiv> Chan 0 0 (dirq p) None []"

lemma ns_two_binds: "\<exists>ht ref. ns_reach ht ref \<and> union_chans ht (dirc 33) = Some [dirc 1, dirc 33, dirc 2]"
proof -
  let ?t = "replicate MNTHASH []"
  have b: "bindable (dirc 2) None (dirc 33) MAFTER" "bindable (dirc 1) None (dirc 33) MBEFORE"
    by (simp_all add: bindable_def)
  from cmount_bind [OF b(1), of ?t 0 None] obtain ref1 i1 h1 where c1:
    "cmount ?t 0 (dirc 2) None (dirc 33) MAFTER None = Inr (table_put ?t (dirc 33) h1, ref1, i1)"
    "ckey (h_from h1) = ckey (dirc 33)" "map m_to (h_mount h1) = bound MAFTER (union_chans ?t (dirc 33)) (dirc 33) [dirc 2]"
    by (auto simp: rest_of_def)
  let ?t1 = "table_put ?t (dirc 33) h1"
  from ns_bind [OF ns_init c1(1)] have r1: "ns_reach ?t1 ref1" .
  have u1: "union_chans ?t1 (dirc 33) = Some [dirc 33, dirc 2]"
    using mt.chans_put [OF conjunct1 [OF wf_init] c1(2)] c1(3) by (simp add: bound_def)
  from cmount_bind [OF b(2), of ?t1 ref1 None] obtain ref2 i2 h2 where c2:
    "cmount ?t1 ref1 (dirc 1) None (dirc 33) MBEFORE None = Inr (table_put ?t1 (dirc 33) h2, ref2, i2)"
    "ckey (h_from h2) = ckey (dirc 33)" "map m_to (h_mount h2) = bound MBEFORE (union_chans ?t1 (dirc 33)) (dirc 33) [dirc 1]"
    by (auto simp: rest_of_def)
  have "union_chans (table_put ?t1 (dirc 33) h2) (dirc 33) = Some [dirc 1, dirc 33, dirc 2]"
    using mt.chans_put [OF _ c2(2), of ?t1] ns_reach_ok [OF r1] c2(3) u1 by (simp add: bound_def)
  then show ?thesis using ns_bind [OF r1 c2(1)] by blast
qed

theorem namespace_invariant_witness:
  "\<exists>ht. union_chans ht (dirc 33) = Some [dirc 1, dirc 33, dirc 2] \<and> wf_table ht \<and>
    map_option (map_option snd) (domount ht (dirc 33)) = Some (Some (dirc 1))"
proof -
  obtain ht ref where "ns_reach ht ref" "union_chans ht (dirc 33) = Some [dirc 1, dirc 33, dirc 2]"
    using ns_two_binds by blast
  with namespace_invariant [of ht ref "dirc 33"] show ?thesis by (auto simp: small_dev_def)
qed

text \<open>C15 (refinement). Binding refines the abstract name space, a map from places to unions: it is refused with
  \<open>Emount\<close> exactly when a directory would be bound on a file or a file on a directory, a file bound by order other than
  replacement, or creation asked for in a union that is not a single element with creation; otherwise the union at
  \<open>old\<close> becomes \<open>new\<close>, with the further elements of the union \<open>new\<close> stands for, in place of it, before it or after it (an
  empty place counting as the union of \<open>old\<close> alone), every other place is as before, and the table stays well formed; the ids stay
  unique, and the one returned is new, as long as the counter is below 2^31.\<close>

theorem cmount_refines:
  assumes "wf_table ht"
  shows "if bindable new umh old flag then
      \<exists>ht' ref' i. cmount ht ref new umh old flag spec = Inr (ht', ref', i) \<and> wf_table ht' \<and>
        (ids_ok ht ref \<and> ref' < idmax \<longrightarrow> ids_ok ht' ref' \<and> ref < mid i) \<and>
        (\<forall>d. union_chans ht' d = (if ckey d = ckey old
          then Some (bound (flag AND MORDER) (union_chans ht old) old (new # rest_of umh)) else union_chans ht d))
    else cmount ht ref new umh old flag spec = Inl Emount"
proof (cases "bindable new umh old flag")
  case True
  from cmount_bind [OF True, of ht ref spec] obtain ref' i h ns where
    c: "cmount ht ref new umh old flag spec = Inr (table_put ht old h, ref', i)" and h: "ckey (h_from h) = ckey old"
    "map m_to (h_mount h) = bound (flag AND MORDER) (union_chans ht old) old (new # rest_of umh)"
    "fresh ref ref' ns" "i \<in> set (map m_id ns)" by blast
  have "ref' < idmax \<Longrightarrow> ref < mid i" using h(3,4) by (auto simp: fresh_def)
  with True c cmount_wf [OF assms c] mt.chans_put [OF assms(1) h(1)] h(2) show ?thesis by simp
next
  case False
  then show ?thesis by (simp add: cmount_refused)
qed

theorem cmount_refines_witness:
  "\<exists>ht' ref' i. cmount (replicate MNTHASH []) 7 (dirc 1) None (dirc 33) MBEFORE None = Inr (ht', ref', i) \<and>
    union_chans ht' (dirc 33) = Some [dirc 1, dirc 33]"
  using cmount_refines [OF conjunct1 [OF wf_init], of "dirc 1" None "dirc 33" MBEFORE 7 None]
  by (auto simp: bindable_def bound_def rest_of_def)

text \<open>Binding a directory before a union and unmounting it again gives back every union of the name
  space; at a place where nothing was bound, the union is then that of the place alone.\<close>

lemma bind_unmount:
  assumes "wf_table ht" "bindable new None old MBEFORE"
  shows "\<exists>ht1 ref1 i ht2. cmount ht ref new None old MBEFORE spec = Inr (ht1, ref1, i) \<and>
    cunmount ht1 old (Some new) = Inr ht2 \<and>
    (\<forall>d. union_chans ht2 d = (if ckey d = ckey old \<and> union_chans ht old = None then Some [old] else union_chans ht d))"
proof -
  from cmount_bind [OF assms(2), of ht ref spec] obtain ref1 i h where
    c: "cmount ht ref new None old MBEFORE spec = Inr (table_put ht old h, ref1, i)" and
    h: "ckey (h_from h) = ckey old" "map m_to (h_mount h) = bound MBEFORE (union_chans ht old) old [new]"
    by (auto simp: rest_of_def)
  obtain m ms where ms: "h_mount h = m # ms" "m_to m = new" "map m_to ms = (case union_chans ht old of None \<Rightarrow> [old] | Some cs \<Rightarrow> cs)"
    using h(2) by (auto simp: bound_def)
  have ne: "ms \<noteq> []" using ms(3) mt.chans_nonempty [OF assms(1), of old] by (auto split: option.splits)
  let ?t = "table_put ht old h"
  have wf: "wf_table ?t" using mt.inv_put [OF assms(1) h(1)] ms(1) by simp
  have "table_find ?t old = Some h" using mt.find_put [OF assms(1) h(1)] by simp
  then have "cunmount ?t old (Some new) = Inr (table_put ?t old (h\<lparr>h_mount := ms\<rparr>))"
    using ms ne by (simp add: cunmount_cases)
  moreover have "union_chans (table_put ?t old (h\<lparr>h_mount := ms\<rparr>)) d =
      (if ckey d = ckey old \<and> union_chans ht old = None then Some [old] else union_chans ht d)" for d
    using mt.chans_put [OF wf, of "h\<lparr>h_mount := ms\<rparr>" old] mt.chans_put [OF assms(1) h(1)] h(1) ms(3)
      mt.find_cong [of d old ht] by (auto simp: mt.chans_def split: option.splits)
  ultimately show ?thesis using c by blast
qed

text \<open>Unmounting fails with \<open>Eunmount\<close> where nothing is bound and with \<open>Eunion\<close> when no element of the
  union is, or is served by, the channel named; otherwise it takes out the first such element (the whole union when no
  channel is named, or when it was the last), leaves every other place alone and keeps the invariant.\<close>

lemma cunmount_spec:
  assumes "wf_table ht" "ids_ok ht ref"
  shows "case table_find ht mnt of None \<Rightarrow> cunmount ht mnt mounted = Inl Eunmount
    | Some m \<Rightarrow> (let left = (case mounted of None \<Rightarrow> []
          | Some c \<Rightarrow> takeWhile (\<lambda>f. \<not> serves f c) (h_mount m) @ tl (dropWhile (\<lambda>f. \<not> serves f c) (h_mount m))) in
        if (\<exists>c. mounted = Some c \<and> (\<forall>f \<in> set (h_mount m). \<not> serves f c)) then cunmount ht mnt mounted = Inl Eunion
        else \<exists>ht'. cunmount ht mnt mounted = Inr ht' \<and> wf_table ht' \<and> ids_ok ht' ref \<and>
          (\<forall>d. table_find ht' d = (if ckey d = ckey mnt then (if left = [] then None else Some (m\<lparr>h_mount := left\<rparr>))
             else table_find ht d)))"
proof (cases "table_find ht mnt")
  case None
  then show ?thesis by (simp add: cunmount_cases)
next
  case (Some m)
  have "ckey (h_from m) = ckey mnt" using mt.inv_find [OF assms(1) Some] by simp
  note t = mt.find_put [OF assms(1), of "m\<lparr>h_mount := _\<rparr>" mnt, simplified, OF this] mt.find_del [OF assms(1), of mnt]
  have wf: "\<And>ht'. cunmount ht mnt mounted = Inr ht' \<Longrightarrow> wf_table ht' \<and> ids_ok ht' ref"
    using cunmount_wf [OF assms(1)] assms(2) by blast
  show ?thesis
  proof (cases mounted)
    case None
    then show ?thesis using wf Some t by (simp add: cunmount_cases)
  next
    fix c assume "mounted = Some c"
    then show ?thesis using wf Some t by (auto simp: cunmount_cases unmount_one_ok Let_def)
  qed
qed

definition two_union :: mhead where
  "two_union = \<lparr>h_from = dirc 33, h_mount = [\<lparr>m_id = Mid 4, m_to = dirc 33, m_flag = 0, m_spec = None\<rparr>,
     \<lparr>m_id = Mid 2, m_to = dirc 1, m_flag = MAFTER, m_spec = None\<rparr>]\<rparr>"

definition two_table :: mnthash where
  "two_table = table_put (replicate MNTHASH []) (dirc 33) two_union"

lemma two_table_wf: "wf_table two_table"
  unfolding two_table_def by (rule mt.inv_put) (simp_all add: wf_init two_union_def)

lemma two_table_find: "table_find two_table (dirc 33) = Some two_union"
  using mt.find_put [OF conjunct1 [OF wf_init], of two_union "dirc 33" "dirc 33"] by (simp add: two_table_def two_union_def)

lemma two_table_mounts: "mset (mounts two_table) = mset (h_mount two_union)"
  using mset_mounts_put [OF conjunct1 [OF wf_init], of "dirc 33" two_union]
  by (simp add: two_table_def table_find_def) (simp add: mounts_def)

lemma two_table_ids: "ids_ok two_table 7"
  using mset_eq_setD [OF two_table_mounts] mset_eq_imp_distinct_iff [of "map m_id (mounts two_table)" "map m_id (h_mount two_union)"]
    two_table_mounts
  by (simp add: ids_ok_def) (simp add: two_union_def)

text \<open>C17 (functional). Copying a name space keeps every head with its channel and every mount with its channel, flags
  and spec, in place, whatever other groups do to the counter meanwhile; as long as the counter ends below 2^31, the copies have new
  ids, above all ids given out before, unique, and in the order of the ids of the originals, and the counter ends above them.\<close>

theorem pgrpcpy_copies:
  "\<exists>ht' ref'. pgrpcpy from ref others = (ht', ref') \<and> ref' = ref + others + 2 * length (mounts from) \<and>
    map (map h_from) ht' = map (map h_from) from \<and> map strip (mounts ht') = map strip (mounts from) \<and> map (map (length \<circ> h_mount)) ht' = map (map (length \<circ> h_mount)) from \<and>
    (ids_ok from ref \<and> ref' < idmax \<longrightarrow>
      distinct (map m_id (mounts ht')) \<and> (\<forall>m \<in> set (mounts ht'). ref < mid (m_id m) \<and> mid (m_id m) < ref') \<and>
      (\<forall>i < length (mounts from). \<forall>j < length (mounts from).
        m_id (mounts ht' ! i) < m_id (mounts ht' ! j) \<longleftrightarrow> m_id (mounts from ! i) < m_id (mounts from ! j)))"
proof -
  obtain ht' ref' where p: "pgrpcpy from ref others = (ht', ref')" by fastforce
  note c = pgrpcpy_mounts [OF p]
  have l: "length (mounts ht') = length (mounts from)" using arg_cong [OF c(2), of length] by simp
  have "\<forall>m \<in> set (mounts ht'). ref < mid (m_id m) \<and> mid (m_id m) < ref'" if "ref' < idmax"
    using l c(3) c(4) [OF _ that] by (fastforce simp: in_set_conv_nth)
  moreover have "map (map h_from) ht' = map (map h_from) from" "map (map (length \<circ> h_mount)) ht' = map (map (length \<circ> h_mount)) from"
    using arg_cong [OF c(1), of "map (map fst)"] arg_cong [OF c(1), of "map (map snd)"] by (simp_all add: comp_def)
  moreover have "ref' = ref + others + 2 * length (mounts from)" using c(3) by simp
  ultimately show ?thesis using p c(2) pgrpcpy_ids [OF _ p] pgrpcpy_order [OF p] by (auto simp: ids_ok_def)
qed

theorem pgrpcpy_copies_witness:
  "map strip (mounts (fst (pgrpcpy two_table 7 3))) = map strip (mounts two_table) \<and> ids_ok two_table 7 \<and>
    distinct (map m_id (mounts (fst (pgrpcpy two_table 7 3))))"
proof -
  have "length (mounts two_table) = 2" using mset_eq_length [OF two_table_mounts] by (simp add: two_union_def)
  then show ?thesis using pgrpcpy_copies [of two_table 7 3] two_table_ids by (elim exE conjE) (simp add: idmax_def)
qed

end
