(* ===== verification/FdTable.thy ===== *)
theory FdTable
  imports Namespace
begin

unbundle bit_operations_syntax

text \<open>
  The table of file descriptors of a process group (\<open>svcs/sysfile.c\<close>), on the descriptor groups of \<open>Namespace\<close>.
  Every function runs under the lock of the group, so it is one step; \<open>kfgrpclose\<close> takes the lock twice. An access
  outside the array is \<open>None\<close>. \<open>mem\<close> says whether the allocation of a longer array succeeds; \<open>malloc\<close> clears.
  Descriptors hold references to channels; \<open>cs\<close> gives what the checks read of a channel; the reference counts that
  \<open>iref\<close> and \<open>cclose\<close> change are left out.
\<close>

abbreviation MAXNFD :: nat where "MAXNFD \<equiv> 4000"
abbreviation ORDWR :: int where "ORDWR \<equiv> 2"
abbreviation OREAD :: int where "OREAD \<equiv> 0"
abbreviation OEXEC :: nat where "OEXEC \<equiv> 3"
abbreviation OTRUNC :: int where "OTRUNC \<equiv> 16"
abbreviation CMSG :: u16 where "CMSG \<equiv> 2"
abbreviation QTAUTH :: byte where "QTAUTH \<equiv> 8"

record chaninfo =
  ci_mode :: u16
  ci_flag :: u16
  ci_qtype :: byte

text \<open>\<open>Exhausted\<close> is the error \<open>no free file descriptors\<close>, raised by \<open>exhausted\<close>: \<open>newfd\<close> does not return -1.\<close>

datatype fderror = Ebadfd | Ebadusefd | Eperm | Exhausted | Ebadarg

text \<open>\<open>growfd\<close>: the inner \<open>None\<close> is the result -1.\<close>

definition growfd :: "bool \<Rightarrow> fgrp \<Rightarrow> nat \<Rightarrow> fgrp option option" where
  "growfd mem f fd =
     (if fd < g_nfd f then Some (Some f)
      else let n = g_nfd f + DELTAFD; n = (if n > MAXNFD then MAXNFD else n) in
        if fd \<ge> n then Some None
        else if \<not> mem then Some None
        else if g_nfd f \<le> n \<and> g_nfd f \<le> length (g_fd f)
        then Some (Some (f\<lparr>g_fd := take (g_nfd f) (g_fd f) @ replicate (n - g_nfd f) None, g_nfd := n\<rparr>))
        else None)"

function find_free :: "nat option list \<Rightarrow> nat \<Rightarrow> nat \<Rightarrow> nat option" where
  "find_free fds nfd i = (if i < nfd then
     (if i < length fds then (if fds ! i = None then Some i else find_free fds nfd (i + 1)) else None)
     else Some i)"
  by pat_completeness auto
termination by (relation "measure (\<lambda>(fds, nfd, i). nfd - i)") auto

declare find_free.simps [simp del]

definition newfd :: "bool \<Rightarrow> fgrp \<Rightarrow> nat \<Rightarrow> (fderror + fgrp \<times> nat) option" where
  "newfd mem f c = do {
     i \<leftarrow> find_free (g_fd f) (g_nfd f) (g_minfd f);
     g \<leftarrow> (if i \<ge> g_nfd f then growfd mem f i else Some (Some f));
     case g of None \<Rightarrow> Some (Inl Exhausted)
     | Some f \<Rightarrow> do {
         let f = f\<lparr>g_minfd := i + 1, g_maxfd := (if i > g_maxfd f then i else g_maxfd f)\<rparr>;
         if i < length (g_fd f) then Some (Inr (f\<lparr>g_fd := (g_fd f)[i := Some c]\<rparr>, i)) else None } }"

definition fdtochan :: "(nat \<Rightarrow> chaninfo) \<Rightarrow> fgrp \<Rightarrow> int \<Rightarrow> int \<Rightarrow> bool \<Rightarrow> (fderror + nat) option" where
  "fdtochan cs f fd mode chkmnt =
     (if fd < 0 \<or> int (g_maxfd f) < fd then Some (Inl Ebadfd)
      else if \<not> nat fd < length (g_fd f) then None
      else case g_fd f ! nat fd of None \<Rightarrow> Some (Inl Ebadfd)
      | Some c \<Rightarrow>
          if chkmnt \<and> ci_flag (cs c) AND CMSG \<noteq> 0 then Some (Inl Ebadusefd)
          else if mode < 0 \<or> uint (ci_mode (cs c)) = ORDWR then Some (Inr c)
          else if mode AND OTRUNC \<noteq> 0 \<and> uint (ci_mode (cs c)) = OREAD then Some (Inl Ebadusefd)
          else if mode AND NOT OTRUNC \<noteq> uint (ci_mode (cs c)) then Some (Inl Ebadusefd)
          else Some (Inr c))"

text \<open>\<open>openmode\<close> of an unsigned mode; the bits \<open>OTRUNC\<close>, \<open>OCEXEC\<close> and \<open>ORCLOSE\<close> are 0x70.\<close>

definition openmode :: "u64 \<Rightarrow> fderror + nat" where
  "openmode o0 = (if o0 \<ge> 0x73 then Inl Ebadarg
     else let o1 = o0 AND NOT 0x70 in
       if o1 > 3 then Inl Ebadarg else if o1 = 3 then Inr 0 else Inr (unat o1))"

text \<open>\<open>for(i=fd; --i>=0 && f->fd[i]==0; ) f->maxfd = i;\<close>\<close>

fun lower_max :: "nat option list \<Rightarrow> nat \<Rightarrow> nat \<Rightarrow> nat option" where
  "lower_max fds 0 m = Some m"
| "lower_max fds (Suc i) m = (if i < length fds then (if fds ! i = None then lower_max fds i i else Some m) else None)"

definition fdclose :: "fgrp \<Rightarrow> nat \<Rightarrow> fgrp option" where
  "fdclose f fd =
     (if \<not> fd < length (g_fd f) then None
      else if g_fd f ! fd = None then Some f
      else do {
        let fds = (g_fd f)[fd := None];
        m \<leftarrow> (if fd = g_maxfd f then lower_max fds fd (g_maxfd f) else Some (g_maxfd f));
        Some (f\<lparr>g_fd := fds, g_maxfd := m, g_minfd := (if fd < g_minfd f then fd else g_minfd f)\<rparr>) })"

definition kfgrpclose :: "(nat \<Rightarrow> chaninfo) \<Rightarrow> fgrp \<Rightarrow> int \<Rightarrow> (fderror + fgrp) option" where
  "kfgrpclose cs f fd = do {
     r \<leftarrow> fdtochan cs f fd (-1) False;
     case r of Inl e \<Rightarrow> Some (Inl e) | Inr c \<Rightarrow> map_option Inr (fdclose f (nat fd)) }"

definition kdup :: "bool \<Rightarrow> (nat \<Rightarrow> chaninfo) \<Rightarrow> fgrp \<Rightarrow> int \<Rightarrow> int \<Rightarrow> (fderror + fgrp \<times> nat) option" where
  "kdup mem cs f old new = do {
     r \<leftarrow> fdtochan cs f old (-1) False;
     case r of Inl e \<Rightarrow> Some (Inl e)
     | Inr c \<Rightarrow>
         if ci_qtype (cs c) AND QTAUTH \<noteq> 0 then Some (Inl Eperm)
         else if new \<noteq> -1 then
           (if new < 0 then Some (Inl Ebadfd)
            else do {
              g \<leftarrow> growfd mem f (nat new);
              case g of None \<Rightarrow> Some (Inl Ebadfd)
              | Some f \<Rightarrow> do {
                  let f = (if nat new > g_maxfd f then f\<lparr>g_maxfd := nat new\<rparr> else f);
                  if nat new < length (g_fd f) then Some (Inr (f\<lparr>g_fd := (g_fd f)[nat new := Some c]\<rparr>, nat new)) else None } })
         else newfd mem f c }"

end
