(* ===== verification/FdThms.thy ===== *)
theory FdThms
  imports FdTable
begin

unbundle bit_operations_syntax

text \<open>
  The contract of a descriptor table, its interpretation on the groups of \<open>FdTable\<close>, and the invariant that keeps every
  access of the system calls within the array.
\<close>

section \<open>The contract\<close>

text \<open>What a process relies on: a new descriptor is the lowest one not in use, and closing frees just the one.\<close>

locale descriptors =
  fixes ok :: "'g \<Rightarrow> bool" and look :: "'g \<Rightarrow> nat \<rightharpoonup> nat"
    and new :: "'g \<Rightarrow> nat \<Rightarrow> ('g \<times> nat) option" and close :: "'g \<Rightarrow> nat \<Rightarrow> 'g"
  assumes new_law: "\<lbrakk> ok g; new g c = Some (g', i) \<rbrakk> \<Longrightarrow>
      ok g' \<and> look g i = None \<and> (\<forall>j < i. look g j \<noteq> None) \<and> look g' = (look g)(i \<mapsto> c)"
    and close_law: "ok g \<Longrightarrow> ok (close g i) \<and> look (close g i) = (look g)(i := None)"
begin

lemma reuse: "\<lbrakk> ok g; new (close g i) c = Some (g', k) \<rbrakk> \<Longrightarrow> k \<le> i"
  using close_law [of g i] new_law [of "close g i" c g' k] by (metis fun_upd_same not_le)

lemma new_distinct: "\<lbrakk> ok g; new g c = Some (g1, i); new g1 d = Some (g2, j) \<rbrakk> \<Longrightarrow> i < j \<and> look g2 i = Some c \<and> look g2 j = Some d"
proof -
  assume a: "ok g" "new g c = Some (g1, i)" "new g1 d = Some (g2, j)"
  note 1 = new_law [OF a(1,2)]
  then have "ok g1" by simp
  note 2 = new_law [OF this a(3)]
  have "look g1 i \<noteq> None" using 1 by simp
  then have "i \<noteq> j" "\<not> j < i" using 1 2 by (metis, metis domIff fun_upd_other nat_neq_iff)
  then show ?thesis using 1 2 by auto
qed

lemma close_new: "\<lbrakk> ok g; new g c = Some (g', i) \<rbrakk> \<Longrightarrow> look (close g' i) = look g"
  using new_law [of g c g' i] close_law [of g' i] by (metis fun_upd_triv fun_upd_upd)

end

section \<open>The invariant\<close>

definition fdmap :: "fgrp \<Rightarrow> nat \<rightharpoonup> nat" where
  "fdmap f j = (if j < g_nfd f then g_fd f ! j else None)"

definition fd_ok :: "fgrp \<Rightarrow> bool" where
  "fd_ok f \<longleftrightarrow> length (g_fd f) = g_nfd f \<and> g_nfd f \<le> MAXNFD \<and> g_maxfd f < g_nfd f \<and>
     (\<forall>i. g_maxfd f < i \<longrightarrow> fdmap f i = None) \<and> (\<forall>i < g_minfd f. fdmap f i \<noteq> None)"

lemma find_free_ok:
  "\<lbrakk> length fds = nfd; i \<le> nfd \<rbrakk> \<Longrightarrow> \<exists>k. find_free fds nfd i = Some k \<and> i \<le> k \<and> k \<le> nfd \<and>
     (\<forall>j. i \<le> j \<and> j < k \<longrightarrow> fds ! j \<noteq> None) \<and> (k < nfd \<longrightarrow> fds ! k = None)"
proof (induction fds nfd i rule: find_free.induct)
  case (1 fds nfd i)
  show ?case
  proof (cases "i < nfd \<and> fds ! i \<noteq> None")
    case True
    have "\<exists>k. find_free fds nfd (i + 1) = Some k \<and> i + 1 \<le> k \<and> k \<le> nfd \<and> (\<forall>j. i + 1 \<le> j \<and> j < k \<longrightarrow> fds ! j \<noteq> None) \<and> (k < nfd \<longrightarrow> fds ! k = None)"
      by (rule 1(1)) (use True 1(2) in simp_all)
    then obtain k where k: "find_free fds nfd (i + 1) = Some k" "i + 1 \<le> k" "k \<le> nfd" "\<forall>j. i + 1 \<le> j \<and> j < k \<longrightarrow> fds ! j \<noteq> None" "k < nfd \<longrightarrow> fds ! k = None"
      by blast
    have "\<forall>j. i \<le> j \<and> j < k \<longrightarrow> fds ! j \<noteq> None" using k(4) True by (metis Suc_eq_plus1 le_eq_less_or_eq Suc_leI)
    with True 1(2) k show ?thesis by (subst find_free.simps) simp
  next
    case False
    then show ?thesis using 1(2,3) by (subst find_free.simps) auto
  qed
qed

lemma minfd_le: "fd_ok f \<Longrightarrow> g_minfd f \<le> g_nfd f"
  by (rule ccontr) (auto simp: fd_ok_def fdmap_def not_le dest: spec [of _ "g_nfd f"])

lemma growfd_ok:
  assumes "fd_ok f"
  shows "growfd mem f fd = Some None \<and> g_nfd f \<le> fd \<and> (mem \<longrightarrow> g_nfd f + DELTAFD \<le> fd \<or> MAXNFD \<le> fd) \<or>
    (\<exists>g. growfd mem f fd = Some (Some g) \<and> fd_ok g \<and> fdmap g = fdmap f \<and> g_maxfd g = g_maxfd f \<and> g_minfd g = g_minfd f \<and>
      fd < g_nfd g \<and> g_nfd f \<le> g_nfd g)"
proof -
  let ?n = "if g_nfd f + DELTAFD > MAXNFD then MAXNFD else g_nfd f + DELTAFD"
  let ?g = "f\<lparr>g_fd := g_fd f @ replicate (?n - g_nfd f) None, g_nfd := ?n\<rparr>"
  have n: "g_nfd f \<le> ?n" "?n \<le> MAXNFD" and l: "length (g_fd f) = g_nfd f" using assms by (auto simp: fd_ok_def)
  have m: "fdmap ?g = fdmap f" using l n by (auto simp: fdmap_def fun_eq_iff nth_append)
  then have "fd_ok ?g" using assms n l unfolding fd_ok_def m by (auto simp: fd_ok_def)
  then show ?thesis using m n l assms by (cases "fd < g_nfd f") (auto simp: growfd_def Let_def not_less)
qed

lemma newfd_ok:
  assumes ok: "fd_ok f"
  shows "newfd mem f c = Some (Inl Exhausted) \<and> (\<forall>i < g_nfd f. fdmap f i \<noteq> None) \<and> (mem \<longrightarrow> g_nfd f = MAXNFD) \<or>
    (\<exists>g i. newfd mem f c = Some (Inr (g, i)) \<and> fd_ok g \<and> fdmap g = (fdmap f)(i \<mapsto> c) \<and> fdmap f i = None \<and> (\<forall>j < i. fdmap f j \<noteq> None) \<and> i < MAXNFD)"
proof -
  have l: "length (g_fd f) = g_nfd f" using ok by (simp add: fd_ok_def)
  obtain i where i: "find_free (g_fd f) (g_nfd f) (g_minfd f) = Some i" "g_minfd f \<le> i" "i \<le> g_nfd f"
    "\<forall>j. g_minfd f \<le> j \<and> j < i \<longrightarrow> g_fd f ! j \<noteq> None" "i < g_nfd f \<longrightarrow> g_fd f ! i = None"
    using find_free_ok [OF l minfd_le [OF ok]] by blast
  have used: "\<forall>j < i. fdmap f j \<noteq> None" using i(3,4) ok unfolding fd_ok_def fdmap_def by (metis not_le order_less_le_trans)
  have free: "fdmap f i = None" using i(5) by (simp add: fdmap_def)
  consider (full) "g_nfd f \<le> i" "growfd mem f i = Some None" "mem \<longrightarrow> g_nfd f + DELTAFD \<le> i \<or> MAXNFD \<le> i"
    | (room) g where "(if i \<ge> g_nfd f then growfd mem f i else Some (Some f)) = Some (Some g)" "fd_ok g" "fdmap g = fdmap f"
        "g_maxfd g = g_maxfd f" "g_minfd g = g_minfd f" "i < g_nfd g"
    using growfd_ok [OF ok, of mem i] ok by (cases "i \<ge> g_nfd f") auto
  then show ?thesis
  proof cases
    case full
    then have "i = g_nfd f" using i(3) by simp
    with full used i(1) ok show ?thesis by (auto simp: newfd_def fd_ok_def)
  next
    case (room g)
    define h where "h = g\<lparr>g_minfd := i + 1, g_maxfd := (if i > g_maxfd g then i else g_maxfd g), g_fd := (g_fd g)[i := Some c]\<rparr>"
    have lg: "length (g_fd g) = g_nfd g" "g_nfd g \<le> MAXNFD" "g_maxfd g < g_nfd g" "\<forall>i. g_maxfd g < i \<longrightarrow> fdmap g i = None" using room(2) by (auto simp: fd_ok_def)
    have "newfd mem f c = Some (Inr (h, i))" using i(1) room(1,6) lg by (simp add: newfd_def h_def)
    moreover have m: "fdmap h = (fdmap f)(i \<mapsto> c)" using room(6) lg unfolding room(3) [symmetric] by (auto simp: fdmap_def h_def fun_eq_iff)
    moreover have "\<forall>j < i + 1. fdmap h j \<noteq> None" using used m by (auto simp: less_Suc_eq)
    then have "fd_ok h" using lg room(3,6) unfolding fd_ok_def m by (auto simp: h_def less_Suc_eq)
    ultimately show ?thesis using used free room(6) lg(2) by (meson order_less_le_trans)
  qed
qed

lemma lower_max_ok: "\<lbrakk> i \<le> length fds; i \<le> m; \<forall>j. i \<le> j \<and> j < length fds \<longrightarrow> fds ! j = None \<rbrakk> \<Longrightarrow>
    \<exists>m'. lower_max fds i m = Some m' \<and> m' \<le> m \<and> (\<forall>j. m' < j \<and> j < length fds \<longrightarrow> fds ! j = None)"
proof (induction fds i m rule: lower_max.induct)
  case (2 fds i m)
  show ?case
  proof (cases "fds ! i = None")
    case True
    then have "\<forall>j. i \<le> j \<and> j < length fds \<longrightarrow> fds ! j = None" using 2(4) by (metis Suc_leI le_eq_less_or_eq)
    with 2 True show ?thesis by force
  next
    case False
    with 2 show ?thesis by auto
  qed
qed auto

lemma fdclose_ok:
  assumes ok: "fd_ok f" and fd: "fd < g_nfd f"
  shows "\<exists>g. fdclose f fd = Some g \<and> fd_ok g \<and> fdmap g = (fdmap f)(fd := None) \<and> g_nfd g = g_nfd f"
proof (cases "g_fd f ! fd = None")
  case True
  then have "fdmap f = (fdmap f)(fd := None)" by (auto simp: fdmap_def)
  then show ?thesis using ok fd True by (auto simp: fdclose_def fd_ok_def)
next
  case False
  let ?fds = "(g_fd f)[fd := None]"
  have f: "length (g_fd f) = g_nfd f" "g_maxfd f < g_nfd f" "\<And>j. \<lbrakk> g_maxfd f < j; j < g_nfd f \<rbrakk> \<Longrightarrow> g_fd f ! j = None"
    using ok by (auto simp: fd_ok_def fdmap_def split: if_splits)
  obtain m where m: "(if fd = g_maxfd f then lower_max ?fds fd (g_maxfd f) else Some (g_maxfd f)) = Some m" "m \<le> g_maxfd f"
    "\<forall>j. m < j \<and> j < g_nfd f \<longrightarrow> ?fds ! j = None"
  proof (cases "fd = g_maxfd f")
    case True
    have "\<forall>j. fd \<le> j \<and> j < length ?fds \<longrightarrow> ?fds ! j = None" using f True by (auto simp: nth_list_update le_less)
    then show ?thesis using lower_max_ok [of fd ?fds "g_maxfd f"] True f fd that by auto
  next
    case False
    have "\<forall>j. g_maxfd f < j \<and> j < g_nfd f \<longrightarrow> ?fds ! j = None" using f fd by (auto simp: nth_list_update)
    then show ?thesis using False that by simp
  qed
  define g where "g = f\<lparr>g_fd := ?fds, g_maxfd := m, g_minfd := (if fd < g_minfd f then fd else g_minfd f)\<rparr>"
  obtain c where "g_fd f ! fd = Some c" using False by auto
  then have "fdclose f fd = Some g" using m(1) fd f(1) by (simp add: fdclose_def g_def)
  moreover have mp: "fdmap g = (fdmap f)(fd := None)" using fd f(1) by (auto simp: fdmap_def g_def fun_eq_iff)
  moreover have "fd_ok g" unfolding fd_ok_def
  proof (intro conjI allI impI)
    fix i assume "g_maxfd g < i"
    then show "fdmap g i = None" using m(3) f(1) by (auto simp: fdmap_def g_def)
  next
    fix i assume "i < g_minfd g"
    then show "fdmap g i \<noteq> None" unfolding mp using ok by (auto simp: g_def fd_ok_def split: if_splits)
  qed (use ok m(2) f in \<open>auto simp: g_def fd_ok_def\<close>)
  ultimately show ?thesis by (simp add: g_def)
qed

lemma fdtochan_total: "fd_ok f \<Longrightarrow> \<exists>r. fdtochan cs f fd mode ck = Some r"
  by (auto simp: fdtochan_def fd_ok_def nat_less_iff split: option.splits)

lemma fdtochan_bad:
  assumes ok: "fd_ok f"
  shows "fdtochan cs f fd (-1) False = Some (if fd < 0 then Inl Ebadfd else case fdmap f (nat fd) of None \<Rightarrow> Inl Ebadfd | Some c \<Rightarrow> Inr c)"
proof (cases "fd < 0 \<or> int (g_maxfd f) < fd")
  case True
  then have "fd < 0 \<or> fdmap f (nat fd) = None" using ok by (auto simp: fd_ok_def zless_nat_eq_int_zless)
  with True show ?thesis by (auto simp: fdtochan_def)
next
  case False
  then have "nat fd < g_nfd f" using ok by (auto simp: fd_ok_def nat_less_iff)
  with False show ?thesis using ok by (auto simp: fdtochan_def fd_ok_def fdmap_def split: option.splits)
qed

lemma kfgrpclose_ok:
  assumes ok: "fd_ok f"
  shows "if fd < 0 \<or> fdmap f (nat fd) = None then kfgrpclose cs f fd = Some (Inl Ebadfd)
    else \<exists>g. kfgrpclose cs f fd = Some (Inr g) \<and> fd_ok g \<and> fdmap g = (fdmap f)(nat fd := None)"
proof (cases "fd < 0 \<or> fdmap f (nat fd) = None")
  case True
  then show ?thesis by (auto simp: kfgrpclose_def fdtochan_bad [OF ok])
next
  case False
  then have "nat fd < g_nfd f" by (auto simp: fdmap_def split: if_splits)
  with fdclose_ok [OF ok this] False show ?thesis by (auto simp: kfgrpclose_def fdtochan_bad [OF ok])
qed

lemma put_ok:
  assumes ok: "fd_ok f" and n: "n < g_nfd f"
  defines "g \<equiv> if n > g_maxfd f then f\<lparr>g_maxfd := n\<rparr> else f"
  shows "n < length (g_fd g) \<and> fd_ok (g\<lparr>g_fd := (g_fd g)[n := Some c]\<rparr>) \<and> fdmap (g\<lparr>g_fd := (g_fd g)[n := Some c]\<rparr>) = (fdmap f)(n \<mapsto> c)"
proof -
  let ?h = "g\<lparr>g_fd := (g_fd g)[n := Some c]\<rparr>"
  have l: "length (g_fd g) = g_nfd f" "g_nfd g = g_nfd f" "g_fd g = g_fd f" using ok by (auto simp: g_def fd_ok_def)
  have m: "fdmap ?h = (fdmap f)(n \<mapsto> c)" using n l by (auto simp: fdmap_def fun_eq_iff)
  have "fd_ok ?h" unfolding fd_ok_def m using ok n l by (auto simp: g_def fd_ok_def)
  then show ?thesis using m n l by simp
qed

lemma kdup_ok:
  assumes ok: "fd_ok f"
  shows "\<exists>r. kdup mem cs f old new = Some r \<and> (case r of
      Inl e \<Rightarrow> e = Ebadfd \<and> (old < 0 \<or> fdmap f (nat old) = None \<or> new < -1 \<or> g_nfd f \<le> nat new \<and> (mem \<longrightarrow> g_nfd f + DELTAFD \<le> nat new \<or> MAXNFD \<le> nat new))
        \<or> e = Eperm \<and> (\<exists>c. fdmap f (nat old) = Some c \<and> ci_qtype (cs c) AND QTAUTH \<noteq> 0)
        \<or> e = Exhausted \<and> new = -1 \<and> (\<forall>i < g_nfd f. fdmap f i \<noteq> None) \<and> (mem \<longrightarrow> g_nfd f = MAXNFD)
    | Inr (g, n) \<Rightarrow> fd_ok g \<and> (new \<noteq> -1 \<longrightarrow> n = nat new) \<and> (new = -1 \<longrightarrow> fdmap f n = None \<and> (\<forall>j < n. fdmap f j \<noteq> None)) \<and>
        (\<exists>c. fdmap f (nat old) = Some c \<and> fdmap g = (fdmap f)(n \<mapsto> c)))"
proof -
  consider (bad) "old < 0 \<or> fdmap f (nat old) = None" | (auth) c where "\<not> old < 0" "fdmap f (nat old) = Some c" "ci_qtype (cs c) AND QTAUTH \<noteq> 0"
    | (neg) c where "\<not> old < 0" "fdmap f (nat old) = Some c" "ci_qtype (cs c) AND QTAUTH = 0" "new < -1"
    | (any) c where "\<not> old < 0" "fdmap f (nat old) = Some c" "ci_qtype (cs c) AND QTAUTH = 0" "new = -1"
    | (at) c where "\<not> old < 0" "fdmap f (nat old) = Some c" "ci_qtype (cs c) AND QTAUTH = 0" "0 \<le> new"
    by (cases "old < 0 \<or> fdmap f (nat old) = None") fastforce+
  then show ?thesis
  proof cases
    case (any c)
    then show ?thesis using newfd_ok [OF ok, of mem c] by (auto simp: kdup_def fdtochan_bad [OF ok])
  next
    case (at c)
    from growfd_ok [OF ok, of mem "nat new"] show ?thesis
    proof
      assume "growfd mem f (nat new) = Some None \<and> g_nfd f \<le> nat new \<and> (mem \<longrightarrow> g_nfd f + DELTAFD \<le> nat new \<or> MAXNFD \<le> nat new)"
      then show ?thesis using at by (auto simp: kdup_def fdtochan_bad [OF ok])
    next
      assume "\<exists>g. growfd mem f (nat new) = Some (Some g) \<and> fd_ok g \<and> fdmap g = fdmap f \<and> g_maxfd g = g_maxfd f \<and> g_minfd g = g_minfd f \<and>
        nat new < g_nfd g \<and> g_nfd f \<le> g_nfd g"
      then obtain g where g: "growfd mem f (nat new) = Some (Some g)" "fd_ok g" "fdmap g = fdmap f" "nat new < g_nfd g" by blast
      from put_ok [OF g(2,4), of c] show ?thesis using at g(1,3) by (auto simp: kdup_def fdtochan_bad [OF ok] Let_def)
    qed
  qed (auto simp: kdup_def fdtochan_bad [OF ok])
qed

section \<open>The contract holds\<close>

definition fd_new :: "bool \<Rightarrow> fgrp \<Rightarrow> nat \<Rightarrow> (fgrp \<times> nat) option" where
  "fd_new mem f c = (case newfd mem f c of Some (Inr r) \<Rightarrow> Some r | _ \<Rightarrow> None)"

definition fd_close :: "fgrp \<Rightarrow> nat \<Rightarrow> fgrp" where
  "fd_close f fd = (case fdclose f fd of None \<Rightarrow> f | Some g \<Rightarrow> g)"

interpretation fd: descriptors fd_ok fdmap "fd_new mem" fd_close for mem
proof (unfold_locales, goal_cases)
  case (1 g c g' i)
  then show ?case using newfd_ok [OF 1(1), of mem c] by (auto simp: fd_new_def)
next
  case (2 g i)
  show ?case
  proof (cases "i < g_nfd g")
    case True
    then show ?thesis using fdclose_ok [OF 2 True] by (auto simp: fd_close_def)
  next
    case False
    then have "fdclose g i = None" "fdmap g = (fdmap g)(i := None)" using 2 by (auto simp: fdclose_def fd_ok_def fdmap_def)
    then show ?thesis using 2 by (simp add: fd_close_def)
  qed
qed

section \<open>Groups that can be reached\<close>

lemma fd_round_gt: "maxfd < fd_round maxfd"
proof (cases "maxfd \<ge> DELTAFD")
  case True
  have "maxfd div DELTAFD * DELTAFD + maxfd mod DELTAFD = maxfd" by simp
  moreover have "maxfd mod DELTAFD < DELTAFD" by simp
  moreover have "(maxfd + 1 + DELTAFD - 1) div DELTAFD = maxfd div DELTAFD + 1" by simp
  ultimately show ?thesis using True by (simp add: fd_round_def)
qed (simp add: fd_round_def)

lemma fd_round_le: "maxfd < MAXNFD \<Longrightarrow> fd_round maxfd \<le> MAXNFD"
proof -
  assume "maxfd < MAXNFD"
  then have "(maxfd + 1 + DELTAFD - 1) div DELTAFD \<le> 200" by simp
  then show ?thesis by (auto simp: fd_round_def)
qed

lemma dup_loop_ok: "\<lbrakk> i + k \<le> length old; i + k \<le> length new; \<forall>j. i \<le> j \<and> j < length new \<longrightarrow> new ! j = None \<rbrakk> \<Longrightarrow>
    \<exists>fd. dup_loop i k old new = Some fd \<and> length fd = length new \<and>
      (\<forall>j < length new. fd ! j = (if i \<le> j \<and> j < i + k then old ! j else new ! j))"
proof (induction i k old new rule: dup_loop.induct)
  case (2 i k old new)
  show ?case
  proof (cases "old ! i")
    case None
    with 2 show ?thesis by (auto simp: le_Suc_eq Suc_le_eq nat_less_le)
  next
    case (Some c)
    have "\<forall>j. i + 1 \<le> j \<and> j < length (new[i := Some c]) \<longrightarrow> new[i := Some c] ! j = None" using 2 by simp
    with 2 Some show ?thesis by (auto simp: nth_list_update not_less_eq_eq dest: le_antisym)
  qed
qed auto

text \<open>Duplicating a descriptor group whose array holds the descriptors up to \<open>maxfd\<close> stays within both
  arrays, and the new group has room beyond \<open>maxfd\<close>, the same descriptors up to it and none above it.\<close>

lemma dupfgrp_copies:
  assumes "g_maxfd f < length (g_fd f)"
  shows "\<exists>g. dupfgrp f = Some g \<and> g_nfd g = length (g_fd g) \<and> g_nfd g = fd_round (g_maxfd f) \<and> g_maxfd g = g_maxfd f \<and> g_minfd g = g_minfd f \<and>
    g_maxfd f < g_nfd g \<and> g_nfd g mod DELTAFD = 0 \<and>
    (\<forall>i < g_nfd g. g_fd g ! i = (if i \<le> g_maxfd f then g_fd f ! i else None))"
proof -
  let ?n = "fd_round (g_maxfd f)"
  obtain fd where "dup_loop 0 (g_maxfd f + 1) (g_fd f) (replicate ?n None) = Some fd" "length fd = ?n"
    "\<forall>j < ?n. fd ! j = (if j \<le> g_maxfd f then g_fd f ! j else None)"
    using dup_loop_ok [of 0 "g_maxfd f + 1" "g_fd f" "replicate ?n None"] assms fd_round_gt [of "g_maxfd f"]
    by (auto simp: less_Suc_eq_le)
  moreover have "?n mod DELTAFD = 0" by (simp add: fd_round_def)
  ultimately show ?thesis using fd_round_gt [of "g_maxfd f"] by (auto simp: dupfgrp_def)
qed

lemma dupfgrp_ok:
  assumes ok: "fd_ok f"
  shows "\<exists>g. dupfgrp f = Some g \<and> fd_ok g \<and> fdmap g = fdmap f"
proof -
  have f: "g_maxfd f < length (g_fd f)" "g_maxfd f < MAXNFD" "length (g_fd f) = g_nfd f" "\<And>i. g_maxfd f < i \<Longrightarrow> fdmap f i = None" using ok by (auto simp: fd_ok_def)
  obtain g where g: "dupfgrp f = Some g" "g_nfd g = length (g_fd g)" "g_nfd g = fd_round (g_maxfd f)" "g_maxfd g = g_maxfd f" "g_minfd g = g_minfd f"
    "\<forall>i < g_nfd g. g_fd g ! i = (if i \<le> g_maxfd f then g_fd f ! i else None)"
    using dupfgrp_copies [OF f(1)] by blast
  have m: "fdmap g = fdmap f"
  proof
    fix j show "fdmap g j = fdmap f j"
      using g f fd_round_gt [of "g_maxfd f"] by (cases "j \<le> g_maxfd f") (auto simp: fdmap_def)
  qed
  have "fd_ok g" unfolding fd_ok_def m using ok g fd_round_gt [of "g_maxfd f"] fd_round_le [OF f(2)] by (auto simp: fd_ok_def)
  then show ?thesis using g(1) m by simp
qed

lemma newfgrp_ok: "(\<And>g. old = Some g \<Longrightarrow> fd_ok g) \<Longrightarrow> fd_ok (newfgrp old) \<and> fdmap (newfgrp old) = Map.empty"
  using fd_round_gt fd_round_le by (cases old) (auto simp: newfgrp_def fd_ok_def fdmap_def fun_eq_iff Let_def)

text \<open>
  The groups that system calls lead to. The close has its own step, for any descriptor within the array: other
  processes of the group may have run since it was checked.
\<close>

inductive fd_reach :: "fgrp \<Rightarrow> bool" where
  fd_first: "fd_reach (newfgrp None)"
| fd_newgrp: "fd_reach f \<Longrightarrow> fd_reach (newfgrp (Some f))"
| fd_dupgrp: "\<lbrakk> fd_reach f; dupfgrp f = Some g \<rbrakk> \<Longrightarrow> fd_reach g"
| fd_open: "\<lbrakk> fd_reach f; newfd mem f c = Some (Inr (g, i)) \<rbrakk> \<Longrightarrow> fd_reach g"
| fd_dup: "\<lbrakk> fd_reach f; kdup mem cs f old new = Some (Inr (g, i)) \<rbrakk> \<Longrightarrow> fd_reach g"
| fd_shut: "\<lbrakk> fd_reach f; fd < g_nfd f; fdclose f fd = Some g \<rbrakk> \<Longrightarrow> fd_reach g"

lemma fd_reach_ok: "fd_reach f \<Longrightarrow> fd_ok f"
proof (induction rule: fd_reach.induct)
  case (fd_open f mem c g i)
  then show ?case using newfd_ok [of f mem c] by auto
next
  case (fd_dup f mem cs old new g i)
  then show ?case using kdup_ok [of f mem cs old new] by auto
next
  case (fd_shut f fd g)
  then show ?case using fdclose_ok [of f fd] by auto
next
  case (fd_dupgrp f g)
  then show ?case using dupfgrp_ok [of f] by auto
qed (use newfgrp_ok in \<open>auto\<close>)

section \<open>Properties\<close>

text \<open>C18 (invariant). In every descriptor group that system calls lead to, the array has its recorded length, at most
  4000, descriptors are in use only up to \<open>maxfd\<close> and everywhere below \<open>minfd\<close>; so opening, duplicating, checking and
  closing descriptors and copying the group stay within the arrays, and the copy has the same descriptors.\<close>

theorem fgrp_invariant:
  assumes "fd_reach f"
  shows "fd_ok f \<and> newfd mem f c \<noteq> None \<and> kdup mem cs f old new \<noteq> None \<and> fdtochan cs f fd mode ck \<noteq> None \<and>
    kfgrpclose cs f fd \<noteq> None \<and> (\<exists>g. dupfgrp f = Some g \<and> fdmap g = fdmap f)"
proof -
  note ok = fd_reach_ok [OF assms]
  show ?thesis using ok newfd_ok [OF ok, of mem c] kdup_ok [OF ok, of mem cs old new] fdtochan_total [OF ok, of cs fd mode ck]
      kfgrpclose_ok [OF ok, of fd cs] dupfgrp_ok [OF ok] by (auto split: if_splits)
qed

theorem fgrp_invariant_witness: "fd_ok (newfgrp None) \<and> newfd True (newfgrp None) 7 \<noteq> None"
  using fgrp_invariant [OF fd_first, of True 7] by blast

text \<open>C19 (refinement). Opening a channel gives the lowest descriptor not in use, below 4000, and changes nothing else; it
  fails only when the whole array is in use and cannot grow, because it has 4000 entries or there is no memory.\<close>

theorem newfd_lowest:
  assumes "fd_ok f"
  shows "case newfd mem f c of None \<Rightarrow> False
    | Some (Inl e) \<Rightarrow> e = Exhausted \<and> (\<forall>i < g_nfd f. fdmap f i \<noteq> None) \<and> (mem \<longrightarrow> g_nfd f = MAXNFD)
    | Some (Inr (g, i)) \<Rightarrow> i < MAXNFD \<and> fdmap f i = None \<and> (\<forall>j < i. fdmap f j \<noteq> None) \<and> fd_ok g \<and> fdmap g = (fdmap f)(i \<mapsto> c)"
  using newfd_ok [OF assms, of mem c] by auto

theorem newfd_lowest_witness:
  "\<exists>g. newfd True (newfgrp None) 7 = Some (Inr (g, 0)) \<and> fdmap g = [0 \<mapsto> 7]"
proof -
  have ok: "fd_ok (newfgrp None)" "fdmap (newfgrp None) = Map.empty" using newfgrp_ok [of None] by simp_all
  have "g_nfd (newfgrp None) \<noteq> MAXNFD" by (simp add: newfgrp_def)
  then show ?thesis using newfd_lowest [OF ok(1), of True 7] ok(2) by (auto split: option.splits sum.splits)
qed

text \<open>C20 (functional). Duplicating makes the new descriptor, the one named or else the lowest not in use, refer to the
  channel of the old one, and closing frees one descriptor; nothing else changes. Duplicating fails only for descriptors
  that are not in use, authentication files, and targets the array does not reach and cannot grow to; closing fails
  exactly for descriptors that are not in use. A descriptor that was closed is the
  next one opened unless a lower one is free.\<close>

theorem dup_close:
  assumes "fd_ok f"
  shows "(\<exists>r. kdup mem cs f old new = Some r \<and> (case r of
      Inl e \<Rightarrow> e = Ebadfd \<and> (old < 0 \<or> fdmap f (nat old) = None \<or> new < -1 \<or> g_nfd f \<le> nat new \<and> (mem \<longrightarrow> g_nfd f + DELTAFD \<le> nat new \<or> MAXNFD \<le> nat new))
        \<or> e = Eperm \<and> (\<exists>c. fdmap f (nat old) = Some c \<and> ci_qtype (cs c) AND QTAUTH \<noteq> 0)
        \<or> e = Exhausted \<and> new = -1 \<and> (\<forall>i < g_nfd f. fdmap f i \<noteq> None) \<and> (mem \<longrightarrow> g_nfd f = MAXNFD)
    | Inr (g, n) \<Rightarrow> fd_ok g \<and> (new \<noteq> -1 \<longrightarrow> n = nat new) \<and> (new = -1 \<longrightarrow> fdmap f n = None \<and> (\<forall>j < n. fdmap f j \<noteq> None)) \<and>
        (\<exists>c. fdmap f (nat old) = Some c \<and> fdmap g = (fdmap f)(n \<mapsto> c)))) \<and>
   (if fd < 0 \<or> fdmap f (nat fd) = None then kfgrpclose cs f fd = Some (Inl Ebadfd)
    else \<exists>g. kfgrpclose cs f fd = Some (Inr g) \<and> fd_ok g \<and> fdmap g = (fdmap f)(nat fd := None)) \<and>
   (\<forall>g k. fd_new mem (fd_close f i) c = Some (g, k) \<longrightarrow> k \<le> i)"
  using kdup_ok [OF assms] kfgrpclose_ok [OF assms] fd.reuse [OF assms] by blast

theorem dup_close_witness:
  "\<exists>g. kdup True (\<lambda>_. \<lparr>ci_mode = 0, ci_flag = 0, ci_qtype = 0\<rparr>) \<lparr>g_fd = [Some 7, None], g_nfd = 2, g_maxfd = 0, g_minfd = 1\<rparr> 0 (-1) = Some (Inr (g, 1)) \<and>
     fdmap g = [0 \<mapsto> 7, 1 \<mapsto> 7]"
proof -
  let ?f = "\<lparr>g_fd = [Some 7, None], g_nfd = 2, g_maxfd = 0, g_minfd = 1\<rparr>" and ?cs = "\<lambda>_. \<lparr>ci_mode = 0, ci_flag = 0, ci_qtype = 0\<rparr>"
  have m: "fdmap ?f = [0 \<mapsto> 7]" by (auto simp: fdmap_def fun_eq_iff less_Suc_eq numeral_2_eq_2)
  have "fd_ok ?f" unfolding fd_ok_def m by simp
  from dup_close [OF this, of True ?cs 0 "-1" 0 0 0, THEN conjunct1]
  obtain g n where g: "kdup True ?cs ?f 0 (-1) = Some (Inr (g, n))" "fdmap ?f n = None" "\<forall>j < n. fdmap ?f j \<noteq> None" "fdmap g = (fdmap ?f)(n \<mapsto> 7)"
    unfolding m by (elim exE, rename_tac r, case_tac r) auto
  have "n = 1" using g(2,3) unfolding m by (metis fun_upd_apply less_one linorder_neqE_nat option.distinct(1) zero_neq_one)
  then show ?thesis using g unfolding m by blast
qed

end
