(* ===== verification/Rune.thy ===== *)
theory Rune
  imports Prelude
begin

unbundle bit_operations_syntax

text \<open>
  UTF-8 (\<open>libs/lib9/rune.c\<close>, \<open>utflen.c\<close>, \<open>utfnlen.c\<close>, \<open>utfrune.c\<close>, \<open>utfrrune.c\<close>). A string is the object that
  holds it with an offset; every byte is read with \<open>rd\<close>. A \<open>Rune\<close> is an unsigned 32-bit word, and the ints
  of the decoder, which hold bytes, are kept as such words too. The constants are computed as the macros do.
\<close>

section \<open>Constants\<close>

abbreviation UTFmax :: nat where "UTFmax \<equiv> 4"
abbreviation Runeself :: byte where "Runeself \<equiv> 0x80"
abbreviation Runeerror :: u32 where "Runeerror \<equiv> 0xFFFD"
abbreviation Runemax :: u32 where "Runemax \<equiv> 0x10FFFF"
abbreviation SurrogateMin :: u32 where "SurrogateMin \<equiv> 0xD800"
abbreviation SurrogateMax :: u32 where "SurrogateMax \<equiv> 0xDFFF"

definition Bit :: "nat \<Rightarrow> nat" where
  "Bit i = 7 - i"

definition Bitx :: nat where
  "Bitx = Bit 1"

definition Tn :: "nat \<Rightarrow> u32" where
  "Tn i = (push_bit (Bit i + 1) 1 - 1) XOR 0xFF"

definition RuneX :: "nat \<Rightarrow> u32" where
  "RuneX i = push_bit (Bit i + (i - 1) * Bitx) 1 - 1"

definition Tx :: u32 where
  "Tx = Tn 1"

definition Rune1 :: u32 where
  "Rune1 = push_bit (Bit 0 + 0 * Bitx) 1 - 1"

definition Maskx :: u32 where
  "Maskx = push_bit Bitx 1 - 1"

definition Testx :: u32 where
  "Testx = Maskx XOR 0xFF"

section \<open>One rune\<close>

text \<open>The loop of \<open>chartorune\<close> from index \<open>i\<close>, with the first byte \<open>c0\<close> and the bits \<open>l\<close> so far.\<close>

function rune_loop :: "byte list \<Rightarrow> nat \<Rightarrow> u32 \<Rightarrow> u32 \<Rightarrow> nat \<Rightarrow> (u32 \<times> nat) option" where
  "rune_loop s p c0 l i =
     (if i < UTFmax then do {
        b \<leftarrow> rd s (p + i);
        let c = ucast b XOR Tx;
        if c AND Testx \<noteq> 0 then Some (Runeerror, 1)
        else do {
          let l = push_bit Bitx l OR c;
          if c0 < Tn (i + 2) then do {
            let l = l AND RuneX (i + 1);
            if i = 1 \<and> (c0 < Tn 2 \<or> l \<le> Rune1) then Some (Runeerror, 1)
            else if i \<noteq> 1 \<and> (l \<le> RuneX i \<or> l > Runemax) then Some (Runeerror, 1)
            else if i = 2 \<and> SurrogateMin \<le> l \<and> l \<le> SurrogateMax then Some (Runeerror, 1)
            else Some (l, i + 1)
          } else rune_loop s p c0 l (i + 1) } }
      else Some (Runeerror, 1))"
  by pat_completeness auto
termination by (relation "measure (\<lambda>(s, p, c0, l, i). UTFmax - i)") auto

declare rune_loop.simps [simp del]

definition chartorune :: "byte list \<Rightarrow> nat \<Rightarrow> (u32 \<times> nat) option" where
  "chartorune s p = do {
     b \<leftarrow> rd s p;
     if ucast b < Tx then Some (ucast b, 1) else rune_loop s p (ucast b) (ucast b) 1 }"

text \<open>Byte \<open>j\<close> of the encoding of \<open>c\<close> in \<open>i\<close> bytes, as stored into a \<open>char\<close>.\<close>

definition rune_byte :: "u32 \<Rightarrow> nat \<Rightarrow> nat \<Rightarrow> byte" where
  "rune_byte c i j = ucast (if j = 0 then Tn i OR drop_bit ((i - 1) * Bitx) c
     else Tx OR (drop_bit ((i - j - 1) * Bitx) c AND Maskx))"

function rune_put :: "byte list \<Rightarrow> nat \<Rightarrow> u32 \<Rightarrow> nat \<Rightarrow> (byte list \<times> nat) option" where
  "rune_put str p c i =
     (if i < UTFmax + 1 then do {
        let c = (if i = 3 \<and> c > Runemax then Runeerror else c);
        let c = (if i = 3 \<and> SurrogateMin \<le> c \<and> c \<le> SurrogateMax then Runeerror else c);
        if c \<le> RuneX i \<or> i = UTFmax then do {
          str \<leftarrow> wrn str p (map (rune_byte c i) [0 ..< i]);
          Some (str, i)
        } else rune_put str p c (i + 1) }
      else Some (str, UTFmax))"
  by pat_completeness auto
termination by (relation "measure (\<lambda>(str, p, c, i). UTFmax + 1 - i)") auto

declare rune_put.simps [simp del]

definition runetochar :: "byte list \<Rightarrow> nat \<Rightarrow> u32 \<Rightarrow> (byte list \<times> nat) option" where
  "runetochar str p c = (if c \<le> Rune1 then do { str \<leftarrow> wrn str p [ucast c]; Some (str, 1) } else rune_put str p c 2)"

text \<open>\<open>runelen\<close> converts its \<open>long\<close> to a rune and encodes it into ten bytes of its own.\<close>

definition runelen :: "u64 \<Rightarrow> nat option" where
  "runelen c = map_option snd (runetochar (replicate 10 0) 0 (ucast c))"

fun rune_size :: "u32 \<Rightarrow> nat list \<Rightarrow> nat" where
  "rune_size c [] = 0"
| "rune_size c (i # is) = (if c \<le> RuneX i \<or> i = UTFmax then i else rune_size c is)"

fun runenlen :: "u32 list \<Rightarrow> nat" where
  "runenlen [] = 0"
| "runenlen (c # r) = (if c \<le> Rune1 then 1 else rune_size c [2, 3, 4]) + runenlen r"

text \<open>\<open>fullrune\<close>; \<open>n\<close> is the number of bytes there are, an int that may be negative.\<close>

definition fullrune :: "byte list \<Rightarrow> nat \<Rightarrow> int \<Rightarrow> bool option" where
  "fullrune s p n = (if n \<le> 0 then Some False else do {
     b \<leftarrow> rd s p;
     if ucast b < Tx then Some True
     else if ucast b < Tn 3 then Some (n \<ge> 2)
     else if ucast b < Tn 4 then Some (n \<ge> 3)
     else Some (n \<ge> int UTFmax) })"

lemma rune_loop_pos: "rune_loop s p c0 l i = Some (r, n) \<Longrightarrow> 0 < n \<and> n \<le> UTFmax"
proof (induction s p c0 l i rule: rune_loop.induct)
  case (1 s p c0 l i)
  show ?case
    using 1 by (subst (asm) (2) rune_loop.simps) (auto simp: Let_def split: if_splits Option.bind_splits)
qed

lemma chartorune_pos: "chartorune s p = Some (r, n) \<Longrightarrow> 0 < n \<and> n \<le> UTFmax"
  by (auto simp: chartorune_def split: if_splits Option.bind_splits dest: rune_loop_pos)

section \<open>Strings\<close>

function utflen_loop :: "byte list \<Rightarrow> nat \<Rightarrow> nat \<Rightarrow> nat option" where
  "utflen_loop s p n = (case rd s p of None \<Rightarrow> None
     | Some c \<Rightarrow> if c < Runeself then (if c = 0 then Some n else utflen_loop s (p + 1) (n + 1))
        else (case chartorune s p of None \<Rightarrow> None | Some (r, k) \<Rightarrow> utflen_loop s (p + k) (n + 1)))"
  by pat_completeness auto
termination
  by (relation "measure (\<lambda>(s, p, n). length s - p)") (auto simp: rd_def split: if_splits dest!: chartorune_pos)

declare utflen_loop.simps [simp del]

definition utflen :: "byte list \<Rightarrow> nat \<Rightarrow> nat option" where
  "utflen s p = utflen_loop s p 0"

function utfnlen_loop :: "byte list \<Rightarrow> nat \<Rightarrow> nat \<Rightarrow> nat \<Rightarrow> nat option" where
  "utfnlen_loop s es p n = (if p < es then
     (case rd s p of None \<Rightarrow> None
      | Some c \<Rightarrow> if c < Runeself then (if c = 0 then Some n else utfnlen_loop s es (p + 1) (n + 1))
         else (case fullrune s p (int es - int p) of None \<Rightarrow> None
           | Some full \<Rightarrow> if \<not> full then Some n
              else (case chartorune s p of None \<Rightarrow> None | Some (r, k) \<Rightarrow> utfnlen_loop s es (p + k) (n + 1))))
     else Some n)"
  by pat_completeness auto
termination
  by (relation "measure (\<lambda>(s, es, p, n). es - p)") (auto dest!: chartorune_pos)

declare utfnlen_loop.simps [simp del]

definition utfnlen :: "byte list \<Rightarrow> nat \<Rightarrow> nat \<Rightarrow> nat option" where
  "utfnlen s p m = utfnlen_loop s (p + m) p 0"

text \<open>
  \<open>utfrune\<close> and \<open>utfrrune\<close>: a rune below \<open>Runesync\<close> is looked for with \<open>strchr\<close>, \<open>strrchr\<close> (which find the
  terminator too); the inner option is the nil pointer.
\<close>

function strchr_loop :: "byte list \<Rightarrow> nat \<Rightarrow> byte \<Rightarrow> nat option option" where
  "strchr_loop s p c = (case rd s p of None \<Rightarrow> None
     | Some b \<Rightarrow> if b = c then Some (Some p) else if b = 0 then Some None else strchr_loop s (p + 1) c)"
  by pat_completeness auto
termination by (relation "measure (\<lambda>(s, p, c). length s - p)") (auto simp: rd_def split: if_splits)

declare strchr_loop.simps [simp del]

function utfrune_loop :: "byte list \<Rightarrow> nat \<Rightarrow> u32 \<Rightarrow> nat option option" where
  "utfrune_loop s p c = (case rd s p of None \<Rightarrow> None
     | Some b \<Rightarrow> if b < Runeself then
           (if b = 0 then Some None else if ucast b = c then Some (Some p) else utfrune_loop s (p + 1) c)
        else (case chartorune s p of None \<Rightarrow> None
           | Some (r, n) \<Rightarrow> if r = c then Some (Some p) else utfrune_loop s (p + n) c))"
  by pat_completeness auto
termination
  by (relation "measure (\<lambda>(s, p, c). length s - p)") (auto simp: rd_def split: if_splits dest!: chartorune_pos)

declare utfrune_loop.simps [simp del]

definition utfrune :: "byte list \<Rightarrow> nat \<Rightarrow> u32 \<Rightarrow> nat option option" where
  "utfrune s p c = (if c < 0x80 then strchr_loop s p (ucast c) else utfrune_loop s p c)"

function strrchr_loop :: "byte list \<Rightarrow> nat \<Rightarrow> byte \<Rightarrow> nat option \<Rightarrow> nat option option" where
  "strrchr_loop s p c s1 = (case rd s p of None \<Rightarrow> None
     | Some b \<Rightarrow> (let s1 = (if b = c then Some p else s1) in if b = 0 then Some s1 else strrchr_loop s (p + 1) c s1))"
  by pat_completeness auto
termination by (relation "measure (\<lambda>(s, p, c, s1). length s - p)") (auto simp: rd_def split: if_splits)

declare strrchr_loop.simps [simp del]

function utfrrune_loop :: "byte list \<Rightarrow> nat \<Rightarrow> u32 \<Rightarrow> nat option \<Rightarrow> nat option option" where
  "utfrrune_loop s p c s1 = (case rd s p of None \<Rightarrow> None
     | Some b \<Rightarrow> if b < Runeself then
           (if b = 0 then Some s1 else utfrrune_loop s (p + 1) c (if ucast b = c then Some p else s1))
        else (case chartorune s p of None \<Rightarrow> None
           | Some (r, n) \<Rightarrow> utfrrune_loop s (p + n) c (if r = c then Some p else s1)))"
  by pat_completeness auto
termination
  by (relation "measure (\<lambda>(s, p, c, s1). length s - p)") (auto simp: rd_def split: if_splits dest!: chartorune_pos)

declare utfrrune_loop.simps [simp del]

definition utfrrune :: "byte list \<Rightarrow> nat \<Rightarrow> u32 \<Rightarrow> nat option option" where
  "utfrrune s p c = (if c < 0x80 then strrchr_loop s p (ucast c) None else utfrrune_loop s p c None)"

text \<open>
  \<open>utfecpy(to, e, from)\<close> into the object \<open>d\<close>: \<open>memccpy\<close> up to the terminator or the end \<open>e\<close>; when the terminator was
  not reached, the end is moved back to the last byte that starts a rune, where the string is cut.
\<close>

fun memccpy0 :: "byte list \<Rightarrow> nat \<Rightarrow> byte list \<Rightarrow> nat \<Rightarrow> nat \<Rightarrow> (byte list \<times> nat option) option" where
  "memccpy0 d to s from 0 = Some (d, None)"
| "memccpy0 d to s from (Suc k) = do {
     b \<leftarrow> rd s from;
     d \<leftarrow> wrn d to [b];
     if b = 0 then Some (d, Some (to + 1)) else memccpy0 d (to + 1) s (from + 1) k }"

fun back_up :: "byte list \<Rightarrow> nat \<Rightarrow> nat \<Rightarrow> nat option" where
  "back_up d to 0 = Some 0"
| "back_up d to (Suc end) = (if Suc end > to then do {
     b \<leftarrow> rd d end;
     if b AND 0xC0 = 0x80 then back_up d to end else Some end } else Some (Suc end))"

definition utfecpy :: "byte list \<Rightarrow> nat \<Rightarrow> nat \<Rightarrow> byte list \<Rightarrow> nat \<Rightarrow> (byte list \<times> nat) option" where
  "utfecpy d to e s from = (if to \<ge> e then Some (d, to) else do {
     (d, end) \<leftarrow> memccpy0 d to s from (e - to);
     case end of Some end \<Rightarrow> Some (d, end - 1)
     | None \<Rightarrow> do {
         end \<leftarrow> back_up d to e;
         d \<leftarrow> wrn d end [0];
         Some (d, end) } })"

end
