(* ===== verification/RuneCode.thy ===== *)
theory RuneCode
  imports Rune
begin

unbundle bit_operations_syntax

text \<open>
  The encoder and the decoder of \<open>rune.c\<close> as arithmetic on code points: the bytes \<open>runetochar\<close> writes, and what
  \<open>chartorune\<close> makes of each byte pattern, in both directions.
\<close>

section \<open>Arithmetic of the encoding\<close>

text \<open>The constants are the bit patterns of UTF-8.\<close>

lemma rune_consts:
  "Bitx = 6" "Tx = 0x80" "Rune1 = 0x7F" "Maskx = 0x3F" "Testx = 0xC0"
  "Tn 2 = 0xC0" "Tn 3 = 0xE0" "Tn 4 = 0xF0" "Tn 5 = 0xF8"
  "RuneX 2 = 0x7FF" "RuneX 3 = 0xFFFF" "RuneX 4 = 0x1FFFFF"
  by (simp_all add: Bitx_def Bit_def Tx_def Tn_def Rune1_def Maskx_def Testx_def RuneX_def push_bit_eq_mult)

lemma cont_all: "list_all (\<lambda>b. ((b XOR 128) AND 192 = 0) = (128 \<le> b \<and> b < 192) \<and> (128 \<le> b \<and> b < 192 \<longrightarrow> b XOR 128 = b - 128)) [0..(255::int)]"
  by code_simp

lemma cont_byte: "\<lbrakk> 0 \<le> b; b < 256 \<rbrakk> \<Longrightarrow> ((b XOR 128) AND 192 = 0) = (128 \<le> b \<and> b < (192 :: int))"
    "\<lbrakk> 128 \<le> b; b < 192 \<rbrakk> \<Longrightarrow> b XOR 128 = b - (128 :: int)"
  using cont_all by (auto simp: list_all_iff)

lemma or_high: "\<lbrakk> 0 \<le> x; x < 2 ^ k; 2 ^ k dvd a \<rbrakk> \<Longrightarrow> a OR x = a + (x :: int)"
proof -
  assume x: "0 \<le> x" "x < 2 ^ k" and "2 ^ k dvd a"
  then obtain q where q: "a = push_bit k q" by (auto simp: push_bit_eq_mult mult.commute)
  have "take_bit k x = x" using x by (simp add: take_bit_int_eq_self)
  then have lt: "bit x n \<Longrightarrow> n < k" for n by (metis bit_take_bit_iff)
  have "a + x = a OR x" unfolding q by (intro disjunctive_add) (auto simp: bit_simps dest: lt)
  then show ?thesis by simp
qed

lemma and_masks: "n AND 0x3F = n mod (0x40 :: int)" "n AND 0x7FF = n mod (0x800 :: int)" "n AND 0xFFFF = n mod (0x10000 :: int)" "n AND 0x1FFFFF = n mod (0x200000 :: int)"
  using take_bit_eq_mask [of 6 n] take_bit_eq_mask [of 11 n] take_bit_eq_mask [of 16 n] take_bit_eq_mask [of 21 n] by (simp_all add: mask_eq_exp_minus_1 take_bit_eq_mod)


lemma uint_ucast_byte [simp]: "uint (ucast (b :: byte) :: u32) = uint b"
  using uint_bounded [of b] by (simp add: unsigned_ucast_eq take_bit_int_eq_self)

lemma uint_byte_range: "uint (b :: byte) < 256"
  using uint_bounded [of b] by simp

definition cont :: "byte \<Rightarrow> bool" where
  "cont b \<longleftrightarrow> 128 \<le> uint b \<and> uint b < 192"

lemma cont_test: "(ucast b XOR (0x80 :: u32)) AND 0xC0 = 0 \<longleftrightarrow> cont b"
  using cont_byte(1) [of "uint b"] uint_byte_range [of b]
  by (simp add: cont_def word_uint_eq_iff unsigned_and_eq unsigned_xor_eq)

definition nextl :: "u32 \<Rightarrow> byte \<Rightarrow> u32" where
  "nextl l b = push_bit 6 l OR (ucast b XOR 0x80)"

lemma uint_nextl: "\<lbrakk> cont b; uint l < 2 ^ 24 \<rbrakk> \<Longrightarrow> uint (nextl l b) = 64 * uint l + (uint b - 128)"
proof -
  assume c: "cont b" and l: "uint l < 2 ^ 24"
  have x: "uint (ucast b XOR (0x80 :: u32)) = uint b - 128"
    using c cont_byte(2) by (simp add: unsigned_xor_eq cont_def)
  have p: "uint (push_bit 6 l) = 64 * uint l"
    unfolding unsigned_push_bit_eq using l by (simp add: push_bit_eq_mult take_bit_int_eq_self)
  show ?thesis using c or_high [of "uint b - 128" 6 "64 * uint l"]
    by (simp add: nextl_def unsigned_or_eq x p cont_def)
qed

lemma uint_and_masks:
  "uint ((l :: u32) AND 0x7FF) = uint l mod 0x800" "uint (l AND 0xFFFF) = uint l mod 0x10000" "uint (l AND 0x1FFFFF) = uint l mod 0x200000"
  by (simp_all add: unsigned_and_eq and_masks)

text \<open>The decoder with its loop written out.\<close>

lemma rune_loop_4: "rune_loop s p c0 l 4 = Some (Runeerror, 1)"
  by (subst rune_loop.simps) simp

lemma rune_loop_3: "rune_loop s p c0 l 3 = do { b \<leftarrow> rd s (p + 3); 
     if \<not> cont b then Some (Runeerror, 1)
     else if c0 < 0xF8 then (let l = nextl l b AND 0x1FFFFF in
       if l \<le> 0xFFFF \<or> l > Runemax then Some (Runeerror, 1) else Some (l, 4)) else Some (Runeerror, 1) }"
  by (subst rune_loop.simps) (simp add: rune_consts cont_test nextl_def rune_loop_4 Let_def cong: if_cong)

lemma and_FFFF_le: "\<not> Runemax < (l AND 0xFFFF)"
proof -
  have "uint l mod 0x10000 < 0x10000" by (rule pos_mod_bound) simp
  then show ?thesis by (simp add: word_less_def uint_and_masks)
qed

lemma if_or: "(if A then x else if B then x else y) = (if A \<or> B then x else y)"
  by simp

lemma rune_loop_2: "rune_loop s p c0 l 2 = do { b \<leftarrow> rd s (p + 2);
     if \<not> cont b then Some (Runeerror, 1)
     else if c0 < 0xF0 then (let l = nextl l b AND 0xFFFF in
       if l \<le> 0x7FF \<or> SurrogateMin \<le> l \<and> l \<le> SurrogateMax then Some (Runeerror, 1) else Some (l, 3))
     else rune_loop s p c0 (nextl l b) 3 }"
  by (subst rune_loop.simps) (simp add: rune_consts cont_test nextl_def Let_def and_FFFF_le if_or cong: if_cong)

lemma rune_loop_1: "rune_loop s p c0 l 1 = do { b \<leftarrow> rd s (p + 1);
     if \<not> cont b then Some (Runeerror, 1)
     else if c0 < 0xE0 then (let l = nextl l b AND 0x7FF in
       if c0 < 0xC0 \<or> l \<le> 0x7F then Some (Runeerror, 1) else Some (l, 2))
     else rune_loop s p c0 (nextl l b) 2 }"
  by (subst rune_loop.simps) (simp add: rune_consts cont_test nextl_def Let_def del: One_nat_def cong: if_cong)

lemmas rune_loops = chartorune_def rune_loop_1 rune_loop_2 rune_loop_3 Let_def

section \<open>The encoder\<close>

definition valid_rune :: "u32 \<Rightarrow> bool" where
  "valid_rune r \<longleftrightarrow> r \<le> Runemax \<and> \<not> (SurrogateMin \<le> r \<and> r \<le> SurrogateMax)"

definition utf8 :: "u32 \<Rightarrow> byte list" where
  "utf8 r = (if r \<le> 0x7F then [ucast r] else let n = (if r \<le> 0x7FF then 2 else if r \<le> 0xFFFF then 3 else 4) in
     map (rune_byte r n) [0 ..< n])"

definition fix_rune :: "u32 \<Rightarrow> u32" where
  "fix_rune r = (if valid_rune r then r else Runeerror)"

lemma rune_put_2: "rune_put str p c 2 = (if c \<le> 0x7FF
    then map_option (\<lambda>str. (str, 2)) (wrn str p (map (rune_byte c 2) [0 ..< 2])) else rune_put str p c 3)"
  by (subst rune_put.simps) (simp add: rune_consts map_conv_bind_option comp_def)

lemma rune_put_4: "rune_put str p c 4 = map_option (\<lambda>str. (str, 4)) (wrn str p (map (rune_byte c 4) [0 ..< 4]))"
  by (subst rune_put.simps) (simp add: map_conv_bind_option comp_def)

lemma fix_rune_steps: "(let c = (if c > Runemax then Runeerror else c) in
    if SurrogateMin \<le> c \<and> c \<le> SurrogateMax then Runeerror else c) = fix_rune c"
  by (auto simp: fix_rune_def valid_rune_def Let_def not_less)

lemma rune_put_3: "rune_put str p c 3 = (if fix_rune c \<le> 0xFFFF
    then map_option (\<lambda>str. (str, 3)) (wrn str p (map (rune_byte (fix_rune c) 3) [0 ..< 3])) else rune_put str p (fix_rune c) 4)"
  by (subst rune_put.simps) (simp add: rune_consts map_conv_bind_option comp_def fix_rune_steps [symmetric] Let_def)

lemma runetochar_utf8: "runetochar str p c = map_option (\<lambda>str. (str, length (utf8 (fix_rune c)))) (wrn str p (utf8 (fix_rune c)))"
proof (cases "c \<le> 0x7FF")
  case True
  then have "valid_rune c" by (auto simp: valid_rune_def word_le_def)
  with True show ?thesis
    by (auto simp: runetochar_def rune_put_2 rune_consts fix_rune_def utf8_def Let_def map_conv_bind_option comp_def)
next
  case False
  then have "\<not> c \<le> 0x7F" "\<not> fix_rune c \<le> 0x7FF" "\<not> fix_rune c \<le> 0x7F" by (auto simp: fix_rune_def word_le_def)
  with False show ?thesis
    by (simp add: runetochar_def rune_put_2 rune_put_3 rune_put_4 rune_consts utf8_def Let_def)
qed

lemma uint_ucast_down: "uint w < 256 \<Longrightarrow> uint (ucast (w :: u32) :: byte) = uint w"
  by (simp add: unsigned_ucast_eq take_bit_int_eq_self)

lemma uint_or_ucast: "\<lbrakk> 2 ^ k dvd a; 0 \<le> a; a + 2 ^ k \<le> 256; uint w < 2 ^ k \<rbrakk> \<Longrightarrow>
    uint (ucast (word_of_int a OR (w :: u32)) :: byte) = a + uint w"
proof -
  assume a: "2 ^ k dvd a" "0 \<le> a" "a + 2 ^ k \<le> 256" and w: "uint w < 2 ^ k"
  have "a < 256" using a(3) zero_less_power [of "2 :: int" k] by linarith
  then have "uint (word_of_int a :: u32) = a" using a(2) by (simp add: take_bit_int_eq_self uint_word_of_int)
  then have "uint (word_of_int a OR w) = a + uint w" using or_high [OF _ w a(1)] by (simp add: unsigned_or_eq)
  then show ?thesis using a(3) w by (simp add: uint_ucast_down)
qed

lemma uint_drop: "uint (drop_bit n (c :: u32)) = uint c div 2 ^ n"
  unfolding unsigned_drop_bit_eq using uint_bounded [of c] by (simp add: take_bit_int_eq_self drop_bit_eq_div)

lemma rune_byte_tail: "0 < j \<Longrightarrow> uint (rune_byte c i j) = 128 + uint c div 2 ^ ((i - j - 1) * 6) mod 64"
proof -
  have "uint (drop_bit ((i - j - 1) * 6) c AND 0x3F) = uint c div 2 ^ ((i - j - 1) * 6) mod 64"
    by (simp add: unsigned_and_eq and_masks uint_drop)
  then show "0 < j \<Longrightarrow> ?thesis"
    using uint_or_ucast [of 6 128 "drop_bit ((i - j - 1) * 6) c AND 0x3F"] by (simp add: rune_byte_def rune_consts)
qed

lemma rune_byte_head:
  "uint c < 0x800 \<Longrightarrow> uint (rune_byte c 2 0) = 192 + uint c div 64"
  "uint c < 0x10000 \<Longrightarrow> uint (rune_byte c 3 0) = 224 + uint c div 4096"
  "uint c < 0x200000 \<Longrightarrow> uint (rune_byte c 4 0) = 240 + uint c div 262144"
  using uint_or_ucast [of 5 192 "drop_bit 6 c"] uint_or_ucast [of 4 224 "drop_bit 12 c"] uint_or_ucast [of 3 240 "drop_bit 18 c"]
  by (simp_all add: rune_byte_def rune_consts uint_drop)

text \<open>The bytes of each length as numbers.\<close>

lemma div_64: "u div 4096 = u div 64 div (64 :: int)" "u div 262144 = u div 64 div 64 div (64 :: int)"
  using zdiv_zmult2_eq [of 64 u 64] zdiv_zmult2_eq [of 4096 u 64] zdiv_zmult2_eq [of 64 "u div 64" 64] by simp_all

lemma utf8_bytes:
  "uint r < 0x80 \<Longrightarrow> map uint (utf8 r) = [uint r]"
  "\<lbrakk> 0x80 \<le> uint r; uint r < 0x800 \<rbrakk> \<Longrightarrow> map uint (utf8 r) = [192 + uint r div 64, 128 + uint r mod 64]"
  "\<lbrakk> 0x800 \<le> uint r; uint r < 0x10000 \<rbrakk> \<Longrightarrow> map uint (utf8 r) = [224 + uint r div 64 div 64, 128 + uint r div 64 mod 64, 128 + uint r mod 64]"
  "\<lbrakk> 0x10000 \<le> uint r; uint r < 0x200000 \<rbrakk> \<Longrightarrow> map uint (utf8 r) =
     [240 + uint r div 64 div 64 div 64, 128 + uint r div 64 div 64 mod 64, 128 + uint r div 64 mod 64, 128 + uint r mod 64]"
  unfolding div_64 [symmetric]
  by (simp_all add: utf8_def word_le_def upt_rec [of 0] upt_rec [of "Suc _"] upt_rec [of 2] upt_rec [of 3] rune_byte_head rune_byte_tail uint_ucast_down del: upt_Suc)

section \<open>The decoder\<close>

lemma chartorune_1: "\<lbrakk> rd s p = Some b0; uint b0 < 128 \<rbrakk> \<Longrightarrow> chartorune s p = Some (ucast b0, 1)"
  by (simp add: chartorune_def rune_consts word_less_def)

lemma word_of_int_mod: "0 \<le> l \<Longrightarrow> l < 2 ^ 32 \<Longrightarrow> (w = (word_of_int l :: u32)) = (uint w = l)"
  by (auto simp: word_uint_eq_iff uint_word_of_int take_bit_int_eq_self)

lemma cont_plus: "\<lbrakk> uint b = 128 + x; 0 \<le> x; x < 64 \<rbrakk> \<Longrightarrow> cont b"
  by (simp add: cont_def)

lemma mod_drop: "\<lbrakk> 0 \<le> l; l < m; m dvd k \<rbrakk> \<Longrightarrow> (k + l) mod m = (l :: int)"
  by (simp add: mod_add_eq [symmetric, of k] dvd_imp_mod_0)

lemma chartorune_2:
  assumes r: "rd s p = Some b0" "rd s (p + 1) = Some b1"
    and b: "uint b0 = 192 + a" "0 \<le> a" "a < 32" "uint b1 = 128 + x" "0 \<le> x" "x < 64" and l: "l = 64 * a + x"
  shows "chartorune s p = Some (if l < 0x80 then (Runeerror, 1) else (word_of_int l, 2))"
proof -
  define w where "w = nextl (ucast b0) b1 AND 0x7FF"
  have c: "cont b1" using b by (simp add: cont_plus)
  have "0 \<le> l" "l < 0x800" using b l by auto
  moreover have "uint (nextl (ucast b0) b1) = 12288 + l" using uint_nextl [OF c, of "ucast b0"] b l by simp
  ultimately have w: "uint w = l" by (simp add: w_def uint_and_masks mod_drop)
  then have "w = word_of_int l" using \<open>0 \<le> l\<close> \<open>l < 0x800\<close> by (simp add: word_of_int_mod)
  with w r b c show ?thesis by (simp add: rune_loops rune_consts word_less_def word_le_def w_def [symmetric] not_less del: One_nat_def)
qed

lemma chartorune_3:
  assumes r: "rd s p = Some b0" "rd s (p + 1) = Some b1" "rd s (p + 2) = Some b2"
    and b: "uint b0 = 224 + a" "0 \<le> a" "a < 16" "uint b1 = 128 + x" "0 \<le> x" "x < 64" "uint b2 = 128 + y" "0 \<le> y" "y < 64"
    and l: "l = 64 * (64 * a + x) + y"
  shows "chartorune s p = Some (if l < 0x800 \<or> 0xD800 \<le> l \<and> l \<le> 0xDFFF then (Runeerror, 1) else (word_of_int l, 3))"
proof -
  define w where "w = nextl (nextl (ucast b0) b1) b2 AND 0xFFFF"
  have c: "cont b1" "cont b2" using b by (simp_all add: cont_plus)
  have "0 \<le> l" "l < 0x10000" using b l by auto
  moreover have "uint (nextl (ucast b0) b1) = 14336 + 64 * a + x" using uint_nextl [OF c(1), of "ucast b0"] b by simp
  then have "uint (nextl (nextl (ucast b0) b1) b2) = 917504 + l" using uint_nextl [OF c(2), of "nextl (ucast b0) b1"] b l by simp
  ultimately have w: "uint w = l" by (simp add: w_def uint_and_masks mod_drop)
  then have "w = word_of_int l" using \<open>0 \<le> l\<close> \<open>l < 0x10000\<close> by (simp add: word_of_int_mod)
  with w r b c show ?thesis by (auto simp add: rune_loops rune_consts word_less_def word_le_def w_def [symmetric] not_less simp del: One_nat_def)
qed

lemma chartorune_4:
  assumes r: "rd s p = Some b0" "rd s (p + 1) = Some b1" "rd s (p + 2) = Some b2" "rd s (p + 3) = Some b3"
    and b: "uint b0 = 240 + a" "0 \<le> a" "a < 8" "uint b1 = 128 + x" "0 \<le> x" "x < 64" "uint b2 = 128 + y" "0 \<le> y" "y < 64"
      "uint b3 = 128 + z" "0 \<le> z" "z < 64"
    and l: "l = 64 * (64 * (64 * a + x) + y) + z"
  shows "chartorune s p = Some (if l < 0x10000 \<or> 0x10FFFF < l then (Runeerror, 1) else (word_of_int l, 4))"
proof -
  define w where "w = nextl (nextl (nextl (ucast b0) b1) b2) b3 AND 0x1FFFFF"
  have c: "cont b1" "cont b2" "cont b3" using b by (simp_all add: cont_plus)
  have "0 \<le> l" "l < 0x200000" using b l by auto
  moreover have "uint (nextl (ucast b0) b1) = 15360 + 64 * a + x" using uint_nextl [OF c(1), of "ucast b0"] b by simp
  then have "uint (nextl (nextl (ucast b0) b1) b2) = 983040 + 64 * (64 * a + x) + y" using uint_nextl [OF c(2), of "nextl (ucast b0) b1"] b by simp
  then have "uint (nextl (nextl (nextl (ucast b0) b1) b2) b3) = 62914560 + l"
    using uint_nextl [OF c(3), of "nextl (nextl (ucast b0) b1) b2"] b l by simp
  ultimately have w: "uint w = l" by (simp add: w_def uint_and_masks mod_drop)
  then have "w = word_of_int l" using \<open>0 \<le> l\<close> \<open>l < 0x200000\<close> by (simp add: word_of_int_mod)
  with w r b c show ?thesis by (auto simp add: rune_loops rune_consts word_less_def word_le_def w_def [symmetric] not_less simp del: One_nat_def)
qed

text \<open>What the encoder writes is decoded to the same rune.\<close>

lemma valid_rune_uint: "valid_rune r \<longleftrightarrow> uint r \<le> 0x10FFFF \<and> \<not> (0xD800 \<le> uint r \<and> uint r \<le> 0xDFFF)"
  by (simp add: valid_rune_def word_le_def)

lemma utf8_read:
  assumes "take (length (utf8 r)) (drop p s) = utf8 r" "j < length (utf8 r)"
  shows "\<exists>b. rd s (p + j) = Some b \<and> uint b = map uint (utf8 r) ! j"
proof -
  have "length (take (length (utf8 r)) (drop p s)) = length (utf8 r)" using assms(1) by simp
  then have "p + j < length s" using assms(2) by simp
  moreover have "drop p s ! j = utf8 r ! j" using assms by (metis nth_take)
  ultimately show ?thesis using assms(2) by (simp add: rd_def)
qed

lemma split_64: "u = 64 * (u div 64) + u mod (64 :: int)" "0 \<le> u mod 64" "u mod 64 < 64"
  by simp_all

lemma chartorune_utf8:
  assumes v: "valid_rune r" and t: "take (length (utf8 r)) (drop p s) = utf8 r"
  shows "chartorune s p = Some (r, length (utf8 r))"
proof -
  note rd = utf8_read [OF t] and u = utf8_bytes [of r] and m = split_64(2,3)
  have len: "length (utf8 r) = length (map uint (utf8 r))" by simp
  consider (1) "uint r < 0x80" | (2) "0x80 \<le> uint r" "uint r < 0x800" | (3) "0x800 \<le> uint r" "uint r < 0x10000"
    | (4) "0x10000 \<le> uint r" "uint r < 0x200000" using v unfolding valid_rune_uint by linarith
  then show ?thesis
  proof cases
    case 1
    then obtain b where "rd s p = Some b" "uint b = uint r" using rd [of 0] u(1) len by auto
    moreover then have "ucast b = r" by (simp add: word_uint_eq_iff)
    ultimately show ?thesis using chartorune_1 [of s p b] 1 u(1) len by simp
  next
    case 2
    obtain b0 b1 where b: "rd s p = Some b0" "uint b0 = 192 + uint r div 64" "rd s (p + 1) = Some b1" "uint b1 = 128 + uint r mod 64"
      using rd [of 0] rd [of 1] u(2) [OF 2] len by auto
    have "0 \<le> uint r div 64" "uint r div 64 < 32" using 2 by simp_all
    from chartorune_2 [OF b(1,3,2) this b(4) m split_64(1)] 2 u(2) [OF 2] len show ?thesis by simp
  next
    case 3
    obtain b0 b1 b2 where b: "rd s p = Some b0" "uint b0 = 224 + uint r div 64 div 64"
      "rd s (p + 1) = Some b1" "uint b1 = 128 + uint r div 64 mod 64" "rd s (p + 2) = Some b2" "uint b2 = 128 + uint r mod 64"
      using rd [of 0] rd [of 1] rd [of 2] u(3) [OF 3] len by auto
    have "0 \<le> uint r div 64 div 64" "uint r div 64 div 64 < 16" using 3 by simp_all
    moreover have "uint r = 64 * (64 * (uint r div 64 div 64) + uint r div 64 mod 64) + uint r mod 64" by simp
    ultimately have "chartorune s p = Some (r, 3)" using chartorune_3 [OF b(1,3,5,2) _ _ b(4) m b(6) m] 3(1) v by (simp add: valid_rune_uint)
    then show ?thesis using u(3) [OF 3] len by simp
  next
    case 4
    obtain b0 b1 b2 b3 where b: "rd s p = Some b0" "uint b0 = 240 + uint r div 64 div 64 div 64"
      "rd s (p + 1) = Some b1" "uint b1 = 128 + uint r div 64 div 64 mod 64" "rd s (p + 2) = Some b2" "uint b2 = 128 + uint r div 64 mod 64"
      "rd s (p + 3) = Some b3" "uint b3 = 128 + uint r mod 64"
      using rd [of 0] rd [of 1] rd [of 2] rd [of 3] u(4) [OF 4] len by auto
    have "0 \<le> uint r div 64 div 64 div 64" "uint r div 64 div 64 div 64 < 8" using 4 by simp_all
    moreover have "uint r = 64 * (64 * (64 * (uint r div 64 div 64 div 64) + uint r div 64 div 64 mod 64) + uint r div 64 mod 64) + uint r mod 64" by simp
    ultimately have "chartorune s p = Some (r, 4)" using chartorune_4 [OF b(1,3,5,7,2) _ _ b(4) m b(6) m b(8) m] 4(1) v by (simp add: valid_rune_uint)
    then show ?thesis using u(4) [OF 4] len by simp
  qed
qed

text \<open>Conversely, what is decoded without error is the encoding of a valid rune.\<close>

lemma utf8_inj_bytes: "map uint bs = map uint (utf8 r) \<Longrightarrow> bs = utf8 r"
  by (metis (no_types, opaque_lifting) list.inj_map_strong word_uint_eqI)

lemma take_rd_Suc: "rd s p = Some b \<Longrightarrow> take (Suc n) (drop p s) = b # take n (drop (Suc p) s)"
  by (auto simp: rd_def Cons_nth_drop_Suc [symmetric] split: if_splits)

lemma take_rd:
  "rd s p = Some b0 \<Longrightarrow> take 1 (drop p s) = [b0]"
  "\<lbrakk> rd s p = Some b0; rd s (p + 1) = Some b1 \<rbrakk> \<Longrightarrow> take 2 (drop p s) = [b0, b1]"
  "\<lbrakk> rd s p = Some b0; rd s (p + 1) = Some b1; rd s (p + 2) = Some b2 \<rbrakk> \<Longrightarrow> take 3 (drop p s) = [b0, b1, b2]"
  "\<lbrakk> rd s p = Some b0; rd s (p + 1) = Some b1; rd s (p + 2) = Some b2; rd s (p + 3) = Some b3 \<rbrakk> \<Longrightarrow> take 4 (drop p s) = [b0, b1, b2, b3]"
  by (simp_all add: take_rd_Suc numeral_2_eq_2 numeral_3_eq_3 numeral_eq_Suc [of "num.Bit0 (num.Bit0 num.One)"])

definition decoded :: "byte list \<Rightarrow> nat \<Rightarrow> u32 \<times> nat \<Rightarrow> bool" where
  "decoded s p rn = (case rn of (r, n) \<Rightarrow> valid_rune r \<and> take n (drop p s) = utf8 r \<and> n = length (utf8 r))"

lemma decodedI: "\<lbrakk> map uint bs = map uint (utf8 r); take n (drop p s) = bs; n = length bs; valid_rune r \<rbrakk> \<Longrightarrow> decoded s p (r, n)"
  using utf8_inj_bytes by (auto simp: decoded_def)

lemma d64: "\<lbrakk> 0 \<le> x; x < 64 \<rbrakk> \<Longrightarrow> (64 * a + x) div 64 = (a :: int)" "\<lbrakk> 0 \<le> x; x < 64 \<rbrakk> \<Longrightarrow> (64 * a + x) mod 64 = (x :: int)"
  by simp_all

lemma uint_of_int: "\<lbrakk> 0 \<le> l; l < 0x200000 \<rbrakk> \<Longrightarrow> uint (word_of_int l :: u32) = l"
  by (simp add: uint_word_of_int take_bit_int_eq_self)

lemma decoded_1: "\<lbrakk> rd s p = Some b0; uint b0 < 128 \<rbrakk> \<Longrightarrow> decoded s p (ucast b0, 1)"
  using utf8_bytes(1) [of "ucast b0"] take_rd(1) [of s p b0] by (intro decodedI [of "[b0]"]) (auto simp: valid_rune_uint)

lemma decoded_2:
  assumes r: "rd s p = Some b0" "rd s (p + 1) = Some b1"
    and b: "uint b0 = 192 + a" "0 \<le> a" "a < 32" "uint b1 = 128 + x" "0 \<le> x" "x < 64" and l: "l = 64 * a + x" "0x80 \<le> l"
  shows "decoded s p (word_of_int l, 2)"
proof (rule decodedI [OF _ take_rd(2) [OF r]])
  have lt: "l < 0x800" using b l by simp
  then have u: "uint (word_of_int l :: u32) = l" using l(2) by (simp add: uint_of_int)
  show "valid_rune (word_of_int l)" using lt by (simp add: valid_rune_uint u)
  show "map uint [b0, b1] = map uint (utf8 (word_of_int l))"
    using utf8_bytes(2) [of "word_of_int l", unfolded u, OF l(2) lt] d64 [OF b(5,6), of a] b unfolding l(1) by simp
qed simp

lemma decoded_3:
  assumes r: "rd s p = Some b0" "rd s (p + 1) = Some b1" "rd s (p + 2) = Some b2"
    and b: "uint b0 = 224 + a" "0 \<le> a" "a < 16" "uint b1 = 128 + x" "0 \<le> x" "x < 64" "uint b2 = 128 + y" "0 \<le> y" "y < 64"
    and l: "l = 64 * (64 * a + x) + y" "0x800 \<le> l" "\<not> (0xD800 \<le> l \<and> l \<le> 0xDFFF)"
  shows "decoded s p (word_of_int l, 3)"
proof (rule decodedI [OF _ take_rd(3) [OF r]])
  have lt: "l < 0x10000" using b l by simp
  then have u: "uint (word_of_int l :: u32) = l" using l(2) by (simp add: uint_of_int)
  show "valid_rune (word_of_int l)" using lt l(3) by (simp add: valid_rune_uint u)
  show "map uint [b0, b1, b2] = map uint (utf8 (word_of_int l))"
    using utf8_bytes(3) [of "word_of_int l", unfolded u, OF l(2) lt] d64 [OF b(5,6), of a] d64 [OF b(8,9), of "64 * a + x"] b
    unfolding l(1) by simp
qed simp

lemma decoded_4:
  assumes r: "rd s p = Some b0" "rd s (p + 1) = Some b1" "rd s (p + 2) = Some b2" "rd s (p + 3) = Some b3"
    and b: "uint b0 = 240 + a" "0 \<le> a" "a < 8" "uint b1 = 128 + x" "0 \<le> x" "x < 64" "uint b2 = 128 + y" "0 \<le> y" "y < 64"
      "uint b3 = 128 + z" "0 \<le> z" "z < 64"
    and l: "l = 64 * (64 * (64 * a + x) + y) + z" "0x10000 \<le> l" "l \<le> 0x10FFFF"
  shows "decoded s p (word_of_int l, 4)"
proof (rule decodedI [OF _ take_rd(4) [OF r]])
  have lt: "l < 0x200000" using l by simp
  then have u: "uint (word_of_int l :: u32) = l" using l(2) by (simp add: uint_of_int)
  show "valid_rune (word_of_int l)" using l(2,3) by (simp add: valid_rune_uint u)
  define q1 where "q1 = 64 * a + x"
  define q2 where "q2 = 64 * q1 + y"
  have "l = 64 * q2 + z" using l(1) by (simp add: q1_def q2_def)
  then have "l div 64 = q2" "l mod 64 = z" using b(11,12) by simp_all
  moreover have "q2 div 64 = q1" "q2 mod 64 = y" unfolding q2_def using b(8,9) by simp_all
  moreover have "q1 div 64 = a" "q1 mod 64 = x" unfolding q1_def using b(5,6) by simp_all
  ultimately have q: "l div 64 = q2" "l mod 64 = z" "q2 div 64 = q1" "q2 mod 64 = y" "q1 div 64 = a" "q1 mod 64 = x" .
  show "map uint [b0, b1, b2, b3] = map uint (utf8 (word_of_int l))"
    using utf8_bytes(4) [of "word_of_int l", unfolded u, OF l(2) lt] b by (simp add: q)
qed simp

lemma cont_split: "cont b \<Longrightarrow> uint b = 128 + (uint b - 128) \<and> 0 \<le> uint b - 128 \<and> uint b - 128 < 64"
  by (simp add: cont_def)

lemma chartorune_decoded:
  assumes "chartorune s p = Some (r, n)"
  shows "decoded s p (r, n) \<or> (r, n) = (Runeerror, 1)"
proof -
  obtain b0 where b0: "rd s p = Some b0" using assms by (cases "rd s p") (auto simp: chartorune_def)
  note res = assms [unfolded rune_loops b0] and c = cont_split
  consider (1) "uint b0 < 128" | (bad) "(r, n) = (Runeerror, 1)"
    | (2) b1 where "192 \<le> uint b0" "uint b0 < 224" "rd s (p + 1) = Some b1" "cont b1"
    | (3) b1 b2 where "224 \<le> uint b0" "uint b0 < 240" "rd s (p + 1) = Some b1" "cont b1" "rd s (p + 2) = Some b2" "cont b2"
    | (4) b1 b2 b3 where "240 \<le> uint b0" "uint b0 < 248" "rd s (p + 1) = Some b1" "cont b1" "rd s (p + 2) = Some b2" "cont b2" "rd s (p + 3) = Some b3" "cont b3"
    using res by (auto simp: rune_consts word_less_def not_less simp del: One_nat_def split: Option.bind_splits if_splits)
  then show ?thesis
  proof cases
    case 1
    then show ?thesis using chartorune_1 [OF b0] decoded_1 [OF b0] assms by simp
  next
    case (2 b1)
    have a: "uint b0 = 192 + (uint b0 - 192)" "0 \<le> uint b0 - 192" "uint b0 - 192 < 32" using 2 by simp_all
    note k = c [OF 2(4), THEN conjunct1] c [OF 2(4), THEN conjunct2, THEN conjunct1] c [OF 2(4), THEN conjunct2, THEN conjunct2]
    show ?thesis using chartorune_2 [OF b0 2(3) a k refl] decoded_2 [OF b0 2(3) a k refl] assms by (auto split: if_splits)
  next
    case (3 b1 b2)
    have a: "uint b0 = 224 + (uint b0 - 224)" "0 \<le> uint b0 - 224" "uint b0 - 224 < 16" using 3 by simp_all
    have k: "uint b1 = 128 + (uint b1 - 128)" "0 \<le> uint b1 - 128" "uint b1 - 128 < 64"
      "uint b2 = 128 + (uint b2 - 128)" "0 \<le> uint b2 - 128" "uint b2 - 128 < 64" using 3 by (simp_all add: cont_def)
    show ?thesis using chartorune_3 [OF b0 3(3,5) a k refl] decoded_3 [OF b0 3(3,5) a k refl] assms by (auto split: if_splits)
  next
    case (4 b1 b2 b3)
    have a: "uint b0 = 240 + (uint b0 - 240)" "0 \<le> uint b0 - 240" "uint b0 - 240 < 8" using 4 by simp_all
    have k: "uint b1 = 128 + (uint b1 - 128)" "0 \<le> uint b1 - 128" "uint b1 - 128 < 64"
      "uint b2 = 128 + (uint b2 - 128)" "0 \<le> uint b2 - 128" "uint b2 - 128 < 64"
      "uint b3 = 128 + (uint b3 - 128)" "0 \<le> uint b3 - 128" "uint b3 - 128 < 64" using 4 by (simp_all add: cont_def)
    show ?thesis using chartorune_4 [OF b0 4(3,5,7) a k refl] decoded_4 [OF b0 4(3,5,7) a k refl] assms by (auto split: if_splits)
  qed simp
qed

end
