(* ===== verification/RuneThms.thy ===== *)
theory RuneThms
  imports RuneCode
begin

unbundle bit_operations_syntax

text \<open>Runes in strings, and the properties of the UTF-8 routines.\<close>

section \<open>Strings\<close>

definition terminated :: "byte list \<Rightarrow> nat \<Rightarrow> nat \<Rightarrow> bool" where
  "terminated s p k \<longleftrightarrow> p \<le> k \<and> k < length s \<and> s ! k = 0 \<and> (\<forall>j. p \<le> j \<and> j < k \<longrightarrow> s ! j \<noteq> 0)"

lemma terminated_rd: "\<lbrakk> terminated s p k; p \<le> j; j \<le> k \<rbrakk> \<Longrightarrow> rd s j = Some (s ! j)"
  by (auto simp: terminated_def rd_def)

lemma terminated_next: "\<lbrakk> terminated s p k; p \<le> j; j \<le> k; 0 < uint (s ! j) \<rbrakk> \<Longrightarrow> j + 1 \<le> k"
  by (cases "j = k") (auto simp: terminated_def)

lemma chartorune_terminated:
  assumes t: "terminated s p k"
  shows "\<exists>r n. chartorune s p = Some (r, n) \<and> p + n \<le> k + 1 \<and> (p < k \<longrightarrow> p + n \<le> k)"
proof -
  note rd = terminated_rd [OF t] and nx = terminated_next [OF t]
  have p: "rd s p = Some (s ! p)" using t by (intro rd) (auto simp: terminated_def)
  have n: "128 \<le> uint (s ! p) \<Longrightarrow> p + 1 \<le> k" "p + 1 \<le> k \<Longrightarrow> cont (s ! (p + 1)) \<Longrightarrow> p + 2 \<le> k" "p + 2 \<le> k \<Longrightarrow> cont (s ! (p + 2)) \<Longrightarrow> p + 3 \<le> k"
    "p + 3 \<le> k \<Longrightarrow> cont (s ! (p + 3)) \<Longrightarrow> p + 4 \<le> k"
    using nx [of p] nx [of "p + 1"] nx [of "p + 2"] nx [of "p + 3"] t by (auto simp: terminated_def cont_def)
  have "p \<le> k" using t by (simp add: terminated_def)
  with p n show ?thesis unfolding rune_loops
    by (auto simp: rune_consts word_less_def not_less rd simp del: One_nat_def)
qed

lemma terminated_add: "\<lbrakk> terminated s p k; p + n \<le> k \<rbrakk> \<Longrightarrow> terminated s (p + n) k"
  by (auto simp: terminated_def)

lemma utflen_loop_total: "terminated s p k \<Longrightarrow> \<exists>m. utflen_loop s p n = Some (n + m) \<and> m \<le> k - p"
proof (induction "k - p" arbitrary: p n rule: less_induct)
  case less
  note rd = terminated_rd [OF less.prems]
  have pk: "p \<le> k" using less.prems by (simp add: terminated_def)
  obtain r i where c: "chartorune s p = Some (r, i)" "p < k \<longrightarrow> p + i \<le> k" using chartorune_terminated [OF less.prems] by blast
  have i: "0 < i" using chartorune_pos [OF c(1)] by simp
  have z: "s ! p = 0 \<longleftrightarrow> p = k" using less.prems by (auto simp: terminated_def)
  show ?case
  proof (cases "p = k")
    case True
    then show ?thesis using rd [of p] z by (subst utflen_loop.simps) auto
  next
    case False
    then have lt: "p < k" using pk by simp
    define j where "j = (if s ! p < Runeself then 1 else i)"
    have j: "0 < j" "p + j \<le> k" using lt i c(2) by (auto simp: j_def)
    have "utflen_loop s p n = utflen_loop s (p + j) (n + 1)"
      using rd [of p] lt z c(1) by (subst utflen_loop.simps) (auto simp: j_def)
    moreover have "k - (p + j) < k - p" using j lt by simp
    from less.hyps [OF this terminated_add [OF less.prems j(2)], of "n + 1"] obtain m
      where "utflen_loop s (p + j) (n + 1) = Some (n + 1 + m)" "m \<le> k - (p + j)" by blast
    ultimately show ?thesis using j by (intro exI [of _ "Suc m"]) auto
  qed
qed

lemma fullrune_chartorune:
  assumes "fullrune s p (int n) = Some True" "p + n \<le> length s"
  shows "\<exists>r k. chartorune s p = Some (r, k) \<and> k \<le> n"
proof -
  have r: "j < n \<Longrightarrow> rd s (p + j) = Some (s ! (p + j))" for j using assms(2) by (simp add: rd_def)
  have n: "0 < n" using assms(1) by (simp add: fullrune_def split: if_splits)
  have "uint (s ! p) < 128 \<or> uint (s ! p) < 224 \<and> 2 \<le> n \<or> uint (s ! p) < 240 \<and> 3 \<le> n \<or> 4 \<le> n"
    using assms(1) n r [of 0] by (auto simp: fullrune_def rune_consts word_less_def split: if_splits)
  with n r [of 0] r [of 1] r [of 2] r [of 3] show ?thesis unfolding rune_loops
    by (auto simp: rune_consts word_less_def not_less simp del: One_nat_def)
qed

lemma fullrune_total: "p + n \<le> length s \<Longrightarrow> \<exists>b. fullrune s p (int n) = Some b"
  by (auto simp: fullrune_def rd_def)

lemma utfnlen_loop_total: "es \<le> length s \<Longrightarrow> \<exists>m. utfnlen_loop s es p n = Some (n + m) \<and> m \<le> es - p"
proof (induction "es - p" arbitrary: p n rule: less_induct)
  case less
  show ?case
  proof (cases "p < es")
    case False
    then show ?thesis by (subst utfnlen_loop.simps) simp
  next
    case True
    then have r: "rd s p = Some (s ! p)" using less.prems by (simp add: rd_def)
    have d: "int es - int p = int (es - p)" "p + (es - p) \<le> length s" using True less.prems by simp_all
    obtain full where f: "fullrune s p (int es - int p) = Some full" unfolding d(1) using fullrune_total [OF d(2)] by blast
    consider (zero) "s ! p = 0" | (partial) "\<not> s ! p < Runeself" "\<not> full" | (one) "s ! p \<noteq> 0" "s ! p < Runeself" | (full) "\<not> s ! p < Runeself" full
      by blast
    then show ?thesis
    proof cases
      case zero
      then show ?thesis using True r by (subst utfnlen_loop.simps) simp
    next
      case partial
      then show ?thesis using True r f by (subst utfnlen_loop.simps) simp
    next
      case one
      have "es - (p + 1) < es - p" using True by simp
      from less.hyps [OF this less.prems, of "n + 1"] obtain m
        where "utfnlen_loop s es (p + 1) (n + 1) = Some (n + 1 + m)" "m \<le> es - (p + 1)" by blast
      then show ?thesis using True r one by (subst utfnlen_loop.simps) (auto intro!: exI [of _ "Suc m"])
    next
      case full
      then obtain c k where c: "chartorune s p = Some (c, k)" "k \<le> es - p" using fullrune_chartorune [OF _ d(2)] f unfolding d(1) by auto
      have "0 < k" using chartorune_pos [OF c(1)] by simp
      then have "es - (p + k) < es - p" using True by simp
      from less.hyps [OF this less.prems, of "n + 1"] obtain m
        where "utfnlen_loop s es (p + k) (n + 1) = Some (n + 1 + m)" "m \<le> es - (p + k)" by blast
      then show ?thesis using True r f full c \<open>0 < k\<close> by (subst utfnlen_loop.simps) (auto intro!: exI [of _ "Suc m"])
    qed
  qed
qed

text \<open>On a sequence of encoded runes the lengths count the runes.\<close>

lemma high_digits: "0 \<le> (u :: int) \<Longrightarrow>
    list_all ((\<le>) 128) [192 + u div 64, 128 + u mod 64] \<and> list_all ((\<le>) 128) [224 + u div 64 div 64, 128 + u div 64 mod 64, 128 + u mod 64] \<and>
    list_all ((\<le>) 128) [240 + u div 64 div 64 div 64, 128 + u div 64 div 64 mod 64, 128 + u div 64 mod 64, 128 + u mod 64]"
  by (simp add: pos_imp_zdiv_nonneg_iff add_increasing2 trans_le_add1)

lemma utf8_high:
  assumes "valid_rune r" "0x80 \<le> uint r" shows "list_all ((\<le>) 128) (map uint (utf8 r))"
proof -
  consider (2) "0x80 \<le> uint r" "uint r < 0x800" | (3) "0x800 \<le> uint r" "uint r < 0x10000" | (4) "0x10000 \<le> uint r" "uint r < 0x200000"
    using assms unfolding valid_rune_uint by linarith
  then show ?thesis by cases (simp_all only: utf8_bytes high_digits [OF uint_ge_0])
qed

lemma utf8_not_zero: "\<lbrakk> valid_rune r; r \<noteq> 0 \<rbrakk> \<Longrightarrow> 0 \<notin> set (utf8 r)"
proof (cases "0x80 \<le> uint r")
  case False
  assume "r \<noteq> 0"
  then have "uint r \<noteq> 0" by (simp add: word_uint_eq_iff)
  then have "0 \<notin> set (map uint (utf8 r))" using utf8_bytes(1) [of r] False by simp
  then show ?thesis by force
next
  case True
  assume "valid_rune r"
  from utf8_high [OF this True] show ?thesis by (force simp: list_all_iff)
qed

lemma length_utf8: "0 < length (utf8 r)"
  by (auto simp: utf8_def Let_def)

lemma take_append_drop_mid: "take (length b) (drop (length a) (a @ b @ c)) = b"
  by simp

lemma utf8_single: "r < 0x80 \<Longrightarrow> utf8 r = [ucast r]" "\<not> r < 0x80 \<Longrightarrow> valid_rune r \<Longrightarrow> \<not> hd (utf8 r) < Runeself"
proof -
  show "r < 0x80 \<Longrightarrow> utf8 r = [ucast r]" by (simp add: utf8_def word_le_def word_less_def)
  assume r: "\<not> r < 0x80" "valid_rune r"
  then have "list_all ((\<le>) 128) (map uint (utf8 r))" using utf8_high by (simp add: word_less_def)
  then show "\<not> hd (utf8 r) < Runeself" using length_utf8 [of r] by (cases "utf8 r") (auto simp: word_less_def)
qed

lemma utflen_loop_utf8:
  "\<lbrakk> list_all (\<lambda>r. valid_rune r \<and> r \<noteq> 0) rs \<rbrakk> \<Longrightarrow>
    utflen_loop (pre @ concat (map utf8 rs) @ 0 # rest) (length pre) n = Some (n + length rs)"
proof (induction rs arbitrary: pre n)
  case Nil
  then show ?case by (subst utflen_loop.simps) (simp add: rd_def)
next
  case (Cons r rs)
  let ?s = "pre @ concat (map utf8 (r # rs)) @ 0 # rest"
  have c: "chartorune ?s (length pre) = Some (r, length (utf8 r))"
    using Cons.prems by (intro chartorune_utf8) simp_all
  have h: "rd ?s (length pre) = Some (hd (utf8 r))" using length_utf8 [of r] by (cases "utf8 r") (auto simp: rd_def)
  have nz: "hd (utf8 r) \<noteq> 0" using utf8_not_zero [of r] Cons.prems length_utf8 [of r] by (cases "utf8 r") auto
  have "utflen_loop ?s (length pre) n = utflen_loop ?s (length pre + length (utf8 r)) (n + 1)"
    using h c nz utf8_single [of r] Cons.prems by (cases "r < 0x80") (subst utflen_loop.simps, auto)+
  also have "\<dots> = Some (n + length (r # rs))" using Cons.IH [of "pre @ utf8 r" "n + 1"] Cons.prems by simp
  finally show ?case .
qed

lemma wrn_same: "take n (drop p s) = bs \<Longrightarrow> n = length bs \<Longrightarrow> bs \<noteq> [] \<Longrightarrow> wrn s p bs = Some s"
proof -
  assume t: "take n (drop p s) = bs" "n = length bs" "bs \<noteq> []"
  then have "p + length bs \<le> length s" by (cases "p \<le> length s") (auto dest: arg_cong [of _ _ length])
  moreover have "take p s @ bs @ drop (p + length bs) s = s"
    using t by (metis append_take_drop_id drop_drop add.commute append.assoc)
  ultimately show ?thesis by (simp add: wrn_def)
qed

section \<open>Properties\<close>

text \<open>C36 (roundtrip). Encoding a rune into an object with room for it writes one to four bytes, changes nothing else,
  and decoding them gives the rune back with their number; a rune out of range or a surrogate half comes back as the
  error rune. The length agrees with \<open>runelen\<close>.\<close>

theorem rune_roundtrip:
  assumes "p + UTFmax \<le> length str"
  shows "\<exists>str' n. runetochar str p c = Some (str', n) \<and> chartorune str' p = Some (fix_rune c, n) \<and> 1 \<le> n \<and> n \<le> UTFmax \<and>
    length str' = length str \<and> take p str' = take p str \<and> drop (p + n) str' = drop (p + n) str \<and> runelen (ucast c) = Some n"
proof -
  let ?u = "utf8 (fix_rune c)"
  have v: "valid_rune (fix_rune c)" by (simp add: fix_rune_def valid_rune_def)
  have l: "1 \<le> length ?u" "length ?u \<le> 4" by (auto simp: utf8_def Let_def)
  let ?str' = "take p str @ ?u @ drop (p + length ?u) str"
  have w: "wrn str p ?u = Some ?str'" using assms l by (simp add: wrn_def)
  have "take (length ?u) (drop p ?str') = ?u" using assms by simp
  from chartorune_utf8 [OF v this] have "chartorune ?str' p = Some (fix_rune c, length ?u)" .
  moreover have "ucast (ucast c :: u64) = c" by (simp add: ucast_up_ucast_id is_up)
  then have "runelen (ucast c) = Some (length ?u)" using l by (simp add: runelen_def runetochar_utf8 wrn_def)
  ultimately show ?thesis using w l assms by (simp add: runetochar_utf8)
qed

theorem rune_roundtrip_witness:
  "\<exists>str' n. runetochar [1, 2, 3, 4, 5, 6] 1 0x20AC = Some (str', n) \<and> chartorune str' 1 = Some (0x20AC, n)"
  using rune_roundtrip [of 1 "[1, 2, 3, 4, 5, 6]" "0x20AC"] by (auto simp: fix_rune_def valid_rune_def)

text \<open>C37 (type). Decoding at any place of a terminated string reads no byte beyond the terminator and gives a valid
  Unicode scalar value with the number of its bytes, never stepping over the terminator; and only the shortest encoding
  is accepted: either the bytes read are exactly what \<open>runetochar\<close> writes for the rune, or the result is the error rune
  with length one.\<close>

theorem chartorune_canonical:
  assumes "terminated s p k"
  shows "\<exists>r n. chartorune s p = Some (r, n) \<and> valid_rune r \<and> 1 \<le> n \<and> (p < k \<longrightarrow> p + n \<le> k) \<and>
    (runetochar s p r = Some (s, n) \<or> (r, n) = (Runeerror, 1))"
proof -
  obtain r n where c: "chartorune s p = Some (r, n)" "p < k \<longrightarrow> p + n \<le> k" using chartorune_terminated [OF assms] by blast
  have e: "valid_rune Runeerror" by (simp add: valid_rune_def)
  have "decoded s p (r, n) \<Longrightarrow> runetochar s p r = Some (s, n)"
    using wrn_same [of n p s "utf8 r"] length_utf8 [of r] by (auto simp: decoded_def runetochar_utf8 fix_rune_def)
  with chartorune_decoded [OF c(1)] c chartorune_pos [OF c(1)] e show ?thesis by (auto simp: decoded_def)
qed

theorem chartorune_canonical_witness: "\<exists>r n. chartorune [0xC0, 0x80, 0] 0 = Some (r, n) \<and> valid_rune r \<and> n \<le> 2"
proof -
  have "terminated [0xC0, 0x80, 0] 0 2" by (auto simp: terminated_def nth_Cons')
  from chartorune_canonical [OF this] show ?thesis by auto
qed

text \<open>Counting the runes of a string returns: \<open>utflen\<close> for every terminated string and \<open>utfnlen\<close>
  for every number of bytes within the object, terminated or not, both without reading outside and with at most one rune per
  byte; and on the encodings of a list of runes \<open>utflen\<close> is the length of the list.\<close>

lemma utf_lengths:
  "(terminated s p k \<longrightarrow> (\<exists>n. utflen s p = Some n \<and> n \<le> k - p)) \<and>
   (p + m \<le> length s \<longrightarrow> (\<exists>n. utfnlen s p m = Some n \<and> n \<le> m)) \<and>
   (list_all (\<lambda>r. valid_rune r \<and> r \<noteq> 0) rs \<longrightarrow> utflen (concat (map utf8 rs) @ 0 # rest) 0 = Some (length rs))"
  using utflen_loop_total [of s p k 0] utfnlen_loop_total [of "p + m" s p 0] utflen_loop_utf8 [of rs "[]" rest 0]
  by (auto simp: utflen_def utfnlen_def)

end
