(* ===== verification/Enc.thy ===== *)
theory Enc
  imports Prelude
begin

unbundle bit_operations_syntax

text \<open>
  Binary data as text (\<open>libs/lib9/u16.c\<close>, \<open>u32.c\<close>, \<open>u64.c\<close>). An output object is written through \<open>wrn\<close>, so a
  store outside it is \<open>None\<close>; \<open>o0\<close> is the offset of the output pointer and \<open>lim\<close> the size passed. The input with
  its length is one list; the sizes computed from it, such as \<open>8*nsrc+4\<close> and \<open>5*nsrc+7\<close>, are natural numbers, where the code has \<open>int\<close>s that overflow
  from 2^28 bytes of input on. A loop that leaves early by \<open>goto exhausted\<close> or \<open>out\<close> returns from the recursion.
\<close>

section \<open>Base 16\<close>

definition t16e :: "byte list" where
  "t16e = map of_char ''0123456789ABCDEF''"

text \<open>The value of a digit, none for a character that is skipped; every letter counts.\<close>

definition digit16 :: "byte \<Rightarrow> u32 option" where
  "digit16 c = (if 0x30 \<le> c \<and> c \<le> 0x39 then Some (ucast c - 0x30)
     else if 0x61 \<le> c \<and> c \<le> 0x7A then Some (ucast c - 0x61 + 10)
     else if 0x41 \<le> c \<and> c \<le> 0x5A then Some (ucast c - 0x41 + 10)
     else None)"

fun dec16_loop :: "byte list \<Rightarrow> nat \<Rightarrow> nat \<Rightarrow> u32 \<Rightarrow> nat \<Rightarrow> byte list \<Rightarrow> (byte list \<times> int) option" where
  "dec16_loop out o0 eout w i [] = Some (out, int o0)"
| "dec16_loop out o0 eout w i (b # in0) = (case digit16 b of None \<Rightarrow> dec16_loop out o0 eout w i in0
     | Some c \<Rightarrow> (let w = push_bit 4 w + c; i = i + 1 in
         if i = 2 then (if o0 + 1 > eout then Some (out, int o0) else do {
             out \<leftarrow> wrn out o0 [ucast w];
             dec16_loop out (o0 + 1) eout 0 0 in0 })
         else dec16_loop out o0 eout w i in0))"

definition dec16 :: "byte list \<Rightarrow> nat \<Rightarrow> byte list \<Rightarrow> (byte list \<times> int) option" where
  "dec16 out lim in0 = dec16_loop out 0 lim 0 0 in0"

fun enc16_loop :: "byte list \<Rightarrow> nat \<Rightarrow> nat \<Rightarrow> byte list \<Rightarrow> (byte list \<times> int) option" where
  "enc16_loop out o0 eout [] = do { out \<leftarrow> wrn out o0 [0]; Some (out, int o0) }"
| "enc16_loop out o0 eout (c # in0) = (if o0 + 2 \<ge> eout then do { out \<leftarrow> wrn out o0 [0]; Some (out, int o0) }
     else do {
       out \<leftarrow> wrn out o0 [t16e ! unat (drop_bit 4 c), t16e ! unat (c AND 0xF)];
       enc16_loop out (o0 + 2) eout in0 })"

definition enc16 :: "byte list \<Rightarrow> nat \<Rightarrow> byte list \<Rightarrow> (byte list \<times> int) option" where
  "enc16 out lim in0 = enc16_loop out 0 lim in0"

section \<open>Base 32\<close>

definition tab32 :: "byte list" where
  "tab32 = map of_char ''23456789abcdefghijkmnpqrstuvwxyz''"

text \<open>\<open>strchr(tab, c)\<close> finds the terminator of the table too, at index 32; a character not found counts as 0.\<close>

fun index_of :: "byte list \<Rightarrow> byte \<Rightarrow> nat \<Rightarrow> nat option" where
  "index_of [] c n = None"
| "index_of (b # bs) c n = (if b = c then Some n else index_of bs c (n + 1))"

definition digit32 :: "byte \<Rightarrow> u32" where
  "digit32 c = (case index_of (tab32 @ [0]) c 0 of Some i \<Rightarrow> of_nat i | None \<Rightarrow> 0)"

definition d32_0 :: "u32 \<Rightarrow> u32 \<Rightarrow> byte" where
  "d32_0 u0 u1 = ucast (push_bit 3 u0 OR (7 AND drop_bit 2 u1))"
definition d32_1 :: "u32 \<Rightarrow> u32 \<Rightarrow> u32 \<Rightarrow> byte" where
  "d32_1 u1 u2 u3 = ucast (push_bit 6 (3 AND u1) OR push_bit 1 u2 OR (1 AND drop_bit 4 u3))"
definition d32_2 :: "u32 \<Rightarrow> u32 \<Rightarrow> byte" where
  "d32_2 u3 u4 = ucast (push_bit 4 (0xF AND u3) OR (0xF AND drop_bit 1 u4))"
definition d32_3 :: "u32 \<Rightarrow> u32 \<Rightarrow> u32 \<Rightarrow> byte" where
  "d32_3 u4 u5 u6 = ucast (push_bit 7 (1 AND u4) OR push_bit 2 u5 OR (3 AND drop_bit 3 u6))"
definition d32_4 :: "u32 \<Rightarrow> u32 \<Rightarrow> byte" where
  "d32_4 u6 u7 = ucast (push_bit 5 (7 AND u6) OR u7)"

text \<open>The tail of at most seven characters; lengths 1, 3 and 6 are refused.\<close>

definition dec32_tail :: "byte list \<Rightarrow> nat \<Rightarrow> u32 list \<Rightarrow> (byte list \<times> int) option" where
  "dec32_tail out o0 u = (let n = length u in
     if n = 0 then Some (out, int o0)
     else if n = 1 \<or> n = 3 \<or> n = 6 then Some (out, -1)
     else do {
       out \<leftarrow> wrn out o0 [d32_0 (u ! 0) (u ! 1)];
       if n = 2 then Some (out, int (o0 + 1)) else do {
       out \<leftarrow> wrn out (o0 + 1) [d32_1 (u ! 1) (u ! 2) (u ! 3)];
       if n = 4 then Some (out, int (o0 + 2)) else do {
       out \<leftarrow> wrn out (o0 + 2) [d32_2 (u ! 3) (u ! 4)];
       if n = 5 then Some (out, int (o0 + 3)) else do {
       out \<leftarrow> wrn out (o0 + 3) [d32_3 (u ! 4) (u ! 5) (u ! 6)];
       Some (out, int (o0 + 4)) } } } })"

fun dec32_loop :: "byte list \<Rightarrow> nat \<Rightarrow> u32 list \<Rightarrow> (byte list \<times> int) option" where
  "dec32_loop out o0 (u0 # u1 # u2 # u3 # u4 # u5 # u6 # u7 # us) = do {
     out \<leftarrow> wrn out o0 [d32_0 u0 u1];
     out \<leftarrow> wrn out (o0 + 1) [d32_1 u1 u2 u3];
     out \<leftarrow> wrn out (o0 + 2) [d32_2 u3 u4];
     out \<leftarrow> wrn out (o0 + 3) [d32_3 u4 u5 u6];
     out \<leftarrow> wrn out (o0 + 4) [d32_4 u6 u7];
     dec32_loop out (o0 + 5) us }"
| "dec32_loop out o0 u = dec32_tail out o0 u"

definition dec32 :: "byte list \<Rightarrow> nat \<Rightarrow> byte list \<Rightarrow> (byte list \<times> int) option" where
  "dec32 dest ndest src = (if ndest + 1 < (5 * length src + 7) div 8 then Some (dest, -1)
     else dec32_loop dest 0 (map digit32 src))"

text \<open>The eight digits of five bytes. The last group may have one to four bytes.\<close>

definition e32 :: "u32 \<Rightarrow> byte" where
  "e32 j = tab32 ! unat j"

definition j32_1 :: "u32 \<Rightarrow> u32 \<Rightarrow> u32" where
  "j32_1 s0 s1 = (0x1C AND push_bit 2 s0) OR (3 AND drop_bit 6 s1)"
definition j32_3 :: "u32 \<Rightarrow> u32 \<Rightarrow> u32" where
  "j32_3 s1 s2 = (0x10 AND push_bit 4 s1) OR (0xF AND drop_bit 4 s2)"
definition j32_4 :: "u32 \<Rightarrow> u32 \<Rightarrow> u32" where
  "j32_4 s2 s3 = (0x1E AND push_bit 1 s2) OR (1 AND drop_bit 7 s3)"
definition j32_6 :: "u32 \<Rightarrow> u32 \<Rightarrow> u32" where
  "j32_6 s3 s4 = (0x18 AND push_bit 3 s3) OR (7 AND drop_bit 5 s4)"

definition enc32_tail :: "u32 list \<Rightarrow> u32 list" where
  "enc32_tail s = (let n = length s in
     if n = 0 then []
     else (0x1F AND drop_bit 3 (s ! 0)) #
       (if n = 1 then [0x1C AND push_bit 2 (s ! 0)]
        else j32_1 (s ! 0) (s ! 1) #
       (if n = 2 then [0x1F AND drop_bit 1 (s ! 1)]
        else (0x1F AND drop_bit 1 (s ! 1)) #
       (if n = 3 then [0x10 AND push_bit 4 (s ! 1)]
        else j32_3 (s ! 1) (s ! 2) #
       (if n = 4 then [0x1E AND push_bit 1 (s ! 2)]
        else [j32_4 (s ! 2) (s ! 3), 0x1F AND drop_bit 2 (s ! 3), 0x18 AND push_bit 3 (s ! 3)])))))"

fun enc32_loop :: "byte list \<Rightarrow> nat \<Rightarrow> u32 list \<Rightarrow> (byte list \<times> int) option" where
  "enc32_loop out o0 (s0 # s1 # s2 # s3 # s4 # ss) = do {
     out \<leftarrow> wrn out o0 (map e32 [0x1F AND drop_bit 3 s0, j32_1 s0 s1, 0x1F AND drop_bit 1 s1, j32_3 s1 s2,
       j32_4 s2 s3, 0x1F AND drop_bit 2 s3, j32_6 s3 s4, 0x1F AND s4]);
     enc32_loop out (o0 + 8) ss }"
| "enc32_loop out o0 s = (let js = enc32_tail s in do {
     out \<leftarrow> wrn out o0 (map e32 js @ [0]);
     Some (out, int (o0 + length js)) })"

definition enc32 :: "byte list \<Rightarrow> nat \<Rightarrow> byte list \<Rightarrow> (byte list \<times> int) option" where
  "enc32 dest ndest src = (if ndest \<le> (8 * length src + 4) div 5 then Some (dest, -1)
     else enc32_loop dest 0 (map ucast src))"

section \<open>Base 64\<close>

abbreviation INVAL :: byte where "INVAL \<equiv> 255"

definition t64d :: "byte list" where
  "t64d = replicate 43 INVAL @ [62] @ replicate 3 INVAL @ [63] @ map of_nat [52 ..< 62] @ replicate 7 INVAL @
     map of_nat [0 ..< 26] @ replicate 6 INVAL @ map of_nat [26 ..< 52] @ replicate 133 INVAL"

definition t64e :: "byte list" where
  "t64e = map of_char ''ABCDEFGHIJKLMNOPQRSTUVWXYZabcdefghijklmnopqrstuvwxyz0123456789+/''"

fun dec64_loop :: "byte list \<Rightarrow> nat \<Rightarrow> nat \<Rightarrow> u64 \<Rightarrow> nat \<Rightarrow> byte list \<Rightarrow> (byte list \<times> int) option" where
  "dec64_loop out o0 e b24 i [] =
     (if i = 2 then if o0 + 1 > e then Some (out, int o0) else do {
        out \<leftarrow> wrn out o0 [ucast (drop_bit 16 b24)];
        Some (out, int (o0 + 1)) }
      else if i = 3 then if o0 + 2 > e then Some (out, int o0) else do {
        out \<leftarrow> wrn out o0 [ucast (drop_bit 16 b24), ucast (drop_bit 8 b24)];
        Some (out, int (o0 + 2)) }
      else Some (out, int o0))"
| "dec64_loop out o0 e b24 i (b # in0) = (let c = t64d ! unat b in
     if c = INVAL then dec64_loop out o0 e b24 i in0
     else if i = 0 then dec64_loop out o0 e (push_bit 18 (ucast c)) 1 in0
     else if i = 1 then dec64_loop out o0 e (b24 OR push_bit 12 (ucast c)) 2 in0
     else if i = 2 then dec64_loop out o0 e (b24 OR push_bit 6 (ucast c)) 3 in0
     else if o0 + 3 > e then Some (out, int o0)
     else let b24 = b24 OR ucast c in do {
       out \<leftarrow> wrn out o0 [ucast (drop_bit 16 b24), ucast (drop_bit 8 b24), ucast b24];
       dec64_loop out (o0 + 3) e b24 0 in0 })"

definition dec64 :: "byte list \<Rightarrow> nat \<Rightarrow> byte list \<Rightarrow> (byte list \<times> int) option" where
  "dec64 out lim in0 = dec64_loop out 0 lim 0 0 in0"

definition e64 :: "u64 \<Rightarrow> byte" where
  "e64 k = t64e ! unat k"

definition done64 :: "byte list \<Rightarrow> nat \<Rightarrow> (byte list \<times> int) option" where
  "done64 out o0 = do { out \<leftarrow> wrn out o0 [0]; Some (out, int o0) }"

fun enc64_loop :: "byte list \<Rightarrow> nat \<Rightarrow> nat \<Rightarrow> byte list \<Rightarrow> (byte list \<times> int) option" where
  "enc64_loop out o0 e (x # y # z # in0) = (let b24 = push_bit 16 (ucast x) OR push_bit 8 (ucast y) OR ucast z in
     if o0 + 4 \<ge> e then done64 out o0 else do {
       out \<leftarrow> wrn out o0 [e64 (drop_bit 18 b24), e64 (drop_bit 12 b24 AND 0x3F), e64 (drop_bit 6 b24 AND 0x3F), e64 (b24 AND 0x3F)];
       enc64_loop out (o0 + 4) e in0 })"
| "enc64_loop out o0 e [x, y] = (let b24 = push_bit 16 (ucast x) OR push_bit 8 (ucast y) in
     if o0 + 4 \<ge> e then done64 out o0 else do {
       out \<leftarrow> wrn out o0 [e64 (drop_bit 18 b24), e64 (drop_bit 12 b24 AND 0x3F), e64 (drop_bit 6 b24 AND 0x3F), 0x3D];
       done64 out (o0 + 4) })"
| "enc64_loop out o0 e [x] = (let b24 = push_bit 16 (ucast x) in
     if o0 + 4 \<ge> e then done64 out o0 else do {
       out \<leftarrow> wrn out o0 [e64 (drop_bit 18 b24), e64 (drop_bit 12 b24 AND 0x3F), 0x3D, 0x3D];
       done64 out (o0 + 4) })"
| "enc64_loop out o0 e [] = done64 out o0"

definition enc64 :: "byte list \<Rightarrow> nat \<Rightarrow> byte list \<Rightarrow> (byte list \<times> int) option" where
  "enc64 out lim in0 = enc64_loop out 0 lim in0"

end
