(* ===== verification/EncCode.thy ===== *)
theory EncCode
  imports Enc
begin

unbundle bit_operations_syntax

text \<open>
  The text codecs against their contract, the locale \<open>text_codec\<close>, and its three interpretations, base 16, base 32
  (for the inputs it does not lose) and base 64.
\<close>

section \<open>The contract\<close>

text \<open>
  A text codec: on the inputs it is meant for, with room for the text and its terminator, the encoder writes exactly
  the text of the input; the decoder reads that text back. \<open>good\<close> are the inputs, \<open>text\<close> their texts.
\<close>

locale text_codec =
  fixes good :: "byte list \<Rightarrow> bool" and coded :: "byte list \<Rightarrow> byte list"
    and enc :: "byte list \<Rightarrow> nat \<Rightarrow> byte list \<Rightarrow> (byte list \<times> int) option"
    and dec :: "byte list \<Rightarrow> nat \<Rightarrow> byte list \<Rightarrow> (byte list \<times> int) option"
  assumes enc_coded: "\<lbrakk> good xs; length (coded xs) < lim; lim \<le> length buf \<rbrakk> \<Longrightarrow>
      enc buf lim xs = Some (overlay buf (coded xs @ [0]), int (length (coded xs)))"
    and dec_coded: "\<lbrakk> good xs; length xs \<le> lim; lim \<le> length buf \<rbrakk> \<Longrightarrow>
      dec buf lim (coded xs) = Some (overlay buf xs, int (length xs))"
begin

lemma roundtrip:
  "\<lbrakk> good xs; length (coded xs) < lim; lim \<le> length buf; length xs \<le> lim'; lim' \<le> length buf' \<rbrakk> \<Longrightarrow>
    \<exists>t n b. enc buf lim xs = Some (t, int n) \<and> length t = length buf \<and> n < lim \<and> t ! n = 0 \<and>
      dec buf' lim' (take n t) = Some (b, int (length xs)) \<and> take (length xs) b = xs"
  by (intro exI [of _ "overlay buf (coded xs @ [0])"] exI [of _ "length (coded xs)"] exI [of _ "overlay buf' xs"])
    (simp add: enc_coded dec_coded overlay_def)

lemma coded_inj: "\<lbrakk> good xs; good ys; coded xs = coded ys \<rbrakk> \<Longrightarrow> xs = ys"
proof -
  assume g: "good xs" "good ys" "coded xs = coded ys"
  let ?buf = "replicate (length xs + length ys) 0" and ?lim = "length xs + length ys"
  have "dec ?buf ?lim (coded xs) = Some (overlay ?buf xs, int (length xs))" "dec ?buf ?lim (coded ys) = Some (overlay ?buf ys, int (length ys))"
    using g(1,2) by (auto intro: dec_coded)
  then have "(overlay ?buf xs, int (length xs)) = (overlay ?buf ys, int (length ys))" unfolding g(3) by (metis option.inject)
  then show "xs = ys" by (auto simp: overlay_def dest: arg_cong [of _ _ "take (length xs)"])
qed

end

section \<open>Base 16\<close>

definition hex :: "byte \<Rightarrow> byte list" where
  "hex c = [t16e ! unat (drop_bit 4 c), t16e ! unat (c AND 0xF)]"

definition coded16 :: "byte list \<Rightarrow> byte list" where
  "coded16 xs = concat (map hex xs)"

lemma length_coded16 [simp]: "length (coded16 xs) = 2 * length xs"
  by (induction xs) (auto simp: coded16_def hex_def)

lemma byte_all: "list_all P (map word_of_int [0..255]) \<Longrightarrow> P (c :: byte)"
proof -
  assume "list_all P (map word_of_int [0..255])"
  moreover have "uint c \<in> set [0..255]" using uint_bounded [of c] by simp
  ultimately have "P (word_of_int (uint c))" by (simp only: list_all_iff set_map ball_simps)
  then show ?thesis by simp
qed

lemma hex_inverse: "case map digit16 (hex c) of [Some a, Some b] \<Rightarrow> ucast (push_bit 4 (push_bit 4 0 + a) + b) = c | _ \<Rightarrow> False"
  by (rule byte_all) code_simp

lemma enc16_loop_coded: "\<lbrakk> length acc + 2 * length xs < lim; lim \<le> length buf \<rbrakk> \<Longrightarrow>
    enc16_loop (overlay buf acc) (length acc) lim xs = Some (overlay buf (acc @ coded16 xs @ [0]), int (length acc + 2 * length xs))"
proof (induction xs arbitrary: acc)
  case Nil
  then show ?case by (simp add: wrn_overlay coded16_def)
next
  case (Cons c xs)
  from Cons show ?case using Cons.IH [of "acc @ hex c"] by (simp add: wrn_overlay coded16_def hex_def)
qed

lemma dec16_loop_coded: "\<lbrakk> length acc + length xs \<le> lim; lim \<le> length buf \<rbrakk> \<Longrightarrow>
    dec16_loop (overlay buf acc) (length acc) lim 0 0 (coded16 xs) = Some (overlay buf (acc @ xs), int (length acc + length xs))"
proof (induction xs arbitrary: acc)
  case (Cons c xs)
  from hex_inverse [of c] obtain a b where h: "hex c = [hex c ! 0, hex c ! 1]" "digit16 (hex c ! 0) = Some a" "digit16 (hex c ! 1) = Some b"
    "ucast (push_bit 4 a + b) = c" by (auto simp: hex_def split: option.splits)
  have "coded16 (c # xs) = hex c ! 0 # hex c ! 1 # coded16 xs" by (simp add: coded16_def hex_def)
  then show ?case using Cons.IH [of "acc @ [c]"] Cons.prems h by (simp add: wrn_overlay)
qed (simp add: coded16_def)

interpretation b16: text_codec "\<lambda>xs. True" coded16 enc16 dec16
  using enc16_loop_coded [of "[]"] dec16_loop_coded [of "[]"]
  by unfold_locales (simp_all add: enc16_def dec16_def)

section \<open>Base 32\<close>

lemma byte_eq_bits: "(a :: byte) = b \<longleftrightarrow> (\<forall>n \<in> {0, 1, 2, 3, 4, 5, 6, 7}. bit a n = bit b n)"
proof
  assume r: "\<forall>n \<in> {0, 1, 2, 3, 4, 5, 6, 7}. bit a n = bit b n"
  show "a = b"
  proof (rule bit_word_eqI)
    fix n assume "n < LENGTH(8)"
    then have "n \<in> {0, 1, 2, 3, 4, 5, 6, 7}" by auto
    with r show "bit a n = bit b n" by blast
  qed
qed simp

lemma digit32_all: "list_all (\<lambda>k. digit32 (e32 (word_of_int k)) = word_of_int k) [0..31]"
  by code_simp

lemma and_num: "((a :: u32) AND x) AND m = (a AND m) AND x"
  by (simp add: and.assoc and.commute [of x])

lemma digit32_e32: "j AND 0x1F = j \<Longrightarrow> digit32 (e32 j) = j"
proof -
  assume "j AND 0x1F = j"
  moreover have "uint (j AND 0x1F) = uint j AND 0x1F" by (simp add: unsigned_and_eq)
  ultimately have "uint j = uint j AND 0x1F" by simp
  also have "\<dots> = uint j mod 32" using take_bit_eq_mask [of 5 "uint j"] by (simp add: mask_eq_exp_minus_1 take_bit_eq_mod)
  finally have "uint j = uint j mod 32" .
  moreover have "uint j mod 32 < 32" by simp
  ultimately have "uint j < 32" by metis
  then have "uint j \<in> set [0..31]" by simp
  then have "digit32 (e32 (word_of_int (uint j))) = word_of_int (uint j)" using digit32_all by (simp only: list_all_iff)
  then show ?thesis by simp
qed

lemma low32:
  "(0x1F AND x) AND 0x1F = (0x1F :: u32) AND x" "(0x1C AND x) AND 0x1F = (0x1C :: u32) AND x" "(0x10 AND x) AND 0x1F = (0x10 :: u32) AND x"
  "(0x1E AND x) AND 0x1F = (0x1E :: u32) AND x" "(0x18 AND x) AND 0x1F = (0x18 :: u32) AND x" "(3 AND x) AND 0x1F = (3 :: u32) AND x"
  "(0xF AND x) AND 0x1F = (0xF :: u32) AND x" "(1 AND x) AND 0x1F = (1 :: u32) AND x" "(7 AND x) AND 0x1F = (7 :: u32) AND x"
  by (subst and_num, simp)+

lemma digits32 [simp]:
  "digit32 (e32 (0x1F AND x)) = 0x1F AND x" "digit32 (e32 (0x1C AND x)) = 0x1C AND x"
  "digit32 (e32 (j32_1 s t)) = j32_1 s t" "digit32 (e32 (j32_3 s t)) = j32_3 s t" "digit32 (e32 (j32_4 s t)) = j32_4 s t" "digit32 (e32 (j32_6 s t)) = j32_6 s t"
  by (rule digit32_e32, simp add: low32 bit.conj_disj_distrib2 j32_1_def j32_3_def j32_4_def j32_6_def)+

lemma bit_times2: "bit ((x :: u32) * 2) n \<longleftrightarrow> n < 32 \<and> n \<noteq> 0 \<and> bit x (n - 1)"
  using bit_double_iff [of x n] by (auto simp: mult.commute)

lemma group32:
  "d32_0 (0x1F AND drop_bit 3 (ucast s0)) (j32_1 (ucast s0) t) = s0"
  "d32_0 (0x1F AND drop_bit 3 (ucast s0)) (0x1C AND push_bit 2 (ucast s0)) = s0"
  "d32_1 (j32_1 t (ucast s1)) (0x1F AND drop_bit (Suc 0) (ucast s1)) (j32_3 (ucast s1) u) = s1"
  "d32_2 (j32_3 t (ucast s2)) (j32_4 (ucast s2) u) = s2"
  "d32_3 (j32_4 t (ucast s3)) (0x1F AND drop_bit 2 (ucast s3)) (j32_6 (ucast s3) u) = s3"
  "d32_4 (j32_6 t (ucast s4)) (0x1F AND ucast s4) = s4"
  by (simp_all add: byte_eq_bits d32_0_def d32_1_def d32_2_def d32_3_def d32_4_def j32_1_def j32_3_def j32_4_def j32_6_def bit_simps bit_times2)
    (simp_all add: numeral_eq_Suc)

fun coded32 :: "byte list \<Rightarrow> byte list" where
  "coded32 (s0 # s1 # s2 # s3 # s4 # ss) = map e32 [0x1F AND drop_bit 3 (ucast s0), j32_1 (ucast s0) (ucast s1),
     0x1F AND drop_bit 1 (ucast s1), j32_3 (ucast s1) (ucast s2), j32_4 (ucast s2) (ucast s3), 0x1F AND drop_bit 2 (ucast s3),
     j32_6 (ucast s3) (ucast s4), 0x1F AND ucast s4] @ coded32 ss"
| "coded32 s = map e32 (enc32_tail (map ucast s))"

lemma list_short_cases: "length xs < 5 \<Longrightarrow> xs = [] \<or> (\<exists>a. xs = [a]) \<or> (\<exists>a b. xs = [a, b]) \<or> (\<exists>a b c. xs = [a, b, c]) \<or> (\<exists>a b c d. xs = [a, b, c, d])"
  by (auto simp: numeral_eq_Suc length_Suc_conv less_Suc_eq)

lemma coded32_short: "length s < 5 \<Longrightarrow> coded32 s = map e32 (enc32_tail (map ucast s))"
  using list_short_cases [of s] by auto

lemma enc32_loop_short: "length s < 5 \<Longrightarrow> enc32_loop out o0 s = (let js = enc32_tail s in do {
     out \<leftarrow> wrn out o0 (map e32 js @ [0]);
     Some (out, int (o0 + length js)) })"
  using list_short_cases [of s] by auto

lemma enc32_loop_coded: "\<lbrakk> length acc + length (coded32 xs) < length buf \<rbrakk> \<Longrightarrow>
    enc32_loop (overlay buf acc) (length acc) (map ucast xs) = Some (overlay buf (acc @ coded32 xs @ [0]), int (length acc + length (coded32 xs)))"
proof (induction xs arbitrary: acc rule: coded32.induct)
  case (1 s0 s1 s2 s3 s4 ss)
  define g where "g = map e32 [0x1F AND drop_bit 3 (ucast s0), j32_1 (ucast s0) (ucast s1),
     0x1F AND drop_bit 1 (ucast s1), j32_3 (ucast s1) (ucast s2), j32_4 (ucast s2) (ucast s3), 0x1F AND drop_bit 2 (ucast s3),
     j32_6 (ucast s3) (ucast s4), 0x1F AND ucast s4]"
  have c: "coded32 (s0 # s1 # s2 # s3 # s4 # ss) = g @ coded32 ss" "length g = 8" by (simp_all add: g_def)
  have "wrn (overlay buf acc) (length acc) g = Some (overlay buf (acc @ g))" using 1(2) c by (intro wrn_overlay) simp_all
  then have "enc32_loop (overlay buf acc) (length acc) (map ucast (s0 # s1 # s2 # s3 # s4 # ss))
      = enc32_loop (overlay buf (acc @ g)) (length acc + 8) (map ucast ss)"
    by (simp add: g_def)
  then show ?case using 1(1) [of "acc @ g"] 1(2) c by simp
qed (simp_all add: enc32_loop_short wrn_overlay enc32_tail_def)

lemma length_coded32: "length (coded32 xs) \<le> (8 * length xs + 4) div 5"
  by (induction xs rule: coded32.induct) (simp_all add: enc32_tail_def)

definition good32 :: "byte list \<Rightarrow> bool" where
  "good32 xs \<longleftrightarrow> length xs mod 5 \<le> 1"

lemma length_coded32_good: "good32 xs \<Longrightarrow> length (coded32 xs) = (8 * length xs + 4) div 5"
  by (induction xs rule: coded32.induct) (auto simp: enc32_tail_def good32_def)

lemma dec32_group:
  assumes "length acc + 5 \<le> length buf"
  shows "dec32_loop (overlay buf acc) (length acc) (u0 # u1 # u2 # u3 # u4 # u5 # u6 # u7 # us) =
    dec32_loop (overlay buf (acc @ [d32_0 u0 u1, d32_1 u1 u2 u3, d32_2 u3 u4, d32_3 u4 u5 u6, d32_4 u6 u7])) (length acc + 5) us"
proof -
  have w: "wrn (overlay buf (acc @ ys)) (length acc + length ys) [z] = Some (overlay buf (acc @ ys @ [z]))" if "length ys < 5" for ys z
    using that assms wrn_overlay [of "length (acc @ ys)" "acc @ ys" "[z]" buf] by simp
  show ?thesis
    using w [of "[]" "d32_0 u0 u1"] w [of "[d32_0 u0 u1]" "d32_1 u1 u2 u3"] w [of "[d32_0 u0 u1, d32_1 u1 u2 u3]" "d32_2 u3 u4"]
      w [of "[d32_0 u0 u1, d32_1 u1 u2 u3, d32_2 u3 u4]" "d32_3 u4 u5 u6"] w [of "[d32_0 u0 u1, d32_1 u1 u2 u3, d32_2 u3 u4, d32_3 u4 u5 u6]" "d32_4 u6 u7"]
    by (simp add: numeral_eq_Suc)
qed

lemma dec32_loop_coded: "\<lbrakk> good32 xs; length acc + length xs \<le> length buf \<rbrakk> \<Longrightarrow>
    dec32_loop (overlay buf acc) (length acc) (map digit32 (coded32 xs)) = Some (overlay buf (acc @ xs), int (length acc + length xs))"
proof (induction xs arbitrary: acc rule: coded32.induct)
  case (1 s0 s1 s2 s3 s4 ss)
  then have g: "good32 ss" by (simp add: good32_def)
  have "map digit32 (coded32 (s0 # s1 # s2 # s3 # s4 # ss)) = [0x1F AND drop_bit 3 (ucast s0), j32_1 (ucast s0) (ucast s1),
     0x1F AND drop_bit 1 (ucast s1), j32_3 (ucast s1) (ucast s2), j32_4 (ucast s2) (ucast s3), 0x1F AND drop_bit 2 (ucast s3),
     j32_6 (ucast s3) (ucast s4), 0x1F AND ucast s4] @ map digit32 (coded32 ss)" by simp
  then have "dec32_loop (overlay buf acc) (length acc) (map digit32 (coded32 (s0 # s1 # s2 # s3 # s4 # ss)))
      = dec32_loop (overlay buf (acc @ [s0, s1, s2, s3, s4])) (length acc + 5) (map digit32 (coded32 ss))"
    using 1(3) by (simp add: dec32_group group32 del: dec32_loop.simps)
  also have "\<dots> = Some (overlay buf (acc @ s0 # s1 # s2 # s3 # s4 # ss), int (length acc + length (s0 # s1 # s2 # s3 # s4 # ss)))"
    using 1(1) [OF g, of "acc @ [s0, s1, s2, s3, s4]"] 1(3) by (simp add: numeral_eq_Suc)
  finally show ?case .
qed (auto simp: good32_def enc32_tail_def dec32_tail_def group32 wrn_overlay)

interpretation b32: text_codec good32 coded32 enc32 dec32
proof (unfold_locales, goal_cases)
  case (1 xs lim buf)
  then show ?case using enc32_loop_coded [of "[]" xs buf] length_coded32_good [of xs] by (simp add: enc32_def)
next
  case (2 xs lim buf)
  have "(5 * length (coded32 xs) + 7) div 8 \<le> length xs + 1" using length_coded32 [of xs] by simp
  then show ?case using 2 dec32_loop_coded [of xs "[]" buf] by (simp add: dec32_def)
qed

section \<open>Base 64\<close>

definition sextets :: "u64 \<Rightarrow> byte list" where
  "sextets b24 = [e64 (drop_bit 18 b24), e64 (drop_bit 12 b24 AND 0x3F), e64 (drop_bit 6 b24 AND 0x3F), e64 (b24 AND 0x3F)]"

definition b24_of :: "byte \<Rightarrow> byte \<Rightarrow> byte \<Rightarrow> u64" where
  "b24_of x y z = push_bit 16 (ucast x) OR push_bit 8 (ucast y) OR ucast z"

fun coded64 :: "byte list \<Rightarrow> byte list" where
  "coded64 (x # y # z # xs) = sextets (b24_of x y z) @ coded64 xs"
| "coded64 [x, y] = take 3 (sextets (b24_of x y 0)) @ [0x3D]"
| "coded64 [x] = take 2 (sextets (b24_of x 0 0)) @ [0x3D, 0x3D]"
| "coded64 [] = []"

lemma length_sextets [simp]: "length (sextets b) = 4"
  by (simp add: sextets_def)

lemma length_coded64: "length (coded64 xs) = 4 * ((length xs + 2) div 3)"
  by (induction xs rule: coded64.induct) (simp_all, presburger)

lemma enc64_loop_groups:
  "enc64_loop out o0 e (x # y # z # xs) = (if o0 + 4 \<ge> e then done64 out o0
     else do { out \<leftarrow> wrn out o0 (sextets (b24_of x y z)); enc64_loop out (o0 + 4) e xs })"
  "enc64_loop out o0 e [x, y] = (if o0 + 4 \<ge> e then done64 out o0
     else do { out \<leftarrow> wrn out o0 (coded64 [x, y]); done64 out (o0 + 4) })"
  "enc64_loop out o0 e [x] = (if o0 + 4 \<ge> e then done64 out o0
     else do { out \<leftarrow> wrn out o0 (coded64 [x]); done64 out (o0 + 4) })"
  by (simp_all add: sextets_def b24_of_def Let_def)

lemma enc64_loop_coded: "\<lbrakk> length acc + length (coded64 xs) < lim; lim \<le> length buf \<rbrakk> \<Longrightarrow>
    enc64_loop (overlay buf acc) (length acc) lim xs = Some (overlay buf (acc @ coded64 xs @ [0]), int (length acc + length (coded64 xs)))"
proof (induction xs arbitrary: acc rule: coded64.induct)
  case (1 x y z xs)
  then show ?case using 1(1) [of "acc @ sextets (b24_of x y z)"] by (simp add: enc64_loop_groups wrn_overlay del: enc64_loop.simps)
next
  case (2 x y)
  then show ?case using wrn_overlay [of "length acc + 4" "acc @ coded64 [x, y]" "[0]" buf]
    by (simp add: enc64_loop_groups done64_def wrn_overlay del: enc64_loop.simps)
next
  case (3 x)
  then show ?case using wrn_overlay [of "length acc + 4" "acc @ coded64 [x]" "[0]" buf]
    by (simp add: enc64_loop_groups done64_def wrn_overlay del: enc64_loop.simps)
qed (simp add: done64_def wrn_overlay)

definition d64 :: "byte \<Rightarrow> byte" where
  "d64 b = t64d ! unat b"

lemma d64_all: "list_all (\<lambda>k. d64 (e64 (word_of_int k)) = word_of_int k) [0..63] \<and> d64 0x3D = INVAL"
  by code_simp

lemma d64_e64: "k AND 0x3F = k \<Longrightarrow> d64 (e64 k) = ucast k \<and> (ucast k :: byte) \<noteq> INVAL"
proof -
  assume "k AND 0x3F = k"
  moreover have "uint (k AND 0x3F) = uint k AND 0x3F" by (simp add: unsigned_and_eq)
  moreover have "uint k AND 0x3F = uint k mod 64" using take_bit_eq_mask [of 6 "uint k"] by (simp add: mask_eq_exp_minus_1 take_bit_eq_mod)
  moreover have "uint k mod 64 < 64" by simp
  ultimately have k: "uint k < 64" by metis
  then have "uint k \<in> set [0..63]" by simp
  then have e: "d64 (e64 (word_of_int (uint k))) = word_of_int (uint k)" using d64_all by (simp only: list_all_iff)
  have "uint (ucast k :: byte) = uint k" using k by (simp add: unsigned_ucast_eq take_bit_int_eq_self)
  then have "(ucast k :: byte) \<noteq> INVAL" using k by (auto simp: word_uint_eq_iff)
  moreover have "d64 (e64 k) = ucast k" unfolding ucast_eq using e by simp
  ultimately show ?thesis by simp
qed

lemma bit_byte_high: "8 \<le> n \<Longrightarrow> \<not> bit (x :: byte) n"
  by (auto dest: bit_imp_le_length)

lemma bit_3F: "bit (0x3F :: int) n \<longleftrightarrow> n < 6"
proof -
  have "(0x3F :: int) = mask 6" by (simp add: mask_eq_exp_minus_1)
  moreover have "bit (mask 6 :: int) n \<longleftrightarrow> n < 6" unfolding bit_mask_iff by auto
  ultimately show ?thesis by metis
qed

lemma top_sextet: "drop_bit 18 (b24_of x y z) AND 0x3F = drop_bit 18 (b24_of x y z)"
  by (rule bit_word_eqI) (auto simp: b24_of_def bit_simps bit_3F dest: bit_imp_le_length)

definition joined :: "u64 \<Rightarrow> u64 \<Rightarrow> u64" where
  "joined b m = push_bit 18 (ucast (ucast (drop_bit 18 b) :: byte)) OR push_bit 12 (ucast (ucast (drop_bit 12 b AND 0x3F) :: byte)) OR m"

lemma joined_bytes:
  "ucast (drop_bit 16 (joined (b24_of x y z) (push_bit 6 (ucast (ucast (drop_bit 6 (b24_of x y z) AND 0x3F) :: byte)) OR ucast (ucast (b24_of x y z AND 0x3F) :: byte)))) = x"
  "ucast (drop_bit 8 (joined (b24_of x y z) (push_bit 6 (ucast (ucast (drop_bit 6 (b24_of x y z) AND 0x3F) :: byte)) OR ucast (ucast (b24_of x y z AND 0x3F) :: byte)))) = y"
  "ucast (joined (b24_of x y z) (push_bit 6 (ucast (ucast (drop_bit 6 (b24_of x y z) AND 0x3F) :: byte)) OR ucast (ucast (b24_of x y z AND 0x3F) :: byte))) = z"
  "ucast (drop_bit 16 (joined (b24_of x y 0) (push_bit 6 (ucast (ucast (drop_bit 6 (b24_of x y 0) AND 0x3F) :: byte))))) = x"
  "ucast (drop_bit 8 (joined (b24_of x y 0) (push_bit 6 (ucast (ucast (drop_bit 6 (b24_of x y 0) AND 0x3F) :: byte))))) = y"
  "ucast (drop_bit 16 (joined (b24_of x 0 0) 0)) = x"
  by (simp_all add: byte_eq_bits joined_def b24_of_def bit_simps bit_byte_high)
    (simp_all add: numeral_eq_Suc)

lemma low_sextet: "(a AND 0x3F) AND 0x3F = (a :: u64) AND 0x3F"
  by (simp add: and.assoc)

lemma dec64_step:
  "k AND 0x3F = k \<Longrightarrow> dec64_loop out o0 e b24 i (e64 k # in0) = (
     if i = 0 then dec64_loop out o0 e (push_bit 18 (ucast (ucast k :: byte))) 1 in0
     else if i = 1 then dec64_loop out o0 e (b24 OR push_bit 12 (ucast (ucast k :: byte))) 2 in0
     else if i = 2 then dec64_loop out o0 e (b24 OR push_bit 6 (ucast (ucast k :: byte))) 3 in0
     else if o0 + 3 > e then Some (out, int o0)
     else let b24 = b24 OR ucast (ucast k :: byte) in do {
       out \<leftarrow> wrn out o0 [ucast (drop_bit 16 b24), ucast (drop_bit 8 b24), ucast b24];
       dec64_loop out (o0 + 3) e b24 0 in0 })"
  "dec64_loop out o0 e b24 i (0x3D # in0) = dec64_loop out o0 e b24 i in0"
proof -
  assume "k AND 0x3F = k"
  from d64_e64 [OF this] have "t64d ! unat (e64 k) = ucast k" "(ucast k :: byte) \<noteq> INVAL" by (simp_all add: d64_def)
  then show "dec64_loop out o0 e b24 i (e64 k # in0) = (
     if i = 0 then dec64_loop out o0 e (push_bit 18 (ucast (ucast k :: byte))) 1 in0
     else if i = 1 then dec64_loop out o0 e (b24 OR push_bit 12 (ucast (ucast k :: byte))) 2 in0
     else if i = 2 then dec64_loop out o0 e (b24 OR push_bit 6 (ucast (ucast k :: byte))) 3 in0
     else if o0 + 3 > e then Some (out, int o0)
     else let b24 = b24 OR ucast (ucast k :: byte) in do {
       out \<leftarrow> wrn out o0 [ucast (drop_bit 16 b24), ucast (drop_bit 8 b24), ucast b24];
       dec64_loop out (o0 + 3) e b24 0 in0 })" by (simp add: Let_def)
qed (use d64_all in \<open>simp add: d64_def\<close>)

lemmas dec64_steps = dec64_step(1) [OF top_sextet] dec64_step(1) [OF low_sextet] dec64_step(2)

lemma dec64_group: "o0 + 3 \<le> e \<Longrightarrow> dec64_loop out o0 e b 0 (sextets (b24_of x y z) @ in0) =
    do { out \<leftarrow> wrn out o0 [x, y, z];
      dec64_loop out (o0 + 3) e (joined (b24_of x y z) (push_bit 6 (ucast (ucast (drop_bit 6 (b24_of x y z) AND 0x3F) :: byte)) OR ucast (ucast (b24_of x y z AND 0x3F) :: byte))) 0 in0 }"
  using joined_bytes(1-3) [of x y z]
  by (simp add: sextets_def dec64_steps joined_def or.assoc Let_def del: dec64_loop.simps)

lemma dec64_loop_coded: "\<lbrakk> length acc + length xs \<le> lim; lim \<le> length buf \<rbrakk> \<Longrightarrow>
    dec64_loop (overlay buf acc) (length acc) lim b 0 (coded64 xs) = Some (overlay buf (acc @ xs), int (length acc + length xs))"
proof (induction xs arbitrary: acc b rule: coded64.induct)
  case (1 x y z xs)
  then show ?case using 1(1) [of "acc @ [x, y, z]"] by (simp add: dec64_group wrn_overlay numeral_3_eq_3 del: dec64_loop.simps)
next
  case (2 x y)
  then show ?case using joined_bytes(4,5) [of x y]
    by (simp add: sextets_def dec64_steps joined_def or.assoc wrn_overlay del: dec64_loop.simps(2))
next
  case (3 x)
  then show ?case using joined_bytes(6) [of x]
    by (simp add: sextets_def dec64_steps joined_def wrn_overlay del: dec64_loop.simps(2))
qed simp

interpretation b64: text_codec "\<lambda>xs. True" coded64 enc64 dec64
  using enc64_loop_coded [of "[]"] dec64_loop_coded [of "[]"]
  by unfold_locales (simp_all add: enc64_def dec64_def)

end
