(* ===== verification/EncThms.thy ===== *)
theory EncThms
  imports EncCode
begin

unbundle bit_operations_syntax

text \<open>The properties of the text codecs.\<close>

text \<open>C38 (roundtrip). Encoding as text and decoding the text gives the bytes back, with the text terminated within the
  object and nothing stored outside either object: base 16 and base 64 for every input, base 32 for inputs whose length is
  a multiple of five or one more.\<close>

theorem text_roundtrip:
  "(2 * length xs < lim \<and> lim \<le> length buf \<and> length xs \<le> lim' \<and> lim' \<le> length buf' \<longrightarrow>
      (\<exists>t n b. enc16 buf lim xs = Some (t, int n) \<and> length t = length buf \<and> n < lim \<and> t ! n = 0 \<and>
        dec16 buf' lim' (take n t) = Some (b, int (length xs)) \<and> take (length xs) b = xs)) \<and>
   (4 * ((length xs + 2) div 3) < lim \<and> lim \<le> length buf \<and> length xs \<le> lim' \<and> lim' \<le> length buf' \<longrightarrow>
      (\<exists>t n b. enc64 buf lim xs = Some (t, int n) \<and> length t = length buf \<and> n < lim \<and> t ! n = 0 \<and>
        dec64 buf' lim' (take n t) = Some (b, int (length xs)) \<and> take (length xs) b = xs)) \<and>
   (length xs mod 5 \<le> 1 \<and> (8 * length xs + 4) div 5 < lim \<and> lim \<le> length buf \<and> length xs \<le> lim' \<and> lim' \<le> length buf' \<longrightarrow>
      (\<exists>t n b. enc32 buf lim xs = Some (t, int n) \<and> length t = length buf \<and> n < lim \<and> t ! n = 0 \<and>
        dec32 buf' lim' (take n t) = Some (b, int (length xs)) \<and> take (length xs) b = xs))"
  using b16.roundtrip [of xs lim buf lim' buf'] b64.roundtrip [of xs lim buf lim' buf'] b32.roundtrip [of xs lim buf lim' buf']
    length_coded32_good [of xs]
  by (simp only: length_coded16 length_coded64 good32_def simp_thms) blast

theorem text_roundtrip_witness:
  "(\<exists>t n b. enc64 (replicate 5 7) 5 [1, 2] = Some (t, int n) \<and> dec64 [9, 9] 2 (take n t) = Some (b, 2) \<and> take (length [1, 2 :: byte]) b = [1, 2]) \<and>
   (\<exists>t n b. enc32 (replicate 5 7) 5 [255] = Some (t, int n) \<and> dec32 [9, 9] 2 (take n t) = Some (b, 1) \<and> take 1 b = [255])"
proof (rule conjI)
  show "\<exists>t n b. enc64 (replicate 5 7) 5 [1, 2] = Some (t, int n) \<and> dec64 [9, 9] 2 (take n t) = Some (b, 2) \<and> take (length [1, 2 :: byte]) b = [1, 2]"
    using text_roundtrip [of "[1, 2]" 5 "replicate 5 7" 2 "[9, 9]", THEN conjunct2, THEN conjunct1] by auto
  show "\<exists>t n b. enc32 (replicate 5 7) 5 [255] = Some (t, int n) \<and> dec32 [9, 9] 2 (take n t) = Some (b, 1) \<and> take 1 b = [255]"
    using text_roundtrip [of "[255]" 5 "replicate 5 7" 2 "[9, 9]", THEN conjunct2, THEN conjunct2] by auto
qed

lemma enc32_tail_last:
  assumes "2 \<le> length s" "length s < 5"
  shows "enc32_tail (map ucast (butlast s @ [last s XOR (1 :: byte)])) = enc32_tail (map ucast s)"
proof -
  have 1: "drop_bit (Suc 0) (ucast (b XOR 1) :: u32) = drop_bit (Suc 0) (ucast b)" "drop_bit 6 (ucast (b XOR 1) :: u32) = drop_bit 6 (ucast b)" for b :: byte
    by (rule bit_word_eqI; simp add: bit_simps)+
  consider a b where "s = [a, b]" | a b c where "s = [a, b, c]" | a b c d where "s = [a, b, c, d]"
    using list_short_cases [OF assms(2)] assms(1) by auto
  then show ?thesis by cases (simp_all add: enc32_tail_def j32_1_def 1)
qed

lemma enc32_loop_last_short: "\<lbrakk> 2 \<le> length s; length s < 5 \<rbrakk> \<Longrightarrow>
    enc32_loop out o0 (map ucast (butlast s @ [last s XOR (1 :: byte)])) = enc32_loop out o0 (map ucast s)"
  by (simp only: enc32_loop_short enc32_tail_last length_map length_append length_butlast list.size)

lemma enc32_loop_last:
  assumes "2 \<le> length s mod 5"
  shows "enc32_loop out o0 (map ucast (butlast s @ [last s XOR (1 :: byte)])) = enc32_loop out o0 (map ucast s)"
  using assms
proof (induction s arbitrary: out o0 rule: coded32.induct)
  case (1 s0 s1 s2 s3 s4 ss)
  have m: "2 \<le> length ss mod 5" using 1(2) by simp
  then have "ss \<noteq> []" by auto
  then have "butlast (s0 # s1 # s2 # s3 # s4 # ss) @ [last (s0 # s1 # s2 # s3 # s4 # ss) XOR 1] = s0 # s1 # s2 # s3 # s4 # butlast ss @ [last ss XOR 1]"
    by simp
  then show ?case using 1(1) [OF m] by simp
qed (rule enc32_loop_last_short; simp)+

text \<open>Base 32 loses data: when the length of the input leaves two, three or four bytes for the last group,
  inputs that differ in the lowest bit of the last byte have the same text.\<close>

lemma enc32_loses:
  assumes "2 \<le> length xs mod 5"
  defines "ys \<equiv> butlast xs @ [last xs XOR 1]"
  shows "ys \<noteq> xs \<and> length ys = length xs \<and> enc32 dest ndest ys = enc32 dest ndest xs"
proof -
  have ne: "xs \<noteq> []" using assms(1) by auto
  then have l: "length ys = length xs" by (simp add: ys_def)
  have "bit (last xs XOR 1) 0 \<noteq> bit (last xs) 0" by (simp add: bit_simps)
  then have "last xs XOR 1 \<noteq> last xs" by auto
  then have "ys \<noteq> xs" using ne by (metis append_butlast_last_id append_same_eq last_snoc ys_def)
  then show ?thesis using l enc32_loop_last [OF assms(1)] by (simp add: enc32_def ys_def)
qed

lemma length_8: "8 \<le> length us \<Longrightarrow> \<exists>u0 u1 u2 u3 u4 u5 u6 u7 vs. us = u0 # u1 # u2 # u3 # u4 # u5 # u6 # u7 # vs"
  by (auto simp: Suc_le_length_iff numeral_eq_Suc)

lemma dec32_last_group:
  assumes "length acc + 4 = length buf"
  shows "dec32_loop (overlay buf acc) (length acc) (u0 # u1 # u2 # u3 # u4 # u5 # u6 # u7 # us) = None"
proof -
  have w: "wrn (overlay buf (acc @ ys)) (length acc + length ys) [z] = Some (overlay buf (acc @ ys @ [z]))" if "length ys < 4" for ys z
    using that assms wrn_overlay [of "length (acc @ ys)" "acc @ ys" "[z]" buf] by simp
  have n: "wrn (overlay buf (acc @ ys)) (length acc + 4) [z] = None" if "length ys = 4" for ys z
    using that assms wrn_overlay_None [of "acc @ ys" buf "length acc + 4" "[z]"] by simp
  show ?thesis
    using w [of "[]" "d32_0 u0 u1"] w [of "[d32_0 u0 u1]" "d32_1 u1 u2 u3"] w [of "[d32_0 u0 u1, d32_1 u1 u2 u3]" "d32_2 u3 u4"]
      w [of "[d32_0 u0 u1, d32_1 u1 u2 u3, d32_2 u3 u4]" "d32_3 u4 u5 u6"] n [of "[d32_0 u0 u1, d32_1 u1 u2 u3, d32_2 u3 u4, d32_3 u4 u5 u6]" "d32_4 u6 u7"]
    by (simp add: numeral_eq_Suc)
qed

lemma dec32_loop_overrun: "\<lbrakk> length us = 8 * (m + 1); length acc + 5 * m + 4 = length buf \<rbrakk> \<Longrightarrow>
    dec32_loop (overlay buf acc) (length acc) us = None"
proof (induction m arbitrary: us acc)
  case 0
  then obtain u0 u1 u2 u3 u4 u5 u6 u7 vs where "us = u0 # u1 # u2 # u3 # u4 # u5 # u6 # u7 # vs" using length_8 [of us] by auto
  then show ?case using 0(2) dec32_last_group [of acc buf] by simp
next
  case (Suc m)
  then obtain u0 u1 u2 u3 u4 u5 u6 u7 vs where u: "us = u0 # u1 # u2 # u3 # u4 # u5 # u6 # u7 # vs" using length_8 [of us] by auto
  let ?g = "[d32_0 u0 u1, d32_1 u1 u2 u3, d32_2 u3 u4, d32_3 u4 u5 u6, d32_4 u6 u7]"
  have "dec32_loop (overlay buf acc) (length acc) us = dec32_loop (overlay buf (acc @ ?g)) (length (acc @ ?g)) vs"
    using Suc.prems(2) by (simp add: u dec32_group del: dec32_loop.simps) (simp add: numeral_eq_Suc del: dec32_loop.simps)
  also have "\<dots> = None" using Suc.prems u by (intro Suc.IH) simp_all
  finally show ?case .
qed

text \<open>C39 (bounds). With a text that is a multiple of eight characters \<open>dec32\<close> accepts a destination that is one byte too
  small and stores outside it.\<close>

theorem dec32_overrun:
  assumes "length src = 8 * (m + 1)" "length dest = 5 * m + 4"
  shows "dec32 dest (length dest) src = None"
proof -
  have "\<not> length dest + 1 < (5 * length src + 7) div 8" using assms by simp
  then show ?thesis using dec32_loop_overrun [of "map digit32 src" m "[]" dest] assms by (simp add: dec32_def)
qed

theorem dec32_overrun_witness: "dec32 [0, 0, 0, 0] (length [0, 0, 0, 0 :: byte]) (replicate 8 0x61) = None"
  using dec32_overrun [of "replicate 8 0x61" 0 "[0, 0, 0, 0]"] by simp

end
