(* ===== verification/Names.thy ===== *)
theory Names
  imports Prelude
begin

text \<open>
  Lexical rewriting of path names (\<open>libs/lib9/cleanname.c\<close>). The name is rewritten in place in the object that holds
  it: \<open>p\<close>, \<open>q\<close> and \<open>dotdot\<close> are offsets into it, every byte is read and written through \<open>rd\<close> and \<open>wrn\<close>.
\<close>

abbreviation slash :: byte where "slash \<equiv> 0x2F"
abbreviation dot :: byte where "dot \<equiv> 0x2E"
abbreviation hash :: byte where "hash \<equiv> 0x23"

definition SEP :: "byte \<Rightarrow> bool" where
  "SEP x \<longleftrightarrow> x = slash \<or> x = 0"

text \<open>\<open>while((*q = *p) != '/' && *q != 0) p++, q++\<close>\<close>

function copy_elem :: "byte list \<Rightarrow> nat \<Rightarrow> nat \<Rightarrow> (byte list \<times> nat \<times> nat) option" where
  "copy_elem b p q = (case rd b p of None \<Rightarrow> None
     | Some c \<Rightarrow> (case wrn b q [c] of None \<Rightarrow> None
        | Some b' \<Rightarrow> if c \<noteq> slash \<and> c \<noteq> 0 then copy_elem b' (p + 1) (q + 1) else Some (b', p, q)))"
  by pat_completeness auto
termination
  by (relation "measure (\<lambda>(b, p, q). length b - p)") (auto simp: rd_def dest: wrn_length split: if_splits)

declare copy_elem.simps [simp del]

text \<open>\<open>while(--q > dotdot && *q != '/');\<close>\<close>

fun backtrack :: "byte list \<Rightarrow> nat \<Rightarrow> nat \<Rightarrow> nat option" where
  "backtrack b dotdot 0 = None"
| "backtrack b dotdot (Suc q) = (if q > dotdot then do {
     c \<leftarrow> rd b q;
     if c \<noteq> slash then backtrack b dotdot q else Some q } else Some q)"

text \<open>The element \<open>..\<close>: the new object, \<open>q\<close>, \<open>dotdot\<close> and \<open>erasedprefix\<close>.\<close>

definition dotdot_elem :: "byte list \<Rightarrow> bool \<Rightarrow> nat \<Rightarrow> nat \<Rightarrow> bool \<Rightarrow> (byte list \<times> nat \<times> nat \<times> bool) option" where
  "dotdot_elem b rooted q dotdot er = do {
     (b, q, dotdot) \<leftarrow>
       (if q > dotdot then do { q \<leftarrow> backtrack b dotdot q; Some (b, q, dotdot) }
        else if \<not> rooted then do {
          (b, q) \<leftarrow> (if q \<noteq> 0 then do { b \<leftarrow> wrn b q [slash]; Some (b, q + 1) } else Some (b, q));
          b \<leftarrow> wrn b q [dot];
          b \<leftarrow> wrn b (q + 1) [dot];
          Some (b, q + 2, q + 2) }
        else Some (b, q, dotdot));
     Some (b, q, dotdot, er \<or> q = 0) }"

definition real_elem :: "byte list \<Rightarrow> bool \<Rightarrow> nat \<Rightarrow> nat \<Rightarrow> (byte list \<times> nat \<times> nat) option" where
  "real_elem b rooted p q = do {
     (b, q) \<leftarrow> (if q \<noteq> (if rooted then 1 else 0) then do { b \<leftarrow> wrn b q [slash]; Some (b, q + 1) } else Some (b, q));
     copy_elem b p q }"

text \<open>
  The main loop. The reads of \<open>p[1]\<close> and \<open>p[2]\<close> happen only after \<open>p[0]\<close>, \<open>p[1]\<close> were dots. \<open>fuel\<close> bounds the
  iterations; each advances \<open>p\<close>, so the length of the object is enough.
\<close>

definition is_dot :: "byte list \<Rightarrow> nat \<Rightarrow> bool option" where
  "is_dot b p = do { c \<leftarrow> rd b p; if c = dot then do { d \<leftarrow> rd b (p + 1); Some (SEP d) } else Some False }"

definition is_dotdot :: "byte list \<Rightarrow> nat \<Rightarrow> bool option" where
  "is_dotdot b p = do { c \<leftarrow> rd b p; if c = dot then do { d \<leftarrow> rd b (p + 1);
     if d = dot then do { e \<leftarrow> rd b (p + 2); Some (SEP e) } else Some False } else Some False }"

fun clean_loop :: "nat \<Rightarrow> byte list \<Rightarrow> bool \<Rightarrow> nat \<Rightarrow> nat \<Rightarrow> nat \<Rightarrow> bool \<Rightarrow> (byte list \<times> nat \<times> bool) option" where
  "clean_loop 0 b rooted p q dotdot er = None"
| "clean_loop (Suc fuel) b rooted p q dotdot er = do {
     c \<leftarrow> rd b p;
     if c = 0 then Some (b, q, er)
     else if c = slash then clean_loop fuel b rooted (p + 1) q dotdot er
     else do {
       one \<leftarrow> is_dot b p;
       if one then clean_loop fuel b rooted (p + 1) q dotdot (er \<or> p = 0)
       else do {
         two \<leftarrow> is_dotdot b p;
         if two then do {
           (b, q, dotdot, er) \<leftarrow> dotdot_elem b rooted q dotdot er;
           clean_loop fuel b rooted (p + 2) q dotdot er }
         else do {
           (b, p, q) \<leftarrow> real_elem b rooted p q;
           clean_loop fuel b rooted p q dotdot er } } } }"

definition strlen :: "byte list \<Rightarrow> nat" where
  "strlen b = length (takeWhile (\<lambda>x. x \<noteq> 0) b)"

definition cleanname :: "byte list \<Rightarrow> byte list option" where
  "cleanname name = do {
     c \<leftarrow> rd name 0;
     let rooted = (c = slash);
     let p = (if rooted then 1 else 0);
     (b, q, er) \<leftarrow> clean_loop (length name) name rooted p p p False;
     (b, q) \<leftarrow> (if q = 0 then do { b \<leftarrow> wrn b q [dot]; Some (b, q + 1) } else Some (b, q));
     b \<leftarrow> wrn b q [0];
     c \<leftarrow> rd b 0;
     if er \<and> c = hash then do {
       s \<leftarrow> rdn b 0 (strlen b + 1);
       b \<leftarrow> wrn b 2 s;
       wrn b 0 [dot, slash] }
     else Some b }"

end
