(* ===== verification/CleanName.thy ===== *)
theory CleanName
  imports Names
begin

text \<open>
  In-place rewriting of names against a reference on lists of elements: the invariant of the loop keeps what is written
  at or before what is still to be read.
\<close>

section \<open>The reference\<close>

text \<open>The elements of a name: the maximal pieces without a slash.\<close>

function elems :: "byte list \<Rightarrow> byte list list" where
  "elems [] = []"
| "elems (c # t) = (if c = slash then elems t
     else takeWhile (\<lambda>x. x \<noteq> slash) (c # t) # elems (dropWhile (\<lambda>x. x \<noteq> slash) t))"
  by pat_completeness auto
termination by (relation "measure length") (auto simp: length_dropWhile_le le_imp_less_Suc)

text \<open>
  One element: \<open>us\<close> are the leading \<open>..\<close> that cannot be undone, \<open>stk\<close> the elements below them; \<open>er\<close> says that a
  beginning of the name was erased.
\<close>

fun clean_step :: "bool \<Rightarrow> byte list list \<times> byte list list \<times> bool \<Rightarrow> byte list \<Rightarrow> byte list list \<times> byte list list \<times> bool" where
  "clean_step rooted (us, stk, er) e =
     (if e = [dot] then (us, stk, er)
      else if e = [dot, dot] then
        (if stk \<noteq> [] then (us, butlast stk, er \<or> \<not> rooted \<and> us = [] \<and> butlast stk = [])
         else if rooted then (us, stk, er) else (us @ [[dot, dot]], stk, er))
      else (us, stk @ [e], er))"

definition glue :: "byte list \<Rightarrow> byte list \<Rightarrow> byte list \<Rightarrow> byte list" where
  "glue pre out e = (if out = pre then out @ e else out @ slash # e)"

definition render :: "byte list \<Rightarrow> byte list list \<Rightarrow> byte list" where
  "render pre es = foldl (glue pre) pre es"

definition clean_name :: "byte list \<Rightarrow> byte list" where
  "clean_name s = (let rooted = (s \<noteq> [] \<and> hd s = slash); es = elems s;
       (us, stk, er) = foldl (clean_step rooted) ([], [], \<not> rooted \<and> es \<noteq> [] \<and> hd es = [dot]) es;
       out = render (if rooted then [slash] else []) (us @ stk);
       out = (if out = [] then [dot] else out)
     in if er \<and> hd out = hash then [dot, slash] @ out else out)"

section \<open>Rendering\<close>

definition okelem :: "byte list \<Rightarrow> bool" where
  "okelem e \<longleftrightarrow> e \<noteq> [] \<and> slash \<notin> set e \<and> 0 \<notin> set e"

lemma render_snoc: "render pre (es @ [e]) = glue pre (render pre es) e"
  by (simp add: render_def)

lemma render_Nil [simp]: "render pre [] = pre"
  by (simp add: render_def)

lemma render_ext: "\<exists>r. render pre es = pre @ r \<and> (list_all okelem es \<longrightarrow> (r = [] \<longleftrightarrow> es = []))"
proof (induction es rule: rev_induct)
  case (snoc e es)
  then obtain r where "render pre es = pre @ r" by blast
  then show ?case by (auto simp: render_snoc glue_def okelem_def)
qed simp

lemma render_eq_pre: "list_all okelem es \<Longrightarrow> render pre es = pre \<longleftrightarrow> es = []"
  using render_ext [of pre es] by auto

lemma length_render: "list_all okelem es \<Longrightarrow> length (render pre es) = length pre \<longleftrightarrow> es = []"
  using render_ext [of pre es] by auto

lemma length_render_ge: "length pre \<le> length (render pre es)"
  using render_ext [of pre es] by auto

lemma length_glue: "list_all okelem es \<Longrightarrow> length (glue pre (render pre es) e) = length (render pre es) + (if es = [] then 0 else 1) + length e"
  by (simp add: glue_def render_eq_pre)

lemma zero_render: "\<lbrakk> list_all okelem es; 0 \<notin> set pre \<rbrakk> \<Longrightarrow> 0 \<notin> set (render pre es)"
  by (induction es rule: rev_induct) (auto simp: render_snoc glue_def okelem_def)

lemma render_mono: "length (render pre us) \<le> length (render pre (us @ stk))"
  by (induction stk rule: rev_induct) (auto simp: render_snoc glue_def simp flip: append_assoc intro: le_trans)

lemma render_grows: "\<lbrakk> list_all okelem (us @ stk); stk \<noteq> [] \<rbrakk> \<Longrightarrow> length (render pre us) < length (render pre (us @ stk))"
proof -
  assume ok: "list_all okelem (us @ stk)" and "stk \<noteq> []"
  then obtain s e where s: "stk = s @ [e]" using rev_exhaust by blast
  then have "e \<noteq> []" using ok by (auto simp: okelem_def)
  then have "length (render pre (us @ s)) < length (render pre (us @ stk))"
    by (simp add: s glue_def render_snoc flip: append_assoc)
  with render_mono [of pre us s] show ?thesis by simp
qed

section \<open>The pieces of the loop\<close>

lemma backtrack_elem:
  assumes "take q b = o1 @ sep @ e" "q = length (o1 @ sep @ e)" "q \<le> length b" "dd \<le> length o1" "e \<noteq> []" "slash \<notin> set e"
    and "sep = [slash] \<or> sep = [] \<and> dd = length o1"
  shows "backtrack b dd q = Some (length o1)"
  using assms
proof (induction e arbitrary: q rule: rev_induct)
  case (snoc c e)
  let ?q = "length (o1 @ sep @ e)"
  have q: "q = Suc ?q" using snoc.prems by simp
  have t: "take ?q b = o1 @ sep @ e" 
  proof -
    have "take ?q b = take ?q (take q b)" unfolding q by (simp add: min_def)
    then show ?thesis unfolding snoc.prems(1) by simp
  qed
  have nth: "i < q \<Longrightarrow> rd b i = Some ((o1 @ sep @ e @ [c]) ! i)" for i
    using snoc.prems(1,3) by (metis nth_take order_less_le_trans rd_def)
  have c: "rd b ?q = Some c" using nth [of ?q] q by (simp add: nth_append)
  show ?case
  proof (cases "e = []")
    case True
    then show ?thesis using c q snoc.prems(4,6,7) nth [of "length o1"] by (auto simp: nth_append)
  next
    case False
    then have "backtrack b dd ?q = Some (length o1)" using snoc.IH [OF t refl _ snoc.prems(4) False] snoc.prems q by simp
    moreover have "dd < ?q" using False snoc.prems(4) by (auto simp: Suc_le_eq intro: le_less_trans)
    ultimately show ?thesis using c q snoc.prems(6) by simp
  qed
qed simp

lemma wrn_one: "q < length b \<Longrightarrow> wrn b q [c] = Some (b[q := c])"
  by (simp add: wrn_def upd_conv_take_nth_drop)

lemma rd_drop: "drop p b = c # t \<Longrightarrow> rd b p = Some c"
  by (metis drop_eq_Nil2 list.distinct(1) list.sel(1) hd_drop_conv_nth not_le rd_def)

lemma drop_step: "drop p b = c # t \<Longrightarrow> drop (Suc p) b = t"
  by (metis drop_Suc drop_tl list.sel(3))

text \<open>Copying an element, from \<open>p\<close> to \<open>q\<close> at or before it.\<close>

lemma copy_elem_ok:
  assumes "drop p b = e @ c # rest" "slash \<notin> set e" "0 \<notin> set e" "c = slash \<or> c = 0" "q \<le> p"
  shows "\<exists>b'. copy_elem b p q = Some (b', p + length e, q + length e) \<and> length b' = length b \<and>
    take (q + length e) b' = take q b @ e \<and> drop (p + length e) b' = c # rest"
  using assms
proof (induction e arbitrary: b p q)
  case Nil
  have r: "rd b p = Some c" "p < length b" using Nil.prems(1) rd_drop by (fastforce, auto simp: not_le[symmetric])
  have "drop p (b[q := c]) = c # rest"
    using Nil.prems(1,5) r by (cases "q = p") (auto simp: list_update_same_conv drop_update_swap drop_update_cancel)
  then show ?case using r Nil.prems(4,5) by (subst copy_elem.simps) (auto simp: wrn_one)
next
  case (Cons d e)
  have r: "rd b p = Some d" using Cons.prems(1) rd_drop by fastforce
  then have lt: "p < length b" by (auto simp: rd_def split: if_splits)
  have d: "d \<noteq> slash" "d \<noteq> 0" using Cons.prems by auto
  have "drop (Suc p) (b[q := d]) = e @ c # rest" using drop_step [of p b d "e @ c # rest"] Cons.prems(1,5) by (simp add: drop_update_cancel)
  from Cons.IH [OF this _ _ Cons.prems(4), of "Suc q"] Cons.prems(2,3,5) obtain b' where
    b': "copy_elem (b[q := d]) (Suc p) (Suc q) = Some (b', Suc p + length e, Suc q + length e)" "length b' = length b"
    "take (Suc q + length e) b' = take (Suc q) (b[q := d]) @ e" "drop (Suc p + length e) b' = c # rest" by auto
  moreover have "take (Suc q) (b[q := d]) = take q b @ [d]" using lt Cons.prems(5) by (simp add: take_Suc_conv_app_nth)
  ultimately show ?case using r d lt Cons.prems(5) by (subst copy_elem.simps) (auto simp: wrn_one)
qed

section \<open>The invariant of the loop\<close>

definition sepd :: "byte list \<Rightarrow> bool" where
  "sepd t \<longleftrightarrow> t = [] \<or> hd t = slash"

text \<open>
  What is written so far is the rendering of the state, it ends at or before the byte to be read, strictly before it
  at the start of an element that will need a slash; and once a beginning was erased there is room for two bytes more.
\<close>

definition room :: "byte list list \<Rightarrow> byte list \<Rightarrow> nat" where
  "room es t = (if es \<noteq> [] \<and> \<not> sepd t then 1 else 0)"

abbreviation root :: "bool \<Rightarrow> byte list" where
  "root rooted \<equiv> if rooted then [slash] else []"

definition cinv :: "bool \<Rightarrow> byte list \<Rightarrow> nat \<Rightarrow> nat \<Rightarrow> nat \<Rightarrow> bool \<Rightarrow> byte list \<Rightarrow> byte list \<Rightarrow> byte list list \<Rightarrow> byte list list \<Rightarrow> bool" where
  "cinv rooted b p q dd er t rest us stk \<longleftrightarrow>
     list_all okelem (us @ stk) \<and> (rooted \<longrightarrow> us = []) \<and>
     take q b = render (root rooted) (us @ stk) \<and> q = length (render (root rooted) (us @ stk)) \<and> dd = length (render (root rooted) us) \<and>
     drop p b = t @ 0 # rest \<and> 0 \<notin> set t \<and> q + room (us @ stk) t \<le> p \<and>
     (er \<longrightarrow> q = 0 \<and> 0 < p \<and> sepd t \<or> q + 2 + room (us @ stk) t \<le> p) \<and> (p = 0 \<longrightarrow> t = [] \<or> hd t \<noteq> slash)"

lemma cinv_bounds: "cinv rooted b p q dd er t rest us stk \<Longrightarrow> q \<le> p \<and> p + length t < length b"
proof -
  assume "cinv rooted b p q dd er t rest us stk"
  then have "q \<le> p" "drop p b = t @ 0 # rest" by (auto simp: cinv_def)
  moreover then have "length b - p = length t + Suc (length rest)" by (metis length_append length_drop list.size(4) add.right_neutral add_Suc_right)
  ultimately show ?thesis by simp
qed

lemma q_zero: "cinv rooted b p q dd er t rest us stk \<Longrightarrow> q = 0 \<longleftrightarrow> \<not> rooted \<and> us @ stk = []"
  using length_render [of "us @ stk" "root rooted"] length_render_ge [of "root rooted" "us @ stk"] by (auto simp: cinv_def)

lemma cinv_slash: "cinv rooted b p q dd er (slash # t) rest us stk \<Longrightarrow> cinv rooted b (Suc p) q dd er t rest us stk"
  using q_zero [of rooted b p q dd er "slash # t" rest us stk]
  by (auto simp: cinv_def sepd_def room_def dest: drop_step)

lemma cinv_dot: "\<lbrakk> cinv rooted b p q dd er (dot # t) rest us stk; sepd t \<rbrakk> \<Longrightarrow> cinv rooted b (Suc p) q dd (er \<or> p = 0) t rest us stk"
  by (auto simp: cinv_def sepd_def room_def dest: drop_step)

lemma drop_append: "drop p b = e @ t \<Longrightarrow> drop (p + length e) b = t"
  by (metis add.commute append_eq_conv_conj drop_drop)

lemma cinv_up:
  assumes i: "cinv rooted b p q dd er (dot # dot # t) rest us stk" and s: "sepd t" "stk \<noteq> []"
  shows "\<exists>q'. dotdot_elem b rooted q dd er = Some (b, q', dd, er \<or> q' = 0) \<and>
    (q' = 0 \<longleftrightarrow> \<not> rooted \<and> us @ butlast stk = []) \<and> cinv rooted b (p + 2) q' dd (er \<or> q' = 0) t rest us (butlast stk)"
proof -
  let ?pre = "root rooted"
  obtain s' e where stk: "stk = s' @ [e]" using s(2) rev_exhaust by blast
  have ok: "list_all okelem (us @ s')" "e \<noteq> []" "slash \<notin> set e" using i by (auto simp: cinv_def stk okelem_def)
  let ?o = "render ?pre (us @ s')" let ?sep = "if us @ s' = [] then [] else [slash]"
  have r: "render ?pre (us @ stk) = ?o @ ?sep @ e"
    using render_eq_pre [OF ok(1), of ?pre] by (simp add: stk render_snoc glue_def flip: append_assoc)
  have q: "take q b = ?o @ ?sep @ e" "q = length (?o @ ?sep @ e)" "dd = length (render ?pre us)" using i unfolding cinv_def r by blast+
  have dd: "dd \<le> length ?o" using render_mono [of ?pre us s'] q(3) by simp
  have ql: "q \<le> length b" using cinv_bounds [OF i] by simp
  have bt: "backtrack b dd q = Some (length ?o)"
    by (rule backtrack_elem [OF q(1,2) ql dd ok(2,3)]) (auto simp: q(3))
  have gt: "dd < q" using dd q(2) ok(2) by (cases e) auto
  have t: "take (length ?o) b = ?o"
  proof -
    have "take (length ?o) b = take (length ?o) (take q b)" using q(2) by (simp add: min_def)
    then show ?thesis unfolding q(1) by simp
  qed
  have d: "drop (p + 2) b = t @ 0 # rest" using drop_append [of p b "[dot, dot]" "t @ 0 # rest"] i by (simp add: cinv_def)
  have z: "length ?o = 0 \<longleftrightarrow> \<not> rooted \<and> us @ s' = []"
    using length_render [OF ok(1), of ?pre] length_render_ge [of ?pre "us @ s'"] by auto
  have "length ?o \<le> q" "q + room (us @ stk) (dot # dot # t) \<le> p" using q(2) i by (simp_all add: cinv_def)
  moreover have "er \<Longrightarrow> q + 2 \<le> p" using i by (auto simp: cinv_def sepd_def)
  ultimately have "cinv rooted b (p + 2) (length ?o) dd (er \<or> length ?o = 0) t rest us s'"
    using i s(1) ok(1) t d q(3) by (auto simp: cinv_def room_def)
  then show ?thesis using bt gt z by (simp add: dotdot_elem_def stk)
qed

text \<open>Writing before \<open>p\<close> leaves what is still to be read.\<close>

lemma wrn_before:
  assumes "wrn b q xs = Some b'" "q + length xs \<le> p"
  shows "drop p b' = drop p b" "take (q + length xs) b' = take q b @ xs" "length b' = length b"
  using assms by (auto simp: wrn_def split: if_splits)

lemma cinv_up_new:
  assumes i: "cinv False b p q dd er (dot # dot # t) rest us []" and s: "sepd t"
  shows "\<exists>b' q'. dotdot_elem b False q dd er = Some (b', q', q', er) \<and> length b' = length b \<and>
    cinv False b' (p + 2) q' q' er t rest (us @ [[dot, dot]]) []"
proof -
  let ?w = "if us = [] then [dot, dot] else [slash, dot, dot]" let ?q' = "q + length ?w"
  have q: "q = length (render [] us)" "take q b = render [] us" "dd = q" "list_all okelem us" using i by (auto simp: cinv_def)
  have z: "q = 0 \<longleftrightarrow> us = []" using q_zero [OF i] by simp
  have rm: "q + room us (dot # dot # t) \<le> p" "er \<Longrightarrow> q + 2 + room us (dot # dot # t) \<le> p" using i by (auto simp: cinv_def sepd_def)
  have le: "?q' \<le> p + 2" using rm(1) by (auto simp: room_def sepd_def)
  then have len: "?q' \<le> length b" using cinv_bounds [OF i] by simp
  obtain b' where b': "wrn b q ?w = Some b'" using len by (auto simp: wrn_def)
  note wb = wrn_before [OF b' le]
  have d: "dotdot_elem b False q dd er = Some (b', ?q', ?q', er)"
    using b' z q(3) len by (cases "us = []") (auto simp: dotdot_elem_def wrn_def)
  have "drop (p + 2) b = t @ 0 # rest" using drop_append [of p b "[dot, dot]" "t @ 0 # rest"] i by (simp add: cinv_def)
  moreover have "render [] (us @ [[dot, dot]]) = render [] us @ ?w" using render_eq_pre [OF q(4), of "[]"] by (simp add: render_snoc glue_def)
  moreover have "okelem [dot, dot]" by (simp add: okelem_def)
  ultimately have "cinv False b' (p + 2) ?q' ?q' er t rest (us @ [[dot, dot]]) []"
    using i q wb rm le s by (auto simp: cinv_def room_def sepd_def)
  then show ?thesis using d wb(3) by blast
qed

lemma cinv_up_root:
  assumes i: "cinv True b p q dd er (dot # dot # t) rest us []" and s: "sepd t"
  shows "dotdot_elem b True q dd er = Some (b, q, dd, er) \<and> cinv True b (p + 2) q dd er t rest us []"
proof -
  have q: "q = dd" "q = 1" "us = []" using i by (auto simp: cinv_def)
  have "drop (p + 2) b = t @ 0 # rest" using drop_append [of p b "[dot, dot]" "t @ 0 # rest"] i by (simp add: cinv_def)
  then show ?thesis using i q s by (auto simp: dotdot_elem_def cinv_def room_def sepd_def)
qed

lemma cinv_real:
  assumes i: "cinv rooted b p q dd er (e @ t) rest us stk" and e: "okelem e" and s: "sepd t"
  shows "\<exists>b' q'. real_elem b rooted p q = Some (b', p + length e, q') \<and> length b' = length b \<and>
    cinv rooted b' (p + length e) q' dd er t rest us (stk @ [e])"
proof -
  let ?pre = "root rooted" and ?es = "us @ stk"
  let ?w = "if ?es = [] then [] else [slash]" let ?q = "q + length ?w"
  have q: "q = length (render ?pre ?es)" "take q b = render ?pre ?es" "dd = length (render ?pre us)" "list_all okelem ?es" "drop p b = (e @ t) @ 0 # rest" "0 \<notin> set (e @ t)"
    using i unfolding cinv_def by blast+
  have ne: "e \<noteq> []" "hd e \<noteq> slash" using e by (auto simp: okelem_def dest: hd_in_set)
  have z: "q = length ?pre \<longleftrightarrow> ?es = []" using length_render [OF q(4), of ?pre] q(1) by simp
  have ns: "\<not> sepd (e @ t)" using ne by (simp add: sepd_def)
  have rm: "?q \<le> p" "er \<Longrightarrow> ?q + 2 \<le> p" using i ns by (auto simp: cinv_def room_def)
  then have len: "?q \<le> length b" using cinv_bounds [OF i] by simp
  obtain b1 where b1: "wrn b q ?w = Some b1" using len by (auto simp: wrn_def)
  note wb = wrn_before [OF b1 rm(1)]
  obtain c r where c: "t @ 0 # rest = c # r" "c = slash \<or> c = 0" using s by (cases t) (auto simp: sepd_def)
  have "drop p b1 = e @ c # r" using wb(1) q(5) c(1) by simp
  from copy_elem_ok [OF this _ _ c(2) rm(1)] e obtain b2 where b2: "copy_elem b1 p ?q = Some (b2, p + length e, ?q + length e)" "length b2 = length b1"
    "take (?q + length e) b2 = take ?q b1 @ e" "drop (p + length e) b2 = c # r" by (auto simp: okelem_def)
  have "real_elem b rooted p q = Some (b2, p + length e, ?q + length e)"
    using b1 b2(1) z by (cases "?es = []") (auto simp: real_elem_def wrn_def split: if_splits)
  moreover have "render ?pre (us @ stk @ [e]) = render ?pre ?es @ ?w @ e"
    using render_eq_pre [OF q(4), of ?pre] by (simp add: render_snoc glue_def flip: append_assoc)
  then have "cinv rooted b2 (p + length e) (?q + length e) dd er t rest us (stk @ [e])"
    using i e q wb b2 rm c(1) s ne by (auto simp: cinv_def room_def)
  ultimately show ?thesis using b2(2) wb(3) by auto
qed

section \<open>The loop\<close>

lemma rd_drop_nth: "\<lbrakk> drop p b = xs; i < length xs \<rbrakk> \<Longrightarrow> rd b (p + i) = Some (xs ! i)"
  by (auto simp: rd_def)

lemma is_dot_ok:
  assumes "drop p b = e @ x # y" "SEP x" "okelem e"
  shows "is_dot b p = Some (e = [dot])" "is_dotdot b p = Some (e = [dot, dot])"
proof -
  note r = rd_drop_nth [OF assms(1)]
  obtain c e1 where e: "e = c # e1" using assms(3) by (cases e) (auto simp: okelem_def)
  have nsep: "c' \<in> set e \<Longrightarrow> \<not> SEP c'" for c' using assms(3) by (auto simp: okelem_def SEP_def)
  have r0: "rd b p = Some c" using r [of 0] by (simp add: e)
  have xd: "x \<noteq> dot" using assms(2) by (auto simp: SEP_def)
  consider "e1 = []" | d where "e1 = [d]" | d f e2 where "e1 = d # f # e2" by (cases e1 rule: list.exhaust; metis list.exhaust)
  then show "is_dot b p = Some (e = [dot])" "is_dotdot b p = Some (e = [dot, dot])"
    using r0 r [of 1] r [of 2] assms(2) nsep xd by (cases; force simp: e is_dot_def is_dotdot_def)+
qed

declare elems.simps [simp del]

lemma elems_simps [simp]: "elems [] = []" "elems (slash # t) = elems t"
  by (simp_all add: elems.simps)

lemma elem_split:
  assumes "c \<noteq> slash" "0 \<notin> set (c # t)"
  defines "e \<equiv> takeWhile (\<lambda>x. x \<noteq> slash) (c # t)" and "t' \<equiv> dropWhile (\<lambda>x. x \<noteq> slash) t"
  shows "c # t = e @ t'" "okelem e" "sepd t'" "elems (c # t) = e # elems t'"
proof -
  show "c # t = e @ t'" "elems (c # t) = e # elems t'" using assms(1) by (simp_all add: e_def t'_def elems.simps)
  have "set e \<subseteq> set (c # t)" using assms(1) by (auto simp: e_def dest: set_takeWhileD)
  then show "okelem e" using assms(1,2) by (auto simp: okelem_def e_def dest: set_takeWhileD)
  show "sepd t'" using hd_dropWhile [of "\<lambda>x. x \<noteq> slash" t] by (auto simp: sepd_def t'_def)
qed

definition first_dot :: "nat \<Rightarrow> byte list \<Rightarrow> bool" where
  "first_dot p t \<longleftrightarrow> p = 0 \<and> elems t \<noteq> [] \<and> hd (elems t) = [dot]"

lemma first_dot_pos [simp]: "0 < p \<Longrightarrow> \<not> first_dot p t"
  by (simp add: first_dot_def)

definition loop_ok :: "nat \<Rightarrow> bool \<Rightarrow> byte list \<Rightarrow> nat \<Rightarrow> nat \<Rightarrow> nat \<Rightarrow> bool \<Rightarrow> byte list \<Rightarrow> byte list \<Rightarrow> byte list list \<Rightarrow> byte list list \<Rightarrow> bool" where
  "loop_ok fuel rooted b p q dd er t rest us stk \<longleftrightarrow> (\<exists>b' q' dd' us' stk' er'.
     clean_loop fuel b rooted p q dd er = Some (b', q', er') \<and> length b' = length b \<and>
     foldl (clean_step rooted) (us, stk, er \<or> first_dot p t) (elems t) = (us', stk', er') \<and>
     cinv rooted b' (p + length t) q' dd' er' [] rest us' stk')"

lemma loop_elem:
  assumes i: "cinv rooted b p q dd er (e @ t1) rest us stk" and e: "okelem e" and s: "sepd t1" and el: "elems (e @ t1) = e # elems t1"
    and IH: "\<And>b p q dd er us stk. cinv rooted b p q dd er t1 rest us stk \<Longrightarrow> loop_ok fuel rooted b p q dd er t1 rest us stk"
    and loop: "clean_loop (Suc fuel) b rooted p q dd er = (if e = [dot] then clean_loop fuel b rooted (p + 1) q dd (er \<or> p = 0)
      else if e = [dot, dot] then do { (b, q, dotdot, er) \<leftarrow> dotdot_elem b rooted q dd er; clean_loop fuel b rooted (p + 2) q dotdot er }
      else do { (b, p, q) \<leftarrow> real_elem b rooted p q; clean_loop fuel b rooted p q dd er })"
  shows "loop_ok (Suc fuel) rooted b p q dd er (e @ t1) rest us stk"
proof -
  have ne: "e \<noteq> []" using e by (simp add: okelem_def)
  have fd: "first_dot p (e @ t1) \<longleftrightarrow> p = 0 \<and> e = [dot]" by (simp add: first_dot_def el)
  consider (dot) "e = [dot]" | (up) "e = [dot, dot]" "stk \<noteq> []" | (new) "e = [dot, dot]" "stk = []" "\<not> rooted"
    | (root) "e = [dot, dot]" "stk = []" rooted | (real) "e \<noteq> [dot]" "e \<noteq> [dot, dot]" by blast
  then show ?thesis
  proof cases
    case dot
    then have "loop_ok fuel rooted b (Suc p) q dd (er \<or> p = 0) t1 rest us stk" using IH [OF cinv_dot [OF _ s]] i by simp
    then show ?thesis unfolding loop_ok_def el fd loop using dot by simp
  next
    case up
    then obtain q' where q': "dotdot_elem b rooted q dd er = Some (b, q', dd, er \<or> q' = 0)" "q' = 0 \<longleftrightarrow> \<not> rooted \<and> us @ butlast stk = []"
      "cinv rooted b (p + 2) q' dd (er \<or> q' = 0) t1 rest us (butlast stk)" using cinv_up [of rooted b p q dd er t1 rest us stk] i s unfolding up(1) append.simps by blast
    from IH [OF q'(3)] show ?thesis unfolding loop_ok_def el fd loop using up q'(1,2) by simp
  next
    case new
    then obtain b' q' where b': "dotdot_elem b rooted q dd er = Some (b', q', q', er)" "length b' = length b"
      "cinv rooted b' (p + 2) q' q' er t1 rest (us @ [[dot, dot]]) []" using cinv_up_new [of b p q dd er t1 rest us] i s by auto
    from IH [OF b'(3)] show ?thesis unfolding loop_ok_def el fd loop using new b'(1,2) by simp
  next
    case root
    then have b': "dotdot_elem b rooted q dd er = Some (b, q, dd, er)" "cinv rooted b (p + 2) q dd er t1 rest us []"
      using cinv_up_root [of b p q dd er t1 rest us] i s by auto
    from IH [OF b'(2)] show ?thesis unfolding loop_ok_def el fd loop using root b'(1) by simp
  next
    case real
    obtain b' q' where b': "real_elem b rooted p q = Some (b', p + length e, q')" "length b' = length b"
      "cinv rooted b' (p + length e) q' dd er t1 rest us (stk @ [e])" using cinv_real [OF i e s] by blast
    from IH [OF b'(3)] show ?thesis unfolding loop_ok_def el fd loop using real b'(1,2) ne by (simp add: add.assoc)
  qed
qed

lemma clean_loop_ok: "\<lbrakk> cinv rooted b p q dd er t rest us stk; length t < fuel \<rbrakk> \<Longrightarrow> loop_ok fuel rooted b p q dd er t rest us stk"
proof (induction fuel arbitrary: b p q dd er t us stk)
  case (Suc fuel)
  note i = Suc.prems(1)
  have d: "drop p b = t @ 0 # rest" "0 \<notin> set t" using i by (auto simp: cinv_def)
  consider (fin) "t = []" | (slash) t' where "t = slash # t'" | (elem) c t' where "t = c # t'" "c \<noteq> slash" by (cases t) auto
  then show ?case
  proof cases
    case fin
    then have "rd b p = Some 0" using d(1) rd_drop by simp
    with fin i show ?thesis by (auto simp: loop_ok_def first_dot_def)
  next
    case (slash t')
    have "rd b p = Some slash" using d(1) slash rd_drop by simp
    moreover have "0 < p" using i slash by (auto simp: cinv_def)
    moreover have "loop_ok fuel rooted b (Suc p) q dd er t' rest us stk"
      using Suc.IH [OF cinv_slash] i Suc.prems(2) slash by simp
    ultimately show ?thesis by (simp add: loop_ok_def slash)
  next
    case (elem c t')
    define e where "e = takeWhile (\<lambda>x. x \<noteq> slash) (c # t')"
    define t1 where "t1 = dropWhile (\<lambda>x. x \<noteq> slash) t'"
    have c0: "0 \<notin> set (c # t')" using d(2) elem(1) by simp
    note sp = elem_split [OF elem(2) c0, folded e_def t1_def]
    have t: "t = e @ t1" "elems t = e # elems t1" using sp elem(1) by simp_all
    obtain x y where xy: "t1 @ 0 # rest = x # y" "SEP x" using sp(3) by (cases t1) (auto simp: sepd_def SEP_def)
    have dots: "is_dot b p = Some (e = [dot])" "is_dotdot b p = Some (e = [dot, dot])"
      using is_dot_ok [of p b e x y] d(1) xy sp(2) t(1) by simp_all
    have r: "rd b p = Some c" "c \<noteq> 0" using d(1) c0 elem rd_drop by auto
    have lt: "length t1 < fuel" using sp(2) Suc.prems(2) t(1) by (cases e) (auto simp: okelem_def)
    have "loop_ok (Suc fuel) rooted b p q dd er (e @ t1) rest us stk"
      using i Suc.IH lt r elem(2) dots sp(2,3) t(2) by (intro loop_elem) (simp_all add: t(1))
    then show ?thesis by (simp add: t(1))
  qed
qed simp

section \<open>The whole name\<close>

lemma cinv_start:
  assumes s: "0 \<notin> set s"
  defines "rooted \<equiv> s \<noteq> [] \<and> hd s = slash"
  defines "t \<equiv> if rooted then tl s else s"
  shows "cinv rooted (s @ 0 # rest) (length (root rooted)) (length (root rooted)) (length (root rooted)) False t rest [] []"
    and "elems t = elems s" "length (root rooted) + length t = length s"
proof -
  obtain u where u: "rooted \<Longrightarrow> s = slash # u" by (cases s) (auto simp: rooted_def)
  have "\<not> rooted \<Longrightarrow> s = [] \<or> hd s \<noteq> slash" by (auto simp: rooted_def)
  then show "cinv rooted (s @ 0 # rest) (length (root rooted)) (length (root rooted)) (length (root rooted)) False t rest [] []"
    using s u by (auto simp: cinv_def t_def room_def)
  show "elems t = elems s" "length (root rooted) + length t = length s" using u by (auto simp: t_def)
qed

text \<open>Terminating what was written, and moving it behind \<open>./\<close>.\<close>

lemma finish_plain: "\<lbrakk> take q b = out; q = length out; q < length b \<rbrakk> \<Longrightarrow>
    \<exists>b'. wrn b q [0] = Some b' \<and> length b' = length b \<and> take (length out + 1) b' = out @ [0]"
  by (auto simp: wrn_def)

lemma finish_dot: "\<lbrakk> 2 \<le> length b \<rbrakk> \<Longrightarrow>
    \<exists>b1 b'. wrn b 0 [dot] = Some b1 \<and> wrn b1 1 [0] = Some b' \<and> length b' = length b \<and> take (Suc (Suc 0)) b' = [dot, 0]"
  by (cases b; cases "tl b") (auto simp: wrn_def)

lemma strlen_take: "\<lbrakk> take (length out + 1) b = out @ [0]; 0 \<notin> set out \<rbrakk> \<Longrightarrow> strlen b = length out"
proof -
  assume t: "take (length out + 1) b = out @ [0]" and z: "0 \<notin> set out"
  have "b = out @ 0 # drop (length out + 1) b" using append_take_drop_id [of "length out + 1" b] unfolding t by simp
  then have "takeWhile (\<lambda>x. x \<noteq> 0) b = out" using z by (metis (mono_tags, lifting) takeWhile_append2 takeWhile.simps(2) append_Nil2 empty_iff)
  then show ?thesis by (simp add: strlen_def)
qed

lemma finish_hash:
  assumes "take (length out + 1) b = out @ [0]" "0 \<notin> set out" "length out + 3 \<le> length b"
  shows "\<exists>s b1 b'. rdn b 0 (strlen b + 1) = Some s \<and> wrn b 2 s = Some b1 \<and> wrn b1 0 [dot, slash] = Some b' \<and>
    length b' = length b \<and> take (length out + 3) b' = [dot, slash] @ out @ [0]"
  using assms by (auto simp: rdn_def wrn_def strlen_take [OF assms(1,2)] numeral_eq_Suc)

lemma cleanname_ok:
  assumes s: "name = s @ 0 # rest" "0 \<notin> set s" "s \<noteq> [] \<or> rest \<noteq> []"
  shows "\<exists>name'. cleanname name = Some name' \<and> length name' = length name \<and> take (length (clean_name s) + 1) name' = clean_name s @ [0]"
proof -
  define rooted where "rooted = (s \<noteq> [] \<and> hd s = slash)"
  define t where "t = (if rooted then tl s else s)"
  let ?p = "length (root rooted)"
  note st = cinv_start(1) [OF s(2), of rest, folded rooted_def t_def] cinv_start(2,3) [OF s(2), folded rooted_def t_def]
  obtain c where c: "rd name 0 = Some c" "(c = slash) = rooted" by (cases s) (auto simp: s(1) rd_def rooted_def)
  have lt: "length t < length name" using st(3) s(1) by simp
  obtain b q dd us stk er where l: "clean_loop (length name) name rooted ?p ?p ?p False = Some (b, q, er)" "length b = length name"
    "foldl (clean_step rooted) ([], [], first_dot ?p t) (elems s) = (us, stk, er)"
    and i: "cinv rooted b (length s) q dd er [] rest us stk"
    using clean_loop_ok [OF st(1), of "length name"] lt st(2,3) s(1) by (auto simp: loop_ok_def)
  define out where "out = render (root rooted) (us @ stk)"
  have q: "q = length out" "take q b = out" "q \<le> length s" "0 \<notin> set out" "er \<Longrightarrow> q = 0 \<or> q + 2 \<le> length s"
    using i zero_render [of "us @ stk" "root rooted"] by (auto simp: cinv_def out_def)
  have fd: "first_dot ?p t \<longleftrightarrow> \<not> rooted \<and> elems s \<noteq> [] \<and> hd (elems s) = [dot]" using st(2) by (simp add: first_dot_def)
  have cn: "clean_name s = (let out = (if out = [] then [dot] else out) in if er \<and> hd out = hash then [dot, slash] @ out else out)"
    using l(3) by (simp add: clean_name_def Let_def fd out_def flip: rooted_def)
  have loop: "cleanname name = do {
      (b, q) \<leftarrow> (if q = 0 then do { b \<leftarrow> wrn b q [dot]; Some (b, q + 1) } else Some (b, q));
      b \<leftarrow> wrn b q [0]; c \<leftarrow> rd b 0;
      if er \<and> c = hash then do { s \<leftarrow> rdn b 0 (strlen b + 1); b \<leftarrow> wrn b 2 s; wrn b 0 [dot, slash] } else Some b }"
    using l(1) c by (cases rooted) (simp_all add: cleanname_def)
  show ?thesis
  proof (cases "out = []")
    case True
    have "2 \<le> length b" using s(1,3) l(2) by (cases s; cases rest) auto
    from finish_dot [OF this] obtain b1 b' where f: "wrn b 0 [dot] = Some b1" "wrn b1 1 [0] = Some b'" "length b' = length b" "take (Suc (Suc 0)) b' = [dot, 0]" by blast
    then have "rd b' 0 = Some dot" by (cases b') (auto simp: rd_def)
    then show ?thesis using f True q(1) l(2) by (simp add: loop cn)
  next
    case False
    have ql: "q < length b" "q \<noteq> 0" using q(1,3) l(2) s(1) False by auto
    from finish_plain [OF q(2,1) ql(1)] obtain b' where f: "wrn b q [0] = Some b'" "length b' = length b" "take (length out + 1) b' = out @ [0]" by blast
    have h: "rd b' 0 = Some (hd out)" using f(3) False by (cases b'; cases out) (auto simp: rd_def)
    show ?thesis
    proof (cases "er \<and> hd out = hash")
      case True
      then have "length out + 3 \<le> length b'" using q(1,5) ql(2) l(2) f(2) s(1) by simp
      from finish_hash [OF f(3) q(4) this] show ?thesis using True False f h ql l(2) by (auto simp: loop cn numeral_3_eq_3)
    next
      case no: False
      then have "clean_name s = out" "cleanname name = Some b'" using False f h ql by (auto simp: loop cn)
      then show ?thesis using f l(2) by simp
    qed
  qed
qed

section \<open>Properties\<close>

text \<open>C40 (equivalence). Rewriting a name in place gives the name the reference computes from the list of its elements:
  empty elements and \<open>.\<close> dropped, \<open>..\<close> undoing the element before it, kept at the front of a relative name and dropped
  at the root, an empty result written \<open>.\<close>, and \<open>./\<close> put before a result that starts with \<open>#\<close> only because its beginning
  was erased. It returns for every terminated name and stores nothing outside the object (the empty name needs an object
  of two bytes, for \<open>.\<close> and the terminator).\<close>

theorem cleanname_reference:
  assumes "name = s @ 0 # rest" "0 \<notin> set s" "s \<noteq> [] \<or> rest \<noteq> []"
  shows "\<exists>name'. cleanname name = Some name' \<and> length name' = length name \<and>
    take (length (clean_name s) + 1) name' = clean_name s @ [0]"
  using assms by (rule cleanname_ok)

theorem cleanname_reference_witness:
  "\<exists>name'. cleanname (map of_char ''a/../#b//c/.'' @ [0]) = Some name' \<and> take (length ''./#b/c'' + 1) name' = map of_char ''./#b/c'' @ [0]"
proof -
  have "clean_name (map of_char ''a/../#b//c/.'') = map of_char ''./#b/c''"
    by (simp add: clean_name_def elems.simps render_def glue_def)
  then show ?thesis using cleanname_reference [of "map of_char ''a/../#b//c/.'' @ [0]" "map of_char ''a/../#b//c/.''" "[]"] by auto
qed

end
