(* ===== verification/Pool.thy ===== *)
theory Pool
  imports Prelude
begin

unbundle bit_operations_syntax

text \<open>
  The memory pools of \<open>svcs/alloc.c\<close> and \<open>include/pool.h\<close>. Memory is a partial map from the addresses of
  8-byte words to their contents, so that the overlay of the fields of a free block, of the leader of a chunk and of user
  data is that of the C structures; a word that the pool did not get from \<open>sbrk\<close>, or a misaligned address, is not in the map,
  and an access to it is \<open>None\<close>. Addresses and the words in memory are natural numbers (requests of 2^30 bytes and more are
  refused); the counters of the pool are machine words. \<open>nil\<close> is 0.

  Every function runs under the lock of the pool. \<open>brk\<close> is the system call \<open>sbrk\<close>, as a function of the state it is called in;
  it gives zeroed memory. \<open>res\<close> says whether the running program has the flag \<open>Prestricted\<close>. No code calls \<open>poolsetcompact\<close>,
  so \<open>poolcompact\<close> always answers 0.
\<close>

type_synonym mem = "nat \<rightharpoonup> nat"

definition ld :: "mem \<Rightarrow> nat \<Rightarrow> nat option" where
  "ld m a = m a"

definition st :: "mem \<Rightarrow> nat \<Rightarrow> nat \<Rightarrow> mem option" where
  "st m a v = (if m a = None then None else Some (m(a \<mapsto> v)))"

section \<open>Layout\<close>

text \<open>Field number \<open>k\<close> of the block at \<open>b\<close>: \<open>struct Bhdr\<close> has eight-byte fields.\<close>

definition fld :: "nat \<Rightarrow> nat \<Rightarrow> nat" where
  "fld b k = b + 8 * k"

abbreviation magic :: "nat \<Rightarrow> nat" where "magic b \<equiv> fld b 0"
abbreviation bsize :: "nat \<Rightarrow> nat" where "bsize b \<equiv> fld b 1"
abbreviation bhl :: "nat \<Rightarrow> nat" where "bhl b \<equiv> fld b 2"
abbreviation bhr :: "nat \<Rightarrow> nat" where "bhr b \<equiv> fld b 3"
abbreviation bhp :: "nat \<Rightarrow> nat" where "bhp b \<equiv> fld b 4"
abbreviation bhv :: "nat \<Rightarrow> nat" where "bhv b \<equiv> fld b 5"
abbreviation bhf :: "nat \<Rightarrow> nat" where "bhf b \<equiv> fld b 6"
abbreviation clink :: "nat \<Rightarrow> nat" where "clink b \<equiv> fld b 2"
abbreviation csize :: "nat \<Rightarrow> nat" where "csize b \<equiv> fld b 3"

abbreviation MAGIC_A :: nat where "MAGIC_A \<equiv> 0xa110c"
abbreviation MAGIC_F :: nat where "MAGIC_F \<equiv> 0xbadc0c0a"
abbreviation MAGIC_E :: nat where "MAGIC_E \<equiv> 0xdeadbabe"
abbreviation MAGIC_I :: nat where "MAGIC_I \<equiv> 0xabba"
abbreviation BHDRSIZE :: nat where "BHDRSIZE \<equiv> 24"
abbreviation MQUANTA :: int where "MQUANTA \<equiv> 63"
abbreviation LDR :: nat where "LDR \<equiv> 64"

definition B2D :: "nat \<Rightarrow> nat" where "B2D b = b + 16"

definition B2NB :: "mem \<Rightarrow> nat \<Rightarrow> nat option" where
  "B2NB m b = do { s \<leftarrow> ld m (bsize b); Some (b + s) }"

definition B2LIMIT :: "mem \<Rightarrow> nat \<Rightarrow> nat option" where
  "B2LIMIT m b = do { s \<leftarrow> ld m (csize b); Some (b + s) }"

text \<open>\<open>B2T(b)->hdr = b\<close>.\<close>

definition set_tail :: "mem \<Rightarrow> nat \<Rightarrow> mem option" where
  "set_tail m b = do { s \<leftarrow> ld m (bsize b); st m (b + s - 8) b }"

section \<open>The tree of free blocks\<close>

definition unlink :: "mem \<Rightarrow> nat \<Rightarrow> mem option" where
  "unlink m t = do {
     tp \<leftarrow> ld m (bhv t); tf \<leftarrow> ld m (bhf t);
     m \<leftarrow> st m (bhf tp) tf;
     tf \<leftarrow> ld m (bhf t); tp \<leftarrow> ld m (bhv t);
     st m (bhv tf) tp }"

text \<open>Makes \<open>f\<close> the child of \<open>s\<close>, or the root, in place of \<open>t\<close>.\<close>

definition set_child :: "mem \<Rightarrow> nat \<Rightarrow> nat \<Rightarrow> nat \<Rightarrow> nat \<Rightarrow> (mem \<times> nat) option" where
  "set_child m root s t f =
     (if s = 0 then Some (m, f)
      else do {
        l \<leftarrow> ld m (bhl s);
        m \<leftarrow> (if l = t then st m (bhl s) f else st m (bhr s) f);
        Some (m, root) })"

definition set_parent :: "mem \<Rightarrow> nat \<Rightarrow> nat \<Rightarrow> mem option" where
  "set_parent m c p = (if c \<noteq> 0 then st m (bhp c) p else Some m)"

text \<open>\<open>while(s != nil){ f = rp; rp = s; s = rp->left; }\<close>\<close>

partial_function (option) min_loop :: "mem \<Rightarrow> nat \<Rightarrow> nat \<Rightarrow> nat \<Rightarrow> (nat \<times> nat) option" where
  "min_loop m f rp s = (if s = 0 then Some (f, rp) else do { s' \<leftarrow> ld m (bhl s); min_loop m rp s s' })"

text \<open>The two children of \<open>t\<close>, joined: the block that takes the place of \<open>t\<close>.\<close>

definition del_node :: "mem \<Rightarrow> nat \<Rightarrow> (mem \<times> nat) option" where
  "del_node m t = do {
     l \<leftarrow> ld m (bhl t);
     r \<leftarrow> ld m (bhr t);
     if l = 0 then Some (m, r)
     else if r = 0 then Some (m, l)
     else do {
       s \<leftarrow> ld m (bhl r);
       (f, rp) \<leftarrow> min_loop m t r s;
       m \<leftarrow> (if f \<noteq> t then do {
          s \<leftarrow> ld m (bhr rp);
          m \<leftarrow> st m (bhl f) s;
          m \<leftarrow> set_parent m s f;
          s \<leftarrow> ld m (bhr t);
          m \<leftarrow> st m (bhr rp) s;
          set_parent m s rp }
        else Some m);
       s \<leftarrow> ld m (bhl t);
       m \<leftarrow> st m (bhl rp) s;
       m \<leftarrow> st m (bhp s) rp;
       Some (m, rp) } }"

definition pooldel :: "mem \<Rightarrow> nat \<Rightarrow> nat \<Rightarrow> (mem \<times> nat) option" where
  "pooldel m root t = do {
     tp \<leftarrow> ld m (bhp t);
     tf \<leftarrow> ld m (bhf t);
     if tp = 0 \<and> root \<noteq> t then do { m \<leftarrow> unlink m t; Some (m, root) }
     else if tf \<noteq> t then do {
       m \<leftarrow> st m (bhp tf) tp;
       (m, root) \<leftarrow> set_child m root tp t tf;
       l \<leftarrow> ld m (bhl t);
       m \<leftarrow> st m (bhl tf) l;
       m \<leftarrow> set_parent m l tf;
       r \<leftarrow> ld m (bhr t);
       m \<leftarrow> st m (bhr tf) r;
       m \<leftarrow> set_parent m r tf;
       m \<leftarrow> unlink m t;
       Some (m, root) }
     else do {
       (m, rp) \<leftarrow> del_node m t;
       q \<leftarrow> ld m (bhp t);
       (m, root) \<leftarrow> set_child m root q t rp;
       m \<leftarrow> set_parent m rp q;
       Some (m, root) } }"

partial_function (option) add_loop :: "mem \<Rightarrow> nat \<Rightarrow> nat \<Rightarrow> nat \<Rightarrow> nat \<Rightarrow> mem option" where
  "add_loop m q sz tp t =
     (if t = 0 then do {
        m \<leftarrow> st m (bhp q) tp;
        ts \<leftarrow> ld m (bsize tp);
        if sz < ts then st m (bhl tp) q else st m (bhr tp) q }
      else do {
        ts \<leftarrow> ld m (bsize t);
        if sz = ts then do {
          tv \<leftarrow> ld m (bhv t);
          m \<leftarrow> st m (bhv q) tv;
          qv \<leftarrow> ld m (bhv q);
          m \<leftarrow> st m (bhf qv) q;
          m \<leftarrow> st m (bhf q) t;
          st m (bhv t) q }
        else if sz < ts then do { l \<leftarrow> ld m (bhl t); add_loop m q sz t l }
        else do { r \<leftarrow> ld m (bhr t); add_loop m q sz t r } })"

text \<open>The code keeps the size of the block in an \<open>int\<close> here: no pool it declares has 2^31 bytes.\<close>

definition pooladd :: "mem \<Rightarrow> nat \<Rightarrow> nat \<Rightarrow> (mem \<times> nat) option" where
  "pooladd m root q = do {
     m \<leftarrow> st m (magic q) MAGIC_F;
     m \<leftarrow> st m (bhl q) 0;
     m \<leftarrow> st m (bhr q) 0;
     m \<leftarrow> st m (bhp q) 0;
     m \<leftarrow> st m (bhf q) q;
     m \<leftarrow> st m (bhv q) q;
     if root = 0 then Some (m, q)
     else do {
       sz \<leftarrow> ld m (bsize q);
       m \<leftarrow> add_loop m q sz 0 root;
       Some (m, root) } }"

text \<open>The search of \<open>dopoolalloc\<close>: a block of just the size, or the last larger one met.\<close>

partial_function (option) find_loop :: "mem \<Rightarrow> nat \<Rightarrow> nat \<Rightarrow> nat \<Rightarrow> (bool \<times> nat) option" where
  "find_loop m sz q t =
     (if t = 0 then Some (False, q)
      else do {
        ts \<leftarrow> ld m (bsize t);
        if ts = sz then Some (True, t)
        else if sz < ts then do { l \<leftarrow> ld m (bhl t); find_loop m sz t l }
        else do { r \<leftarrow> ld m (bhr t); find_loop m sz q r } })"

section \<open>Pools\<close>

text \<open>\<open>p_ptr\<close> is the global \<open>ptr\<close>, which follows the block it points to when blocks are joined.\<close>

record pool =
  p_mem :: mem
  p_root :: nat
  p_chain :: nat
  p_ptr :: nat
  p_maxsize :: u64
  p_ressize :: u64
  p_cursize :: u64
  p_arenasize :: u64
  p_hw :: u64
  p_nalloc :: u64
  p_nfree :: u64
  p_nbrk :: int
  p_chunk :: int

text \<open>\<open>Poolfault\<close> is the panic of \<open>D2B\<close> for an address that is not that of an allocated block.\<close>

datatype poolfault = Poolfault

type_synonym 'a presult = "(poolfault + 'a) option"

definition del :: "pool \<Rightarrow> nat \<Rightarrow> pool option" where
  "del p t = do { (m, r) \<leftarrow> pooldel (p_mem p) (p_root p) t; Some (p\<lparr>p_mem := m, p_root := r\<rparr>) }"

definition add :: "pool \<Rightarrow> nat \<Rightarrow> pool option" where
  "add p q = do { (m, r) \<leftarrow> pooladd (p_mem p) (p_root p) q; Some (p\<lparr>p_mem := m, p_root := r\<rparr>) }"

definition put :: "pool \<Rightarrow> nat \<Rightarrow> nat \<Rightarrow> pool option" where
  "put p a v = do { m \<leftarrow> st (p_mem p) a v; Some (p\<lparr>p_mem := m\<rparr>) }"

definition put_tail :: "pool \<Rightarrow> nat \<Rightarrow> pool option" where
  "put_tail p b = do { m \<leftarrow> set_tail (p_mem p) b; Some (p\<lparr>p_mem := m\<rparr>) }"

definition D2B :: "pool \<Rightarrow> nat \<Rightarrow> nat presult" where
  "D2B p v = (if v < 16 then None
     else do { g \<leftarrow> ld (p_mem p) (magic (v - 16));
       Some (if g \<noteq> MAGIC_A \<and> g \<noteq> MAGIC_I then Inl Poolfault else Inr (v - 16)) })"

text \<open>\<open>p->cursize += b->size; if(p->cursize > p->hw) p->hw = p->cursize;\<close>\<close>

definition charge :: "pool \<Rightarrow> nat \<Rightarrow> pool option" where
  "charge p b = do {
     s \<leftarrow> ld (p_mem p) (bsize b);
     let c = p_cursize p + of_nat s;
     Some (p\<lparr>p_cursize := c, p_hw := (if c > p_hw p then c else p_hw p)\<rparr>) }"

text \<open>The block \<open>c\<close> behind \<open>b\<close> becomes part of it: \<open>c->magic = 0; b->size += c->size; B2T(b)->hdr = b;\<close>\<close>

definition join_blocks :: "pool \<Rightarrow> nat \<Rightarrow> nat \<Rightarrow> pool option" where
  "join_blocks p b c = do {
     p \<leftarrow> put p (magic c) 0;
     bs \<leftarrow> ld (p_mem p) (bsize b);
     cs \<leftarrow> ld (p_mem p) (bsize c);
     p \<leftarrow> put p (bsize b) (bs + cs);
     put_tail p b }"

definition join_fwd :: "pool \<Rightarrow> nat \<Rightarrow> pool option" where
  "join_fwd p b = do {
     c \<leftarrow> B2NB (p_mem p) b;
     g \<leftarrow> ld (p_mem p) (magic c);
     if g = MAGIC_F then do {
       p \<leftarrow> del (if c = p_ptr p then p\<lparr>p_ptr := b\<rparr> else p) c;
       join_blocks p b c }
     else Some p }"

definition join_back :: "pool \<Rightarrow> nat \<Rightarrow> (pool \<times> nat) option" where
  "join_back p b = do {
     c \<leftarrow> ld (p_mem p) (b - 8);
     g \<leftarrow> ld (p_mem p) (magic c);
     if g = MAGIC_F then do {
       p \<leftarrow> del (if b = p_ptr p then p\<lparr>p_ptr := c\<rparr> else p) c;
       p \<leftarrow> join_blocks p c b;
       Some (p, c) }
     else Some (p, b) }"

definition poolfree :: "pool \<Rightarrow> nat \<Rightarrow> pool presult" where
  "poolfree p v = do {
     r \<leftarrow> D2B p v;
     case r of Inl e \<Rightarrow> Some (Inl e)
     | Inr b \<Rightarrow> do {
         s \<leftarrow> ld (p_mem p) (bsize b);
         let p = p\<lparr>p_nfree := p_nfree p + 1, p_cursize := p_cursize p - of_nat s\<rparr>;
         p \<leftarrow> join_fwd p b;
         (p, b) \<leftarrow> join_back p b;
         p \<leftarrow> add p b;
         Some (Inr p) } }"

definition alloc_size :: "nat \<Rightarrow> nat" where
  "alloc_size asize = nat ((int asize + int BHDRSIZE + MQUANTA) AND NOT MQUANTA)"

text \<open>A block of just the size: the second of the ring, when there is one.\<close>

definition alloc_exact :: "pool \<Rightarrow> nat \<Rightarrow> (pool \<times> nat) option" where
  "alloc_exact p t = do {
     t \<leftarrow> ld (p_mem p) (bhf t);
     p \<leftarrow> del p t;
     p \<leftarrow> put p (magic t) MAGIC_A;
     p \<leftarrow> charge p t;
     Some (p, B2D t) }"

definition alloc_split :: "pool \<Rightarrow> nat \<Rightarrow> nat \<Rightarrow> (pool \<times> nat) option" where
  "alloc_split p q sz = do {
     p \<leftarrow> del p q;
     p \<leftarrow> put p (magic q) MAGIC_A;
     qs \<leftarrow> ld (p_mem p) (bsize q);
     let frag = int qs - int sz;
     if frag < int (drop_bit 2 sz) \<and> frag < 0x8000 then do { p \<leftarrow> charge p q; Some (p, B2D q) }
     else do {
       let ns = qs - sz;
       p \<leftarrow> put p (bsize q) sz;
       p \<leftarrow> put_tail p q;
       t \<leftarrow> B2NB (p_mem p) q;
       p \<leftarrow> put p (bsize t) ns;
       p \<leftarrow> put_tail p t;
       p \<leftarrow> add p t;
       p \<leftarrow> charge p q;
       Some (p, B2D q) } }"

section \<open>Growing the arena\<close>

text \<open>The size of the next chunk without its leader and end, and the new \<open>arenasize\<close>; \<open>None\<close> when the pool is at its limit.\<close>

definition grow_size :: "pool \<Rightarrow> nat \<Rightarrow> (int \<times> u64) option" where
  "grow_size p sz = (
     let ns = (if int sz > p_chunk p then int sz else p_chunk p);
         alloc = ns + 2 * int LDR;
         arena = p_arenasize p + of_int alloc
     in if arena > p_maxsize p then
          let arena = arena - of_int alloc;
              ns = sint (ucast (p_maxsize p - arena - of_nat LDR - of_nat LDR) :: u32) AND NOT MQUANTA
          in if ns < int sz then None else Some (ns, arena + of_int (ns + 2 * int LDR))
        else Some (ns, arena))"

text \<open>The words that start in the \<open>n\<close> bytes from \<open>t\<close>, which need not be aligned. The last one may end up to 7 bytes behind them; the code uses it when the next
  memory follows directly.\<close>

definition zero_region :: "nat \<Rightarrow> nat \<Rightarrow> mem" where
  "zero_region t n = (\<lambda>a. if t \<le> a \<and> a < t + n \<and> a mod 8 = 0 then Some 0 else None)"

text \<open>The new memory continues the last chunk: it becomes an allocated block that starts where the end of the chunk was,
  and is freed.\<close>

definition merge_chunk :: "pool \<Rightarrow> nat \<Rightarrow> nat \<Rightarrow> pool presult" where
  "merge_chunk p q alloc = do {
     p \<leftarrow> put p (magic q) MAGIC_A;
     p \<leftarrow> put p (bsize q) alloc;
     p \<leftarrow> put_tail p q;
     t \<leftarrow> B2NB (p_mem p) q;
     p \<leftarrow> put p (magic t) MAGIC_E;
     cs \<leftarrow> ld (p_mem p) (csize (p_chain p));
     p \<leftarrow> put p (csize (p_chain p)) (cs + alloc);
     poolfree (p\<lparr>p_cursize := p_cursize p + of_nat alloc\<rparr>) (B2D q) }"

text \<open>The leader of a new chunk and the block that is returned.\<close>

definition chunk_head :: "pool \<Rightarrow> nat \<Rightarrow> nat \<Rightarrow> nat \<Rightarrow> (pool \<times> nat) option" where
  "chunk_head p t ns sz = do {
     p \<leftarrow> put p (magic t) MAGIC_E;
     p \<leftarrow> put p (bsize t) LDR;
     p \<leftarrow> put p (csize t) (ns + LDR);
     p \<leftarrow> put p (clink t) (p_chain p);
     let p = p\<lparr>p_chain := t\<rparr>;
     p \<leftarrow> put_tail p t;
     t \<leftarrow> B2NB (p_mem p) t;
     p \<leftarrow> put p (magic t) MAGIC_A;
     p \<leftarrow> put p (bsize t) sz;
     p \<leftarrow> put_tail p t;
     Some (p, t) }"

definition new_chunk :: "pool \<Rightarrow> nat \<Rightarrow> nat \<Rightarrow> nat \<Rightarrow> (pool \<times> nat) option" where
  "new_chunk p t ns sz = do {
     (p, t) \<leftarrow> chunk_head p t ns sz;
     let ns = ns - sz;
     (p, q) \<leftarrow> (if ns > 0 then do {
         q \<leftarrow> B2NB (p_mem p) t;
         p \<leftarrow> put p (bsize q) ns;
         p \<leftarrow> put_tail p q;
         p \<leftarrow> add p q;
         Some (p, q) }
       else Some (p, t));
     e \<leftarrow> B2NB (p_mem p) q;
     p \<leftarrow> put p (magic e) MAGIC_E;
     p \<leftarrow> charge p t;
     Some (p, B2D t) }"

text \<open>The end of the last chunk when the memory at \<open>t\<close> continues it.\<close>

definition chunk_before :: "pool \<Rightarrow> nat \<Rightarrow> nat option option" where
  "chunk_before p t =
     (if p_chain p = 0 then Some None
      else do { l \<leftarrow> B2LIMIT (p_mem p) (p_chain p); Some (if int t - int l - int LDR = 0 then Some l else None) })"

text \<open>The result of one attempt: an address, or try again after the arena has grown.\<close>

datatype attempt = Done nat | Again

definition alloc_grow :: "(pool \<Rightarrow> nat \<Rightarrow> nat option) \<Rightarrow> pool \<Rightarrow> nat \<Rightarrow> (pool \<times> attempt) presult" where
  "alloc_grow brk p sz = (case grow_size p sz of
     None \<Rightarrow> Some (Inr (p, Done 0))
   | Some (ns, arena) \<Rightarrow> do {
       let p = p\<lparr>p_arenasize := arena, p_nbrk := p_nbrk p + 1\<rparr>;
       let alloc = nat (ns + 2 * int LDR);
       case brk p alloc of
         None \<Rightarrow> Some (Inr (p\<lparr>p_nbrk := p_nbrk p - 1\<rparr>, Done 0))
       | Some t0 \<Rightarrow> do {
           let p = p\<lparr>p_mem := p_mem p ++ zero_region t0 alloc\<rparr>;
           let t = (t0 + 7) div 8 * 8;
           e \<leftarrow> chunk_before p t;
           case e of
             Some q \<Rightarrow> do { r \<leftarrow> merge_chunk p q alloc; Some (map_sum id (\<lambda>p. (p, Again)) r) }
           | None \<Rightarrow> do { (p, v) \<leftarrow> new_chunk p t (nat ns) sz; Some (Inr (p, Done v)) } } })"

definition alloc_once :: "(pool \<Rightarrow> nat \<Rightarrow> nat option) \<Rightarrow> pool \<Rightarrow> nat \<Rightarrow> (pool \<times> attempt) presult" where
  "alloc_once brk p asize =
     (if asize \<ge> 1024 * 1024 * 1024 then Some (Inr (p, Done 0))
      else do {
        let sz = alloc_size asize;
        let p = p\<lparr>p_nalloc := p_nalloc p + 1\<rparr>;
        (exact, q) \<leftarrow> find_loop (p_mem p) sz 0 (p_root p);
        if exact then do { (p, v) \<leftarrow> alloc_exact p q; Some (Inr (p, Done v)) }
        else if q \<noteq> 0 then do { (p, v) \<leftarrow> alloc_split p q sz; Some (Inr (p, Done v)) }
        else alloc_grow brk p sz })"

text \<open>\<open>poolalloc\<close>, with the number of attempts as fuel; \<open>dopoolalloc\<close> calls it again after joining new memory to a chunk.\<close>

fun poolalloc :: "nat \<Rightarrow> (pool \<Rightarrow> nat \<Rightarrow> nat option) \<Rightarrow> bool \<Rightarrow> pool \<Rightarrow> nat \<Rightarrow> (pool \<times> nat) presult" where
  "poolalloc 0 brk res p asize = None"
| "poolalloc (Suc n) brk res p asize =
     (if p_cursize p > p_ressize p \<and> res then Some (Inr (p, 0))
      else do {
        r \<leftarrow> alloc_once brk p asize;
        case r of Inl e \<Rightarrow> Some (Inl e)
        | Inr (p, Done v) \<Rightarrow> Some (Inr (p, v))
        | Inr (p, Again) \<Rightarrow> poolalloc n brk res p asize })"

section \<open>Resizing and sizes\<close>

text \<open>\<open>memmove\<close> of \<open>n\<close> words between blocks that do not overlap.\<close>

fun copy_words :: "mem \<Rightarrow> nat \<Rightarrow> nat \<Rightarrow> nat \<Rightarrow> mem option" where
  "copy_words m d s 0 = Some m"
| "copy_words m d s (Suc n) = do { x \<leftarrow> ld m s; m \<leftarrow> st m d x; copy_words m (d + 8) (s + 8) n }"

definition poolrealloc :: "nat \<Rightarrow> (pool \<Rightarrow> nat \<Rightarrow> nat option) \<Rightarrow> bool \<Rightarrow> pool \<Rightarrow> nat \<Rightarrow> nat \<Rightarrow> (pool \<times> nat) presult" where
  "poolrealloc fuel brk res p v sz =
     (if sz \<ge> 1024 * 1024 * 1024 then Some (Inr (p, 0))
      else if sz = 0 then do { r \<leftarrow> poolfree p v; Some (map_sum id (\<lambda>p. (p, 0)) r) }
      else if v = 0 then poolalloc fuel brk res p sz
      else do {
        r \<leftarrow> D2B p v;
        case r of Inl e \<Rightarrow> Some (Inl e)
        | Inr b \<Rightarrow> do {
            bs \<leftarrow> ld (p_mem p) (bsize b);
            let osize = bs - BHDRSIZE;
            if osize \<ge> sz then Some (Inr (p, v))
            else do {
              r \<leftarrow> poolalloc fuel brk res p sz;
              case r of Inl e \<Rightarrow> Some (Inl e)
              | Inr (p, nv) \<Rightarrow>
                  if nv = 0 then Some (Inr (p, 0))
                  else do {
                    m \<leftarrow> copy_words (p_mem p) nv v (osize div 8);
                    r \<leftarrow> poolfree (p\<lparr>p_mem := m\<rparr>) v;
                    Some (map_sum id (\<lambda>p. (p, nv)) r) } } } })"

definition poolmsize :: "pool \<Rightarrow> nat \<Rightarrow> nat presult" where
  "poolmsize p v = (if v = 0 then Some (Inr 0)
     else do {
       r \<leftarrow> D2B p v;
       case r of Inl e \<Rightarrow> Some (Inl e)
       | Inr b \<Rightarrow> do { s \<leftarrow> ld (p_mem p) (bsize b); Some (Inr (s - BHDRSIZE)) } })"

partial_function (option) max_loop :: "mem \<Rightarrow> nat \<Rightarrow> nat option" where
  "max_loop m t = do { r \<leftarrow> ld m (bhr t); if r = 0 then Some t else max_loop m r }"

definition poolmax :: "pool \<Rightarrow> u64 option" where
  "poolmax p = do {
     let sz = p_maxsize p - p_cursize p;
     sz \<leftarrow> (if p_root p \<noteq> 0 then do {
         t \<leftarrow> max_loop (p_mem p) (p_root p);
         s \<leftarrow> ld (p_mem p) (bsize t);
         Some (if sz < of_nat s then of_nat s else sz) }
       else Some sz);
     Some (if sz \<ge> of_nat BHDRSIZE then sz - of_nat BHDRSIZE else sz) }"

section \<open>The pools of the table\<close>

definition pool0 :: "u64 \<Rightarrow> u64 \<Rightarrow> int \<Rightarrow> pool" where
  "pool0 maxsize ressize chunk = \<lparr>p_mem = (\<lambda>_. None), p_root = 0, p_chain = 0, p_ptr = 0, p_maxsize = maxsize, p_ressize = ressize,
     p_cursize = 0, p_arenasize = 0, p_hw = 0, p_nalloc = 0, p_nfree = 0, p_nbrk = 0, p_chunk = chunk\<rparr>"

definition mainmem :: pool where "mainmem = pool0 (32 * 1024 * 1024) (31 * 1024 * 1024) (512 * 1024)"
definition heapmem :: pool where "heapmem = pool0 (32 * 1024 * 1024) (31 * 1024 * 1024) (512 * 1024)"
definition imagmem :: pool where "imagmem = pool0 (32 * 1024 * 1024 + 256) (31 * 1024 * 1024) (4 * 1024 * 1024)"

declare min_loop.simps [code] add_loop.simps [code] find_loop.simps [code] max_loop.simps [code]

end
