(* ===== verification/PoolRing.thy ===== *)
theory PoolRing
  imports Pool "HOL-Library.Tree"
begin

unbundle bit_operations_syntax

text \<open>The links between the free blocks of a pool, as data: rings of blocks of the same size and the binary tree of the rings, what it means that the memory
  holds them, and contexts of a subtree. Writes to the links of some blocks leave everything else as it is (\<open>only\<close>, \<open>agree\<close>).\<close>

section \<open>Blocks that do not overlap\<close>

definition sep :: "nat set \<Rightarrow> bool" where
  "sep B \<longleftrightarrow> (\<forall>b \<in> B. \<forall>c \<in> B. b \<noteq> c \<longrightarrow> b + 64 \<le> c \<or> c + 64 \<le> b)"

text \<open>The headers of the blocks of \<open>B\<close> are in memory.\<close>

definition space :: "mem \<Rightarrow> nat set \<Rightarrow> bool" where
  "space m B \<longleftrightarrow> sep B \<and> 0 \<notin> B \<and> (\<forall>b \<in> B. \<forall>k < 8. m (fld b k) \<noteq> None)"

lemma fld_eq: "\<lbrakk> sep B; b \<in> B; c \<in> B; j < 8; k < 8 \<rbrakk> \<Longrightarrow> fld b j = fld c k \<longleftrightarrow> b = c \<and> j = k"
proof (cases "b = c")
  case False
  assume a: "sep B" "b \<in> B" "c \<in> B" "j < 8" "k < 8"
  with False have "b + 64 \<le> c \<or> c + 64 \<le> b" by (simp add: sep_def)
  with a False show ?thesis by (auto simp: fld_def)
qed (simp add: fld_def)

lemma room_sep [simp, dest]: "space m B \<Longrightarrow> sep B" by (simp add: space_def)
lemma room_nz: "space m B \<Longrightarrow> b \<in> B \<Longrightarrow> b \<noteq> 0" by (metis space_def)

lemma room_upd [simp]: "space m B \<Longrightarrow> space (m(a \<mapsto> v)) B" by (auto simp: space_def)

lemma st_fld: "\<lbrakk> space m B; b \<in> B; k < 8 \<rbrakk> \<Longrightarrow> st m (fld b k) v = Some (m(fld b k \<mapsto> v))"
  by (auto simp: st_def space_def)

lemma upd_fld: "\<lbrakk> space m B; b \<in> B; c \<in> B; j < 8; k < 8 \<rbrakk> \<Longrightarrow>
    (m(fld b j \<mapsto> v)) (fld c k) = (if b = c \<and> j = k then Some v else m (fld c k))"
  using fld_eq [of B c b k j] by auto

section \<open>Rings\<close>

fun linked :: "mem \<Rightarrow> nat list \<Rightarrow> bool" where
  "linked m (x # y # zs) \<longleftrightarrow> m (bhf x) = Some y \<and> m (bhv y) = Some x \<and> linked m (y # zs)"
| "linked m xs \<longleftrightarrow> True"

definition ring :: "mem \<Rightarrow> nat list \<Rightarrow> bool" where
  "ring m xs \<longleftrightarrow> xs \<noteq> [] \<and> linked m (xs @ [hd xs])"

lemma linked_append: "linked m (xs @ y # ys) \<longleftrightarrow> linked m (xs @ [y]) \<and> linked m (y # ys)"
proof (induction xs)
  case (Cons x xs)
  then show ?case by (cases xs; cases ys) auto
qed (cases ys; simp)

lemma linked_cong: "\<lbrakk> linked m xs; \<forall>x \<in> set (butlast xs). m' (bhf x) = m (bhf x); \<forall>x \<in> set (tl xs). m' (bhv x) = m (bhv x) \<rbrakk> \<Longrightarrow> linked m' xs"
proof (induction m xs rule: linked.induct)
  case (1 m x y zs)
  then show ?case by (cases zs) auto
qed auto

lemma ring_cong: "\<lbrakk> ring m xs; \<forall>x \<in> set xs. m' (bhf x) = m (bhf x) \<and> m' (bhv x) = m (bhv x) \<rbrakk> \<Longrightarrow> ring m' xs"
  unfolding ring_def by (cases xs) (auto elim!: linked_cong)

lemma linked_snoc: "xs \<noteq> [] \<Longrightarrow> linked m (xs @ [y]) \<longleftrightarrow> linked m xs \<and> m (bhf (last xs)) = Some y \<and> m (bhv y) = Some (last xs)"
  using linked_append [of m _ _ "[y]"] by (cases xs rule: rev_cases) auto

lemma ring_rotate: "ring m (x # xs) \<longleftrightarrow> ring m (xs @ [x])"
proof (cases xs)
  case (Cons a list)
  have "linked m (a # list @ [x, a]) \<longleftrightarrow> linked m ((a # list) @ [x]) \<and> linked m [x, a]"
    using linked_append [of m "a # list" x "[a]"] by simp
  then show ?thesis using Cons by (auto simp: ring_def)
qed simp

lemma linked_middle: "linked m (xs @ [y]) \<Longrightarrow> xs = as @ t # bs \<Longrightarrow> as \<noteq> [] \<Longrightarrow>
    linked m as \<and> m (bhv t) = Some (last as) \<and> m (bhf t) = Some (hd (bs @ [y])) \<and> linked m (bs @ [y])"
proof -
  assume a: "linked m (xs @ [y])" "xs = as @ t # bs" "as \<noteq> []"
  then have "linked m (as @ [t])" "linked m (t # bs @ [y])" using linked_append [of m as t "bs @ [y]"] by simp_all
  then show ?thesis using a(3) by (cases "bs @ [y]") (auto simp: linked_snoc)
qed

lemma last_notin_butlast: "distinct xs \<Longrightarrow> xs \<noteq> [] \<Longrightarrow> last xs \<notin> set (butlast xs)"
  by (induction xs) auto

lemma hd_notin_tl: "distinct xs \<Longrightarrow> hd xs \<notin> set (tl xs)"
  by (cases xs) auto

text \<open>Taking a block out of a ring, other than the first.\<close>

lemma unlink_ring:
  assumes ring: "ring m (as @ t # bs)" and "as \<noteq> []" and d: "distinct (as @ t # bs)" and rm: "space m B" "set (as @ t # bs) \<subseteq> B"
  defines "n \<equiv> hd (bs @ [hd as])"
  shows "unlink m t = Some (m(bhf (last as) \<mapsto> n, bhv n \<mapsto> last as)) \<and> ring (m(bhf (last as) \<mapsto> n, bhv n \<mapsto> last as)) (as @ bs)"
proof -
  let ?m = "m(bhf (last as) \<mapsto> n, bhv n \<mapsto> last as)"
  have l: "linked m as" "m (bhv t) = Some (last as)" "m (bhf t) = Some n" "linked m (bs @ [hd as])"
    using linked_middle [OF _ refl \<open>as \<noteq> []\<close>, of m t bs "hd as"] ring \<open>as \<noteq> []\<close> by (auto simp: ring_def n_def)
  have B: "last as \<in> B" "t \<in> B" "n \<in> B" and ne: "last as \<noteq> t" "n \<noteq> t"
    using rm(2) \<open>as \<noteq> []\<close> d unfolding n_def by (cases bs; auto)+
  have "unlink m t = Some ?m"
    using l B ne rm(1) by (simp add: unlink_def ld_def st_fld [of _ B] upd_fld [of _ B] fld_eq [of B])
  moreover have "linked ?m (as @ bs @ [hd as])"
  proof -
    have f: "?m (bhf x) = m (bhf x)" if "x \<in> B" "x \<noteq> last as" for x
      using that B rm(1) by (simp add: upd_fld [of _ B] fld_eq [of B])
    have p: "?m (bhv x) = m (bhv x)" if "x \<in> B" "x \<noteq> n" for x
      using that B rm(1) by (simp add: upd_fld [of _ B] fld_eq [of B])
    have d': "distinct as" "distinct bs" "set as \<inter> set bs = {}" using d by auto
    have "linked ?m as"
    proof (rule linked_cong [OF l(1)]; intro ballI)
      fix x assume x: "x \<in> set (butlast as)"
      then have "x \<noteq> last as" "x \<in> B" using last_notin_butlast [OF d'(1) \<open>as \<noteq> []\<close>] rm(2) in_set_butlastD [OF x] by auto
      then show "?m (bhf x) = m (bhf x)" by (rule f [rotated])
    next
      fix x assume x: "x \<in> set (tl as)"
      then have "x \<in> set as" "x \<noteq> hd as" using hd_notin_tl [OF d'(1)] list.set_sel(2) [OF \<open>as \<noteq> []\<close>] by auto
      then have "x \<noteq> n" "x \<in> B" using d'(3) rm(2) by (cases bs; auto simp: n_def)+
      then show "?m (bhv x) = m (bhv x)" by (rule p [rotated])
    qed
    moreover have "linked ?m (bs @ [hd as])"
    proof (rule linked_cong [OF l(4)]; intro ballI)
      fix x assume "x \<in> set (butlast (bs @ [hd as]))"
      then have "x \<noteq> last as" "x \<in> B" using d'(3) rm(2) \<open>as \<noteq> []\<close> by (auto simp: disjoint_iff)
      then show "?m (bhf x) = m (bhf x)" by (rule f [rotated])
    next
      fix x assume x: "x \<in> set (tl (bs @ [hd as]))"
      then have "x \<noteq> n" "x \<in> B" using d' rm(2) \<open>as \<noteq> []\<close> by (cases bs; auto simp: n_def disjoint_iff)+
      then show "?m (bhv x) = m (bhv x)" by (rule p [rotated])
    qed
    moreover have "?m (bhf (last as)) = Some n" "?m (bhv n) = Some (last as)"
      using B rm(1) by (simp_all add: upd_fld [of _ B] fld_eq [of B])
    ultimately show ?thesis
      using linked_append [of ?m as n "tl (bs @ [hd as])"] linked_snoc [OF \<open>as \<noteq> []\<close>] by (simp add: n_def)
  qed
  ultimately show ?thesis using \<open>as \<noteq> []\<close> by (simp add: ring_def)
qed

text \<open>Putting a block at the end of a ring, in front of the first.\<close>

lemma insert_ring:
  assumes ring: "ring m xs" and q: "q \<notin> set xs" "distinct xs" and rm: "space m B" "set xs \<subseteq> B" "q \<in> B"
  shows "ring (m(bhv q \<mapsto> last xs, bhf (last xs) \<mapsto> q, bhf q \<mapsto> hd xs, bhv (hd xs) \<mapsto> q)) (xs @ [q]) \<and> m (bhv (hd xs)) = Some (last xs)"
proof -
  let ?m = "m(bhv q \<mapsto> last xs, bhf (last xs) \<mapsto> q, bhf q \<mapsto> hd xs, bhv (hd xs) \<mapsto> q)"
  have ne: "xs \<noteq> []" and l: "linked m xs" "m (bhv (hd xs)) = Some (last xs)" using ring linked_snoc [of xs m "hd xs"] by (auto simp: ring_def)
  have B: "last xs \<in> B" "hd xs \<in> B" "last xs \<noteq> q" "hd xs \<noteq> q" using ne rm(2) q(1) by (auto dest: last_in_set hd_in_set)
  have "linked ?m xs"
  proof (rule linked_cong [OF l(1)]; intro ballI)
    fix x assume x: "x \<in> set (butlast xs)"
    then have "x \<noteq> last xs" "x \<in> B" "x \<noteq> q" using last_notin_butlast [OF q(2) ne] rm(2) q(1) in_set_butlastD [OF x] by auto
    then show "?m (bhf x) = m (bhf x)" using B rm by (simp add: upd_fld [of _ B] fld_eq [of B])
  next
    fix x assume x: "x \<in> set (tl xs)"
    then have "x \<in> B" "x \<noteq> hd xs" "x \<noteq> q" using hd_notin_tl [OF q(2)] list.set_sel(2) [OF ne x] rm(2) q(1) by auto
    then show "?m (bhv x) = m (bhv x)" using B rm by (simp add: upd_fld [of _ B] fld_eq [of B])
  qed
  moreover have "?m (bhf (last xs)) = Some q" "?m (bhv q) = Some (last xs)" "?m (bhf q) = Some (hd xs)" "?m (bhv (hd xs)) = Some q"
    using B rm by (simp_all add: upd_fld [of _ B] fld_eq [of B])
  ultimately show ?thesis using ne l(2) linked_snoc [of "xs @ [q]" ?m "hd xs"] linked_snoc [OF ne, of ?m q] by (simp add: ring_def)
qed

section \<open>Trees of rings\<close>

type_synonym rtree = "nat list tree"

definition nodes :: "rtree \<Rightarrow> nat list" where
  "nodes t = concat (inorder t)"

lemma nodes_simps [simp]: "nodes Leaf = []" "nodes (Node l R r) = nodes l @ R @ nodes r"
  by (simp_all add: nodes_def)

fun ptr :: "rtree \<Rightarrow> nat" where
  "ptr Leaf = 0"
| "ptr (Node l R r) = hd R"

text \<open>The first block of a ring is the node of the tree; the others have no parent.\<close>

definition node_at :: "mem \<Rightarrow> nat \<Rightarrow> nat \<Rightarrow> nat list \<Rightarrow> nat \<Rightarrow> bool" where
  "node_at m p l R r \<longleftrightarrow> ring m R \<and> m (bhl (hd R)) = Some l \<and> m (bhr (hd R)) = Some r \<and> m (bhp (hd R)) = Some p \<and>
     (\<forall>x \<in> set (tl R). m (bhp x) = Some 0)"

fun tree_at :: "mem \<Rightarrow> nat \<Rightarrow> rtree \<Rightarrow> bool" where
  "tree_at m p Leaf \<longleftrightarrow> True"
| "tree_at m p (Node l R r) \<longleftrightarrow> node_at m p (ptr l) R (ptr r) \<and> tree_at m (hd R) l \<and> tree_at m (hd R) r"

definition same :: "(nat \<Rightarrow> nat) \<Rightarrow> nat list \<Rightarrow> bool" where
  "same f R \<longleftrightarrow> (\<forall>x \<in> set R. f x = f (hd R))"

lemma sameD: "same f R \<Longrightarrow> x \<in> set R \<Longrightarrow> f x = f (hd R)"
  unfolding same_def by blast

fun rbst :: "(nat \<Rightarrow> nat) \<Rightarrow> rtree \<Rightarrow> bool" where
  "rbst f Leaf \<longleftrightarrow> True"
| "rbst f (Node l R r) \<longleftrightarrow> rbst f l \<and> rbst f r \<and> same f R \<and> (\<forall>x \<in> set (nodes l). f x < f (hd R)) \<and> (\<forall>x \<in> set (nodes r). f (hd R) < f x)"

lemma rbst_cong: "(\<And>x. x \<in> set (nodes t) \<Longrightarrow> f x = g x) \<Longrightarrow> \<forall>R \<in> set_tree t. R \<noteq> [] \<Longrightarrow> rbst f t = rbst g t"
proof (induction t)
  case (Node l R r)
  then have "hd R \<in> set R" "rbst f l = rbst g l" "rbst f r = rbst g r" by auto
  moreover have "same f R = same g R" using Node.prems \<open>hd R \<in> set R\<close> by (auto simp: same_def)
  ultimately show ?case using Node.prems(1) by simp
qed simp

text \<open>Memories that agree on the links of a set of blocks.\<close>

definition agree :: "nat set \<Rightarrow> mem \<Rightarrow> mem \<Rightarrow> bool" where
  "agree B m m' \<longleftrightarrow> (\<forall>b \<in> B. \<forall>k \<in> {2..6}. m' (fld b k) = m (fld b k))"

lemma agreeD: "agree B m m' \<Longrightarrow> b \<in> B \<Longrightarrow> 2 \<le> k \<Longrightarrow> k \<le> 6 \<Longrightarrow> m' (fld b k) = m (fld b k)"
  by (auto simp: agree_def)

lemma agree_mono: "agree B m m' \<Longrightarrow> C \<subseteq> B \<Longrightarrow> agree C m m'"
  by (auto simp: agree_def)

lemma agree_Un [simp]: "agree (A \<union> B) m m' \<longleftrightarrow> agree A m m' \<and> agree B m m'"
  by (auto simp: agree_def)

lemma agree_refl [simp]: "agree B m m" by (simp add: agree_def)

lemma agree_trans: "agree B m m' \<Longrightarrow> agree B m' m'' \<Longrightarrow> agree B m m''"
  by (simp add: agree_def)

lemma agree_upd: "\<lbrakk> space m B; b \<in> B; k < 8; C \<subseteq> B; b \<notin> C \<or> k < 2 \<or> 6 < k; agree C m0 m \<rbrakk> \<Longrightarrow> agree C m0 (m(fld b k \<mapsto> v))"
  unfolding agree_def by (auto simp: upd_fld [of _ B] subset_iff fld_eq [of B] dest!: room_sep)

lemma ring_ne [simp]: "\<not> ring m []" by (simp add: ring_def)

lemma node_at_ne: "node_at m p l R r \<Longrightarrow> hd R \<in> set R" by (cases R) (auto simp: node_at_def)

lemma node_at_agree: "\<lbrakk> node_at m p l R r; agree (set R) m m' \<rbrakk> \<Longrightarrow> node_at m' p l R r"
  using node_at_ne [of m p l R r] list.set_sel(2) [of R]
  unfolding node_at_def by (cases R) (auto simp: agreeD elim!: ring_cong)

lemma tree_at_agree: "\<lbrakk> tree_at m p t; agree (set (nodes t)) m m' \<rbrakk> \<Longrightarrow> tree_at m' p t"
  by (induction t arbitrary: p) (auto elim: node_at_agree)

lemma ptr_in: "tree_at m p t \<Longrightarrow> t \<noteq> Leaf \<Longrightarrow> ptr t \<in> set (nodes t)"
  by (cases t) (auto dest: node_at_ne)

lemma ptr_zero: "\<lbrakk> tree_at m p t; space m B; set (nodes t) \<subseteq> B \<rbrakk> \<Longrightarrow> ptr t = 0 \<longleftrightarrow> t = Leaf"
  using ptr_in [of m p t] room_nz [of m B "ptr t"] by (cases t) auto

lemma tree_at_ne: "tree_at m p t \<Longrightarrow> R \<in> set_tree t \<Longrightarrow> R \<noteq> []"
  by (induction t arbitrary: p) (auto simp: node_at_def)

text \<open>A node with another left child, right child or parent.\<close>

lemma node_at_upd_fld:
  assumes "node_at m p l R r" "space m B" "set R \<subseteq> B" "distinct R" "k \<in> {2, 3, 4}"
  shows "node_at (m(fld (hd R) k \<mapsto> v)) (if k = 4 then v else p) (if k = 2 then v else l) R (if k = 3 then v else r)"
proof -
  have h: "hd R \<in> B" "hd R \<notin> set (tl R)" "set (tl R) \<subseteq> B" using assms node_at_ne [OF assms(1)] by (cases R; auto)+
  note u = upd_fld [OF assms(2) h(1)] fld_eq [OF room_sep [OF assms(2)]]
  show ?thesis using assms(1,3,5) h unfolding node_at_def by (auto simp: u subset_iff elim!: ring_cong)
qed

lemmas node_at_upd = node_at_upd_fld [where k = 2, simplified] node_at_upd_fld [where k = 3, simplified] node_at_upd_fld [where k = 4, simplified]

text \<open>Changes that touch only the links of a set of blocks.\<close>

definition only :: "nat set \<Rightarrow> mem \<Rightarrow> mem \<Rightarrow> bool" where
  "only B m m' \<longleftrightarrow> (\<forall>a. (\<forall>b \<in> B. \<forall>k \<in> {2..6}. a \<noteq> fld b k) \<longrightarrow> m' a = m a)"

lemma only_refl [simp]: "only B m m" by (simp add: only_def)
lemma only_mono: "only B m m' \<Longrightarrow> B \<subseteq> C \<Longrightarrow> only C m m'" by (auto simp: only_def subset_iff)
lemma only_trans: "only B m m' \<Longrightarrow> only B m' m'' \<Longrightarrow> only B m m''" by (simp add: only_def)
lemma only_upd: "only C m m' \<Longrightarrow> b \<in> C \<Longrightarrow> 2 \<le> k \<Longrightarrow> k \<le> 6 \<Longrightarrow> only C m (m'(fld b k \<mapsto> v))"
  by (auto simp: only_def)

lemma only_fld: "\<lbrakk> only C m m'; sep B; C \<subseteq> B; b \<in> B; k < 8; b \<notin> C \<or> k \<notin> {2..6} \<rbrakk> \<Longrightarrow> m' (fld b k) = m (fld b k)"
  unfolding only_def by (auto simp: fld_eq [of B] subset_iff)

lemma only_agree: "\<lbrakk> only C m m'; sep B; C \<subseteq> B; A \<subseteq> B; A \<inter> C = {} \<rbrakk> \<Longrightarrow> agree A m m'"
  unfolding agree_def by (intro ballI only_fld [of C m m' B]) auto

lemma set_parent_ok:
  assumes t: "tree_at m p t" and B: "space m B" "set (nodes t) \<subseteq> B" "distinct (nodes t)"
  shows "\<exists>m'. set_parent m (ptr t) q = Some m' \<and> tree_at m' q t \<and> space m' B \<and> only (set (nodes t)) m m'"
proof (cases t)
  case (Node l R r)
  have hR: "hd R \<in> set R" using t node_at_ne Node by auto
  then have h: "hd R \<in> B" using B Node by auto
  then have "hd R \<noteq> 0" by (rule room_nz [OF B(1)])
  have "agree (set (nodes l) \<union> set (nodes r)) m (m(bhp (hd R) \<mapsto> q))"
    using B(2,3) Node h hR by (intro agree_upd [OF B(1)]) auto
  with \<open>hd R \<noteq> 0\<close> show ?thesis using t B h Node node_at_upd(3) [OF _ B(1), of p "ptr l" R "ptr r" q]
    by (auto simp: set_parent_def st_fld [OF B(1)] hR intro!: only_upd elim: tree_at_agree)
qed (use B in \<open>simp add: set_parent_def\<close>)

section \<open>Paths into a tree\<close>

datatype frame = FL "nat list" rtree | FR rtree "nat list"

fun plug :: "rtree \<Rightarrow> frame list \<Rightarrow> rtree" where
  "plug t [] = t"
| "plug t (FL R r # fs) = plug (Node t R r) fs"
| "plug t (FR l R # fs) = plug (Node l R t) fs"

fun par :: "nat \<Rightarrow> frame list \<Rightarrow> nat" where
  "par p [] = p"
| "par p (FL R r # fs) = hd R"
| "par p (FR l R # fs) = hd R"

fun cnodes :: "frame list \<Rightarrow> nat set" where
  "cnodes [] = {}"
| "cnodes (FL R r # fs) = set R \<union> set (nodes r) \<union> cnodes fs"
| "cnodes (FR l R # fs) = set R \<union> set (nodes l) \<union> cnodes fs"

text \<open>The frames in memory, with the link \<open>q\<close> to what is plugged in; the outermost node has the parent \<open>p\<close>.\<close>

fun ctx_at :: "mem \<Rightarrow> nat \<Rightarrow> nat \<Rightarrow> nat \<Rightarrow> frame list \<Rightarrow> bool" where
  "ctx_at m p root q [] \<longleftrightarrow> root = q"
| "ctx_at m p root q (FL R r # fs) \<longleftrightarrow> node_at m (par p fs) q R (ptr r) \<and> tree_at m (hd R) r \<and> ctx_at m p root (hd R) fs"
| "ctx_at m p root q (FR l R # fs) \<longleftrightarrow> node_at m (par p fs) (ptr l) R q \<and> tree_at m (hd R) l \<and> ctx_at m p root (hd R) fs"

lemma plug_at: "tree_at m p (plug t fs) \<and> root = ptr (plug t fs) \<longleftrightarrow> tree_at m (par p fs) t \<and> ctx_at m p root (ptr t) fs"
  by (induction t fs rule: plug.induct) auto

lemma set_nodes_plug: "set (nodes (plug t fs)) = set (nodes t) \<union> cnodes fs"
  by (induction t fs rule: plug.induct) auto

lemma distinct_plug: "distinct (nodes (plug t fs)) \<Longrightarrow> distinct (nodes t) \<and> set (nodes t) \<inter> cnodes fs = {}"
  by (induction t fs rule: plug.induct) (auto simp: set_nodes_plug)

lemma distinct_plug_cong: "\<lbrakk> distinct (nodes (plug t fs)); distinct (nodes t'); set (nodes t') \<inter> cnodes fs = {} \<rbrakk> \<Longrightarrow> distinct (nodes (plug t' fs))"
proof (induction t fs arbitrary: t' rule: plug.induct)
  case (2 t R r fs)
  have "distinct (nodes (Node t' R r)) \<and> set (nodes (Node t' R r)) \<inter> cnodes fs = {}"
    using 2(2-) distinct_plug [of "Node t R r" fs] by auto
  then show ?case using 2(1) [of "Node t' R r"] 2(2) by simp
next
  case (3 t l R fs)
  have "distinct (nodes (Node l R t')) \<and> set (nodes (Node l R t')) \<inter> cnodes fs = {}"
    using 3(2-) distinct_plug [of "Node l R t" fs] by auto
  then show ?case using 3(1) [of "Node l R t'"] 3(2) by simp
qed simp

lemma ctx_at_agree: "\<lbrakk> ctx_at m p root q fs; agree (cnodes fs) m m' \<rbrakk> \<Longrightarrow> ctx_at m' p root q fs"
  by (induction m p root q fs rule: ctx_at.induct) (auto elim: node_at_agree tree_at_agree)

lemma par_in: "ctx_at m p root q fs \<Longrightarrow> fs \<noteq> [] \<Longrightarrow> par p fs \<in> cnodes fs"
  by (cases "(p, fs)" rule: par.cases) (auto dest: node_at_ne)

lemma root_in: "ctx_at m p root q fs \<Longrightarrow> root = q \<and> fs = [] \<or> root \<in> cnodes fs"
  by (induction m p root q fs rule: ctx_at.induct) (auto dest: node_at_ne)

text \<open>Sizes that fit where the path leads.\<close>

fun fits :: "(nat \<Rightarrow> nat) \<Rightarrow> nat \<Rightarrow> frame list \<Rightarrow> bool" where
  "fits f s [] \<longleftrightarrow> True"
| "fits f s (FL R r # fs) \<longleftrightarrow> s < f (hd R) \<and> fits f s fs"
| "fits f s (FR l R # fs) \<longleftrightarrow> f (hd R) < s \<and> fits f s fs"

lemma rbst_plugD: "rbst f (plug t fs) \<Longrightarrow> rbst f t \<and> (\<forall>x \<in> set (nodes t). fits f (f x) fs)"
  by (induction t fs rule: plug.induct) auto

lemma rbst_plug_cong: "\<lbrakk> rbst f (plug t fs); rbst f t'; \<forall>x \<in> set (nodes t'). fits f (f x) fs \<rbrakk> \<Longrightarrow> rbst f (plug t' fs)"
proof (induction t fs arbitrary: t' rule: plug.induct)
  case (2 t R r fs)
  have "rbst f (Node t R r)" "\<forall>x \<in> set (nodes (Node t R r)). fits f (f x) fs" using rbst_plugD [OF 2(2) [unfolded plug.simps]] by auto
  then have "rbst f (Node t' R r)" "\<forall>x \<in> set (nodes (Node t' R r)). fits f (f x) fs" using 2(3,4) by auto
  then show ?case using 2(1) [of "Node t' R r"] 2(2) by simp
next
  case (3 t l R fs)
  have "rbst f (Node l R t)" "\<forall>x \<in> set (nodes (Node l R t)). fits f (f x) fs" using rbst_plugD [OF 3(2) [unfolded plug.simps]] by auto
  then have "rbst f (Node l R t')" "\<forall>x \<in> set (nodes (Node l R t')). fits f (f x) fs" using 3(3,4) by auto
  then show ?case using 3(1) [of "Node l R t'"] 3(2) by simp
qed simp

lemma find_plug: "x \<in> set (nodes T) \<Longrightarrow> \<exists>l R r fs. T = plug (Node l R r) fs \<and> x \<in> set R"
proof -
  have "x \<in> set (nodes T) \<Longrightarrow> \<exists>l R r fs'. plug T fs = plug (Node l R r) fs' \<and> x \<in> set R" for fs
  proof (induction T arbitrary: fs)
    case (Node l R r)
    then consider "x \<in> set (nodes l)" | "x \<in> set R" | "x \<in> set (nodes r)" by auto
    then show ?case
    proof cases
      case 1
      then show ?thesis using Node(1) [of "FL R r # fs"] by simp
    next
      case 3
      then show ?thesis using Node(2) [of "FR l R # fs"] by simp
    qed blast
  qed simp
  from this [of "[]"] show "x \<in> set (nodes T) \<Longrightarrow> ?thesis" by simp
qed

text \<open>Replacing what a path leads to: the field of the innermost node that holds the link.\<close>

fun slot :: "frame list \<Rightarrow> nat" where
  "slot (FR l R # fs) = 3"
| "slot fs = 2"

lemma ctx_at_upd:
  assumes c: "ctx_at m p root t fs" and B: "space m B" "cnodes fs \<subseteq> B" and d: "distinct (nodes (plug Leaf fs))" and ne: "fs \<noteq> []"
  shows "ctx_at (m(fld (par p fs) (slot fs) \<mapsto> f)) p root f fs \<and> only (cnodes fs) m (m(fld (par p fs) (slot fs) \<mapsto> f)) \<and> m (fld (par p fs) (slot fs)) = Some t"
proof -
  obtain F gs where fs: "fs = F # gs" using ne by (cases fs) auto
  show ?thesis
  proof (cases F)
    case (FL R r)
    let ?m = "m(bhl (hd R) \<mapsto> f)"
    have n: "node_at m (par p gs) t R (ptr r)" "tree_at m (hd R) r" "ctx_at m p root (hd R) gs" using c fs FL by auto
    note hR = node_at_ne [OF n(1)]
    have dd: "distinct R" "set R \<inter> (set (nodes r) \<union> cnodes gs) = {}" using d distinct_plug [of "Node Leaf R r" gs] fs FL by auto
    have "agree (set (nodes r) \<union> cnodes gs) m ?m" using hR dd(2) B(2) fs FL by (intro agree_upd [OF B(1)]) auto
    then have "ctx_at ?m p root f fs" using node_at_upd(1) [OF n(1) B(1)] n(2,3) B(2) dd(1) fs FL
      by (auto elim: tree_at_agree ctx_at_agree)
    then show ?thesis using hR n(1) fs FL by (auto simp: node_at_def intro!: only_upd)
  next
    case (FR l R)
    let ?m = "m(bhr (hd R) \<mapsto> f)"
    have n: "node_at m (par p gs) (ptr l) R t" "tree_at m (hd R) l" "ctx_at m p root (hd R) gs" using c fs FR by auto
    note hR = node_at_ne [OF n(1)]
    have dd: "distinct R" "set R \<inter> (set (nodes l) \<union> cnodes gs) = {}" using d distinct_plug [of "Node l R Leaf" gs] fs FR by auto
    have "agree (set (nodes l) \<union> cnodes gs) m ?m" using hR dd(2) B(2) fs FR by (intro agree_upd [OF B(1)]) auto
    then have "ctx_at ?m p root f fs" using node_at_upd(2) [OF n(1) B(1)] n(2,3) B(2) dd(1) fs FR
      by (auto elim: tree_at_agree ctx_at_agree)
    then show ?thesis using hR n(1) fs FR by (auto simp: node_at_def intro!: only_upd)
  qed
qed

lemma par_B: "\<lbrakk> ctx_at m 0 root t fs; space m B; cnodes fs \<subseteq> B; fs \<noteq> [] \<rbrakk> \<Longrightarrow> par 0 fs \<in> B \<and> par 0 fs \<noteq> 0"
  using par_in [of m 0 root t fs] room_nz [of m B "par 0 fs"] by auto

lemma at_root: "\<lbrakk> ctx_at m 0 root t fs; space m B; cnodes fs \<subseteq> B \<rbrakk> \<Longrightarrow> \<not> (par 0 fs = 0 \<and> root \<noteq> t)"
  using par_B [of m root t fs B] by (cases "fs = []") auto

lemma set_child_ok:
  assumes c: "ctx_at m 0 root t fs" and B: "space m B" "cnodes fs \<subseteq> B" and t: "t \<notin> cnodes fs" "t \<noteq> 0"
    and d: "distinct (nodes (plug Leaf fs))"
  shows "\<exists>m' root'. set_child m root (par 0 fs) t f = Some (m', root') \<and> ctx_at m' 0 root' f fs \<and> space m' B \<and>
     only (cnodes fs) m m'"
proof (cases "fs = []")
  case False
  note u = ctx_at_upd [OF c B d False, of f] and pB = par_B [OF c B False]
  have "\<exists>x. m (bhl (par 0 fs)) = Some x \<and> (x = t \<longleftrightarrow> slot fs = 2)"
  proof (cases fs rule: slot.cases)
    case (1 l R gs)
    then have "ptr l \<noteq> t" using ptr_in [of m "hd R" l] c t by (cases "l = Leaf") auto
    then show ?thesis using c 1 by (simp add: node_at_def)
  qed (use False c u in \<open>auto simp: node_at_def\<close>)
  then have "set_child m root (par 0 fs) t f = Some (m(fld (par 0 fs) (slot fs) \<mapsto> f), root)"
    using pB by (cases fs rule: slot.cases) (auto simp: set_child_def ld_def st_fld [OF B(1)])
  then show ?thesis using u B(1) by auto
qed (use c B in \<open>simp add: set_child_def\<close>)

section \<open>Deleting a node\<close>

lemma attach:
  assumes n: "node_at m p x R y" and t: "tree_at m q t" and B: "space m B" "set R \<subseteq> B" "set (nodes t) \<subseteq> B"
    and d: "distinct R" "distinct (nodes t)" "set R \<inter> set (nodes t) = {}" and k: "k \<in> {2, 3}"
  shows "\<exists>m'. set_parent (m(fld (hd R) k \<mapsto> ptr t)) (ptr t) (hd R) = Some m' \<and> node_at m' p (if k = 2 then ptr t else x) R (if k = 3 then ptr t else y) \<and>
    tree_at m' (hd R) t \<and> space m' B \<and> only (set R \<union> set (nodes t)) m m'"
proof -
  let ?m = "m(fld (hd R) k \<mapsto> ptr t)"
  note hR = node_at_ne [OF n]
  have a: "agree (set (nodes t)) m ?m" using hR B d(3) k by (intro agree_upd [OF B(1)]) auto
  have r: "space ?m B" using B(1) by simp
  obtain m' where m': "set_parent ?m (ptr t) (hd R) = Some m'" "tree_at m' (hd R) t" "space m' B" "only (set (nodes t)) ?m m'"
    using set_parent_ok [OF tree_at_agree [OF t a] r B(3) d(2)] by blast
  have "node_at ?m p (if k = 2 then ptr t else x) R (if k = 3 then ptr t else y)"
    using node_at_upd_fld [OF n B(1,2) d(1), of k "ptr t"] k by auto
  moreover have "agree (set R) ?m m'" using only_agree [OF m'(4) room_sep [OF B(1)]] B d(3) by blast
  moreover have "only (set R \<union> set (nodes t)) m ?m" by (rule only_upd [OF only_refl]) (use hR k in auto)
  then have "only (set R \<union> set (nodes t)) m m'" using only_trans only_mono [OF m'(4)] by blast
  ultimately show ?thesis using m' node_at_agree by blast
qed

lemma plug_append: "plug t (fs @ gs) = plug (plug t fs) gs"
  by (induction t fs rule: plug.induct) auto

lemma par_append: "par p (fs @ gs) = par (par p gs) fs"
  by (cases "(p, fs)" rule: par.cases) auto

definition isFL :: "frame \<Rightarrow> bool" where
  "isFL F = (case F of FL R r \<Rightarrow> True | FR l R \<Rightarrow> False)"

lemma isFL_simps [simp]: "isFL (FL R r)" "\<not> isFL (FR l R)"
  by (simp_all add: isFL_def)

lemma min_loop_ok:
  "\<lbrakk> tree_at m (hd R) l; space m B; set (nodes l) \<subseteq> B \<rbrakk> \<Longrightarrow>
    \<exists>R' r' fs. Node l R r = plug (Node Leaf R' r') fs \<and> list_all isFL fs \<and> min_loop m f (hd R) (ptr l) = Some (par f fs, hd R')"
proof (induction l arbitrary: f R r)
  case Leaf
  show ?case by (rule exI [of _ R], rule exI [of _ r], rule exI [of _ "[]"]) (simp add: min_loop.simps)
next
  case (Node l1 R1 r1)
  obtain R' r' fs where IH: "Node l1 R1 r1 = plug (Node Leaf R' r') fs" "list_all isFL fs" "min_loop m (hd R) (hd R1) (ptr l1) = Some (par (hd R) fs, hd R')"
    using Node.IH(1) [where R = R1 and f = "hd R" and r = r1] Node.prems by auto
  have "hd R1 \<in> set R1" using Node.prems node_at_ne by auto
  then have "hd R1 \<noteq> 0" using Node.prems room_nz [of m B] by auto
  then have "min_loop m f (hd R) (ptr (Node l1 R1 r1)) = Some (par (hd R) fs, hd R')"
    using IH(3) Node.prems(1) by (subst min_loop.simps) (simp add: ld_def node_at_def)
  then show ?case using IH by (intro exI [of _ R'] exI [of _ r'] exI [of _ "fs @ [FL R r]"]) (simp add: plug_append par_append)
qed

lemma rbst_below: "\<lbrakk> rbst f (plug t fs); list_all isFL fs; fits f s fs \<rbrakk> \<Longrightarrow> x \<in> cnodes fs \<Longrightarrow> s < f x"
proof (induction t fs rule: plug.induct)
  case (2 t R r fs)
  then have "rbst f (Node t R r)" using rbst_plugD by fastforce
  then show ?case using 2 by (auto intro: less_trans dest: sameD)
qed auto

lemma rbst_min:
  assumes "rbst f (plug (Node Leaf R r) fs)" "list_all isFL fs" "R \<noteq> []"
  shows "rbst f (plug r fs) \<and> (\<forall>x \<in> set (nodes (plug r fs)). f (hd R) < f x)"
proof -
  note b = rbst_plugD [OF assms(1)]
  have r: "rbst f (plug r fs)" by (rule rbst_plug_cong [OF assms(1)]) (use b in auto)
  have "hd R \<in> set (nodes (Node Leaf R r))" using assms(3) by simp
  then have "fits f (f (hd R)) fs" using b by blast
  then have "\<forall>x \<in> cnodes fs. f (hd R) < f x" using rbst_below [OF r assms(2)] by blast
  then show ?thesis using r b by (auto simp: set_nodes_plug dest: sameD)
qed

end
