(* ===== verification/PoolTree.thy ===== *)
theory PoolTree
  imports PoolRing
begin

unbundle bit_operations_syntax

text \<open>The operations on the tree of free blocks: \<open>pooldel\<close> and \<open>pooladd\<close> turn a memory that holds a search tree into one that holds a search tree without or with
  the block, and touch only the links of the blocks of the tree; the search of \<open>dopoolalloc\<close> finds a best fit.\<close>

text \<open>What \<open>del_node\<close> leaves of a node with one block: its subtrees, joined.\<close>

definition joined :: "mem \<Rightarrow> rtree \<Rightarrow> nat \<Rightarrow> rtree \<Rightarrow> mem \<Rightarrow> rtree \<Rightarrow> bool" where
  "joined m l t r m' T \<longleftrightarrow> (\<exists>q. tree_at m' q T) \<and> set (nodes T) = set (nodes l) \<union> set (nodes r) \<and> distinct (nodes T) \<and>
     (\<forall>f. rbst f (Node l [t] r) \<longrightarrow> rbst f T) \<and> only (set (nodes l) \<union> set (nodes r)) m m'"

text \<open>The least node of the right subtree is its root.\<close>

lemma join_root:
  assumes t: "tree_at m p (Node l [t] (Node Leaf R r))" and B: "space m B" "set (nodes (Node l [t] (Node Leaf R r))) \<subseteq> B"
    and d: "distinct (nodes (Node l [t] (Node Leaf R r)))"
  shows "\<exists>m'. set_parent (m(bhl (hd R) \<mapsto> ptr l)) (ptr l) (hd R) = Some m' \<and> space m' B \<and> joined m l t (Node Leaf R r) m' (Node l R r)"
proof -
  have n: "node_at m t 0 R (ptr r)" "tree_at m t l" "tree_at m (hd R) r" using t by auto
  have R: "set R \<subseteq> B" "set (nodes l) \<subseteq> B" "distinct R" "distinct (nodes l)" "set R \<inter> set (nodes l) = {}" using B d by auto
  obtain m' where m': "set_parent (m(bhl (hd R) \<mapsto> ptr l)) (ptr l) (hd R) = Some m'" "node_at m' t (ptr l) R (ptr r)"
    "tree_at m' (hd R) l" "space m' B" "only (set R \<union> set (nodes l)) m m'"
    using attach [OF n(1,2) B(1) R, of 2] by auto
  have "agree (set (nodes r)) m m'" by (rule only_agree [OF m'(5) room_sep [OF B(1)]]) (use B d in auto)
  then have "tree_at m' t (Node l R r)" using m' n(3) tree_at_agree by auto
  moreover have "only (set (nodes l) \<union> set (nodes (Node Leaf R r))) m m'" using m'(5) by (rule only_mono) auto
  moreover have "rbst f (Node l R r)" if "rbst f (Node l [t] (Node Leaf R r))" for f
    using that node_at_ne [OF n(1)] by (auto intro: less_trans)
  ultimately show ?thesis using m'(1,4) d unfolding joined_def by auto
qed

text \<open>The least node lies deeper: it is taken out, and gets the two subtrees.\<close>

lemma join_deep:
  assumes t: "tree_at m p (Node l [t] r)" and B: "space m B" "set (nodes (Node l [t] r)) \<subseteq> B" and d: "distinct (nodes (Node l [t] r))"
    and r: "r = plug (Node Leaf R mr) (FL R1 r1 # gs)" and FL: "list_all isFL gs"
  shows "\<exists>m2 m4 m'. set_parent (m(bhl (hd R1) \<mapsto> ptr mr)) (ptr mr) (hd R1) = Some m2 \<and> m2 (bhr t) = Some (ptr r) \<and> m2 (bhl t) = Some (ptr l) \<and>
     set_parent (m2(bhr (hd R) \<mapsto> ptr r)) (ptr r) (hd R) = Some m4 \<and> m4 (bhl t) = Some (ptr l) \<and>
     set_parent (m4(bhl (hd R) \<mapsto> ptr l)) (ptr l) (hd R) = Some m' \<and> space m2 B \<and> space m4 B \<and> space m' B \<and> joined m l t r m' (Node l R (plug mr (FL R1 r1 # gs)))"
proof -
  let ?r = "plug mr (FL R1 r1 # gs)"
  have "tree_at m t r" and l: "tree_at m t l" and tt: "m (bhr t) = Some (ptr r)" "m (bhl t) = Some (ptr l)" using t by (auto simp: node_at_def)
  with plug_at [of m t "Node Leaf R mr" "FL R1 r1 # gs" "ptr r"] r
  have n: "node_at m (hd R1) 0 R (ptr mr)" "tree_at m (hd R) mr" "node_at m (par t gs) (hd R) R1 (ptr r1)" "tree_at m (hd R1) r1" "ctx_at m t (ptr r) (hd R1) gs" by auto
  have nodes: "set (nodes r) = set R \<union> set (nodes mr) \<union> set R1 \<union> set (nodes r1) \<union> cnodes gs" "set (nodes ?r) = set (nodes mr) \<union> set R1 \<union> set (nodes r1) \<union> cnodes gs"
    unfolding r set_nodes_plug by auto
  have dr: "distinct (nodes r)" using d by simp
  note dd = distinct_plug [OF dr [unfolded r]] distinct_plug [OF dr [unfolded r plug.simps]]
  have dr': "distinct (nodes ?r)" "set R \<inter> set (nodes ?r) = {}" using distinct_plug_cong [OF dr [unfolded r], of mr] dd unfolding nodes by auto
  have tB: "t \<in> B" "t \<notin> set (nodes r)" "t \<notin> set (nodes l)" "set (nodes r) \<subseteq> B" "set (nodes l) \<subseteq> B" "set (nodes l) \<inter> set (nodes r) = {}" "distinct (nodes l)" using B(2) d by auto
  have s: "sep B" using B(1) by simp
  have R1: "set R1 \<subseteq> B" "set (nodes mr) \<subseteq> B" "distinct R1" "distinct (nodes mr)" "set R1 \<inter> set (nodes mr) = {}"
    and R: "set R \<subseteq> B" "set (nodes ?r) \<subseteq> B" "distinct R" and Rl: "set R \<inter> set (nodes l) = {}" using dd tB nodes by auto
  obtain m2 where m2: "set_parent (m(bhl (hd R1) \<mapsto> ptr mr)) (ptr mr) (hd R1) = Some m2" "node_at m2 (par t gs) (ptr mr) R1 (ptr r1)" "tree_at m2 (hd R1) mr" "space m2 B"
      "only (set R1 \<union> set (nodes mr)) m m2"
    using attach [OF n(3,2) B(1) R1, of 2] by auto
  have o2: "only (set (nodes ?r)) m m2" unfolding nodes using m2(5) by (rule only_mono) auto
  have "agree (set (nodes r1) \<union> cnodes gs \<union> set R \<union> set (nodes l)) m m2"
    by (rule only_agree [OF m2(5) s]) (use dd tB nodes in auto)
  then have "tree_at m2 (hd R1) r1" "ctx_at m2 t (ptr r) (hd R1) gs" "node_at m2 (hd R1) 0 R (ptr mr)" "tree_at m2 t l"
    using n l tree_at_agree ctx_at_agree node_at_agree by auto
  note c2 = this
  have p2: "tree_at m2 t ?r \<and> ptr r = ptr ?r" using plug_at [of m2 t mr "FL R1 r1 # gs" "ptr r"] c2 m2 by auto
  have t2: "m2 (bhr t) = Some (ptr r)" "m2 (bhl t) = Some (ptr l)" using tt only_fld [OF o2 s, of t] tB nodes by auto
  obtain m4 where m4: "set_parent (m2(bhr (hd R) \<mapsto> ptr r)) (ptr r) (hd R) = Some m4" "node_at m4 (hd R1) 0 R (ptr ?r)" "tree_at m4 (hd R) ?r" "space m4 B" "only (set (nodes r)) m2 m4"
    using attach [OF c2(3) conjunct1 [OF p2] m2(4) R dr', of 3] p2 nodes by (auto simp: ac_simps)
  have t4: "m4 (bhl t) = Some (ptr l)" using t2 only_fld [OF m4(5) s, of t] tB by auto
  have "tree_at m4 t l" using tree_at_agree [OF c2(4) only_agree [OF m4(5) s]] tB by auto
  then obtain m' where m': "set_parent (m4(bhl (hd R) \<mapsto> ptr l)) (ptr l) (hd R) = Some m'" "node_at m' (hd R1) (ptr l) R (ptr ?r)" "tree_at m' (hd R) l" "space m' B"
      "only (set R \<union> set (nodes l)) m4 m'"
    using attach [OF m4(2) _ m4(4) R(1) tB(5) R(3) tB(7) Rl, of _ 2] by auto
  have "tree_at m' (hd R) ?r" using tree_at_agree [OF m4(3) only_agree [OF m'(5) s]] dr' tB nodes by auto
  then have "tree_at m' (hd R1) (Node l R ?r)" using m' by simp
  moreover have "only (set (nodes l) \<union> set (nodes r)) m m'"
    using only_mono [OF o2, of "set (nodes l) \<union> set (nodes r)"] only_mono [OF m4(5), of "set (nodes l) \<union> set (nodes r)"] only_mono [OF m'(5), of "set (nodes l) \<union> set (nodes r)"]
    unfolding nodes by (auto intro: only_trans)
  moreover have "rbst f (Node l R ?r)" if "rbst f (Node l [t] r)" for f
  proof -
    have "R \<noteq> []" using n(1) by (auto simp: node_at_def)
    then have b: "rbst f ?r" "\<forall>x \<in> set (nodes ?r). f (hd R) < f x" "rbst f (Node Leaf R mr)" using rbst_min [of f R mr "FL R1 r1 # gs"] rbst_plugD [of f "Node Leaf R mr" "FL R1 r1 # gs"] that FL r by auto
    have "\<forall>x \<in> set (nodes l). f x < f (hd R)" using that node_at_ne [OF n(1)] nodes by (auto intro: less_trans)
    then show ?thesis using b that by simp
  qed
  moreover have "distinct (nodes (Node l R ?r))" "set (nodes (Node l R ?r)) = set (nodes l) \<union> set (nodes r)" using dr' dd tB nodes by auto
  ultimately have "joined m l t r m' (Node l R ?r)" unfolding joined_def by blast
  then show ?thesis using m2(1,4) t2 m4(1,4) t4 m'(1,4) by blast
qed

lemma del_node_ok:
  assumes t: "tree_at m p (Node l [t] r)" and B: "space m B" "set (nodes (Node l [t] r)) \<subseteq> B" and d: "distinct (nodes (Node l [t] r))"
  shows "\<exists>m' T. del_node m t = Some (m', ptr T) \<and> space m' B \<and> joined m l t r m' T"
proof -
  have n: "m (bhl t) = Some (ptr l)" "m (bhr t) = Some (ptr r)" "tree_at m t l" "tree_at m t r" using t by (auto simp: node_at_def)
  have z: "ptr l = 0 \<longleftrightarrow> l = Leaf" "ptr r = 0 \<longleftrightarrow> r = Leaf" using ptr_zero [OF n(3) B(1)] ptr_zero [OF n(4) B(1)] B(2) by auto
  consider "l = Leaf" | "l \<noteq> Leaf" "r = Leaf" | rl RR rr where "l \<noteq> Leaf" "r = Node rl RR rr" by (cases r) auto
  then show ?thesis
  proof cases
    case 1
    then have "joined m l t r m r" using n(4) d unfolding joined_def by auto
    moreover have "del_node m t = Some (m, ptr r)" using 1 n by (simp add: del_node_def ld_def)
    ultimately show ?thesis using B(1) by blast
  next
    case 2
    then have "joined m l t r m l" using n(3) d unfolding joined_def by auto
    moreover have "del_node m t = Some (m, ptr l)" using 2 n z by (simp add: del_node_def ld_def)
    ultimately show ?thesis using B(1) by blast
  next
    case 3
    have rr: "node_at m t (ptr rl) RR (ptr rr)" "tree_at m (hd RR) rl" "set (nodes rl) \<subseteq> B" using n(4) 3 B(2) by auto
    obtain R mr fs where f: "r = plug (Node Leaf R mr) fs" "list_all isFL fs" "min_loop m t (hd RR) (ptr rl) = Some (par t fs, hd R)"
      using min_loop_ok [OF rr(2) B(1) rr(3), of rr t] 3(2) by auto
    have lm: "m (bhl (hd RR)) = Some (ptr rl)" "ptr r = hd RR" using rr(1) 3 by (auto simp: node_at_def)
    have sp: "set_parent x (ptr l) y = st x (bhp (ptr l)) y" for x y using z 3 by (simp add: set_parent_def)
    show ?thesis
    proof (cases fs)
      case Nil
      then have r: "r = Node Leaf R mr" using f(1) by simp
      then have RR: "hd RR = hd R" "rl = Leaf" using 3(2) by auto
      obtain m' where m': "set_parent (m(bhl (hd R) \<mapsto> ptr l)) (ptr l) (hd R) = Some m'" "space m' B" "joined m l t (Node Leaf R mr) m' (Node l R mr)"
        using join_root [of m p l t R mr B] t B d unfolding r by blast
      have "hd R \<in> B" using node_at_ne [OF rr(1)] B(2) 3(2) RR by auto
      then have "del_node m t = Some (m', ptr (Node l R mr))"
        using n z 3(1) r lm f(3) RR m'(1) Nil by (simp add: del_node_def ld_def sp st_fld [OF B(1)])
      then show ?thesis using m'(2,3) r by blast
    next
      case (Cons F gs)
      then obtain R1 r1 where F: "fs = FL R1 r1 # gs" "list_all isFL gs" using f(2) by (cases F) auto
      let ?T = "Node l R (plug mr (FL R1 r1 # gs))"
      from join_deep [OF t B d f(1) [unfolded F(1)] F(2)]
      obtain m2 m4 m' where m: "set_parent (m(bhl (hd R1) \<mapsto> ptr mr)) (ptr mr) (hd R1) = Some m2" "m2 (bhr t) = Some (ptr r)"
        "set_parent (m2(bhr (hd R) \<mapsto> ptr r)) (ptr r) (hd R) = Some m4" "m4 (bhl t) = Some (ptr l)"
        "set_parent (m4(bhl (hd R) \<mapsto> ptr l)) (ptr l) (hd R) = Some m'" "space m2 B" "space m4 B" "space m' B" "joined m l t r m' ?T"
        by blast
      have "tree_at m (hd R1) (Node Leaf R mr)" "ctx_at m t (ptr r) (hd R) fs" using plug_at [of m t "Node Leaf R mr" fs "ptr r"] n(4) f(1) F by auto
      then have R: "m (bhr (hd R)) = Some (ptr mr)" "hd R \<in> set (nodes r)" "hd R1 \<in> set (nodes r)"
        using node_at_ne f(1) F by (auto simp: node_at_def set_nodes_plug)
      then have RB: "hd R \<in> B" "hd R1 \<in> B" "hd R1 \<noteq> t" using B(2) d by auto
      have "del_node m t = Some (m', hd R)"
        using n z 3(1) lm f(3) m(1-5) F(1) RB R(1) 3(2)
        by (simp add: del_node_def ld_def sp st_fld [OF B(1)] st_fld [OF m(6)] st_fld [OF m(7)])
      then show ?thesis using m(8,9) by (metis ptr.simps(2))
    qed
  qed
qed

section \<open>The tree of free blocks\<close>

definition free_tree :: "mem \<Rightarrow> nat \<Rightarrow> rtree \<Rightarrow> bool" where
  "free_tree m root T \<longleftrightarrow> tree_at m 0 T \<and> root = ptr T \<and> distinct (nodes T)"

text \<open>The tree after a change of its nodes; the order by any size is kept.\<close>

definition becomes :: "mem \<Rightarrow> rtree \<Rightarrow> nat set \<Rightarrow> mem \<Rightarrow> nat \<Rightarrow> rtree \<Rightarrow> bool" where
  "becomes m T S m' root' T' \<longleftrightarrow> free_tree m' root' T' \<and> set (nodes T') = S \<and> (\<forall>f. rbst f T \<longrightarrow> rbst f T') \<and> only (set (nodes T)) m m'"

lemma becomesI:
  assumes T: "T = plug t fs" "distinct (nodes T)" and c: "tree_at m' (par 0 fs) t'" "ctx_at m' 0 root' (ptr t') fs"
    and d: "distinct (nodes t')" "set (nodes t') \<subseteq> set (nodes t)" and b: "\<And>f. rbst f t \<Longrightarrow> rbst f t'"
    and o: "only (set (nodes T)) m m'"
  shows "becomes m T (set (nodes t') \<union> cnodes fs) m' root' (plug t' fs)"
proof -
  have "distinct (nodes (plug t' fs))" by (rule distinct_plug_cong [of t]) (use T d(1) distinct_plug [of t fs] d(2) in auto)
  moreover have "rbst f (plug t' fs)" if "rbst f T" for f
    by (rule rbst_plug_cong [of f t]) (use that T(1) rbst_plugD [of f t fs] d(2) b in auto)
  ultimately show ?thesis using plug_at [of m' 0 t' fs root'] c o unfolding becomes_def free_tree_def by (simp add: set_nodes_plug)
qed

text \<open>A block of a ring that is not its first.\<close>

lemma pooldel_ring:
  assumes f: "free_tree m root T" and B: "space m B" "set (nodes T) \<subseteq> B" and T: "T = plug (Node l R r) fs" and t: "t \<in> set R" "t \<noteq> hd R"
  shows "\<exists>m' root' T'. pooldel m root t = Some (m', root') \<and> space m' B \<and> becomes m T (set (nodes T) - {t}) m' root' T'"
proof -
  have c: "tree_at m (par 0 fs) (Node l R r)" "ctx_at m 0 root (hd R) fs" using f plug_at [of m 0 "Node l R r" fs root] unfolding free_tree_def T by auto
  note n = c(1) [simplified]
  have d: "distinct (nodes (Node l R r))" "set (nodes (Node l R r)) \<inter> cnodes fs = {}" using f distinct_plug [of "Node l R r" fs] unfolding free_tree_def T by auto
  have N: "set (nodes T) = set (nodes l) \<union> set R \<union> set (nodes r) \<union> cnodes fs" unfolding T set_nodes_plug by auto
  obtain as bs where R: "R = as @ t # bs" using t(1) by (meson split_list)
  with t(2) have ne: "as \<noteq> []" by (cases as) auto
  define k where "k = hd (bs @ [hd as])"
  define M where "M = m(bhf (last as) \<mapsto> k, bhv k \<mapsto> last as)"
  let ?R = "as @ bs"
  have RB: "set R \<subseteq> B" using B N by auto
  have "ring m R" "distinct R" using n d(1) by (auto simp: node_at_def)
  then have u: "unlink m t = Some M" "ring M ?R"
    using unlink_ring [of m as t bs B, folded k_def] ne B(1) RB unfolding R M_def by blast+
  have kB: "last as \<in> set R" "k \<in> set R" "last as \<in> B" "k \<in> B" using ne RB unfolding R k_def by (cases bs; auto)+
  have o: "only (set R) m M" unfolding M_def using kB by (intro only_upd) auto
  have lo: "x \<in> B \<Longrightarrow> j \<in> {2..4} \<Longrightarrow> M (fld x j) = m (fld x j)" for x j
    unfolding M_def using kB B(1) by (auto simp: upd_fld [of _ B] fld_eq [of B])
  have ag: "agree (set (nodes l) \<union> set (nodes r) \<union> cnodes fs) m M" by (rule only_agree [OF o room_sep [OF B(1)]]) (use d B N in auto)
  have hd: "hd ?R = hd R" "hd R \<in> B" "set (tl ?R) \<subseteq> set (tl R)" using ne RB unfolding R by (cases as; auto)+
  have "node_at M (par 0 fs) (ptr l) ?R (ptr r)"
  proof -
    have "x \<in> B" if "x \<in> set (tl ?R)" for x using that hd(3) RB list.set_sel(2) [of R x] t(1) by (cases R) auto
    then show ?thesis using n hd u(2) lo by (auto simp: node_at_def subset_iff)
  qed
  then have "tree_at M (par 0 fs) (Node l ?R r)" using n ag tree_at_agree hd(1) by auto
  moreover have "ctx_at M 0 root (ptr (Node l ?R r)) fs" using c(2) ag ctx_at_agree hd(1) by auto
  moreover have "rbst f (Node l ?R r)" if "rbst f (Node l R r)" for f
    using that hd(1) unfolding R by (auto simp: same_def)
  ultimately have "becomes m T (set (nodes (Node l ?R r)) \<union> cnodes fs) M root (plug (Node l ?R r) fs)"
    using f d(1) only_mono [OF o, of "set (nodes T)"] N by (intro becomesI [OF T]) (auto simp: free_tree_def R)
  moreover have "set (nodes (Node l ?R r)) \<union> cnodes fs = set (nodes T) - {t}" using d N unfolding R by auto
  moreover have "pooldel m root t = Some (M, root)"
  proof -
    have "t \<in> set (tl R)" using t by (cases R) auto
    then have "m (bhp t) = Some 0" using n by (auto simp: node_at_def)
    moreover have "root \<noteq> t" using root_in [OF c(2)] t d by auto
    moreover have "\<exists>x. m (bhf t) = Some x" using B N t(1) by (auto simp: space_def)
    ultimately show ?thesis using u(1) by (auto simp: pooldel_def ld_def)
  qed
  ultimately show ?thesis using B(1) unfolding M_def by (metis room_upd)
qed

text \<open>The first of several blocks: the next one takes its place in the tree.\<close>

lemma pooldel_head:
  assumes f: "free_tree m root T" and B: "space m B" "set (nodes T) \<subseteq> B" and T: "T = plug (Node l (t # x # xs) r) fs"
  shows "\<exists>m' root' T'. pooldel m root t = Some (m', root') \<and> space m' B \<and> becomes m T (set (nodes T) - {t}) m' root' T'"
proof -
  let ?R = "t # x # xs" and ?Q = "x # xs"
  have c: "tree_at m (par 0 fs) (Node l ?R r)" "ctx_at m 0 root t fs" using f plug_at [of m 0 "Node l ?R r" fs root] unfolding free_tree_def T by auto
  have n: "ring m ?R" "m (bhl t) = Some (ptr l)" "m (bhr t) = Some (ptr r)" "m (bhp t) = Some (par 0 fs)" "\<forall>y \<in> set ?Q. m (bhp y) = Some 0" "tree_at m t l" "tree_at m t r"
    using c(1) by (simp_all add: node_at_def)
  have d: "distinct (nodes (Node l ?R r))" "set (nodes (Node l ?R r)) \<inter> cnodes fs = {}" using f distinct_plug [of "Node l ?R r" fs] unfolding free_tree_def T by auto
  have N: "set (nodes T) = set (nodes l) \<union> set ?R \<union> set (nodes r) \<union> cnodes fs" unfolding T set_nodes_plug by auto
  have s: "sep B" and RB: "t \<in> B" "x \<in> B" "set xs \<subseteq> B" "set (nodes l) \<subseteq> B" "set (nodes r) \<subseteq> B" "cnodes fs \<subseteq> B" using B N by auto
  have nz: "t \<noteq> 0" "x \<noteq> 0" using room_nz [OF B(1)] RB by auto
  have dx: "t \<noteq> x" "t \<notin> set xs" "x \<notin> set xs" "distinct xs" "t \<notin> set (nodes l)" "x \<notin> set (nodes l)" "t \<notin> set (nodes r)" "x \<notin> set (nodes r)" "t \<notin> cnodes fs" "x \<notin> cnodes fs"
    "set xs \<inter> set (nodes l) = {}" "set xs \<inter> set (nodes r) = {}" "set xs \<inter> cnodes fs = {}" "set (nodes l) \<inter> set (nodes r) = {}" "set (nodes l) \<inter> cnodes fs = {}" "set (nodes r) \<inter> cnodes fs = {}"
    "distinct (nodes l)" "distinct (nodes r)" using d by auto
  \<comment> \<open>the parent\<close>
  let ?m1 = "m(bhp x \<mapsto> par 0 fs)"
  have o1: "only {x} m ?m1" by (rule only_upd [OF only_refl]) auto
  have r1: "space ?m1 B" using B(1) by simp
  have c1: "ctx_at ?m1 0 root t fs" by (rule ctx_at_agree [OF c(2)], rule only_agree [OF o1 s]) (use RB dx in auto)
  have "distinct (nodes (plug Leaf fs))" by (rule distinct_plug_cong [of "Node l ?R r"]) (use f in \<open>simp_all add: free_tree_def T\<close>)
  then obtain m2 root' where m2: "set_child ?m1 root (par 0 fs) t x = Some (m2, root')" "ctx_at m2 0 root' x fs" "space m2 B" "only (cnodes fs) ?m1 m2"
    using set_child_ok [OF c1 r1 RB(6) dx(9) nz(1), of x] by blast
  have o2: "only (insert x (cnodes fs)) m m2" by (rule only_trans [OF only_mono [OF o1] only_mono [OF m2(4)]]) auto
  \<comment> \<open>the children\<close>
  let ?m3 = "m2(bhl x \<mapsto> ptr l)"
  have o3: "only (insert x (cnodes fs)) m ?m3" by (rule only_upd [OF o2]) auto
  have "tree_at ?m3 t l" by (rule tree_at_agree [OF n(6)], rule only_agree [OF o3 s]) (use RB dx in auto)
  then obtain m4 where m4: "set_parent ?m3 (ptr l) x = Some m4" "tree_at m4 x l" "space m4 B" "only (set (nodes l)) ?m3 m4"
    using set_parent_ok [of ?m3 t l B x] m2(3) RB dx by auto
  let ?m5 = "m4(bhr x \<mapsto> ptr r)"
  have o4: "only (insert x (cnodes fs \<union> set (nodes l))) m m4" by (rule only_trans [OF only_mono [OF o3] only_mono [OF m4(4)]]) auto
  have o5: "only (insert x (cnodes fs \<union> set (nodes l))) m ?m5" by (rule only_upd [OF o4]) auto
  have "tree_at ?m5 t r" by (rule tree_at_agree [OF n(7)], rule only_agree [OF o5 s]) (use RB dx in auto)
  then obtain m6 where m6: "set_parent ?m5 (ptr r) x = Some m6" "tree_at m6 x r" "space m6 B" "only (set (nodes r)) ?m5 m6"
    using set_parent_ok [of ?m5 t r B x] m4(3) RB dx by auto
  have o6: "only (insert x (cnodes fs \<union> set (nodes l) \<union> set (nodes r))) m m6" by (rule only_trans [OF only_mono [OF o5] only_mono [OF m6(4)]]) auto
  have v: "m6 (fld y k) = (if y = x \<and> k = 3 then Some (ptr r) else if y = x \<and> k = 2 then Some (ptr l) else if y = x \<and> k = 4 then Some (par 0 fs) else m (fld y k))"
    if "y \<in> B" "k < 8" "y \<notin> set (nodes l)" "y \<notin> set (nodes r)" "y \<notin> cnodes fs" for y k
    using that only_fld [OF m6(4) s RB(5), of y k] only_fld [OF m4(4) s RB(4), of y k] only_fld [OF m2(4) s RB(6), of y k]
    by (auto simp: fld_eq [OF s] RB)
  \<comment> \<open>the ring\<close>
  have xsB: "\<And>y. y \<in> set xs \<Longrightarrow> y \<in> B \<and> y \<noteq> x \<and> y \<notin> set (nodes l) \<and> y \<notin> set (nodes r) \<and> y \<notin> cnodes fs" using RB dx by auto
  define M where "M = m6(bhf (last ?Q) \<mapsto> x, bhv x \<mapsto> last ?Q)"
  have "ring m6 ?R" by (rule ring_cong [OF n(1)]) (use RB dx in \<open>auto simp: v xsB\<close>)
  then have "ring m6 (?Q @ [t])" using ring_rotate by blast
  then have u: "unlink m6 t = Some M" "ring M ?Q" unfolding M_def using unlink_ring [of m6 ?Q t "[]" B] m6(3) RB dx by auto
  have QB: "last ?Q \<in> set ?Q" "last ?Q \<in> B" using RB last_in_set [of ?Q] by auto
  have o7: "only (set ?Q) m6 M" unfolding M_def using QB by (intro only_upd) auto
  have lo: "y \<in> B \<Longrightarrow> k \<in> {2..4} \<Longrightarrow> M (fld y k) = m6 (fld y k)" for y k
    unfolding M_def using QB RB m6(3) by (auto simp: upd_fld [of _ B] fld_eq [of B])
  have "node_at M (par 0 fs) (ptr l) ?Q (ptr r)"
    unfolding node_at_def using u(2) n(5) RB dx by (auto simp: lo v xsB)
  moreover have "tree_at M x r" by (rule tree_at_agree [OF m6(2)], rule only_agree [OF o7 s]) (use RB dx in auto)
  moreover have o8: "only (insert x (set (nodes r) \<union> set ?Q)) m4 M"
    by (rule only_trans [OF only_trans [OF only_upd [OF only_refl] only_mono [OF m6(4)]] only_mono [OF o7]]) auto
  then have "tree_at M x l" by (intro tree_at_agree [OF m4(2)] only_agree [OF o8 s]) (use RB dx in auto)
  ultimately have tM: "tree_at M (par 0 fs) (Node l ?Q r)" by simp
  have o9: "only (insert x (set (nodes l) \<union> set (nodes r) \<union> set ?Q)) m2 M"
    by (rule only_trans [OF only_trans [OF only_upd [OF only_refl] only_mono [OF m4(4)]] only_mono [OF o8]]) auto
  have cM: "ctx_at M 0 root' x fs" by (intro ctx_at_agree [OF m2(2)] only_agree [OF o9 s]) (use RB dx in auto)
  have "only (set (nodes T)) m M" by (rule only_trans [OF only_mono [OF o6] only_mono [OF o7]]) (auto simp: N)
  with tM cM have "becomes m T (set (nodes (Node l ?Q r)) \<union> cnodes fs) M root' (plug (Node l ?Q r) fs)"
    using f d(1) by (intro becomesI [OF T]) (auto simp: free_tree_def same_def)
  moreover have "set (nodes (Node l ?Q r)) \<union> cnodes fs = set (nodes T) - {t}" using d N by auto
  moreover have "pooldel m root t = Some (M, root')"
  proof -
    have "\<not> (par 0 fs = 0 \<and> root \<noteq> t)" by (rule at_root [OF c(2) B(1) RB(6)])
    moreover have "m (bhf t) = Some x" using n(1) by (simp add: ring_def)
    moreover have "m2 (bhl t) = Some (ptr l)" "m4 (bhr t) = Some (ptr r)" using only_fld [OF o2 s, of t] only_fld [OF o4 s, of t] n RB dx by auto
    ultimately show ?thesis using n m2(1) m4(1) m6(1) u(1) dx
      by (auto simp: pooldel_def ld_def st_fld [OF B(1) RB(2)] st_fld [OF m2(3) RB(2)] st_fld [OF m4(3) RB(2)])
  qed
  ultimately show ?thesis using m6(3) unfolding M_def by (metis room_upd)
qed

text \<open>The only block of its size: the node goes.\<close>

lemma pooldel_single:
  assumes f: "free_tree m root T" and B: "space m B" "set (nodes T) \<subseteq> B" and T: "T = plug (Node l [t] r) fs"
  shows "\<exists>m' root' T'. pooldel m root t = Some (m', root') \<and> space m' B \<and> becomes m T (set (nodes T) - {t}) m' root' T'"
proof -
  let ?S = "set (nodes l) \<union> set (nodes r)"
  have c: "tree_at m (par 0 fs) (Node l [t] r)" "ctx_at m 0 root t fs" using f plug_at [of m 0 "Node l [t] r" fs root] unfolding free_tree_def T by auto
  have n: "m (bhp t) = Some (par 0 fs)" "m (bhf t) = Some t" using c(1) by (simp_all add: node_at_def ring_def)
  have d: "distinct (nodes (Node l [t] r))" "set (nodes (Node l [t] r)) \<inter> cnodes fs = {}" using f distinct_plug [of "Node l [t] r" fs] unfolding free_tree_def T by auto
  have N: "set (nodes T) = ?S \<union> {t} \<union> cnodes fs" unfolding T set_nodes_plug by auto
  have s: "sep B" and RB: "t \<in> B" "?S \<subseteq> B" "cnodes fs \<subseteq> B" "set (nodes (Node l [t] r)) \<subseteq> B" using B N by auto
  have nz: "t \<noteq> 0" using room_nz [OF B(1)] RB by auto
  obtain m1 T1 where m1: "del_node m t = Some (m1, ptr T1)" "space m1 B" "joined m l t r m1 T1" using del_node_ok [OF c(1) B(1) RB(4) d(1)] by blast
  from m1(3) obtain q where T1: "tree_at m1 q T1" "set (nodes T1) = ?S" "distinct (nodes T1)" "\<And>f. rbst f (Node l [t] r) \<Longrightarrow> rbst f T1" and o1: "only ?S m m1"
    unfolding joined_def by auto
  have t1: "m1 (bhp t) = Some (par 0 fs)" using only_fld [OF o1 s RB(2,1), of 4] n(1) d(1) by auto
  have c1: "ctx_at m1 0 root t fs" by (intro ctx_at_agree [OF c(2)] only_agree [OF o1 s]) (use RB d in auto)
  have "distinct (nodes (plug Leaf fs))" by (rule distinct_plug_cong [of "Node l [t] r"]) (use f in \<open>simp_all add: free_tree_def T\<close>)
  then obtain m2 root' where m2: "set_child m1 root (par 0 fs) t (ptr T1) = Some (m2, root')" "ctx_at m2 0 root' (ptr T1) fs" "space m2 B" "only (cnodes fs) m1 m2"
    using set_child_ok [OF c1 m1(2) RB(3) _ nz, of "ptr T1"] d(2) by auto
  have "tree_at m2 q T1" by (intro tree_at_agree [OF T1(1)] only_agree [OF m2(4) s]) (use RB d T1 in auto)
  then obtain m3 where m3: "set_parent m2 (ptr T1) (par 0 fs) = Some m3" "tree_at m3 (par 0 fs) T1" "space m3 B" "only ?S m2 m3"
    using set_parent_ok [of m2 q T1 B "par 0 fs"] m2(3) RB T1 by auto
  have c3: "ctx_at m3 0 root' (ptr T1) fs" by (intro ctx_at_agree [OF m2(2)] only_agree [OF m3(4) s]) (use RB d in auto)
  have o: "only (set (nodes T)) m m3"
    by (rule only_trans [OF only_trans [OF only_mono [OF o1] only_mono [OF m2(4)]] only_mono [OF m3(4)]]) (auto simp: N)
  have "becomes m T (set (nodes T1) \<union> cnodes fs) m3 root' (plug T1 fs)"
    by (rule becomesI [OF T _ m3(2) c3 T1(3) _ T1(4) o]) (use f T1(2) in \<open>auto simp: free_tree_def\<close>)
  moreover have "set (nodes T1) \<union> cnodes fs = set (nodes T) - {t}" using d N T1(2) by auto
  moreover have "pooldel m root t = Some (m3, root')"
  proof -
    have "\<not> (par 0 fs = 0 \<and> root \<noteq> t)" by (rule at_root [OF c(2) B(1) RB(3)])
    then show ?thesis using n m1(1) t1 m2(1) m3(1) by (auto simp: pooldel_def ld_def)
  qed
  ultimately show ?thesis using m3(3) by auto
qed

lemma pooldel_ok:
  assumes "free_tree m root T" "space m B" "set (nodes T) \<subseteq> B" "t \<in> set (nodes T)"
  shows "\<exists>m' root' T'. pooldel m root t = Some (m', root') \<and> space m' B \<and> becomes m T (set (nodes T) - {t}) m' root' T'"
proof -
  obtain l R r fs where T: "T = plug (Node l R r) fs" "t \<in> set R" using find_plug [OF assms(4)] by blast
  consider "t \<noteq> hd R" | x xs where "R = t # x # xs" | "R = [t]" using T(2) by (cases R; cases "tl R") auto
  then show ?thesis
  proof cases
    case 1
    then show ?thesis by (rule pooldel_ring [OF assms(1-3) T])
  next
    case 2
    then show ?thesis using pooldel_head [OF assms(1-3)] T(1) by blast
  next
    case 3
    then show ?thesis using pooldel_single [OF assms(1-3)] T(1) by blast
  qed
qed

section \<open>Adding a block\<close>

text \<open>The end of the search: a new leaf.\<close>

lemma add_leaf:
  assumes B: "space m B" "q \<in> B" "cnodes fs \<subseteq> B" and q: "node_at m 0 0 [q] 0" "q \<notin> cnodes fs" and c: "ctx_at m 0 root 0 fs"
    and d: "distinct (nodes (plug Leaf fs))" and sz: "m (bsize (par 0 fs)) = Some (f (par 0 fs))" and b: "rbst f (plug Leaf fs)" "fits f (f q) fs" and ne: "fs \<noteq> []"
  shows "\<exists>m' T'. add_loop m q (f q) (par 0 fs) 0 = Some m' \<and> space m' B \<and> free_tree m' root T' \<and> set (nodes T') = insert q (cnodes fs) \<and> rbst f T' \<and>
      only (insert q (cnodes fs)) m m'"
proof -
  let ?p = "par 0 fs" and ?t = "Node Leaf [q] Leaf"
  let ?m = "m(bhp q \<mapsto> ?p)"
  let ?n = "?m(fld ?p (slot fs) \<mapsto> q)"
  have s: "sep B" and r: "space ?m B" using B(1) by auto
  have o: "only {q} m ?m" by (rule only_upd [OF only_refl]) auto
  have c1: "ctx_at ?m 0 root 0 fs" by (intro ctx_at_agree [OF c] only_agree [OF o s]) (use B q in auto)
  have u: "ctx_at ?n 0 root q fs" "only (cnodes fs) ?m ?n" using ctx_at_upd [OF c1 r B(3) d ne, of q] by auto
  have "node_at ?m ?p 0 [q] 0" using node_at_upd(3) [OF q(1) B(1), of ?p] B(2) by simp
  then have t: "tree_at ?n ?p ?t" using node_at_agree [OF _ only_agree [OF u(2) s B(3)], of ?p 0 "[q]" 0] B q(2) by simp
  have on: "only (insert q (cnodes fs)) m ?n" by (rule only_trans [OF only_mono [OF o] only_mono [OF u(2)]]) auto
  have T: "free_tree ?n root (plug ?t fs)"
    using plug_at [of ?n 0 ?t fs root] t u(1) distinct_plug_cong [OF d, of ?t] q(2) unfolding free_tree_def by simp
  have "rbst f (plug ?t fs)" by (rule rbst_plug_cong [OF b(1)]) (use b(2) in \<open>auto simp: same_def\<close>)
  moreover have "add_loop m q (f q) ?p 0 = Some ?n"
  proof -
    have pB: "?p \<in> B" using par_B [OF c B(1,3) ne] by simp
    have "?m (bsize ?p) = Some (f ?p)" using sz pB B(2) by (simp add: fld_eq [OF s])
    moreover have "f q < f ?p \<longleftrightarrow> slot fs = 2" using b(2) ne by (cases fs rule: slot.cases) auto
    moreover have "slot fs = 2 \<or> slot fs = 3" by (cases fs rule: slot.cases) auto
    ultimately show ?thesis using pB B(2)
      by (subst add_loop.simps) (auto simp: ld_def st_fld [OF B(1)] st_fld [OF r])
  qed
  ultimately show ?thesis using T on B(1) by (auto simp: set_nodes_plug)
qed

text \<open>A node of the same size: the block joins its ring.\<close>

lemma add_ring:
  assumes B: "space m B" "q \<in> B" "set (nodes (plug (Node l R r) fs)) \<subseteq> B" and q: "node_at m 0 0 [q] 0" "q \<notin> set (nodes (plug (Node l R r) fs))"
    and t: "tree_at m (par 0 fs) (Node l R r)" "ctx_at m 0 root (hd R) fs"
    and d: "distinct (nodes (plug (Node l R r) fs))" and sz: "m (bsize (hd R)) = Some (f q)" and b: "rbst f (plug (Node l R r) fs)" "f q = f (hd R)"
  shows "\<exists>m' T'. add_loop m q (f q) tp (hd R) = Some m' \<and> space m' B \<and> free_tree m' root T' \<and> set (nodes T') = insert q (set (nodes (plug (Node l R r) fs))) \<and> rbst f T' \<and>
      only (insert q (set (nodes (plug (Node l R r) fs)))) m m'"
proof -
  let ?N = "set (nodes (plug (Node l R r) fs))" and ?t = "Node l (R @ [q]) r"
  have n: "node_at m (par 0 fs) (ptr l) R (ptr r)" "tree_at m (hd R) l" "tree_at m (hd R) r" using t(1) by auto
  have N: "?N = set (nodes l) \<union> set R \<union> set (nodes r) \<union> cnodes fs" by (auto simp: set_nodes_plug)
  have dd: "distinct (nodes (Node l R r))" "set (nodes (Node l R r)) \<inter> cnodes fs = {}" using distinct_plug [OF d] by auto
  have s: "sep B" and RB: "set R \<subseteq> B" using B N by auto
  note hR = node_at_ne [OF n(1)]
  have ne: "R \<noteq> []" using hR by auto
  define M where "M = m(bhv q \<mapsto> last R, bhf (last R) \<mapsto> q, bhf q \<mapsto> hd R, bhv (hd R) \<mapsto> q)"
  have ring: "ring M (R @ [q])" "m (bhv (hd R)) = Some (last R)"
    unfolding M_def using insert_ring [of m R q B] n(1) q(2) N dd(1) B RB by (auto simp: node_at_def)
  have lB: "last R \<in> B" "last R \<in> set R" "hd R \<in> B" "hd R \<noteq> q" using ne RB hR q(2) N by auto
  have nz: "hd R \<noteq> 0" by (rule room_nz [OF B(1) lB(3)])
  have o: "only (insert q (set R)) m M" unfolding M_def using lB hR by (intro only_upd) auto
  have ag: "agree (set (nodes l) \<union> set (nodes r) \<union> cnodes fs) m M" by (rule only_agree [OF o s]) (use dd B q N in auto)
  have lo: "y \<in> B \<Longrightarrow> k \<in> {2..4} \<Longrightarrow> M (fld y k) = m (fld y k)" for y k
    unfolding M_def using lB B by (auto simp: fld_eq [OF s])
  have "node_at M (par 0 fs) (ptr l) (R @ [q]) (ptr r)"
  proof -
    have "x \<in> B" if "x \<in> set (tl R)" for x using that RB list.set_sel(2) [OF ne] by auto
    then show ?thesis using n(1) ne ring(1) q(1) lB(3) B(2) by (auto simp: node_at_def lo)
  qed
  then have "tree_at M (par 0 fs) ?t" using n ag tree_at_agree ne by auto
  moreover have "ctx_at M 0 root (ptr ?t) fs" using t(2) ag ctx_at_agree ne by auto
  moreover have "distinct (nodes (plug ?t fs))" by (rule distinct_plug_cong [OF d]) (use dd q N in auto)
  ultimately have T: "free_tree M root (plug ?t fs)" using plug_at [of M 0 ?t fs root] unfolding free_tree_def by auto
  have bb: "rbst f l" "rbst f r" "same f R" "\<forall>x \<in> set (nodes l). f x < f (hd R)" "\<forall>x \<in> set (nodes r). f (hd R) < f x" "\<forall>x \<in> set (nodes (Node l R r)). fits f (f x) fs"
    using rbst_plugD [OF b(1)] by auto
  have "f x = f (hd R)" if "x \<in> set (R @ [q])" for x using that sameD [OF bb(3), of x] b(2) by auto
  then have "same f (R @ [q])" unfolding same_def hd_append2 [OF ne] by blast
  moreover have "fits f (f q) fs" using bb(6) hR b(2) by simp
  ultimately have "rbst f (plug ?t fs)" using bb ne by (intro rbst_plug_cong [OF b(1)]) auto
  moreover have "add_loop m q (f q) tp (hd R) = Some M"
    using sz lB nz B ring(2) by (subst add_loop.simps) (simp add: M_def ld_def st_fld [OF B(1)] st_fld [of _ B] fld_eq [OF s])
  moreover have "only (insert q ?N) m M" by (rule only_mono [OF o]) (auto simp: N)
  moreover have "set (nodes (plug ?t fs)) = insert q ?N" "space M B" using B(1) by (auto simp: set_nodes_plug M_def)
  ultimately show ?thesis using T by blast
qed

lemma add_loop_ok:
  assumes B: "space m B" "q \<in> B" and q: "node_at m 0 0 [q] 0"
  shows "\<lbrakk> tree_at m (par 0 fs) t; ctx_at m 0 root (ptr t) fs; set (nodes (plug t fs)) \<subseteq> B; q \<notin> set (nodes (plug t fs)); distinct (nodes (plug t fs));
      \<forall>x \<in> set (nodes (plug t fs)). m (bsize x) = Some (f x); rbst f (plug t fs); fits f (f q) fs; fs = [] \<longrightarrow> t \<noteq> Leaf \<rbrakk> \<Longrightarrow>
    \<exists>m' T'. add_loop m q (f q) (par 0 fs) (ptr t) = Some m' \<and> space m' B \<and> free_tree m' root T' \<and> set (nodes T') = insert q (set (nodes (plug t fs))) \<and> rbst f T' \<and>
      only (insert q (set (nodes (plug t fs)))) m m'"
proof (induction t arbitrary: fs)
  case Leaf
  then have "par 0 fs \<in> cnodes fs" using par_in by auto
  then show ?case using add_leaf [OF B, of fs root f] q Leaf by (auto simp: set_nodes_plug)
next
  case (Node l R r)
  have hR: "hd R \<in> set (nodes (plug (Node l R r) fs))" using Node.prems(1) node_at_ne by (auto simp: set_nodes_plug)
  then have sz: "m (bsize (hd R)) = Some (f (hd R))" "hd R \<noteq> 0" using Node.prems room_nz [OF B(1)] by auto
  have n: "m (bhl (hd R)) = Some (ptr l)" "m (bhr (hd R)) = Some (ptr r)" using Node.prems(1) by (auto simp: node_at_def)
  consider "f q = f (hd R)" | "f q < f (hd R)" | "f (hd R) < f q" by linarith
  then show ?case
  proof cases
    case 1
    then show ?thesis using add_ring [OF B, of l R r fs root f "par 0 fs"] q Node.prems sz by auto
  next
    case 2
    then have "add_loop m q (f q) (par 0 fs) (hd R) = add_loop m q (f q) (hd R) (ptr l)" using sz n by (subst add_loop.simps) (simp add: ld_def)
    then show ?thesis using Node.IH(1) [of "FL R r # fs"] Node.prems 2 by auto
  next
    case 3
    then have "add_loop m q (f q) (par 0 fs) (hd R) = add_loop m q (f q) (hd R) (ptr r)" using sz n by (subst add_loop.simps) (simp add: ld_def)
    then show ?thesis using Node.IH(2) [of "FR l R # fs"] Node.prems 3 by auto
  qed
qed

lemma pooladd_ok:
  assumes T: "free_tree m root T" and B: "space m B" "set (nodes T) \<subseteq> B" "q \<in> B" "q \<notin> set (nodes T)"
    and sz: "\<forall>x \<in> insert q (set (nodes T)). m (bsize x) = Some (f x)" and b: "rbst f T"
  shows "\<exists>m' root' T'. pooladd m root q = Some (m', root') \<and> space m' B \<and> free_tree m' root' T' \<and> set (nodes T') = insert q (set (nodes T)) \<and> rbst f T' \<and>
    only (insert q (set (nodes T))) (m(magic q \<mapsto> MAGIC_F)) m'"
proof -
  let ?m0 = "m(magic q \<mapsto> MAGIC_F)"
  define M where "M = ?m0(bhl q \<mapsto> 0, bhr q \<mapsto> 0, bhp q \<mapsto> 0, bhf q \<mapsto> q, bhv q \<mapsto> q)"
  have s: "sep B" and rM: "space M B" using B(1) by (auto simp: M_def)
  have o: "only {q} ?m0 M" unfolding M_def by (rule only_upd, rule only_upd, rule only_upd, rule only_upd, rule only_upd, rule only_refl) auto
  have "agree (set (nodes T)) m ?m0" using B by (intro agree_upd [OF B(1)]) auto
  moreover have "agree (set (nodes T)) ?m0 M" by (rule only_agree [OF o s]) (use B in auto)
  ultimately have ag: "agree (set (nodes T)) m M" by (rule agree_trans)
  have q: "node_at M 0 0 [q] 0" using B(3) unfolding M_def by (simp add: node_at_def ring_def fld_eq [OF s])
  have szM: "\<forall>x \<in> insert q (set (nodes T)). M (bsize x) = Some (f x)" unfolding M_def using sz B by (auto simp: fld_eq [OF s])
  have pa: "pooladd m root q = (if root = 0 then Some (M, q) else do { sz \<leftarrow> ld M (bsize q); m \<leftarrow> add_loop M q sz 0 root; Some (m, root) })"
    unfolding pooladd_def M_def using B(1,3) by (simp add: st_fld [of _ B])
  show ?thesis
  proof (cases "T = Leaf")
    case True
    then have "root = 0" using T by (simp add: free_tree_def)
    moreover have "free_tree M q (Node Leaf [q] Leaf)" using q by (simp add: free_tree_def)
    ultimately show ?thesis using True pa rM o by (intro exI [of _ M] exI [of _ q] exI [of _ "Node Leaf [q] Leaf"]) (simp add: same_def)
  next
    case False
    have TM: "tree_at M 0 T" "root = ptr T" "distinct (nodes T)" using T tree_at_agree [OF _ ag] by (auto simp: free_tree_def)
    then have "root \<noteq> 0" using ptr_zero [OF TM(1) rM B(2)] False by simp
    obtain m' T' where m': "add_loop M q (f q) 0 root = Some m'" "space m' B" "free_tree m' root T'" "set (nodes T') = insert q (set (nodes T))" "rbst f T'"
      "only (insert q (set (nodes T))) M m'"
      using add_loop_ok [OF rM B(3) q, of "[]" T root f] TM False B szM b by auto
    have "only (insert q (set (nodes T))) ?m0 m'" by (rule only_trans [OF only_mono [OF o] m'(6)]) auto
    then show ?thesis using pa \<open>root \<noteq> 0\<close> szM m' by (intro exI [of _ m'] exI [of _ root] exI [of _ T']) (simp add: ld_def)
  qed
qed

section \<open>Searching\<close>

text \<open>The search is the search for the first block that is large enough in the list of all free blocks.\<close>

lemma find_loop_first:
  assumes B: "space m B"
  shows "\<lbrakk> tree_at m p t; set (nodes t) \<subseteq> B; rbst f t; \<forall>x \<in> set (nodes t). m (bsize x) = Some (f x) \<rbrakk> \<Longrightarrow>
    find_loop m n q (ptr t) = Some (case find (\<lambda>b. n \<le> f b) (nodes t) of None \<Rightarrow> (False, q) | Some b \<Rightarrow> (f b = n, b))"
proof (induction t arbitrary: p q)
  case Leaf
  then show ?case by (simp add: find_loop.simps)
next
  case (Node l R r)
  have hR: "hd R \<in> set R" using Node.prems(1) node_at_ne by auto
  then have ne: "R \<noteq> []" by auto
  then have nz: "hd R \<noteq> 0" using Node.prems(2) by (intro room_nz [OF B]) auto
  have w: "m (bsize (hd R)) = Some (f (hd R))" "m (bhl (hd R)) = Some (ptr l)" "m (bhr (hd R)) = Some (ptr r)"
    using Node.prems(1,4) hR by (auto simp: node_at_def)
  have IH: "find_loop m n q' (ptr l) = Some (case find (\<lambda>b. n \<le> f b) (nodes l) of None \<Rightarrow> (False, q') | Some b \<Rightarrow> (f b = n, b))"
    "find_loop m n q' (ptr r) = Some (case find (\<lambda>b. n \<le> f b) (nodes r) of None \<Rightarrow> (False, q') | Some b \<Rightarrow> (f b = n, b))" for q'
    using Node.IH [of "hd R" q'] Node.prems by auto
  have hd: "find P R = Some (hd R)" if "P (hd R)" for P using ne that by (cases R) auto
  have app: "find P (as @ bs) = (case find P as of None \<Rightarrow> find P bs | Some x \<Rightarrow> Some x)" for P and as bs :: "nat list" by (induction as) auto
  have low: "find (\<lambda>b. n \<le> f b) (nodes l) = None" if "f (hd R) \<le> n" using Node.prems(3) that by (fastforce simp: find_None_iff)
  have ring: "find (\<lambda>b. n \<le> f b) R = None" if "f (hd R) < n"
  proof -
    have "f x = f (hd R)" if "x \<in> set R" for x using Node.prems(3) sameD that by auto
    then show ?thesis using that by (auto simp: find_None_iff)
  qed
  have step: "find_loop m n q (hd R) = (if f (hd R) = n then Some (True, hd R) else if n < f (hd R) then find_loop m n (hd R) (ptr l) else find_loop m n q (ptr r))"
    using nz w by (subst find_loop.simps) (simp add: ld_def)
  consider "f (hd R) = n" | "n < f (hd R)" | "f (hd R) < n" by linarith
  then show ?case
  proof cases
    case 1
    then show ?thesis using low hd [of "\<lambda>b. n \<le> f b"] by (simp add: step app)
  next
    case 2
    then show ?thesis using hd [of "\<lambda>b. n \<le> f b"] by (simp add: step app IH split: option.splits)
  next
    case 3
    then show ?thesis using low ring by (simp add: step app IH)
  qed
qed

lemma rbst_sorted: "rbst f t \<Longrightarrow> sorted (map f (nodes t))"
proof (induction t)
  case (Node l R r)
  then have s: "sorted (map f (nodes l))" "sorted (map f (nodes r))" "same f R" and o: "\<forall>x \<in> set (nodes l). f x < f (hd R)" "\<forall>x \<in> set (nodes r). f (hd R) < f x" by auto
  have R: "f x = f (hd R)" if "x \<in> set R" for x by (rule sameD [OF s(3) that])
  then have "map f R = replicate (length R) (f (hd R))" by (intro nth_equalityI) auto
  then have "sorted (map f R)" by (simp add: sorted_replicate)
  moreover have "\<forall>x \<in> set (nodes l). \<forall>y \<in> set R \<union> set (nodes r). f x \<le> f y" "\<forall>x \<in> set R. \<forall>y \<in> set (nodes r). f x \<le> f y" using R o by fastforce+
  ultimately show ?case using s by (auto simp: sorted_append)
qed simp

end
