(* ===== verification/PoolBlocks.thy ===== *)
theory PoolBlocks
  imports PoolTree
begin

unbundle bit_operations_syntax

text \<open>The memory of a pool as a map from addresses to blocks (allocated, free, leader of a chunk, end of a chunk) that lie end to end. Every change the allocator makes to
  the memory is a change of this map: marking, taking from the tree and putting into it, joining two neighbours, splitting.\<close>

section \<open>Blocks\<close>

text \<open>Allocated blocks, free blocks, leaders of chunks, ends of chunks, and ends that are not yet marked.\<close>

datatype kind = KA | KF | KE | KX | KY

type_synonym bmap = "nat \<rightharpoonup> kind \<times> nat"

definition isend :: "kind \<Rightarrow> bool" where "isend k \<longleftrightarrow> k = KX \<or> k = KY"

lemma isend_simps [simp]: "\<not> isend KA" "\<not> isend KF" "\<not> isend KE" "isend KX" "isend KY"
  by (simp_all add: isend_def)

fun mark :: "kind \<Rightarrow> nat \<Rightarrow> bool" where
  "mark KA g \<longleftrightarrow> g = MAGIC_A"
| "mark KF g \<longleftrightarrow> g = MAGIC_F"
| "mark KE g \<longleftrightarrow> g = MAGIC_E"
| "mark KX g \<longleftrightarrow> g = MAGIC_E"
| "mark KY g \<longleftrightarrow> g \<noteq> MAGIC_F"

definition tail :: "nat \<Rightarrow> nat \<Rightarrow> nat" where
  "tail b s = b + s - 8"

definition block_at :: "mem \<Rightarrow> nat \<Rightarrow> kind \<Rightarrow> nat \<Rightarrow> bool" where
  "block_at m b k s \<longleftrightarrow> (\<forall>i < s div 8. m (fld b i) \<noteq> None) \<and> (\<exists>g. m (magic b) = Some g \<and> mark k g) \<and>
     (\<not> isend k \<longrightarrow> m (bsize b) = Some s \<and> m (tail b s) = Some b)"

text \<open>The blocks lie end to end, from a leader to an end, and do not overlap.\<close>

definition bshape :: "nat \<Rightarrow> kind \<Rightarrow> nat \<Rightarrow> bool" where
  "bshape b k s \<longleftrightarrow> 0 < b \<and> b mod 8 = 0 \<and> 64 \<le> s \<and> s mod 64 = 0 \<and> (k = KE \<or> isend k \<longrightarrow> s = 64)"

definition tiles :: "bmap \<Rightarrow> bool" where
  "tiles bk \<longleftrightarrow> finite (dom bk) \<and> (\<forall>b k s. bk b = Some (k, s) \<longrightarrow> bshape b k s \<and>
      (\<forall>c k' s'. bk c = Some (k', s') \<longrightarrow> b \<noteq> c \<longrightarrow> b + s \<le> c \<or> c + s' \<le> b) \<and>
      (\<not> isend k \<longrightarrow> (\<exists>k' s'. bk (b + s) = Some (k', s') \<and> k' \<noteq> KE)) \<and>
      (k \<noteq> KE \<longrightarrow> (\<exists>c k' s'. bk c = Some (k', s') \<and> \<not> isend k' \<and> c + s' = b)))"

definition frees :: "bmap \<Rightarrow> nat set" where
  "frees bk = {b. \<exists>s. bk b = Some (KF, s)}"

definition bsz :: "bmap \<Rightarrow> nat \<Rightarrow> nat" where
  "bsz bk b = (case bk b of None \<Rightarrow> 0 | Some (k, s) \<Rightarrow> s)"

text \<open>The memory of a pool: its blocks, and the tree of the free ones but for those in \<open>X\<close>, which are about to be joined.\<close>

definition core :: "mem \<Rightarrow> nat \<Rightarrow> bmap \<Rightarrow> rtree \<Rightarrow> nat set \<Rightarrow> bool" where
  "core m root bk T X \<longleftrightarrow> tiles bk \<and> (\<forall>b k s. bk b = Some (k, s) \<longrightarrow> block_at m b k s) \<and> free_tree m root T \<and>
     rbst (bsz bk) T \<and> set (nodes T) = frees bk - X"

text \<open>The words of allocated blocks that belong to their users, and the links of the leaders.\<close>

definition owned :: "kind \<Rightarrow> bool" where "owned k \<longleftrightarrow> k = KA \<or> k = KE"

lemma owned_simps [simp]: "owned KA" "owned KE" "\<not> owned KF" "\<not> owned KX" "\<not> owned KY" by (simp_all add: owned_def)

definition data :: "bmap \<Rightarrow> nat set" where
  "data bk = {fld b i | b i k s. bk b = Some (k, s) \<and> owned k \<and> 2 \<le> i \<and> i + 1 < s div 8}"

definition kept :: "nat set \<Rightarrow> mem \<Rightarrow> mem \<Rightarrow> bool" where
  "kept D m m' \<longleftrightarrow> (\<forall>a \<in> D. m' a = m a)"

lemma kept_refl [simp]: "kept D m m" by (simp add: kept_def)
lemma kept_trans: "kept D m m' \<Longrightarrow> kept E m' m'' \<Longrightarrow> D \<subseteq> E \<Longrightarrow> kept D m m''"
  by (auto simp: kept_def)
lemma kept_mono: "kept D m m' \<Longrightarrow> E \<subseteq> D \<Longrightarrow> kept E m m'" by (auto simp: kept_def)

section \<open>Words of blocks\<close>

lemma tiles_shape: "tiles bk \<Longrightarrow> bk b = Some (k, s) \<Longrightarrow> bshape b k s" by (auto simp: tiles_def)

lemma tiles_finite: "tiles bk \<Longrightarrow> finite (dom bk)" by (simp add: tiles_def)

lemma tiles_disj: "tiles bk \<Longrightarrow> bk b = Some (k, s) \<Longrightarrow> bk c = Some (k', s') \<Longrightarrow> b \<noteq> c \<Longrightarrow> b + s \<le> c \<or> c + s' \<le> b"
  unfolding tiles_def by blast

lemma tiles_next: "tiles bk \<Longrightarrow> bk b = Some (k, s) \<Longrightarrow> \<not> isend k \<Longrightarrow> \<exists>k' s'. bk (b + s) = Some (k', s') \<and> k' \<noteq> KE"
  unfolding tiles_def by blast

lemma tiles_prev: "tiles bk \<Longrightarrow> bk b = Some (k, s) \<Longrightarrow> k \<noteq> KE \<Longrightarrow> \<exists>c k' s'. bk c = Some (k', s') \<and> \<not> isend k' \<and> c + s' = b"
  unfolding tiles_def by blast

lemma tilesI:
  assumes "finite (dom bk)" "\<And>b k s. bk b = Some (k, s) \<Longrightarrow> bshape b k s"
    "\<And>b k s c k' s'. \<lbrakk> bk b = Some (k, s); bk c = Some (k', s'); b < c \<rbrakk> \<Longrightarrow> b + s \<le> c"
    "\<And>b k s. \<lbrakk> bk b = Some (k, s); \<not> isend k \<rbrakk> \<Longrightarrow> \<exists>k' s'. bk (b + s) = Some (k', s') \<and> k' \<noteq> KE"
    "\<And>b k s. \<lbrakk> bk b = Some (k, s); k \<noteq> KE \<rbrakk> \<Longrightarrow> \<exists>c k' s'. bk c = Some (k', s') \<and> \<not> isend k' \<and> c + s' = b"
  shows "tiles bk"
  unfolding tiles_def
proof (intro conjI allI impI assms(1))
  fix b c k s k' s' assume "bk b = Some (k, s)" "bk c = Some (k', s')" "b \<noteq> c"
  then show "b + s \<le> c \<or> c + s' \<le> b" using assms(3) [of b k s c k' s'] assms(3) [of c k' s' b k s] by linarith
qed (use assms in blast)+

text \<open>The order of two blocks.\<close>

lemma tiles_less: "tiles bk \<Longrightarrow> bk b = Some (k, s) \<Longrightarrow> bk c = Some (k', s') \<Longrightarrow> b < c \<Longrightarrow> b + s \<le> c"
  using tiles_disj [of bk b k s c k' s'] tiles_shape [of bk c k' s'] by (auto simp: bshape_def)

lemma shape_words:
  assumes "bshape b k s" shows "8 \<le> s div 8 \<and> 8 * (s div 8) = s"
proof -
  have "64 \<le> s" "s mod 64 = 0" using assms by (auto simp: bshape_def)
  then obtain q where "s = 64 * q" by auto
  with \<open>64 \<le> s\<close> show ?thesis by simp
qed

lemma tail_fld: "bshape b k s \<Longrightarrow> tail b s = fld b (s div 8 - 1)"
  using shape_words [of b k s] by (simp add: tail_def fld_def diff_mult_distrib2)

lemma word_eq:
  assumes "tiles bk" "bk b = Some (k, s)" "bk c = Some (k', s')" "i < s div 8" "j < s' div 8"
  shows "fld b i = fld c j \<longleftrightarrow> b = c \<and> i = j"
proof (cases "b = c")
  case False
  have "b + s \<le> c \<or> c + s' \<le> b" using assms(1-3) False unfolding tiles_def by blast
  moreover have "8 * i < s" "8 * j < s'" using assms(4,5) by auto
  ultimately show ?thesis using False by (auto simp: fld_def)
qed (simp add: fld_def)

lemma core_room: "core m root bk T X \<Longrightarrow> space m (dom bk)"
proof -
  assume c: "core m root bk T X"
  have t: "tiles bk" using c by (simp add: core_def)
  have "sep (dom bk)" unfolding sep_def
  proof (intro ballI impI)
    fix b c assume "b \<in> dom bk" "c \<in> dom bk" "b \<noteq> c"
    then obtain k s k' s' where b: "bk b = Some (k, s)" "bk c = Some (k', s')" by auto
    then have "b + s \<le> c \<or> c + s' \<le> b" "64 \<le> s" "64 \<le> s'" using t \<open>b \<noteq> c\<close> tiles_shape [OF t] unfolding tiles_def bshape_def by blast+
    then show "b + 64 \<le> c \<or> c + 64 \<le> b" by linarith
  qed
  moreover have "0 \<notin> dom bk" using tiles_shape [OF t] by (auto simp: bshape_def)
  moreover have "m (fld b j) \<noteq> None" if j: "b \<in> dom bk" "j < 8" for b j
  proof -
    obtain k s where b: "bk b = Some (k, s)" using j by auto
    then have "j < s div 8" using shape_words [OF tiles_shape [OF t b]] j by linarith
    then show ?thesis using c b by (auto simp: core_def block_at_def)
  qed
  ultimately show ?thesis by (auto simp: space_def)
qed

lemma core_block: "core m root bk T X \<Longrightarrow> bk b = Some (k, s) \<Longrightarrow> block_at m b k s" by (simp add: core_def)

lemma core_fields:
  assumes "core m root bk T X" "bk b = Some (k, s)" "\<not> isend k"
  shows "m (bsize b) = Some s" "m (tail b s) = Some b" "\<exists>g. m (magic b) = Some g \<and> mark k g"
  using core_block [OF assms(1,2)] assms(3) by (auto simp: block_at_def)

lemma frees_dom: "frees bk \<subseteq> dom bk" by (auto simp: frees_def)

lemma block_at_cong:
  assumes "block_at m b k s" "bshape b k s" "\<And>i. i < s div 8 \<Longrightarrow> m' (fld b i) = m (fld b i)"
  shows "block_at m' b k s"
  using assms(1) assms(3) [of 0] assms(3) [of 1] assms(3) [of "s div 8 - 1"] assms(3) shape_words [OF assms(2)] by (auto simp: block_at_def tail_fld [OF assms(2)])

text \<open>Writes to the links of free blocks change nothing else.\<close>

lemma block_at_only:
  assumes t: "tiles bk" and b: "bk b = Some (k, s)" "block_at m b k s" and o: "only S m m'" "S \<subseteq> dom bk"
    and "\<forall>c \<in> S. \<forall>j \<in> {2..6}. m' (fld c j) \<noteq> None"
  shows "block_at m' b k s"
proof -
  have w: "m' (fld b i) = m (fld b i)" if "i < s div 8" "i < 2 \<or> i = s div 8 - 1" for i
  proof -
    have "fld b i \<noteq> fld c j" if c: "c \<in> S" "j \<in> {2..6}" for c j
    proof -
      obtain k' s' where c': "bk c = Some (k', s')" using c(1) o(2) by auto
      have "j < s' div 8" "8 \<le> s div 8" using c(2) shape_words [OF tiles_shape [OF t c']] shape_words [OF tiles_shape [OF t b(1)]] by auto
      then show ?thesis using word_eq [OF t b(1) c'] \<open>i < s div 8\<close> \<open>i < 2 \<or> i = s div 8 - 1\<close> c(2) by auto
    qed
    then show ?thesis using o(1) by (auto simp: only_def)
  qed
  have "m' a \<noteq> None" if "m a \<noteq> None" for a
    using that o(1) assms(6) by (cases "\<exists>c \<in> S. \<exists>j \<in> {2..6}. a = fld c j") (auto simp: only_def)
  then show ?thesis using b(2) w [of 0] w [of 1] w [of "s div 8 - 1"] shape_words [OF tiles_shape [OF t b(1)]]
    by (auto simp: block_at_def tail_fld [OF tiles_shape [OF t b(1)]])
qed

lemma kept_only:
  assumes t: "tiles bk" and o: "only S m m'" "S \<subseteq> dom bk" "\<And>b k s. b \<in> S \<Longrightarrow> bk b = Some (k, s) \<Longrightarrow> \<not> owned k"
  shows "kept (data bk) m m'"
  unfolding kept_def
proof
  fix a assume "a \<in> data bk"
  then obtain b i k s where a: "a = fld b i" "bk b = Some (k, s)" "i + 1 < s div 8" "owned k" by (auto simp: data_def)
  have "a \<noteq> fld c j" if c: "c \<in> S" "j \<in> {2..6}" for c j
  proof -
    obtain k' s' where c': "bk c = Some (k', s')" using c(1) o(2) by auto
    have "j < s' div 8" using c(2) shape_words [OF tiles_shape [OF t c']] by auto
    then show ?thesis using word_eq [OF t a(2) c', of i j] a o(3) [OF c(1), of k s] by auto
  qed
  then show "m' a = m a" using o(1) by (auto simp: only_def)
qed

section \<open>Operations on the tree\<close>

lemma room_dom: "space m B \<Longrightarrow> S \<subseteq> B \<Longrightarrow> \<forall>c \<in> S. \<forall>j \<in> {2..6}. m (fld c j) \<noteq> None"
  by (auto simp: space_def)

lemma core_sizes: "core m root bk T X \<Longrightarrow> b \<in> frees bk \<Longrightarrow> m (bsize b) = Some (bsz bk b)"
  by (auto simp: bsz_def frees_def dest: core_fields(1))

lemma del_core:
  assumes c: "core m root bk T X" and b: "b \<in> set (nodes T)"
  shows "\<exists>m' root' T'. pooldel m root b = Some (m', root') \<and> core m' root' bk T' (insert b X) \<and> kept (data bk) m m'"
proof -
  have t: "tiles bk" and n: "set (nodes T) = frees bk - X" using c by (auto simp: core_def)
  have B: "set (nodes T) \<subseteq> dom bk" using n frees_dom by auto
  note rm = core_room [OF c]
  obtain m' root' T' where d: "pooldel m root b = Some (m', root')" "space m' (dom bk)" "becomes m T (set (nodes T) - {b}) m' root' T'"
    using pooldel_ok [OF _ rm B b] c unfolding core_def by blast
  from d(3) have d3: "free_tree m' root' T'" "set (nodes T') = set (nodes T) - {b}" "\<And>f. rbst f T \<Longrightarrow> rbst f T'" "only (set (nodes T)) m m'" by (auto simp: becomes_def)
  have "block_at m' x k s" if "bk x = Some (k, s)" for x k s
    by (rule block_at_only [OF t that core_block [OF c that] d3(4) B room_dom [OF d(2) B]])
  then have "core m' root' bk T' (insert b X)" using c d3 n by (auto simp: core_def)
  moreover have "kept (data bk) m m'" by (rule kept_only [OF t d3(4) B]) (use n in \<open>auto simp: frees_def\<close>)
  ultimately show ?thesis using d(1) by blast
qed

text \<open>Kinds matter to the tiling only as leaders and ends.\<close>

definition cls :: "(kind \<times> nat) option \<Rightarrow> (bool \<times> bool \<times> nat) option" where
  "cls x = map_option (\<lambda>(k, s). (isend k, k = KE, s)) x"

lemma cls_Some: "cls x = cls y \<Longrightarrow> x = Some (k, s) \<Longrightarrow> \<exists>k'. y = Some (k', s) \<and> isend k' = isend k \<and> (k' = KE) = (k = KE)"
  by (cases y) (auto simp: cls_def)

lemma tiles_cls:
  assumes t: "tiles bk" and e: "\<And>x. cls (bk' x) = cls (bk x)"
  shows "tiles bk'"
proof (rule tilesI)
  have "bk' x = None \<longleftrightarrow> bk x = None" for x using e [of x] by (cases "bk x"; cases "bk' x") (auto simp: cls_def)
  then have "dom bk' = dom bk" by (auto simp: dom_def)
  then show "finite (dom bk')" using tiles_finite [OF t] by simp
next
  fix b k s assume b: "bk' b = Some (k, s)"
  from cls_Some [OF e b] obtain k0 where k0: "bk b = Some (k0, s)" "isend k0 = isend k" "(k0 = KE) = (k = KE)" by blast
  then show "bshape b k s" using tiles_shape [OF t k0(1)] by (auto simp: bshape_def)
  show "\<exists>k' s'. bk' (b + s) = Some (k', s') \<and> k' \<noteq> KE" if "\<not> isend k"
    using tiles_next [OF t k0(1)] that k0(2) cls_Some [OF e [symmetric], of "b + s"] by (metis)
  show "\<exists>c k' s'. bk' c = Some (k', s') \<and> \<not> isend k' \<and> c + s' = b" if "k \<noteq> KE"
    using tiles_prev [OF t k0(1)] that k0(3) cls_Some [OF e [symmetric]] by metis
  fix c k' s' assume "bk' c = Some (k', s')" "b < c"
  then show "b + s \<le> c" using tiles_less [OF t k0(1)] cls_Some [OF e, of c] by blast
qed

text \<open>A block outside the tree changes its kind: its mark is set.\<close>

lemma mark_core:
  assumes c: "core m root bk T X" and b: "bk b = Some (k, s)" "b \<notin> set (nodes T)" and k: "isend k' = isend k" "(k' = KE) = (k = KE)" and g: "mark k' g"
    and X: "frees (bk(b \<mapsto> (k', s))) - X' = frees bk - X"
  shows "core (m(magic b \<mapsto> g)) root (bk(b \<mapsto> (k', s))) T X'"
proof -
  let ?m = "m(magic b \<mapsto> g)" and ?bk = "bk(b \<mapsto> (k', s))"
  have t: "tiles bk" and ft: "free_tree m root T" and n: "set (nodes T) = frees bk - X" using c by (auto simp: core_def)
  have t': "tiles ?bk" by (rule tiles_cls [OF t]) (use b k in \<open>auto simp: cls_def\<close>)
  have "agree (set (nodes T)) m ?m" by (rule agree_upd [OF core_room [OF c]]) (use b n frees_dom [of bk] in auto)
  then have "free_tree ?m root T" using ft tree_at_agree by (auto simp: free_tree_def)
  moreover have "block_at ?m x kx sx" if x: "?bk x = Some (kx, sx)" for x kx sx
  proof -
    obtain kx' where x': "bk x = Some (kx', sx)" "x \<noteq> b \<longrightarrow> kx' = kx" "isend kx' = isend kx" using x b k by (cases "x = b") auto
    have w: "?m (fld x i) = (if x = b \<and> i = 0 then Some g else m (fld x i))" if "i < sx div 8" for i
      using word_eq [OF t x'(1) b(1) that, of 0] shape_words [OF tiles_shape [OF t b(1)]] by auto
    then show ?thesis using core_block [OF c x'(1)] shape_words [OF tiles_shape [OF t x'(1)]] x x'(2,3) g
      by (auto simp: block_at_def tail_fld [OF tiles_shape [OF t x'(1)]])
  qed
  moreover have "bsz ?bk = bsz bk" using b(1) by (auto simp: bsz_def fun_eq_iff)
  ultimately show ?thesis using c t' n X by (simp add: core_def)
qed

text \<open>A block outside the tree is put in.\<close>

lemma pooladd_marked: "m (magic q) \<noteq> None \<Longrightarrow> pooladd (m(magic q \<mapsto> v)) root q = pooladd m root q"
proof -
  assume "m (magic q) \<noteq> None"
  then have "st (m(magic q \<mapsto> v)) (magic q) MAGIC_F = st m (magic q) MAGIC_F" by (simp add: st_def)
  then show ?thesis by (simp only: pooladd_def)
qed

text \<open>The words of free blocks that no operation on the tree touches.\<close>

definition idle :: "bmap \<Rightarrow> nat set" where
  "idle bk = {fld b i | b i s. bk b = Some (KF, s) \<and> 7 \<le> i \<and> i + 1 < s div 8}"

lemma idle_only:
  assumes t: "tiles bk" and o: "only S m m'" "S \<subseteq> dom bk"
  shows "kept (idle bk) m m'"
  unfolding kept_def
proof
  fix a assume "a \<in> idle bk"
  then obtain b i s where a: "a = fld b i" "bk b = Some (KF, s)" "7 \<le> i" "i + 1 < s div 8" unfolding idle_def by blast
  have "a \<noteq> fld c j" if c: "c \<in> S" "j \<in> {2..6}" for c j
  proof -
    obtain k' s' where c': "bk c = Some (k', s')" using c(1) o(2) by auto
    then show ?thesis using word_eq [OF t a(2) c', of i j] shape_words [OF tiles_shape [OF t c']] a c(2) by auto
  qed
  then show "m' a = m a" using o(1) by (auto simp: only_def)
qed

lemma add_core:
  assumes c: "core m root bk T X" and b: "bk b = Some (k, s)" "b \<notin> set (nodes T)" "k = KA \<or> k = KF"
  shows "\<exists>m' root' T'. pooladd m root b = Some (m', root') \<and> core m' root' (bk(b \<mapsto> (KF, s))) T' (X - {b}) \<and> kept (data (bk(b \<mapsto> (KF, s)))) m m' \<and> kept (idle (bk(b \<mapsto> (KF, s)))) m m'"
proof -
  let ?m = "m(magic b \<mapsto> MAGIC_F)" and ?bk = "bk(b \<mapsto> (KF, s))"
  have n: "set (nodes T) = frees bk - X" using c by (simp add: core_def)
  have c1: "core ?m root ?bk T (insert b X)" by (rule mark_core [OF c b(1,2)]) (use b n in \<open>auto simp: frees_def\<close>)
  have t: "tiles ?bk" and ft: "free_tree ?m root T" and bs: "rbst (bsz ?bk) T" and n1: "set (nodes T) = frees ?bk - insert b X" using c1 by (auto simp: core_def)
  have B: "set (nodes T) \<subseteq> dom ?bk" "b \<in> dom ?bk" "insert b (set (nodes T)) \<subseteq> dom ?bk" using n1 frees_dom [of ?bk] by auto
  note rm = core_room [OF c1]
  have sz: "\<forall>x \<in> insert b (set (nodes T)). ?m (bsize x) = Some (bsz ?bk x)"
  proof
    fix x assume "x \<in> insert b (set (nodes T))"
    then have "x \<in> frees ?bk" using n1 by (auto simp: frees_def)
    then show "?m (bsize x) = Some (bsz ?bk x)" by (rule core_sizes [OF c1])
  qed
  obtain m' root' T' where d: "pooladd ?m root b = Some (m', root')" "space m' (dom ?bk)" "free_tree m' root' T'" "set (nodes T') = insert b (set (nodes T))" "rbst (bsz ?bk) T'"
    "only (insert b (set (nodes T))) ?m m'"
    using pooladd_ok [OF ft rm B(1,2) b(2) sz bs] by (auto simp only: fun_upd_upd)
  have "block_at m' x kx sx" if "?bk x = Some (kx, sx)" for x kx sx
    by (rule block_at_only [OF t that core_block [OF c1 that] d(6) B(3) room_dom [OF d(2) B(3)]])
  moreover have "set (nodes T') = frees ?bk - (X - {b})" using d(4) n1 b(2) by (auto simp: frees_def)
  ultimately have "core m' root' ?bk T' (X - {b})" using t d by (simp add: core_def del: fun_upd_apply)
  moreover have "kept (data ?bk) ?m m'" by (rule kept_only [OF t d(6) B(3)]) (use n1 in \<open>auto simp: frees_def\<close>)
  moreover have "kept (idle ?bk) ?m m'" by (rule idle_only [OF t d(6) B(3)])
  moreover have "kept (data ?bk) m ?m" "kept (idle ?bk) m ?m"
  proof -
    have "magic b \<noteq> fld x i" if "?bk x = Some (kx, sx)" "2 \<le> i" "i + 1 < sx div 8" for x i kx sx
      using word_eq [OF t that(1), of b KF s i 0] shape_words [OF tiles_shape [OF t, of b KF s]] that(2,3) by auto
    note ne = this
    have "magic b \<notin> data ?bk" using ne unfolding data_def by blast
    moreover have "magic b \<notin> idle ?bk"
    proof
      assume "magic b \<in> idle ?bk"
      then obtain x i sx where "magic b = fld x i" "?bk x = Some (KF, sx)" "7 \<le> i" "i + 1 < sx div 8" unfolding idle_def by blast
      then show False using ne [of x KF sx i] by linarith
    qed
    ultimately show "kept (data ?bk) m ?m" "kept (idle ?bk) m ?m" by (auto simp: kept_def)
  qed
  moreover have "pooladd m root b = Some (m', root')" using d(1) pooladd_marked [of m b MAGIC_F root] core_block [OF c b(1)] by (auto simp: block_at_def)
  ultimately show ?thesis by (meson kept_trans order_refl)
qed

section \<open>Changes within a region\<close>

definition inside :: "nat \<Rightarrow> nat \<Rightarrow> mem \<Rightarrow> mem \<Rightarrow> bool" where
  "inside b n m m' \<longleftrightarrow> (\<forall>a. a < b \<or> b + n \<le> a \<longrightarrow> m' a = m a)"

definition outside :: "nat \<Rightarrow> nat \<Rightarrow> nat set" where
  "outside b n = {a. a < b \<or> b + n \<le> a}"

lemma region_core:
  assumes c: "core m root bk T X" and w: "inside b n m m'" and o: "\<And>x. x < b \<or> b + n \<le> x \<Longrightarrow> bk' x = bk x"
    and cl: "\<And>x k s. bk x = Some (k, s) \<Longrightarrow> x < b \<Longrightarrow> x + s \<le> b" and t': "tiles bk'"
    and inb: "\<And>x k s. \<lbrakk> b \<le> x; x < b + n; bk' x = Some (k, s) \<rbrakk> \<Longrightarrow> block_at m' x k s"
    and nT: "\<And>x. x \<in> set (nodes T) \<Longrightarrow> x < b \<or> b + n \<le> x" and fr: "frees bk' - X' = frees bk - X"
  shows "core m' root bk' T X' \<and> kept (data bk \<inter> outside b n) m m'"
proof -
  have t: "tiles bk" and ft: "free_tree m root T" and nodes: "set (nodes T) = frees bk - X" and bs: "rbst (bsz bk) T" using c by (auto simp: core_def)
  have far: "m' (fld x i) = m (fld x i)" if "bk x = Some (k, s)" "x < b \<or> b + n \<le> x" "i < s div 8" for x k s i
  proof -
    have "8 * i < s" using that(3) by auto
    then have "fld x i < b \<or> b + n \<le> fld x i" using that(2) cl [OF that(1)] by (auto simp: fld_def)
    then show ?thesis using w by (auto simp: inside_def)
  qed
  have "block_at m' x k s" if x: "bk' x = Some (k, s)" for x k s
  proof (cases "x < b \<or> b + n \<le> x")
    case True
    then have bx: "bk x = Some (k, s)" using o x by simp
    show ?thesis by (rule block_at_cong [OF core_block [OF c bx] tiles_shape [OF t bx] far [OF bx True]])
  next
    case False
    then show ?thesis using inb x by auto
  qed
  moreover have "agree (set (nodes T)) m m'" unfolding agree_def
  proof (intro ballI)
    fix x and k :: nat assume x: "x \<in> set (nodes T)" "k \<in> {2..6}"
    then obtain s where s: "bk x = Some (KF, s)" using nodes by (auto simp: frees_def)
    then show "m' (fld x k) = m (fld x k)" using far [OF s nT [OF x(1)]] x(2) shape_words [OF tiles_shape [OF t s]] by auto
  qed
  then have "free_tree m' root T" using ft tree_at_agree by (auto simp: free_tree_def)
  moreover have "rbst (bsz bk') T"
  proof -
    have "\<And>x. x \<in> set (nodes T) \<Longrightarrow> bsz bk' x = bsz bk x" using nT o by (simp add: bsz_def)
    then show ?thesis using rbst_cong [of T "bsz bk'" "bsz bk"] bs ft tree_at_ne [of m 0 T] by (auto simp: free_tree_def)
  qed
  moreover have "kept (data bk \<inter> outside b n) m m'" using w by (auto simp: kept_def outside_def inside_def)
  ultimately show ?thesis using t' nodes fr by (simp add: core_def)
qed

section \<open>Joining and splitting blocks\<close>

definition inner :: "kind \<Rightarrow> bool" where "inner k \<longleftrightarrow> k = KA \<or> k = KF"

lemma innerD [simp]: "inner k \<Longrightarrow> \<not> isend k" "inner k \<Longrightarrow> k \<noteq> KE" by (auto simp: inner_def)
lemma inner_simps [simp]: "inner KA" "inner KF" "\<not> inner KE" "\<not> inner KX" "\<not> inner KY" by (simp_all add: inner_def)

lemma tiles_join:
  assumes t: "tiles bk" and b: "bk b = Some (k, s)" "bk (b + s) = Some (k', s')" "inner k" "inner k'"
  shows "tiles (bk(b + s := None, b \<mapsto> (k, s + s')))"
proof -
  let ?bk = "bk(b + s := None, b \<mapsto> (k, s + s'))"
  have sh: "bshape b k s" "bshape (b + s) k' s'" using tiles_shape [OF t] b by auto
  then have pos: "0 < s" "0 < s'" by (auto simp: bshape_def)
  have other: "bk x = Some (kx, sx) \<and> x \<noteq> b \<and> x \<noteq> b + s \<or> x = b \<and> kx = k \<and> sx = s + s'" if "?bk x = Some (kx, sx)" for x kx sx
    using that by (auto split: if_splits)
  show ?thesis
  proof (rule tilesI)
    have "dom ?bk \<subseteq> dom bk" using b by auto
    then show "finite (dom ?bk)" using tiles_finite [OF t] finite_subset by blast
  next
    fix x kx sx assume x: "?bk x = Some (kx, sx)"
    have "(s + s') mod 64 = 0" using sh by (auto simp: bshape_def intro: mod_add_right_eq)
    then show "bshape x kx sx" using other [OF x] tiles_shape [OF t, of x] sh b(3) by (auto simp: bshape_def)
    show "\<exists>k' s'. ?bk (x + sx) = Some (k', s') \<and> k' \<noteq> KE" if "\<not> isend kx"
    proof (cases "x = b")
      case True
      then have "x + sx = (b + s) + s'" using x by auto
      then show ?thesis using tiles_next [OF t b(2)] b(4) pos by auto
    next
      case False
      then have bx: "bk x = Some (kx, sx)" "x \<noteq> b + s" using other [OF x] by auto
      have "x + sx \<noteq> b + s" using tiles_disj [OF t bx(1) b(1) False] tiles_shape [OF t bx(1)] pos by (auto simp: bshape_def)
      then show ?thesis using tiles_next [OF t bx(1) that] b(3) by auto
    qed
    show "\<exists>c k' s'. ?bk c = Some (k', s') \<and> \<not> isend k' \<and> c + s' = x" if ke: "kx \<noteq> KE"
    proof (cases "x = b")
      case True
      then obtain c kc sc where c: "bk c = Some (kc, sc)" "\<not> isend kc" "c + sc = b" using tiles_prev [OF t b(1)] b(3) by auto
      then have "c \<noteq> b" "c \<noteq> b + s" using tiles_shape [OF t c(1)] by (auto simp: bshape_def)
      then show ?thesis using c True by (intro exI [of _ c]) auto
    next
      case False
      then have bx: "bk x = Some (kx, sx)" "x \<noteq> b + s" using other [OF x] by auto
      then obtain c kc sc where c: "bk c = Some (kc, sc)" "\<not> isend kc" "c + sc = x" using tiles_prev [OF t bx(1) ke] by auto
      show ?thesis
      proof (cases "c = b + s")
        case True
        then show ?thesis using b(2,3) c by (intro exI [of _ b]) auto
      next
        case False
        moreover have "c \<noteq> b" using c b(1) bx(2) by auto
        ultimately show ?thesis using c by (intro exI [of _ c]) auto
      qed
    qed
    fix y ky sy assume y: "?bk y = Some (ky, sy)" "x < y"
    consider "x = b" "sx = s + s'" "bk y = Some (ky, sy)" "y \<noteq> b + s" | "y = b" "bk x = Some (kx, sx)" | "bk x = Some (kx, sx)" "bk y = Some (ky, sy)"
      using other [OF x] other [OF y(1)] y(2) by auto
    then show "x + sx \<le> y"
    proof cases
      case 1
      then have "b + s \<le> y" using tiles_less [OF t b(1)] y(2) by blast
      then have "b + s + s' \<le> y" using tiles_less [OF t b(2) 1(3)] 1(4) by simp
      then show ?thesis using 1 by simp
    next
      case 2
      then show ?thesis using tiles_less [OF t 2(2) b(1)] y(2) by simp
    next
      case 3
      then show ?thesis using tiles_less [OF t 3 y(2)] by simp
    qed
  qed
qed

lemma shape_add: "bshape b k s \<Longrightarrow> bshape (b + s) k' s' \<Longrightarrow> inner k \<Longrightarrow> bshape b k (s + s')"
  by (auto simp: bshape_def inner_def)

text \<open>The memory after the block behind \<open>b\<close> was joined to it.\<close>

lemma join_core:
  assumes c: "core m root bk T X" and b: "bk b = Some (k, s)" "bk (b + s) = Some (k', s')" "inner k" "inner k'" "b \<notin> set (nodes T)" "b + s \<notin> set (nodes T)"
  defines "m' \<equiv> m(magic (b + s) \<mapsto> 0, bsize b \<mapsto> s + s', tail b (s + s') \<mapsto> b)"
  shows "core m' root (bk(b + s := None, b \<mapsto> (k, s + s'))) T (X - {b + s}) \<and> kept (data bk \<inter> outside b (s + s')) m m'"
proof (rule region_core [OF c])
  let ?bk = "bk(b + s := None, b \<mapsto> (k, s + s'))"
  have t: "tiles bk" and n: "set (nodes T) = frees bk - X" using c by (auto simp: core_def)
  have sh: "bshape b k s" "bshape (b + s) k' s'" using tiles_shape [OF t] b by auto
  then have ge: "64 \<le> s" "64 \<le> s'" by (auto simp: bshape_def)
  have tl: "tail b (s + s') = tail (b + s) s'" by (simp add: tail_def add.assoc)
  show "inside b (s + s') m m'" using ge unfolding inside_def m'_def by (auto simp: fld_def tail_def)
  show "?bk x = bk x" if "x < b \<or> b + (s + s') \<le> x" for x using that ge by auto
  show "x + sx \<le> b" if "bk x = Some (kx, sx)" "x < b" for x kx sx using tiles_less [OF t that(1) b(1) that(2)] .
  show "tiles ?bk" by (rule tiles_join [OF t b(1-4)])
  show "x < b \<or> b + (s + s') \<le> x" if xT: "x \<in> set (nodes T)" for x
  proof -
    obtain sx where x: "bk x = Some (KF, sx)" using xT n by (auto simp: frees_def)
    have "x \<noteq> b" "x \<noteq> b + s" using xT b by auto
    then show ?thesis using tiles_less [OF t b(1) x] tiles_less [OF t b(2) x] by linarith
  qed
  have "frees ?bk = frees bk - {b + s}" using b(1) ge(1) by (auto simp: frees_def split: if_splits)
  moreover have "b + s \<notin> frees bk - X" using b(6) n by simp
  ultimately show "frees ?bk - (X - {b + s}) = frees bk - X" by blast
  show "block_at m' x kx sx" if x: "b \<le> x" "x < b + (s + s')" "?bk x = Some (kx, sx)" for x kx sx
  proof -
    have "x = b"
    proof (rule ccontr)
      assume "x \<noteq> b"
      then have bx: "bk x = Some (kx, sx)" "x \<noteq> b + s" using x(3) by (auto split: if_splits)
      then show False using tiles_less [OF t b(1) bx(1)] tiles_less [OF t b(2) bx(1)] \<open>x \<noteq> b\<close> x(1,2) by linarith
    qed
    then have e: "x = b" "kx = k" "sx = s + s'" using x(3) by auto
    have words: "m a \<noteq> None \<Longrightarrow> m' a \<noteq> None" for a by (simp add: m'_def)
    have "m (fld b i) \<noteq> None" if i: "i < (s + s') div 8" for i
    proof (cases "i < s div 8")
      case True
      then show ?thesis using core_block [OF c b(1)] by (auto simp: block_at_def)
    next
      case False
      have w: "8 * (s div 8) = s" "8 * (s' div 8) = s'" using shape_words [OF sh(1)] shape_words [OF sh(2)] by auto
      then have "fld b i = fld (b + s) (i - s div 8)" "i - s div 8 < s' div 8" using False i by (auto simp: fld_def)
      then show ?thesis using core_block [OF c b(2)] by (auto simp: block_at_def)
    qed
    moreover have "m' (magic b) = m (magic b)" "m' (bsize b) = Some (s + s')" "m' (tail b (s + s')) = Some b"
      using ge unfolding m'_def by (auto simp: fld_def tail_def)
    ultimately show ?thesis using words core_block [OF c b(1)] unfolding e block_at_def by auto
  qed
qed

lemma tiles_split:
  assumes t: "tiles bk" and q: "bk q = Some (k, n + r)" "inner k" "inner k'" and n: "64 \<le> n" "n mod 64 = 0" "64 \<le> r" "r mod 64 = 0"
  shows "tiles (bk(q \<mapsto> (k, n), q + n \<mapsto> (k', r)))"
proof -
  let ?bk = "bk(q \<mapsto> (k, n), q + n \<mapsto> (k', r))"
  have sh: "bshape q k (n + r)" using tiles_shape [OF t q(1)] .
  have "8 dvd n" using n(2) by (auto intro: dvd_trans [of 8 64])
  then have sh': "bshape q k n" "bshape (q + n) k' r" using sh n q by (auto simp: bshape_def inner_def)
  have cases: "x = q \<and> kx = k \<and> sx = n \<or> x = q + n \<and> kx = k' \<and> sx = r \<or> bk x = Some (kx, sx) \<and> x \<noteq> q \<and> (x + sx \<le> q \<or> q + n + r \<le> x)" if "?bk x = Some (kx, sx)" for x kx sx
    using that tiles_disj [OF t _ q(1), of x kx sx] by (auto split: if_splits)
  show ?thesis
  proof (rule tilesI)
    show "finite (dom ?bk)" using tiles_finite [OF t] by simp
  next
    fix x kx sx assume x: "?bk x = Some (kx, sx)"
    show "bshape x kx sx" using cases [OF x] sh' tiles_shape [OF t, of x kx sx] by auto
    show "\<exists>k' s'. ?bk (x + sx) = Some (k', s') \<and> k' \<noteq> KE" if e: "\<not> isend kx"
    proof -
      consider "x = q" "sx = n" | "x = q + n" "sx = r" | "bk x = Some (kx, sx)" "x + sx \<le> q \<or> q + n + r \<le> x" using cases [OF x] by blast
      then show ?thesis
      proof cases
        case 1
        then show ?thesis using q(3) by auto
      next
        case 2
        then show ?thesis using tiles_next [OF t q(1)] q(2) n by (auto simp: add.assoc)
      next
        case 3
        then show ?thesis using tiles_next [OF t 3(1) e] q(2,3) by auto
      qed
    qed
    show "\<exists>c k' s'. ?bk c = Some (k', s') \<and> \<not> isend k' \<and> c + s' = x" if e: "kx \<noteq> KE"
    proof -
      consider "x = q" "sx = n" | "x = q + n" "sx = r" | "bk x = Some (kx, sx)" "x \<noteq> q" "x + sx \<le> q \<or> q + n + r \<le> x" using cases [OF x] by blast
      then show ?thesis
      proof cases
        case 1
        obtain c kc sc where c: "bk c = Some (kc, sc)" "\<not> isend kc" "c + sc = q" using tiles_prev [OF t q(1)] q(2) by auto
        then have "c \<noteq> q" "c \<noteq> q + n" using tiles_shape [OF t c(1)] by (auto simp: bshape_def)
        then show ?thesis using c 1 by (intro exI [of _ c]) auto
      next
        case 2
        then show ?thesis using q(2) n by (intro exI [of _ q]) auto
      next
        case 3
        obtain c kc sc where c: "bk c = Some (kc, sc)" "\<not> isend kc" "c + sc = x" using tiles_prev [OF t 3(1) e] by auto
        show ?thesis
        proof (cases "c = q")
          case True
          then show ?thesis using c q(1,3) n by (intro exI [of _ "q + n"]) auto
        next
          case False
          moreover have "c \<noteq> q + n" using tiles_disj [OF t c(1) q(1) False] n tiles_shape [OF t c(1)] by (auto simp: bshape_def)
          ultimately show ?thesis using c by (intro exI [of _ c]) auto
        qed
      qed
    qed
    fix y ky sy assume y: "?bk y = Some (ky, sy)" "x < y"
    have "x + sx \<le> y" if "bk x = Some (kx, sx)" "bk y = Some (ky, sy)" using tiles_less [OF t that y(2)] .
    then show "x + sx \<le> y" using cases [OF x] cases [OF y(1)] y(2) n by linarith
  qed
qed

lemma split_core:
  assumes c: "core m root bk T X" and q: "bk q = Some (k, n + r)" "inner k" "q \<notin> set (nodes T)" and n: "64 \<le> n" "n mod 64 = 0" "64 \<le> r" "r mod 64 = 0"
  defines "m' \<equiv> m(bsize q \<mapsto> n, tail q n \<mapsto> q, bsize (q + n) \<mapsto> r, tail (q + n) r \<mapsto> q + n, magic (q + n) \<mapsto> MAGIC_A)"
  shows "core m' root (bk(q \<mapsto> (k, n), q + n \<mapsto> (KA, r))) T X \<and> kept (data bk \<inter> outside q (n + r)) m m'"
proof (rule region_core [OF c])
  let ?bk = "bk(q \<mapsto> (k, n), q + n \<mapsto> (KA, r))"
  have t: "tiles bk" and nT: "set (nodes T) = frees bk - X" using c by (auto simp: core_def)
  have t': "tiles ?bk" by (rule tiles_split [OF t q(1,2) _ n]) simp
  then have sh: "bshape q k n" "bshape (q + n) KA r" using tiles_shape [OF t', of q k n] tiles_shape [OF t', of "q + n" KA r] n(1) by auto
  have none: "bk x = None" if x: "q < x" "x < q + (n + r)" for x
  proof (rule ccontr)
    assume "bk x \<noteq> None"
    then obtain kx sx where "bk x = Some (kx, sx)" by auto
    then show False using tiles_less [OF t q(1)] x by fastforce
  qed
  show "inside q (n + r) m m'" using n unfolding inside_def m'_def by (auto simp: fld_def tail_def)
  show "?bk x = bk x" if "x < q \<or> q + (n + r) \<le> x" for x using that n by auto
  show "x + sx \<le> q" if "bk x = Some (kx, sx)" "x < q" for x kx sx using tiles_less [OF t that(1) q(1) that(2)] .
  show "tiles ?bk" by (rule t')
  show "x < q \<or> q + (n + r) \<le> x" if xT: "x \<in> set (nodes T)" for x
  proof -
    have "bk x \<noteq> None" "x \<noteq> q" using xT nT q(3) by (auto simp: frees_def)
    then show ?thesis using none [of x] by linarith
  qed
  have "bk (q + n) = None" using none [of "q + n"] n by simp
  then show "frees ?bk - X = frees bk - X" using q(1) n(1) by (auto simp: frees_def split: if_splits)
  have words: "m' (fld q i) \<noteq> None" if "i < (n + r) div 8" for i
    using core_block [OF c q(1)] that by (auto simp: m'_def block_at_def)
  show "block_at m' x kx sx" if x: "q \<le> x" "x < q + (n + r)" "?bk x = Some (kx, sx)" for x kx sx
  proof -
    consider "x = q" "kx = k" "sx = n" | "x = q + n" "kx = KA" "sx = r" using x none [of x] by (auto split: if_splits simp: le_less)
    then show ?thesis
    proof cases
      case 1
      have "m' (magic q) = m (magic q)" "m' (bsize q) = Some n" "m' (tail q n) = Some q" using n unfolding m'_def by (auto simp: fld_def tail_def)
      moreover have "n div 8 \<le> (n + r) div 8" by (rule div_le_mono) simp
      ultimately show ?thesis using core_block [OF c q(1)] words unfolding 1 block_at_def by (auto simp: order_less_le_trans)
    next
      case 2
      have "m' (magic (q + n)) = Some MAGIC_A" "m' (bsize (q + n)) = Some r" "m' (tail (q + n) r) = Some (q + n)" using n unfolding m'_def by (auto simp: fld_def tail_def)
      moreover have "m' (fld (q + n) i) \<noteq> None" if i: "i < r div 8" for i
      proof -
        have "8 * (n div 8) = n" using shape_words [OF sh(1)] by simp
        then have "fld (q + n) i = fld q (n div 8 + i)" "n div 8 + i < (n + r) div 8" using i by (auto simp: fld_def)
        then show ?thesis using words by simp
      qed
      ultimately show ?thesis unfolding 2 block_at_def by auto
    qed
  qed
qed

end
