(* ===== verification/PoolOps.thy ===== *)
theory PoolOps
  imports PoolBlocks
begin

unbundle bit_operations_syntax

text \<open>\<open>poolfree\<close> with the joining of neighbours, and the two ways in which a request takes a free block: as a whole, or its first part.\<close>

section \<open>What is held\<close>

text \<open>The blocks that are not free: the state of the pool as its users see it.\<close>

definition held :: "bmap \<Rightarrow> bmap" where
  "held bk b = (case bk b of Some (KF, s) \<Rightarrow> None | x \<Rightarrow> x)"

lemma held_eq: "held bk b = Some (k, s) \<longleftrightarrow> bk b = Some (k, s) \<and> k \<noteq> KF"
  by (auto simp: held_def split: option.splits kind.splits)

lemma data_held: "data (held bk) = data bk"
proof -
  have "held bk b = Some (k, s) \<and> owned k \<longleftrightarrow> bk b = Some (k, s) \<and> owned k" for b k s by (auto simp: held_eq)
  then show ?thesis unfolding data_def by blast
qed

text \<open>No two free blocks lie side by side.\<close>

definition coal :: "bmap \<Rightarrow> bool" where
  "coal bk \<longleftrightarrow> (\<forall>b s s'. bk b = Some (KF, s) \<longrightarrow> bk (b + s) \<noteq> Some (KF, s'))"

lemma coalD: "coal bk \<Longrightarrow> bk b = Some (KF, s) \<Longrightarrow> bk (b + s) \<noteq> Some (KF, s')" by (auto simp: coal_def)

section \<open>Joining neighbours\<close>

lemma put_at: "p_mem p a \<noteq> None \<Longrightarrow> put p a v = Some (p\<lparr>p_mem := (p_mem p)(a \<mapsto> v)\<rparr>)"
  by (simp add: put_def st_def)

definition poolmem :: "pool \<Rightarrow> bmap \<Rightarrow> rtree \<Rightarrow> nat set \<Rightarrow> bool" where
  "poolmem p bk T X \<longleftrightarrow> core (p_mem p) (p_root p) bk T X"

text \<open>Two pools that differ in their memory and tree only.\<close>

definition counts :: "pool \<Rightarrow> nat \<times> u64 \<times> u64 \<times> u64 \<times> u64 \<times> u64 \<times> u64 \<times> u64 \<times> int \<times> int" where
  "counts p = (p_chain p, p_maxsize p, p_ressize p, p_cursize p, p_arenasize p, p_hw p, p_nalloc p, p_nfree p, p_nbrk p, p_chunk p)"

lemma counts_upd [simp]: "counts (p\<lparr>p_mem := m\<rparr>) = counts p" "counts (p\<lparr>p_root := r\<rparr>) = counts p" "counts (p\<lparr>p_ptr := q\<rparr>) = counts p"
  by (simp_all add: counts_def)

lemma del_ok: "\<lbrakk> poolmem p bk T X; b \<in> set (nodes T) \<rbrakk> \<Longrightarrow>
    \<exists>p' T'. del p b = Some p' \<and> poolmem p' bk T' (insert b X) \<and> kept (data bk) (p_mem p) (p_mem p') \<and> counts p' = counts p"
  using del_core [of "p_mem p" "p_root p" bk T X b] by (fastforce simp: poolmem_def del_def)

lemma add_ok: "\<lbrakk> poolmem p bk T X; bk b = Some (k, s); b \<notin> set (nodes T); inner k \<rbrakk> \<Longrightarrow>
    \<exists>p' T'. add p b = Some p' \<and> poolmem p' (bk(b \<mapsto> (KF, s))) T' (X - {b}) \<and> kept (data (bk(b \<mapsto> (KF, s)))) (p_mem p) (p_mem p') \<and>
      kept (idle (bk(b \<mapsto> (KF, s)))) (p_mem p) (p_mem p') \<and> counts p' = counts p"
  using add_core [of "p_mem p" "p_root p" bk T X b k s] by (fastforce simp: poolmem_def add_def inner_def)

lemma join_blocks_ok:
  assumes c: "poolmem p bk T X" and b: "bk b = Some (k, s)" "bk (b + s) = Some (k', s')" "inner k" "inner k'" "b \<notin> set (nodes T)" "b + s \<notin> set (nodes T)"
  shows "\<exists>p'. join_blocks p b (b + s) = Some p' \<and> poolmem p' (bk(b + s := None, b \<mapsto> (k, s + s'))) T (X - {b + s}) \<and>
    kept (data bk \<inter> outside b (s + s')) (p_mem p) (p_mem p') \<and> counts p' = counts p \<and> p_mem p' (magic (b + s)) = Some 0"
proof -
  let ?m = "p_mem p" and ?c = "b + s"
  note cc = c [unfolded poolmem_def]
  have t: "tiles bk" using cc by (simp add: core_def)
  have f: "?m (bsize b) = Some s" "?m (bsize ?c) = Some s'" "?m (tail ?c s') = Some ?c" "\<exists>g. ?m (magic ?c) = Some g"
    using core_fields [OF cc b(1)] core_fields [OF cc b(2)] b(3,4) by auto
  have sh: "64 \<le> s" "64 \<le> s'" using tiles_shape [OF t] b(1,2) by (auto simp: bshape_def)
  have tl: "tail ?c s' = b + (s + s') - 8" by (simp add: tail_def add.assoc)
  have "join_blocks p b ?c = Some (p\<lparr>p_mem := ?m(magic ?c \<mapsto> 0, bsize b \<mapsto> s + s', tail b (s + s') \<mapsto> b)\<rparr>)"
    using f sh unfolding tl join_blocks_def by (auto simp: put_at put_tail_def set_tail_def ld_def st_def fld_def tail_def)
  moreover have "poolmem (p\<lparr>p_mem := ?m(magic ?c \<mapsto> 0, bsize b \<mapsto> s + s', tail b (s + s') \<mapsto> b)\<rparr>) (bk(?c := None, b \<mapsto> (k, s + s'))) T (X - {?c})"
    "kept (data bk \<inter> outside b (s + s')) ?m (?m(magic ?c \<mapsto> 0, bsize b \<mapsto> s + s', tail b (s + s') \<mapsto> b))"
    using join_core [OF cc b] by (simp_all add: poolmem_def)
  moreover have "(?m(magic ?c \<mapsto> 0, bsize b \<mapsto> s + s', tail b (s + s') \<mapsto> b)) (magic ?c) = Some 0" using sh by (auto simp: fld_def tail_def)
  ultimately show ?thesis by (simp del: fun_upd_apply)
qed

lemma data_out:
  assumes "\<And>x k s. \<lbrakk> bk x = Some (k, s); owned k; x \<noteq> b \<rbrakk> \<Longrightarrow> x + s \<le> c \<or> c + n \<le> x"
  shows "data ((held bk)(b := None)) \<subseteq> data bk \<inter> outside c n"
proof
  fix a assume "a \<in> data ((held bk)(b := None))"
  then obtain x i k s where a: "a = fld x i" "((held bk)(b := None)) x = Some (k, s)" "owned k" "2 \<le> i" "i + 1 < s div 8" unfolding data_def by blast
  then have x: "bk x = Some (k, s)" "x \<noteq> b" by (auto simp: held_eq split: if_splits)
  have "a \<in> data bk" using a x unfolding data_def by blast
  moreover have "a \<in> outside c n" using assms [OF x(1) a(3) x(2)] a(1,5) by (auto simp: outside_def fld_def)
  ultimately show "a \<in> data bk \<inter> outside c n" by blast
qed

lemma B2NB_ok: "poolmem p bk T X \<Longrightarrow> bk b = Some (k, s) \<Longrightarrow> \<not> isend k \<Longrightarrow> B2NB (p_mem p) b = Some (b + s)"
  unfolding poolmem_def by (drule (2) core_fields(1)) (simp add: B2NB_def ld_def)

lemma mark_free: "poolmem p bk T X \<Longrightarrow> bk b = Some (k, s) \<Longrightarrow> \<exists>g. p_mem p (magic b) = Some g \<and> (g = MAGIC_F \<longleftrightarrow> k = KF)"
  unfolding poolmem_def by (drule (1) core_block) (cases k; auto simp: block_at_def)

lemma poolmem_ptr [simp]: "poolmem (p\<lparr>p_ptr := q\<rparr>) bk T X = poolmem p bk T X" by (simp add: poolmem_def)

lemma poolmem_tiles: "poolmem p bk T X \<Longrightarrow> tiles bk" by (simp add: poolmem_def core_def)
lemma poolmem_nodes: "poolmem p bk T X \<Longrightarrow> set (nodes T) = frees bk - X" by (simp add: poolmem_def core_def)

lemma coal_join:
  assumes "tiles bk" "coal bk" "bk b = Some (KA, s)" "bk (b + s) = Some (KF, s')"
  shows "coal (bk(b + s := None, b \<mapsto> (KA, s + s')))" "bk (b + (s + s')) \<noteq> Some (KF, x)"
    "held (bk(b + s := None, b \<mapsto> (KA, s + s'))) = (held bk)(b \<mapsto> (KA, s + s'))"
proof -
  show "coal (bk(b + s := None, b \<mapsto> (KA, s + s')))" using assms(2) by (auto simp: coal_def)
  show "bk (b + (s + s')) \<noteq> Some (KF, x)" using coalD [OF assms(2,4), of x] by (simp add: add.assoc)
  show "held (bk(b + s := None, b \<mapsto> (KA, s + s'))) = (held bk)(b \<mapsto> (KA, s + s'))" using assms(3,4) by (auto simp: held_def fun_eq_iff)
qed

lemma join_fwd_ok:
  assumes c: "poolmem p bk T {}" "coal bk" and b: "bk b = Some (KA, s)"
  shows "\<exists>p' T' bk' s'. join_fwd p b = Some p' \<and> poolmem p' bk' T' {} \<and> coal bk' \<and> bk' b = Some (KA, s') \<and> s \<le> s' \<and>
    held bk' = (held bk)(b \<mapsto> (KA, s')) \<and> (\<forall>x. bk' (b + s') \<noteq> Some (KF, x)) \<and> kept (data ((held bk)(b := None))) (p_mem p) (p_mem p') \<and> counts p' = counts p"
proof -
  note t = poolmem_tiles [OF c(1)]
  obtain k s' where n: "bk (b + s) = Some (k, s')" using tiles_next [OF t b] by auto
  obtain g where g: "p_mem p (magic (b + s)) = Some g" "g = MAGIC_F \<longleftrightarrow> k = KF" using mark_free [OF c(1) n] by blast
  have nb: "B2NB (p_mem p) b = Some (b + s)" using B2NB_ok [OF c(1) b] by simp
  show ?thesis
  proof (cases "k = KF")
    case False
    then have "join_fwd p b = Some p" using nb g by (simp add: join_fwd_def ld_def)
    moreover have "held bk = (held bk)(b \<mapsto> (KA, s))" using b by (auto simp: held_def fun_eq_iff)
    ultimately show ?thesis using c b n False by (intro exI [of _ p] exI [of _ T] exI [of _ bk] exI [of _ s]) simp
  next
    case True
    let ?p = "if b + s = p_ptr p then p\<lparr>p_ptr := b\<rparr> else p" and ?bk = "bk(b + s := None, b \<mapsto> (KA, s + s'))"
    have p: "poolmem ?p bk T {}" "p_mem ?p = p_mem p" "counts ?p = counts p" using c(1) by auto
    have nT: "b + s \<in> set (nodes T)" using poolmem_nodes [OF c(1)] n True by (simp add: frees_def)
    obtain p1 T1 where p1: "del ?p (b + s) = Some p1" "poolmem p1 bk T1 {b + s}" "kept (data bk) (p_mem p) (p_mem p1)" "counts p1 = counts p"
      using del_ok [OF p(1) nT] p(2,3) by auto
    have "b \<notin> set (nodes T1)" "b + s \<notin> set (nodes T1)" using poolmem_nodes [OF p1(2)] b by (auto simp: frees_def)
    then obtain p2 where p2: "join_blocks p1 b (b + s) = Some p2" "poolmem p2 ?bk T1 {}" "kept (data bk \<inter> outside b (s + s')) (p_mem p1) (p_mem p2)" "counts p2 = counts p1"
      using join_blocks_ok [OF p1(2) b n] True by auto
    have "data ((held bk)(b := None)) \<subseteq> data bk \<inter> outside b (s + s')"
    proof (rule data_out)
      fix x k sx assume x: "bk x = Some (k, sx)" "owned k" "x \<noteq> b"
      then have "x \<noteq> b + s" using n True by auto
      then show "x + sx \<le> b \<or> b + (s + s') \<le> x" using tiles_disj [OF t x(1) b x(3)] tiles_disj [OF t x(1) n] x(1) tiles_shape [OF t x(1)] by (auto simp: bshape_def)
    qed
    then have "kept (data ((held bk)(b := None))) (p_mem p) (p_mem p2)" using p1(3) p2(3) by (meson kept_mono kept_trans le_inf_iff order_refl)
    moreover have "join_fwd p b = Some p2" using nb g True p1(1) p2(1) by (simp add: join_fwd_def ld_def)
    moreover have "?bk (b + (s + s')) \<noteq> Some (KF, x)" for x using coal_join(2) [OF t c(2) b, of s' x] n True tiles_shape [OF t b] by (auto simp: bshape_def)
    ultimately show ?thesis using p1(4) p2(2,4) coal_join(1,3) [OF t c(2) b, of s'] n True
      by (intro exI [of _ p2] exI [of _ T1] exI [of _ ?bk] exI [of _ "s + s'"]) simp
  qed
qed

lemma coal_free:
  assumes "coal bk" "\<And>x. bk (b + s) \<noteq> Some (KF, x)" "\<And>x sx. bk x = Some (KF, sx) \<Longrightarrow> x + sx \<noteq> b" "0 < s"
  shows "coal (bk(b \<mapsto> (KF, s)))"
  using assms unfolding coal_def by (auto split: if_splits)

lemma join_back_ok:
  assumes c: "poolmem p bk T {}" "coal bk" and b: "bk b = Some (KA, s)" "\<And>x. bk (b + s) \<noteq> Some (KF, x)"
  shows "\<exists>p' T' bk' a k s' X. join_back p b = Some (p', a) \<and> poolmem p' bk' T' X \<and> X \<subseteq> {a} \<and> bk' a = Some (k, s') \<and> inner k \<and> a \<notin> set (nodes T') \<and> a \<le> b \<and> b + s \<le> a + s' \<and>
    coal (bk'(a \<mapsto> (KF, s'))) \<and> held (bk'(a \<mapsto> (KF, s'))) = (held bk)(b := None) \<and> kept (data ((held bk)(b := None))) (p_mem p) (p_mem p') \<and> counts p' = counts p \<and>
    (a = b \<or> a + 64 \<le> b \<and> p_mem p' (magic b) = Some 0)"
proof -
  note t = poolmem_tiles [OF c(1)]
  have pos: "0 < s" using tiles_shape [OF t b(1)] by (simp add: bshape_def)
  obtain a k s' where a: "bk a = Some (k, s')" "\<not> isend k" "a + s' = b" using tiles_prev [OF t b(1)] by auto
  have sa: "64 \<le> s'" using tiles_shape [OF t a(1)] by (simp add: bshape_def)
  have tl: "p_mem p (b - 8) = Some a" using core_fields(2) [OF c(1) [unfolded poolmem_def] a(1,2)] a(3) by (simp add: tail_def)
  obtain g where g: "p_mem p (magic a) = Some g" "g = MAGIC_F \<longleftrightarrow> k = KF" using mark_free [OF c(1) a(1)] by blast
  have un: "x = a" if "bk x = Some (kx, sx)" "x + sx = b" for x kx sx
    using tiles_disj [OF t that(1) a(1)] that(2) a(3) tiles_shape [OF t that(1)] sa by (auto simp: bshape_def)
  show ?thesis
  proof (cases "k = KF")
    case False
    then have "join_back p b = Some (p, b)" using tl g by (simp add: join_back_def ld_def)
    moreover have "coal (bk(b \<mapsto> (KF, s)))" by (rule coal_free [OF c(2) b(2) _ pos]) (use un a(1) False in auto)
    moreover have "held (bk(b \<mapsto> (KF, s))) = (held bk)(b := None)" by (auto simp: held_def fun_eq_iff)
    moreover have "b \<notin> set (nodes T)" using poolmem_nodes [OF c(1)] b(1) by (simp add: frees_def)
    ultimately show ?thesis using c(1) b(1)
      by (intro exI [of _ p] exI [of _ T] exI [of _ bk] exI [of _ b] exI [of _ KA] exI [of _ s] exI [of _ "{}"]) simp
  next
    case True
    let ?p = "if b = p_ptr p then p\<lparr>p_ptr := a\<rparr> else p" and ?bk = "bk(b := None, a \<mapsto> (KF, s' + s))"
    have p: "poolmem ?p bk T {}" "p_mem ?p = p_mem p" "counts ?p = counts p" using c(1) by auto
    have nT: "a \<in> set (nodes T)" using poolmem_nodes [OF c(1)] a(1) True by (simp add: frees_def)
    obtain p1 T1 where p1: "del ?p a = Some p1" "poolmem p1 bk T1 {a}" "kept (data bk) (p_mem p) (p_mem p1)" "counts p1 = counts p"
      using del_ok [OF p(1) nT] p(2,3) by auto
    have T1: "a \<notin> set (nodes T1)" "b \<notin> set (nodes T1)" using poolmem_nodes [OF p1(2)] b by (auto simp: frees_def)
    then obtain p2 where p2: "join_blocks p1 a b = Some p2" "poolmem p2 ?bk T1 {a}" "kept (data bk \<inter> outside a (s' + s)) (p_mem p1) (p_mem p2)" "counts p2 = counts p1" "p_mem p2 (magic b) = Some 0"
      using join_blocks_ok [OF p1(2) a(1), of KA s] True a(3) b(1) sa by auto
    have "data ((held bk)(b := None)) \<subseteq> data bk \<inter> outside a (s' + s)"
    proof (rule data_out)
      fix x k sx assume x: "bk x = Some (k, sx)" "owned k" "x \<noteq> b"
      then have "x \<noteq> a" using a(1) True by auto
      then show "x + sx \<le> a \<or> a + (s' + s) \<le> x" using tiles_disj [OF t x(1) b(1) x(3)] tiles_disj [OF t x(1) a(1)] a(3) tiles_shape [OF t x(1)] by (auto simp: bshape_def)
    qed
    then have "kept (data ((held bk)(b := None))) (p_mem p) (p_mem p2)" using p1(3) p2(3) by (meson kept_mono kept_trans le_inf_iff order_refl)
    moreover have "join_back p b = Some (p2, a)" using tl g True p1(1) p2(1) by (simp add: join_back_def ld_def)
    moreover have "coal (?bk(a \<mapsto> (KF, s' + s)))"
    proof (rule coal_free)
      show "coal ?bk" unfolding coal_def
      proof (intro allI impI)
        fix x sx y assume x: "?bk x = Some (KF, sx)"
        show "?bk (x + sx) \<noteq> Some (KF, y)"
        proof (cases "x = a")
          case True
          then have "x + sx = b + s" using x a(3) by (auto split: if_splits)
          then show ?thesis using b(2) pos a(3) by auto
        next
          case False
          then have bx: "bk x = Some (KF, sx)" using x by (auto split: if_splits)
          then show ?thesis using coalD [OF c(2) bx] a(1) True by auto
        qed
      qed
      show "?bk (a + (s' + s)) \<noteq> Some (KF, x)" for x using b(2) [of x] a(3) pos by (auto simp: add.assoc [symmetric])
      show "x + sx \<noteq> a" if "?bk x = Some (KF, sx)" for x sx
        using that coalD [OF c(2), of x sx s'] a(1) True pos by (auto split: if_splits)
    qed (use pos in simp)
    moreover have "held (?bk(a \<mapsto> (KF, s' + s))) = (held bk)(b := None)" using a(1) True by (auto simp: held_def fun_eq_iff)
    ultimately show ?thesis using p1(4) p2(2,4,5) T1(1) a(3) sa
      by (intro exI [of _ p2] exI [of _ T1] exI [of _ ?bk] exI [of _ a] exI [of _ KF] exI [of _ "s' + s"] exI [of _ "{a}"]) simp
  qed
qed

lemma poolfree_ok:
  assumes c: "poolmem p bk T {}" "coal bk" and b: "bk b = Some (KA, s)"
  shows "\<exists>p' T' bk'. poolfree p (B2D b) = Some (Inr p') \<and> poolmem p' bk' T' {} \<and> coal bk' \<and> held bk' = (held bk)(b := None) \<and>
    (\<exists>a sa. bk' a = Some (KF, sa) \<and> a \<le> b \<and> b + s \<le> a + sa) \<and> kept (data ((held bk)(b := None))) (p_mem p) (p_mem p') \<and>
    (p_mem p' (magic b) = Some MAGIC_F \<or> p_mem p' (magic b) = Some 0) \<and>
    counts p' = counts (p\<lparr>p_nfree := p_nfree p + 1, p_cursize := p_cursize p - of_nat s\<rparr>)"
proof -
  let ?p = "p\<lparr>p_nfree := p_nfree p + 1, p_cursize := p_cursize p - of_nat s\<rparr>" and ?D = "data ((held bk)(b := None))"
  have p: "poolmem ?p bk T {}" "p_mem ?p = p_mem p" using c(1) by (simp_all add: poolmem_def)
  have f: "p_mem p (magic b) = Some MAGIC_A" "p_mem p (bsize b) = Some s" using core_fields [OF c(1) [unfolded poolmem_def] b] by auto
  obtain p1 T1 bk1 s1 where 1: "join_fwd ?p b = Some p1" "poolmem p1 bk1 T1 {}" "coal bk1" "bk1 b = Some (KA, s1)" "s \<le> s1" "held bk1 = (held bk)(b \<mapsto> (KA, s1))"
    "\<And>x. bk1 (b + s1) \<noteq> Some (KF, x)" "kept ?D (p_mem p) (p_mem p1)" "counts p1 = counts ?p"
    using join_fwd_ok [OF p(1) c(2) b] p(2) by auto
  obtain p2 T2 bk2 a k s2 X where 2: "join_back p1 b = Some (p2, a)" "poolmem p2 bk2 T2 X" "X \<subseteq> {a}" "bk2 a = Some (k, s2)" "inner k" "a \<notin> set (nodes T2)" "a \<le> b" "b + s1 \<le> a + s2"
    "coal (bk2(a \<mapsto> (KF, s2)))" "held (bk2(a \<mapsto> (KF, s2))) = (held bk1)(b := None)" "kept (data ((held bk1)(b := None))) (p_mem p1) (p_mem p2)" "counts p2 = counts p1" "a = b \<or> a + 64 \<le> b \<and> p_mem p2 (magic b) = Some 0"
    using join_back_ok [OF 1(2,3,4,7)] by blast
  have h: "(held bk1)(b := None) = (held bk)(b := None)" using 1(6) by simp
  let ?bk = "bk2(a \<mapsto> (KF, s2))"
  have X: "X - {a} = {}" using 2(3) by auto
  obtain p3 T3 where 3: "add p2 a = Some p3" "poolmem p3 ?bk T3 {}" "kept (data ?bk) (p_mem p2) (p_mem p3)" "counts p3 = counts p2" "kept (idle ?bk) (p_mem p2) (p_mem p3)"
    using add_ok [OF 2(2,4,6,5)] unfolding X by blast
  have "data ?bk = ?D" using 2(10) data_held [of ?bk] h by simp
  then have "kept ?D (p_mem p) (p_mem p3)" using 1(8) 2(11) 3(3) unfolding h by (auto simp: kept_def)
  moreover have "poolfree p (B2D b) = Some (Inr p3)"
    using f 1(1) 2(1) 3(1) by (simp add: poolfree_def D2B_def B2D_def ld_def)
  moreover have "?bk a = Some (KF, s2)" "a \<le> b" "b + s \<le> a + s2" using 2(7,8) 1(5) by auto
  moreover have "p_mem p3 (magic b) = Some MAGIC_F \<or> p_mem p3 (magic b) = Some 0"
  proof (cases "a = b")
    case True
    then show ?thesis using core_fields(3) [OF 3(2) [unfolded poolmem_def], of a KF s2] by auto
  next
    case False
    then have ab: "a + 64 \<le> b" "p_mem p2 (magic b) = Some 0" using 2(13) by auto
    have sh: "bshape b KA s1" "bshape a KF s2" using tiles_shape [OF poolmem_tiles [OF 1(2)] 1(4)] tiles_shape [OF poolmem_tiles [OF 3(2)], of a KF s2] by auto
    then obtain u v where uv: "b = 8 * u" "a = 8 * v" by (auto simp: bshape_def elim!: dvdE)
    have "magic b = fld a (u - v)" "7 \<le> u - v" "u - v + 1 < s2 div 8" using uv ab(1) 2(8) shape_words [OF sh(1)] shape_words [OF sh(2)] by (auto simp: fld_def)
    then have "magic b \<in> idle ?bk" unfolding idle_def by (intro CollectI exI [of _ a] exI [of _ "u - v"] exI [of _ s2]) auto
    then show ?thesis using 3(5) ab(2) by (simp add: kept_def)
  qed
  ultimately show ?thesis using 3(2,4) 2(9,10,12) 1(9) h by metis
qed

section \<open>Taking a free block\<close>

lemma and_not_63: "x AND NOT 63 = x div 64 * (64 :: int)"
proof -
  have "x AND NOT (mask 6) = push_bit 6 (drop_bit 6 x)"
    by (rule bit_eqI) (auto simp: bit_simps)
  then show ?thesis by (simp add: mask_eq_exp_minus_1 push_bit_eq_mult drop_bit_eq_div)
qed

lemma alloc_size_eq: "alloc_size n = (n + 87) div 64 * 64"
proof -
  have "alloc_size n = nat (int ((n + 87) div 64 * 64))" unfolding alloc_size_def and_not_63 by (simp add: of_nat_div ac_simps)
  then show ?thesis by (simp only: nat_int)
qed

lemma alloc_size_bounds: "n + 24 \<le> alloc_size n" "alloc_size n mod 64 = 0" "64 \<le> alloc_size n" "alloc_size n \<le> n + 87"
proof -
  have e: "(n + 87) div 64 * 64 + (n + 87) mod 64 = n + 87" by simp
  have "(n + 87) mod 64 < 64" by simp
  with e show "n + 24 \<le> alloc_size n" "alloc_size n \<le> n + 87" unfolding alloc_size_eq by linarith+
  show "alloc_size n mod 64 = 0" by (simp add: alloc_size_eq)
  show "64 \<le> alloc_size n" using div_le_mono [of 64 "n + 87" 64] by (simp add: alloc_size_eq)
qed

lemma ring_fwd: "ring m R \<Longrightarrow> t \<in> set R \<Longrightarrow> \<exists>u \<in> set R. m (bhf t) = Some u"
proof -
  assume r: "ring m R" "t \<in> set R"
  then obtain as bs where R: "R = as @ t # bs" by (meson split_list)
  have "linked m (t # bs @ [hd R])" using r(1) linked_append [of m as t "bs @ [hd R]"] R by (simp add: ring_def)
  then have "m (bhf t) = Some (hd (bs @ [hd R]))" by (cases bs) auto
  moreover have "hd (bs @ [hd R]) \<in> set R" using R by (cases bs; cases as) auto
  ultimately show ?thesis by blast
qed

lemma fwd_in:
  assumes "free_tree m root T" "t \<in> set (nodes T)"
  shows "\<exists>u \<in> set (nodes T). m (bhf t) = Some u \<and> (\<forall>f. rbst f T \<longrightarrow> f u = f t)"
proof -
  obtain l R r fs where T: "T = plug (Node l R r) fs" "t \<in> set R" using find_plug [OF assms(2)] by blast
  have "tree_at m (par 0 fs) (Node l R r)" using assms(1) plug_at [of m 0 "Node l R r" fs root] T(1) by (auto simp: free_tree_def)
  then obtain u where u: "u \<in> set R" "m (bhf t) = Some u" using ring_fwd [of m R t] T(2) by (auto simp: node_at_def)
  have "f u = f t" if "rbst f T" for f
  proof -
    have "same f R" using that rbst_plugD [of f "Node l R r" fs] T(1) by simp
    then show ?thesis using sameD u(1) T(2) by metis
  qed
  then show ?thesis using u T by (auto simp: set_nodes_plug)
qed

definition charged :: "pool \<Rightarrow> nat \<Rightarrow> pool" where
  "charged p s = p\<lparr>p_cursize := p_cursize p + of_nat s, p_hw := (if p_cursize p + of_nat s > p_hw p then p_cursize p + of_nat s else p_hw p)\<rparr>"

lemma charge_ok: "p_mem p (bsize b) = Some s \<Longrightarrow> charge p b = Some (charged p s)"
  by (simp add: charge_def charged_def ld_def Let_def)

lemma charged_simps [simp]: "p_mem (charged p s) = p_mem p" "p_root (charged p s) = p_root p" "p_chain (charged p s) = p_chain p"
  "poolmem (charged p s) bk T X = poolmem p bk T X"
  by (simp_all add: charged_def poolmem_def)

lemma counts_charged: "counts p = counts q \<Longrightarrow> counts (charged p s) = counts (charged q s)"
  by (simp add: counts_def charged_def)

text \<open>One more block is held, of at least \<open>n\<close> bytes; the others keep their contents.\<close>

definition gains :: "nat \<Rightarrow> pool \<Rightarrow> bmap \<Rightarrow> pool \<Rightarrow> nat \<Rightarrow> bool" where
  "gains n p bk p' v \<longleftrightarrow> (\<exists>T' bk' b s. v = B2D b \<and> poolmem p' bk' T' {} \<and> coal bk' \<and> held bk b = None \<and> n \<le> s \<and> held bk' = (held bk)(b \<mapsto> (KA, s)) \<and>
     kept (data bk) (p_mem p) (p_mem p') \<and> counts p' = counts (charged p s))"

lemma mark_A:
  assumes c: "poolmem p bk T {b}" and b: "bk b = Some (KF, s)"
  shows "put p (magic b) MAGIC_A = Some (p\<lparr>p_mem := (p_mem p)(magic b \<mapsto> MAGIC_A)\<rparr>)"
    "poolmem (p\<lparr>p_mem := (p_mem p)(magic b \<mapsto> MAGIC_A)\<rparr>) (bk(b \<mapsto> (KA, s))) T {}"
    "kept (data bk) (p_mem p) ((p_mem p)(magic b \<mapsto> MAGIC_A))"
proof -
  note cc = c [unfolded poolmem_def] and t = poolmem_tiles [OF c]
  have "b \<notin> set (nodes T)" using poolmem_nodes [OF c] by simp
  moreover have "frees (bk(b \<mapsto> (KA, s))) - {} = frees bk - {b}" by (auto simp: frees_def)
  ultimately show "poolmem (p\<lparr>p_mem := (p_mem p)(magic b \<mapsto> MAGIC_A)\<rparr>) (bk(b \<mapsto> (KA, s))) T {}"
    using mark_core [OF cc b, of KA MAGIC_A "{}"] by (simp add: poolmem_def del: fun_upd_apply)
  show "put p (magic b) MAGIC_A = Some (p\<lparr>p_mem := (p_mem p)(magic b \<mapsto> MAGIC_A)\<rparr>)"
    using core_block [OF cc b] by (auto simp: block_at_def put_at)
  have "magic b \<notin> data bk"
  proof
    assume "magic b \<in> data bk"
    then obtain x i k sx where x: "magic b = fld x i" "bk x = Some (k, sx)" "2 \<le> i" "i + 1 < sx div 8" unfolding data_def by blast
    then show False using word_eq [OF t x(2) b, of i 0] shape_words [OF tiles_shape [OF t b]] by auto
  qed
  then show "kept (data bk) (p_mem p) ((p_mem p)(magic b \<mapsto> MAGIC_A))" by (auto simp: kept_def)
qed

lemma coal_take: "coal bk \<Longrightarrow> coal (bk(b \<mapsto> (KA, s)))" by (auto simp: coal_def)
lemma held_take: "bk b = Some (KF, s) \<Longrightarrow> held bk b = None \<and> held (bk(b \<mapsto> (KA, s'))) = (held bk)(b \<mapsto> (KA, s'))" by (auto simp: held_def fun_eq_iff)

lemma alloc_exact_ok:
  assumes c: "poolmem p bk T {}" "coal bk" and t: "t \<in> set (nodes T)"
  shows "\<exists>p' v. alloc_exact p t = Some (p', v) \<and> gains (bsz bk t) p bk p' v"
proof -
  note cc = c(1) [unfolded poolmem_def]
  have ft: "free_tree (p_mem p) (p_root p) T" "rbst (bsz bk) T" using cc by (auto simp: core_def)
  obtain u where u: "u \<in> set (nodes T)" "p_mem p (bhf t) = Some u" "bsz bk u = bsz bk t" using fwd_in [OF ft(1) t] ft(2) by blast
  obtain s where s: "bk u = Some (KF, s)" using u(1) poolmem_nodes [OF c(1)] by (auto simp: frees_def)
  obtain p1 T1 where p1: "del p u = Some p1" "poolmem p1 bk T1 {u}" "kept (data bk) (p_mem p) (p_mem p1)" "counts p1 = counts p"
    using del_ok [OF c(1) u(1)] by auto
  let ?p2 = "p1\<lparr>p_mem := (p_mem p1)(magic u \<mapsto> MAGIC_A)\<rparr>" and ?bk = "bk(u \<mapsto> (KA, s))"
  note p2 = mark_A [OF p1(2) s]
  have "p_mem ?p2 (bsize u) = Some s" using core_fields(1) [OF p2(2) [unfolded poolmem_def], of u KA s] by simp
  then have "alloc_exact p t = Some (charged ?p2 s, B2D u)" using u(2) p1(1) p2(1) by (simp add: alloc_exact_def ld_def charge_ok del: fun_upd_apply)
  moreover have "gains (bsz bk t) p bk (charged ?p2 s) (B2D u)" unfolding gains_def
  proof (intro exI conjI)
    show "poolmem (charged ?p2 s) ?bk T1 {}" using p2(2) by simp
    show "kept (data bk) (p_mem p) (p_mem (charged ?p2 s))" using p1(3) p2(3) by (simp add: kept_def)
    show "counts (charged ?p2 s) = counts (charged p s)" by (rule counts_charged) (use p1(4) in simp)
    show "bsz bk t \<le> s" using u(3) s by (simp add: bsz_def)
  qed (use coal_take [OF c(2)] held_take [of bk u s s] s in auto)
  ultimately show ?thesis by blast
qed

lemma add_marked: "p_mem p (magic q) \<noteq> None \<Longrightarrow> add (p\<lparr>p_mem := (p_mem p)(magic q \<mapsto> v)\<rparr>) q = add p q"
  using pooladd_marked [of "p_mem p" q v "p_root p"] by (simp add: add_def)

text \<open>The writes that split a block at \<open>n\<close>.\<close>

lemma split_ok:
  assumes c: "poolmem p bk T {}" and q: "bk q = Some (KA, n + r)" and n: "64 \<le> n" "n mod 64 = 0" "64 \<le> r" "r mod 64 = 0"
  shows "\<exists>p' T'. do { p \<leftarrow> put p (bsize q) n; p \<leftarrow> put_tail p q; t \<leftarrow> B2NB (p_mem p) q; p \<leftarrow> put p (bsize t) r; p \<leftarrow> put_tail p t; add p t } = Some p' \<and>
    add (p\<lparr>p_mem := (p_mem p)(bsize q \<mapsto> n, tail q n \<mapsto> q, bsize (q + n) \<mapsto> r, tail (q + n) r \<mapsto> q + n)\<rparr>) (q + n) = Some p' \<and>
    poolmem p' (bk(q \<mapsto> (KA, n), q + n \<mapsto> (KF, r))) T' {} \<and> kept (data ((held bk)(q := None))) (p_mem p) (p_mem p') \<and> counts p' = counts p"
proof -
  let ?t = "q + n" and ?m = "p_mem p"
  note cc = c [unfolded poolmem_def] and t = poolmem_tiles [OF c]
  have qT: "q \<notin> set (nodes T)" using poolmem_nodes [OF c] q by (simp add: frees_def)
  have w: "?m (fld q i) \<noteq> None" if "i < (n + r) div 8" for i using core_block [OF cc q] that by (auto simp: block_at_def)
  have t2: "tiles (bk(q \<mapsto> (KA, n), ?t \<mapsto> (KA, r)))" by (rule tiles_split [OF t q _ _ n]) simp_all
  have sh: "bshape q KA n" "bshape ?t KA r" using tiles_shape [OF t2, of q KA n] tiles_shape [OF t2, of ?t KA r] n(1) by auto
  note d = shape_words [OF sh(1)] shape_words [OF sh(2)]
  have wt: "?m (fld ?t i) \<noteq> None" if i: "i < r div 8" for i
  proof -
    have "fld ?t i = fld q (n div 8 + i)" "n div 8 + i < (n + r) div 8" using i d by (auto simp: fld_def)
    then show ?thesis using w by simp
  qed
  have "n div 8 - 1 < (n + r) div 8" "1 < (n + r) div 8" using d div_le_mono [of n "n + r" 8] by linarith+
  then have a: "?m (magic ?t) \<noteq> None" "?m (bsize ?t) \<noteq> None" "?m (tail q n) \<noteq> None" "?m (tail ?t r) \<noteq> None" "?m (bsize q) \<noteq> None"
    using wt [of 0] wt [of 1] wt [of "r div 8 - 1"] w [of 1] w [of "n div 8 - 1"] d unfolding tail_fld [OF sh(1)] tail_fld [OF sh(2)] by auto
  define m1 where "m1 = ?m(bsize q \<mapsto> n, tail q n \<mapsto> q, bsize ?t \<mapsto> r, tail ?t r \<mapsto> ?t)"
  let ?p1 = "p\<lparr>p_mem := m1\<rparr>" and ?p2 = "p\<lparr>p_mem := m1(magic ?t \<mapsto> MAGIC_A)\<rparr>" and ?bk = "bk(q \<mapsto> (KA, n), ?t \<mapsto> (KA, r))"
  have 2: "poolmem ?p2 ?bk T {}" "kept (data bk \<inter> outside q (n + r)) ?m (p_mem ?p2)"
    using split_core [OF cc q _ qT n] by (simp_all add: poolmem_def m1_def)
  have tT: "?t \<notin> set (nodes T)" "?bk ?t = Some (KA, r)" "{} - {?t} = {}" using poolmem_nodes [OF 2(1)] by (simp_all add: frees_def)
  obtain p3 T3 where 3: "add ?p2 ?t = Some p3" "poolmem p3 (?bk(?t \<mapsto> (KF, r))) T3 {}" "kept (data (?bk(?t \<mapsto> (KF, r)))) (p_mem ?p2) (p_mem p3)" "counts p3 = counts ?p2"
    using add_ok [OF 2(1) tT(2,1) inner_simps(1), unfolded tT(3)] by blast
  have A: "add ?p1 ?t = Some p3" using 3(1) add_marked [of ?p1 ?t MAGIC_A] a(1) by (simp add: m1_def)
  moreover have "do { p \<leftarrow> put p (bsize q) n; p \<leftarrow> put_tail p q; t \<leftarrow> B2NB (p_mem p) q; p \<leftarrow> put p (bsize t) r; p \<leftarrow> put_tail p t; add p t } = add ?p1 ?t"
    using a n unfolding m1_def by (auto simp: put_at put_tail_def set_tail_def ld_def st_def B2NB_def tail_def fld_def)
  moreover have "kept (data ((held bk)(q := None))) ?m (p_mem p3)"
  proof -
    have "data ((held bk)(q := None)) \<subseteq> data bk \<inter> outside q (n + r)"
      by (rule data_out) (use tiles_disj [OF t _ q] in auto)
    moreover have "data ((held bk)(q := None)) \<subseteq> data (?bk(?t \<mapsto> (KF, r)))"
    proof
      fix z assume "z \<in> data ((held bk)(q := None))"
      then obtain x i k sx where x: "z = fld x i" "((held bk)(q := None)) x = Some (k, sx)" "owned k" "2 \<le> i" "i + 1 < sx div 8" unfolding data_def by blast
      then have bx: "bk x = Some (k, sx)" "x \<noteq> q" by (auto simp: held_eq split: if_splits)
      then have "x \<noteq> ?t" using tiles_disj [OF t bx(1) q bx(2)] n tiles_shape [OF t bx(1)] by (auto simp: bshape_def)
      then have "(?bk(?t \<mapsto> (KF, r))) x = Some (k, sx)" using bx by simp
      then show "z \<in> data (?bk(?t \<mapsto> (KF, r)))" using x unfolding data_def by blast
    qed
    ultimately show ?thesis using 2(2) 3(3) by (meson kept_mono kept_trans order_refl)
  qed
  ultimately show ?thesis using 3(2,4) A [unfolded m1_def] by auto
qed

lemma alloc_split_ok:
  assumes c: "poolmem p bk T {}" "coal bk" and q: "q \<in> set (nodes T)" and n: "n < bsz bk q" "64 \<le> n" "n mod 64 = 0"
  shows "\<exists>p' v. alloc_split p q n = Some (p', v) \<and> gains n p bk p' v"
proof -
  note t = poolmem_tiles [OF c(1)]
  obtain s where s: "bk q = Some (KF, s)" using q poolmem_nodes [OF c(1)] by (auto simp: frees_def)
  then have ns: "n < s" using n(1) by (simp add: bsz_def)
  obtain p1 T1 where p1: "del p q = Some p1" "poolmem p1 bk T1 {q}" "kept (data bk) (p_mem p) (p_mem p1)" "counts p1 = counts p"
    using del_ok [OF c(1) q] by auto
  define p2 where "p2 = p1\<lparr>p_mem := (p_mem p1)(magic q \<mapsto> MAGIC_A)\<rparr>"
  let ?bk = "bk(q \<mapsto> (KA, s))"
  note p2 = mark_A [OF p1(2) s, folded p2_def]
  have k2: "kept (data bk) (p_mem p) (p_mem p2)" "counts p2 = counts p" using p1(3,4) p2(3) by (simp_all add: kept_def p2_def)
  have bq: "?bk q = Some (KA, s)" by simp
  have sz: "p_mem p2 (bsize q) = Some s" using core_fields(1) [OF p2(2) [unfolded poolmem_def] bq] by simp
  show ?thesis
  proof (cases "int s - int n < int (drop_bit 2 n) \<and> int s - int n < 0x8000")
    case True
    then have "alloc_split p q n = Some (charged p2 s, B2D q)" using p1(1) p2(1) sz by (simp add: alloc_split_def ld_def charge_ok Let_def)
    moreover have "gains n p bk (charged p2 s) (B2D q)" unfolding gains_def
      using p2(2) k2 counts_charged [OF k2(2)] coal_take [OF c(2)] held_take [of bk q s s] s ns
      by (intro exI [of _ T1] exI [of _ ?bk] exI [of _ q] exI [of _ s]) simp
    ultimately show ?thesis by blast
  next
    case False
    define r where "r = s - n"
    let ?bk3 = "?bk(q \<mapsto> (KA, n), q + n \<mapsto> (KF, r))"
    have sm: "s mod 64 = 0" "64 \<le> s" using tiles_shape [OF t s] by (auto simp: bshape_def)
    have r: "s = n + r" "r mod 64 = 0" using ns sm n(3) by (auto simp: r_def mod_eq_0_iff_dvd dvd_diff_nat)
    then have "64 \<le> r" using ns by (auto simp: mod_eq_0_iff_dvd dest: dvd_imp_le)
    then obtain p3 T3 where 3: "do { p \<leftarrow> put p2 (bsize q) n; p \<leftarrow> put_tail p q; t \<leftarrow> B2NB (p_mem p) q; p \<leftarrow> put p (bsize t) r; p \<leftarrow> put_tail p t; add p t } = Some p3"
      "poolmem p3 ?bk3 T3 {}" "kept (data ((held ?bk)(q := None))) (p_mem p2) (p_mem p3)" "counts p3 = counts p2"
      using split_ok [OF p2(2), of q n r] bq r n(2,3) by auto
    have h: "(held ?bk)(q := None) = held bk" using s by (auto simp: held_def fun_eq_iff)
    have sz3: "p_mem p3 (bsize q) = Some n" using core_fields(1) [OF 3(2) [unfolded poolmem_def], of q KA n] n(2) by auto
    then have "alloc_split p q n = Some (charged p3 n, B2D q)"
      using False p1(1) p2(1) sz 3(1) by (auto simp: alloc_split_def ld_def Let_def charge_ok r_def bind_eq_Some_conv)
    moreover have "coal ?bk3"
    proof (rule coal_free)
      show "coal (?bk(q \<mapsto> (KA, n)))" using coal_take [OF c(2)] by simp
      show "(?bk(q \<mapsto> (KA, n))) (q + n + r) \<noteq> Some (KF, x)" for x using coalD [OF c(2) s, of x] r(1) by (auto simp: add.assoc)
      show "x + sx \<noteq> q + n" if x: "(?bk(q \<mapsto> (KA, n))) x = Some (KF, sx)" for x sx
      proof -
        have bx: "bk x = Some (KF, sx)" "x \<noteq> q" using x by (auto split: if_splits)
        then show ?thesis using tiles_disj [OF t bx(1) s bx(2)] ns n tiles_shape [OF t bx(1)] by (auto simp: bshape_def)
      qed
    qed (use ns in \<open>simp add: r_def\<close>)
    moreover have "held ?bk3 = (held bk)(q \<mapsto> (KA, n))"
    proof -
      have "bk (q + n) = None"
      proof (rule ccontr)
        assume "bk (q + n) \<noteq> None"
        then obtain kx sx where "bk (q + n) = Some (kx, sx)" by auto
        then show False using tiles_less [OF t s] ns n by fastforce
      qed
      then show ?thesis using n(2) by (auto simp: held_def fun_eq_iff)
    qed
    moreover have "kept (data bk) (p_mem p) (p_mem p3)" using k2(1) 3(3) data_held [of bk] unfolding h by (auto simp: kept_def)
    ultimately show ?thesis using 3(2,4) k2(2) held_take [of bk q s s] s counts_charged [of p3 p n] unfolding gains_def
      by (intro exI [of _ "charged p3 n"] exI [of _ "B2D q"] conjI exI [of _ T3] exI [of _ ?bk3] exI [of _ q] exI [of _ n]) simp_all
  qed
qed

end
