(* ===== verification/PoolGrow.thy ===== *)
theory PoolGrow
  imports PoolOps
begin

unbundle bit_operations_syntax

text \<open>The arena grows: a new chunk with its leader, the block that is returned, the rest and the end; or a longer last chunk.\<close>

section \<open>Writes to data\<close>

lemma data_write_core:
  assumes c: "core m root bk T X" and a: "a \<in> data bk"
  shows "core (m(a \<mapsto> v)) root bk T X"
proof -
  have t: "tiles bk" and n: "set (nodes T) = frees bk - X" and ft: "free_tree m root T" using c by (auto simp: core_def)
  obtain x i k s where x: "a = fld x i" "bk x = Some (k, s)" "owned k" "2 \<le> i" "i + 1 < s div 8" using a unfolding data_def by blast
  have "block_at (m(a \<mapsto> v)) y ky sy" if y: "bk y = Some (ky, sy)" for y ky sy
  proof -
    have "(m(a \<mapsto> v)) (fld y j) = m (fld y j)" if "j < sy div 8" "j < 2 \<or> j = sy div 8 - 1" for j
      using word_eq [OF t y x(2) that(1), of i] x that(2) y by (auto simp: x(1))
    moreover have "m b \<noteq> None \<Longrightarrow> (m(a \<mapsto> v)) b \<noteq> None" for b by simp
    ultimately show ?thesis using core_block [OF c y] shape_words [OF tiles_shape [OF t y]] tail_fld [OF tiles_shape [OF t y]] by (auto simp: block_at_def)
  qed
  moreover have "agree (set (nodes T)) m (m(a \<mapsto> v))" unfolding agree_def
  proof (intro ballI)
    fix y and j :: nat assume y: "y \<in> set (nodes T)" "j \<in> {2..6}"
    then obtain sy where sy: "bk y = Some (KF, sy)" using n by (auto simp: frees_def)
    then have "y \<noteq> x" "j < sy div 8" using x(2,3) shape_words [OF tiles_shape [OF t sy]] y(2) by auto
    then show "(m(a \<mapsto> v)) (fld y j) = m (fld y j)" using word_eq [OF t sy x(2), of j i] x by auto
  qed
  then have "free_tree (m(a \<mapsto> v)) root T" using ft tree_at_agree by (auto simp: free_tree_def)
  ultimately show ?thesis using c by (simp add: core_def)
qed

section \<open>New chunks\<close>

lemma fresh_far:
  assumes c: "core m root bk T X" and fresh: "\<And>a. \<lbrakk> t \<le> a; a < t + n \<rbrakk> \<Longrightarrow> m a = None" and t: "t mod 8 = 0" and x: "bk x = Some (k, s)" and n: "0 < n"
  shows "x + s \<le> t \<or> t + n \<le> x"
proof (rule ccontr)
  assume "\<not> (x + s \<le> t \<or> t + n \<le> x)"
  then have o: "t < x + s" "x < t + n" by auto
  have sh: "bshape x k s" using c x by (auto simp: core_def dest: tiles_shape)
  have w: "m (fld x i) \<noteq> None" if "i < s div 8" for i using core_block [OF c x] that by (auto simp: block_at_def)
  show False
  proof (cases "t \<le> x")
    case True
    then have "m (fld x 0) = None" using fresh [of "fld x 0"] o(2) by (simp add: fld_def)
    then show False using w [of 0] shape_words [OF sh] by auto
  next
    case False
    have "8 dvd x" "8 dvd t" using sh t by (auto simp: bshape_def)
    then obtain u v where uv: "x = 8 * u" "t = 8 * v" by (auto elim!: dvdE)
    then have "fld x (v - u) = t" "v - u < s div 8" using False o(1) shape_words [OF sh] by (auto simp: fld_def)
    then show False using w [of "v - u"] fresh [of t] n by simp
  qed
qed

definition chunk :: "bmap \<Rightarrow> nat \<Rightarrow> nat \<Rightarrow> bmap" where
  "chunk bk t n = bk(t \<mapsto> (KE, 64), t + 64 \<mapsto> (KA, n), t + 64 + n \<mapsto> (KY, 64))"

lemma tiles_chunk:
  assumes t: "tiles bk" and far: "\<And>x k s. bk x = Some (k, s) \<Longrightarrow> x + s \<le> t \<or> t + (n + 128) \<le> x" and p: "0 < t" "t mod 8 = 0" and n: "64 \<le> n" "n mod 64 = 0"
  shows "tiles (chunk bk t n)"
proof -
  have "8 dvd t" "8 dvd n" using p(2) n(2) by (auto intro: dvd_trans [of 8 64])
  then have sh: "bshape t KE 64" "bshape (t + 64) KA n" "bshape (t + 64 + n) KY 64" using p n by (auto simp: bshape_def)
  have cases: "x = t \<and> k = KE \<and> s = 64 \<or> x = t + 64 \<and> k = KA \<and> s = n \<or> x = t + 64 + n \<and> k = KY \<and> s = 64 \<or> bk x = Some (k, s) \<and> (x + s \<le> t \<or> t + (n + 128) \<le> x)"
    if "chunk bk t n x = Some (k, s)" for x k s using that far [of x k s] n by (auto simp: chunk_def split: if_splits)
  have old: "chunk bk t n x = bk x" if "bk x = Some (k, s)" for x k s using far [OF that] n tiles_shape [OF t that] by (auto simp: chunk_def bshape_def)
  have new: "chunk bk t n t = Some (KE, 64)" "chunk bk t n (t + 64) = Some (KA, n)" "chunk bk t n (t + 64 + n) = Some (KY, 64)" using n by (auto simp: chunk_def)
  show ?thesis
  proof (rule tilesI)
    show "finite (dom (chunk bk t n))" using tiles_finite [OF t] by (simp add: chunk_def)
  next
    fix x k s assume x: "chunk bk t n x = Some (k, s)"
    show "bshape x k s" using cases [OF x] sh tiles_shape [OF t, of x k s] by auto
    show "\<exists>k' s'. chunk bk t n (x + s) = Some (k', s') \<and> k' \<noteq> KE" if e: "\<not> isend k"
    proof -
      consider "x = t" "s = 64" | "x = t + 64" "s = n" | "bk x = Some (k, s)" using cases [OF x] e by auto
      then show ?thesis
      proof cases
        case 3
        then show ?thesis using tiles_next [OF t 3 e] old by metis
      qed (use new in auto)
    qed
    show "\<exists>c k' s'. chunk bk t n c = Some (k', s') \<and> \<not> isend k' \<and> c + s' = x" if e: "k \<noteq> KE"
    proof -
      consider "x = t + 64" | "x = t + 64 + n" | "bk x = Some (k, s)" using cases [OF x] e by auto
      then show ?thesis
      proof cases
        case 1
        then show ?thesis using new by (intro exI [of _ t]) auto
      next
        case 2
        then show ?thesis using new by (intro exI [of _ "t + 64"]) auto
      next
        case 3
        then show ?thesis using tiles_prev [OF t 3 e] old by metis
      qed
    qed
    fix y ky sy assume y: "chunk bk t n y = Some (ky, sy)" "x < y"
    have "x + s \<le> y" if "bk x = Some (k, s)" "bk y = Some (ky, sy)" using tiles_less [OF t that y(2)] .
    then show "x + s \<le> y" using cases [OF x] cases [OF y(1)] y(2) n by linarith
  qed
qed

lemma chunk_core:
  assumes c: "core m root bk T X" and fresh: "\<And>a. \<lbrakk> t \<le> a; a < t + (n + 128) \<rbrakk> \<Longrightarrow> m a = None" and p: "0 < t" "t mod 8 = 0" and n: "64 \<le> n" "n mod 64 = 0"
    and w: "inside t (n + 128) m m'" and b: "block_at m' t KE 64" "block_at m' (t + 64) KA n" "block_at m' (t + 64 + n) KY 64"
  shows "core m' root (chunk bk t n) T X \<and> kept (data bk \<inter> outside t (n + 128)) m m'"
proof (rule region_core [OF c w])
  have t: "tiles bk" and nT: "set (nodes T) = frees bk - X" using c by (auto simp: core_def)
  have far: "x + s \<le> t \<or> t + (n + 128) \<le> x" if "bk x = Some (k, s)" for x k s by (rule fresh_far [OF c fresh p(2) that]) simp_all
  have none: "bk x = None" if "t \<le> x" "x < t + (n + 128)" for x
    using far [of x] that tiles_shape [OF t, of x] by (cases "bk x") (auto simp: bshape_def)
  show "chunk bk t n x = bk x" if "x < t \<or> t + (n + 128) \<le> x" for x using that n by (auto simp: chunk_def)
  show "x + s \<le> t" if "bk x = Some (k, s)" "x < t" for x k s using far [OF that(1)] that(2) by linarith
  show "tiles (chunk bk t n)" by (rule tiles_chunk [OF t far p n])
  show "x < t \<or> t + (n + 128) \<le> x" if "x \<in> set (nodes T)" for x
  proof -
    have "bk x \<noteq> None" using that nT by (auto simp: frees_def)
    then show ?thesis using none [of x] by linarith
  qed
  have "frees (chunk bk t n) = frees bk" using none [of t] none [of "t + 64"] none [of "t + 64 + n"] n by (auto simp: frees_def chunk_def split: if_splits)
  then show "frees (chunk bk t n) - X = frees bk - X" by simp
  show "block_at m' x k s" if x: "t \<le> x" "x < t + (n + 128)" "chunk bk t n x = Some (k, s)" for x k s
    using x(3) none [OF x(1,2)] b by (auto simp: chunk_def split: if_splits)
qed

section \<open>Longer chunks\<close>

definition longer :: "bmap \<Rightarrow> nat \<Rightarrow> nat \<Rightarrow> bmap" where
  "longer bk q n = bk(q \<mapsto> (KA, n), q + n \<mapsto> (KX, 64))"

lemma tiles_longer:
  assumes t: "tiles bk" and q: "bk q = Some (KX, 64)" and far: "\<And>x k s. bk x = Some (k, s) \<Longrightarrow> x \<noteq> q \<Longrightarrow> x + s \<le> q \<or> q + (n + 64) \<le> x" and n: "64 \<le> n" "n mod 64 = 0"
  shows "tiles (longer bk q n)"
proof -
  have "8 dvd n" using n(2) by (auto intro: dvd_trans [of 8 64])
  then have sh: "bshape q KA n" "bshape (q + n) KX 64" using tiles_shape [OF t q] n by (auto simp: bshape_def)
  have cases: "x = q \<and> k = KA \<and> s = n \<or> x = q + n \<and> k = KX \<and> s = 64 \<or> bk x = Some (k, s) \<and> x \<noteq> q \<and> (x + s \<le> q \<or> q + (n + 64) \<le> x)"
    if "longer bk q n x = Some (k, s)" for x k s using that far [of x k s] n by (auto simp: longer_def split: if_splits)
  have old: "longer bk q n x = bk x" if "bk x = Some (k, s)" "x \<noteq> q" for x k s using far [OF that] n tiles_shape [OF t that(1)] that(2) by (auto simp: longer_def bshape_def)
  have new: "longer bk q n q = Some (KA, n)" "longer bk q n (q + n) = Some (KX, 64)" using n by (auto simp: longer_def)
  show ?thesis
  proof (rule tilesI)
    show "finite (dom (longer bk q n))" using tiles_finite [OF t] by (simp add: longer_def)
  next
    fix x k s assume x: "longer bk q n x = Some (k, s)"
    show "bshape x k s" using cases [OF x] sh tiles_shape [OF t, of x k s] by auto
    show "\<exists>k' s'. longer bk q n (x + s) = Some (k', s') \<and> k' \<noteq> KE" if e: "\<not> isend k"
    proof -
      consider "x = q" "s = n" | "bk x = Some (k, s)" "x \<noteq> q" using cases [OF x] e by auto
      then show ?thesis
      proof cases
        case 2
        obtain k' s' where n': "bk (x + s) = Some (k', s')" "k' \<noteq> KE" using tiles_next [OF t 2(1) e] by auto
        then show ?thesis using old [OF n'(1)] new by (cases "x + s = q") auto
      qed (use new in auto)
    qed
    show "\<exists>c k' s'. longer bk q n c = Some (k', s') \<and> \<not> isend k' \<and> c + s' = x" if e: "k \<noteq> KE"
    proof -
      have ex: "\<exists>c k' s'. longer bk q n c = Some (k', s') \<and> \<not> isend k' \<and> c + s' = x" if x: "bk x = Some (k', s')" "k' \<noteq> KE" for k' s'
      proof -
        obtain c kc sc where c: "bk c = Some (kc, sc)" "\<not> isend kc" "c + sc = x" using tiles_prev [OF t x] by auto
        then have "c \<noteq> q" using q by auto
        then show ?thesis using c old [OF c(1)] by auto
      qed
      consider "x = q" | "x = q + n" | "bk x = Some (k, s)" using cases [OF x] by auto
      then show ?thesis
      proof cases
        case 1
        then show ?thesis using ex q by auto
      next
        case 2
        then show ?thesis using new by (intro exI [of _ q]) auto
      next
        case 3
        then show ?thesis using ex e by auto
      qed
    qed
    fix y ky sy assume y: "longer bk q n y = Some (ky, sy)" "x < y"
    have "x + s \<le> y" if "bk x = Some (k, s)" "bk y = Some (ky, sy)" using tiles_less [OF t that y(2)] .
    then show "x + s \<le> y" using cases [OF x] cases [OF y(1)] y(2) n by linarith
  qed
qed

lemma longer_core:
  assumes c: "core m root bk T X" and q: "bk q = Some (KX, 64)" and fresh: "\<And>a. \<lbrakk> q + 64 \<le> a; a < q + 64 + n \<rbrakk> \<Longrightarrow> m a = None" and n: "64 \<le> n" "n mod 64 = 0"
    and w: "inside q (n + 64) m m'" and b: "block_at m' q KA n" "block_at m' (q + n) KX 64"
  shows "core m' root (longer bk q n) T X \<and> kept (data bk) m m'"
proof -
  have t: "tiles bk" and nT: "set (nodes T) = frees bk - X" using c by (auto simp: core_def)
  have q8: "(q + 64) mod 8 = 0" using tiles_shape [OF t q] by (auto simp: bshape_def)
  have far: "x + s \<le> q \<or> q + (n + 64) \<le> x" if x: "bk x = Some (k, s)" "x \<noteq> q" for x k s
  proof -
    have "x + s \<le> q + 64 \<or> q + 64 + n \<le> x" by (rule fresh_far [OF c fresh q8 x(1)]) (use n in simp_all)
    moreover have "x + s \<le> q \<or> q + 64 \<le> x" "64 \<le> s" using tiles_disj [OF t x(1) q x(2)] tiles_shape [OF t x(1)] by (auto simp: bshape_def)
    ultimately show ?thesis by linarith
  qed
  have none: "bk x = None" if "q < x" "x < q + (n + 64)" for x
    using far [of x] that tiles_shape [OF t, of x] by (cases "bk x") (auto simp: bshape_def)
  have "core m' root (longer bk q n) T X \<and> kept (data bk \<inter> outside q (n + 64)) m m'"
  proof (rule region_core [OF c w])
    show "longer bk q n x = bk x" if "x < q \<or> q + (n + 64) \<le> x" for x using that n by (auto simp: longer_def)
    show "x + s \<le> q" if "bk x = Some (k, s)" "x < q" for x k s using far [OF that(1)] that(2) by linarith
    show "tiles (longer bk q n)" by (rule tiles_longer [OF t q far n])
    show "x < q \<or> q + (n + 64) \<le> x" if "x \<in> set (nodes T)" for x
    proof -
      have "bk x \<noteq> None" "x \<noteq> q" using that nT q by (auto simp: frees_def)
      then show ?thesis using none [of x] by linarith
    qed
    have "frees (longer bk q n) = frees bk" using none [of "q + n"] n q by (auto simp: frees_def longer_def split: if_splits)
    then show "frees (longer bk q n) - X = frees bk - X" by simp
    show "block_at m' x k s" if x: "q \<le> x" "x < q + (n + 64)" "longer bk q n x = Some (k, s)" for x k s
      using x(3) none [of x] x(1,2) b by (auto simp: longer_def split: if_splits)
  qed
  moreover have "data ((held bk)(q := None)) \<subseteq> data bk \<inter> outside q (n + 64)" by (rule data_out) (use far in auto)
  moreover have "data ((held bk)(q := None)) = data bk" using q unfolding data_def by (auto simp: held_eq split: if_splits) (metis held_eq kind.distinct owned_simps option.inject prod.inject)+
  ultimately show ?thesis by (auto simp: kept_def)
qed

section \<open>Growing\<close>

lemma region_word: "\<lbrakk> t \<le> a; a + 8 \<le> t + n; 8 dvd a \<rbrakk> \<Longrightarrow> (m ++ zero_region t n) a = Some 0"
  by (simp add: map_add_def zero_region_def)

lemma region_out: "a < t \<or> t + n \<le> a \<Longrightarrow> (m ++ zero_region t n) a = m a"
  by (auto simp: map_add_def zero_region_def)

lemma poolmem_chain [simp]: "poolmem (p\<lparr>p_chain := q\<rparr>) bk T X = poolmem p bk T X" by (simp add: poolmem_def)

text \<open>The words of a new chunk after its leader and the mark of its first block were written.\<close>

definition leader_mem :: "mem \<Rightarrow> nat \<Rightarrow> nat \<Rightarrow> nat \<Rightarrow> mem" where
  "leader_mem m t ns ch = (m ++ zero_region t (ns + 128))(magic t \<mapsto> MAGIC_E, bsize t \<mapsto> 64, csize t \<mapsto> ns + 64, clink t \<mapsto> ch, tail t 64 \<mapsto> t, magic (t + 64) \<mapsto> MAGIC_A)"

definition block_mem :: "mem \<Rightarrow> nat \<Rightarrow> nat \<Rightarrow> nat \<Rightarrow> nat \<Rightarrow> mem" where
  "block_mem m t ns ch n = (leader_mem m t ns ch)(bsize (t + 64) \<mapsto> n, tail (t + 64) n \<mapsto> t + 64)"

lemma block_mem_words:
  assumes "8 dvd t" "64 dvd ns" "64 dvd n" "64 \<le> n" "n \<le> ns"
  shows "\<And>a. \<lbrakk> t \<le> a; a + 8 \<le> t + (ns + 128); 8 dvd a \<rbrakk> \<Longrightarrow> block_mem m t ns ch n a \<noteq> None"
    "block_mem m t ns ch n (magic t) = Some MAGIC_E" "block_mem m t ns ch n (bsize t) = Some 64" "block_mem m t ns ch n (csize t) = Some (ns + 64)"
    "block_mem m t ns ch n (clink t) = Some ch" "block_mem m t ns ch n (tail t 64) = Some t"
    "block_mem m t ns ch n (magic (t + 64)) = Some MAGIC_A" "block_mem m t ns ch n (bsize (t + 64)) = Some n" "block_mem m t ns ch n (tail (t + 64) n) = Some (t + 64)"
    "block_mem m t ns ch n (magic (t + 64 + ns)) = Some 0" "inside t (ns + 128) m (block_mem m t ns ch n)"
proof -
  show "\<And>a. \<lbrakk> t \<le> a; a + 8 \<le> t + (ns + 128); 8 dvd a \<rbrakk> \<Longrightarrow> block_mem m t ns ch n a \<noteq> None"
    using region_word [of t _ "ns + 128" m] by (auto simp: block_mem_def leader_mem_def)
  have "8 dvd t + 64 + ns" using assms(1,2) by (auto intro: dvd_trans [of 8 64])
  then have "(m ++ zero_region t (ns + 128)) (t + 64 + ns) = Some 0" by (intro region_word) auto
  then show "block_mem m t ns ch n (magic (t + 64 + ns)) = Some 0" using assms(4,5) by (simp add: block_mem_def leader_mem_def fld_def tail_def)
  show "inside t (ns + 128) m (block_mem m t ns ch n)" unfolding inside_def
    using assms(4,5) region_out [of _ t "ns + 128" m] by (auto simp: block_mem_def leader_mem_def fld_def tail_def)
qed (use assms(4,5) in \<open>simp_all add: block_mem_def leader_mem_def fld_def tail_def\<close>)

lemma chunk_blocks:
  assumes "8 dvd t" "64 dvd ns" "64 \<le> ns"
  shows "block_at (block_mem m t ns ch ns) t KE 64 \<and> block_at (block_mem m t ns ch ns) (t + 64) KA ns \<and> block_at (block_mem m t ns ch ns) (t + 64 + ns) KY 64"
proof -
  note w = block_mem_words [OF assms(1,2,2,3) order_refl, where m = m and ch = ch]
  have "8 dvd ns" using assms(2) by (auto intro: dvd_trans [of 8 64])
  then have 8: "8 * (ns div 8) = ns" "8 dvd t + 64" "8 dvd t + 64 + ns" using assms(1) by auto
  have d: "block_mem m t ns ch ns (fld b i) \<noteq> None" if "8 dvd b" "t \<le> b" "b + s \<le> t + (ns + 128)" "i < s div 8" for b i s
    by (rule w(1)) (use that in \<open>auto simp: fld_def\<close>)
  show ?thesis unfolding block_at_def using w(2-10) d [of t 64] d [of "t + 64" ns] d [of "t + 64 + ns" 64] 8 assms(1) by auto
qed

text \<open>A new chunk with its first block, before the rest is given back and the end is marked.\<close>

lemma chunk_ok:
  assumes c: "poolmem p bk T {}" and fresh: "\<And>a. \<lbrakk> t \<le> a; a < t + (ns + 128) \<rbrakk> \<Longrightarrow> p_mem p a = None" and t: "0 < t" "t mod 8 = 0" and n: "64 \<le> ns" "ns mod 64 = 0"
  shows "poolmem (p\<lparr>p_mem := block_mem (p_mem p) t ns ch ns\<rparr>) (chunk bk t ns) T {} \<and> kept (data bk) (p_mem p) (block_mem (p_mem p) t ns ch ns)"
proof -
  have d: "8 dvd t" "64 dvd ns" using t n by auto
  note cc = c [unfolded poolmem_def]
  note k = chunk_core [OF cc fresh t n block_mem_words(11) [OF d d(2) n(1) order_refl]] chunk_blocks [OF d n(1), where m = "p_mem p" and ch = ch]
  have "data bk \<subseteq> data bk \<inter> outside t (ns + 128)"
  proof -
    have far: "x + s \<le> t \<or> t + (ns + 128) \<le> x" if "bk x = Some (kx, s)" for x kx s by (rule fresh_far [OF cc fresh t(2) that]) simp_all
    have "data ((held bk)(0 := None)) \<subseteq> data bk \<inter> outside t (ns + 128)" by (rule data_out) (rule far)
    moreover have "held bk 0 = None" using tiles_shape [OF poolmem_tiles [OF c], of 0] by (cases "bk 0") (auto simp: held_def bshape_def)
    then have "(held bk)(0 := None) = held bk" by auto
    ultimately show ?thesis using data_held by simp
  qed
  then show ?thesis using k by (auto simp: poolmem_def intro: kept_mono)
qed

lemma put_tail_ok: "\<lbrakk> p_mem p (bsize b) = Some s; p_mem p (tail b s) \<noteq> None \<rbrakk> \<Longrightarrow> put_tail p b = Some (p\<lparr>p_mem := (p_mem p)(tail b s \<mapsto> b)\<rparr>)"
  by (simp add: put_tail_def set_tail_def ld_def st_def tail_def)

lemma chunk_head_ok:
  assumes "8 dvd t" "64 dvd ns" "64 dvd n" "64 \<le> n" "n \<le> ns"
  shows "chunk_head (p\<lparr>p_mem := p_mem p ++ zero_region t (ns + 128)\<rparr>) t ns n = Some (p\<lparr>p_mem := block_mem (p_mem p) t ns (p_chain p) n, p_chain := t\<rparr>, t + 64)"
proof -
  define zz where "zz = p_mem p ++ zero_region t (ns + 128)"
  obtain n' where n': "n = 64 + n'" using assms(4) by (auto simp: le_iff_add)
  have z: "zz a = Some 0" if "t \<le> a" "a + 8 \<le> t + (ns + 128)" "8 dvd a" for a unfolding zz_def by (rule region_word [OF that])
  have "8 dvd 64 + n'" using assms(3) n' by (auto intro: dvd_trans [of 8 64])
  then have "8 dvd n'" by presburger
  then have zs: "zz t = Some 0" "zz (t + 8) = Some 0" "zz (t + 16) = Some 0" "zz (t + 24) = Some 0" "zz (t + 56) = Some 0" "zz (t + 64) = Some 0" "zz (t + 72) = Some 0" "zz (t + 120 + n') = Some 0"
    using assms by (auto simp: n' intro!: z dvd_add)
  have e: "64 + t + (n' + 64) - 8 = n' + (t + 120)" "zz (n' + (t + 120)) = Some 0" using zs(8) by (simp_all add: ac_simps)
  show ?thesis
    unfolding chunk_head_def block_mem_def leader_mem_def zz_def [symmetric] n'
    by (simp add: put_def set_tail_def put_tail_def st_def ld_def B2NB_def fld_def tail_def zs e Let_def ac_simps)
qed

lemma mark_end:
  assumes c: "poolmem p bk T {}" and e: "bk e = Some (KY, 64)"
  shows "put p (magic e) MAGIC_E = Some (p\<lparr>p_mem := (p_mem p)(magic e \<mapsto> MAGIC_E)\<rparr>)"
    "poolmem (p\<lparr>p_mem := (p_mem p)(magic e \<mapsto> MAGIC_E)\<rparr>) (bk(e \<mapsto> (KX, 64))) T {}" "kept (data bk) (p_mem p) ((p_mem p)(magic e \<mapsto> MAGIC_E))"
proof -
  note cc = c [unfolded poolmem_def] and t = poolmem_tiles [OF c]
  have "e \<notin> set (nodes T)" "frees (bk(e \<mapsto> (KX, 64))) - {} = frees bk - {}" using poolmem_nodes [OF c] e by (auto simp: frees_def)
  then show "poolmem (p\<lparr>p_mem := (p_mem p)(magic e \<mapsto> MAGIC_E)\<rparr>) (bk(e \<mapsto> (KX, 64))) T {}"
    using mark_core [OF cc e, of KX MAGIC_E "{}"] by (simp add: poolmem_def del: fun_upd_apply)
  show "put p (magic e) MAGIC_E = Some (p\<lparr>p_mem := (p_mem p)(magic e \<mapsto> MAGIC_E)\<rparr>)"
    using core_block [OF cc e] by (auto simp: block_at_def put_at)
  have "magic e \<notin> data bk"
  proof
    assume "magic e \<in> data bk"
    then obtain x i k sx where x: "magic e = fld x i" "bk x = Some (k, sx)" "2 \<le> i" "i + 1 < sx div 8" unfolding data_def by blast
    then show False using word_eq [OF t x(2) e, of i 0] by auto
  qed
  then show "kept (data bk) (p_mem p) ((p_mem p)(magic e \<mapsto> MAGIC_E))" by (auto simp: kept_def)
qed

text \<open>The end of \<open>new_chunk\<close>: the mark of the end, and the account.\<close>

lemma finish_chunk:
  assumes c: "poolmem p bk T {}" and q: "bk q = Some (k, s)" "\<not> isend k" "bk (q + s) = Some (KY, 64)" and t: "bk t = Some (KA, n)"
  shows "\<exists>p'. do { e \<leftarrow> B2NB (p_mem p) q; p \<leftarrow> put p (magic e) MAGIC_E; p \<leftarrow> charge p t; Some (p, B2D t) } = Some (p', B2D t) \<and>
    poolmem p' (bk(q + s \<mapsto> (KX, 64))) T {} \<and> kept (data bk) (p_mem p) (p_mem p') \<and> counts p' = counts (charged p n)"
proof -
  let ?p = "p\<lparr>p_mem := (p_mem p)(magic (q + s) \<mapsto> MAGIC_E)\<rparr>"
  note m = mark_end [OF c q(3)]
  have "t \<noteq> q + s" using t q(3) by auto
  then have "p_mem ?p (bsize t) = Some n" using core_fields(1) [OF m(2) [unfolded poolmem_def], of t KA n] t by simp
  then have "charge ?p t = Some (charged ?p n)" by (rule charge_ok)
  then show ?thesis using B2NB_ok [OF c q(1,2)] m counts_charged [of ?p p n] by (simp del: fun_upd_apply)
qed

lemma coal_end: "coal bk \<Longrightarrow> coal (bk(e \<mapsto> (KX, 64)))" by (auto simp: coal_def)

lemma data_mono: "(\<And>x k s. \<lbrakk> bk x = Some (k, s); owned k \<rbrakk> \<Longrightarrow> bk' x = Some (k, s)) \<Longrightarrow> data bk \<subseteq> data bk'"
  unfolding data_def by blast

lemma new_chunk_eq:
  assumes "chunk_head p t ns n = Some (p1, u)" "ns = n + r" "0 < r"
    and "do { q \<leftarrow> B2NB (p_mem p1) u; p \<leftarrow> put p1 (bsize q) r; p \<leftarrow> put_tail p q; add p q } = Some p3"
    and "do { e \<leftarrow> B2NB (p_mem p3) q; p \<leftarrow> put p3 (magic e) MAGIC_E; p \<leftarrow> charge p u; Some (p, B2D u) } = R"
    and "B2NB (p_mem p1) u = Some q"
  shows "new_chunk p t ns n = R"
  using assms unfolding new_chunk_def by (cases "put p1 (bsize q) r"; cases "put_tail (the (put p1 (bsize q) r)) q") auto

lemma new_chunk_ok:
  assumes c: "poolmem p bk T {}" "coal bk" and fresh: "\<And>a. \<lbrakk> t \<le> a; a < t + (ns + 128) \<rbrakk> \<Longrightarrow> p_mem p a = None" and t: "0 < t" "t mod 8 = 0"
    and n: "64 \<le> n" "n mod 64 = 0" "n \<le> ns" "ns mod 64 = 0"
  shows "\<exists>p' T' bk'. new_chunk (p\<lparr>p_mem := p_mem p ++ zero_region t (ns + 128)\<rparr>) t ns n = Some (p', B2D (t + 64)) \<and> poolmem p' bk' T' {} \<and> coal bk' \<and>
    held bk' = (held bk)(t \<mapsto> (KE, 64), t + 64 \<mapsto> (KA, n), t + 64 + ns \<mapsto> (KX, 64)) \<and> kept (data bk) (p_mem p) (p_mem p') \<and>
    p_mem p' (clink t) = Some (p_chain p) \<and> p_mem p' (csize t) = Some (ns + 64) \<and> counts p' = counts (charged (p\<lparr>p_chain := t\<rparr>) n)"
proof -
  have d: "8 dvd t" "64 dvd ns" "64 dvd n" "64 \<le> ns" "ns mod 64 = 0" using t n by auto
  let ?ch = "p_chain p" and ?e = "t + 64 + ns"
  let ?p0 = "p\<lparr>p_mem := block_mem (p_mem p) t ns ?ch ns, p_chain := t\<rparr>" and ?pA = "p\<lparr>p_mem := block_mem (p_mem p) t ns ?ch n, p_chain := t\<rparr>"
  note head = chunk_head_ok [OF d(1,2,3) n(1,3), of p]
  have k: "poolmem ?p0 (chunk bk t ns) T {}" "kept (data bk) (p_mem p) (block_mem (p_mem p) t ns ?ch ns)" using chunk_ok [OF c(1) fresh t d(4,5), of ?ch] by (auto simp: poolmem_def)
  have ch: "chunk bk t ns t = Some (KE, 64)" "chunk bk t ns (t + 64) = Some (KA, ns)" "chunk bk t ns ?e = Some (KY, 64)" using d(4) by (auto simp: chunk_def)
  have w: "p_mem ?p0 (clink t) = Some ?ch" "p_mem ?p0 (csize t) = Some (ns + 64)" using block_mem_words(4,5) [OF d(1,2,2,4) order_refl] by simp_all
  have lead: "clink t \<in> data bk'" "csize t \<in> data bk'" if "bk' t = Some (KE, 64)" for bk'
  proof -
    have "fld t i \<in> data bk'" if i: "i = 2 \<or> i = 3" for i
      unfolding data_def using \<open>bk' t = Some (KE, 64)\<close> i by (intro CollectI exI [of _ t] exI [of _ i] exI [of _ KE] exI [of _ 64]) auto
    then show "clink t \<in> data bk'" "csize t \<in> data bk'" by auto
  qed
  have cf: "chunk bk t ns x = Some (KF, s) \<longleftrightarrow> bk x = Some (KF, s) \<and> x \<noteq> t \<and> x \<noteq> t + 64 \<and> x \<noteq> ?e" for x s by (auto simp: chunk_def)
  then have coal: "coal (chunk bk t ns)" using c(2) unfolding coal_def by auto
  have none: "bk x = None" if x: "t \<le> x" "x < t + (ns + 128)" for x
    using fresh [of x] x core_block [OF c(1) [unfolded poolmem_def], of x] by (cases "bk x") (auto simp: block_at_def fld_def)
  have old: "chunk bk t ns x = Some y" if "bk x = Some y" for x y using that none [of x] d(4) by (auto simp: chunk_def)
  have D: "data bk \<subseteq> data (chunk bk t ns)" by (rule data_mono) (rule old)
  show ?thesis
  proof (cases "n = ns")
    case True
    obtain p' where p': "do { e \<leftarrow> B2NB (p_mem ?p0) (t + 64); p \<leftarrow> put ?p0 (magic e) MAGIC_E; p \<leftarrow> charge p (t + 64); Some (p, B2D (t + 64)) } = Some (p', B2D (t + 64))"
      "poolmem p' ((chunk bk t ns)(?e \<mapsto> (KX, 64))) T {}" "kept (data (chunk bk t ns)) (p_mem ?p0) (p_mem p')" "counts p' = counts (charged ?p0 ns)"
      using finish_chunk [OF k(1) ch(2) _ ch(3) ch(2)] by auto
    have "new_chunk (p\<lparr>p_mem := p_mem p ++ zero_region t (ns + 128)\<rparr>) t ns n = Some (p', B2D (t + 64))"
      unfolding new_chunk_def head using p'(1) True by simp
    moreover have "coal ((chunk bk t ns)(?e \<mapsto> (KX, 64)))" using coal by (auto simp: coal_def)
    moreover have "held ((chunk bk t ns)(?e \<mapsto> (KX, 64))) = (held bk)(t \<mapsto> (KE, 64), t + 64 \<mapsto> (KA, ns), ?e \<mapsto> (KX, 64))" by (auto simp: held_def chunk_def fun_eq_iff)
    moreover have "p_mem p' (clink t) = Some ?ch \<and> p_mem p' (csize t) = Some (ns + 64)" using lead [of "chunk bk t ns"] ch(1) p'(3) w by (simp add: kept_def)
    moreover have "kept (data bk) (p_mem p) (p_mem p')" using k(2) p'(3) D by (auto intro: kept_trans)
    moreover have "counts p' = counts (charged (p\<lparr>p_chain := t\<rparr>) n)" using p'(4) True by (simp add: counts_def charged_def)
    ultimately show ?thesis using p'(2) True by blast
  next
    case False
    define r where "r = ns - n"
    have "ns = n + r" "64 dvd r" "0 < r" using False n d by (auto simp: r_def dvd_diff_nat)
    then have r: "ns = n + r" "64 \<le> r" "r mod 64 = 0" by (auto dest: dvd_imp_le)
    let ?q = "t + 64 + n" and ?ck = "(chunk bk t ns)(t + 64 \<mapsto> (KA, n), t + 64 + n \<mapsto> (KF, r))"
    obtain p3 T3 where p3: "add (?p0\<lparr>p_mem := (p_mem ?p0)(bsize (t + 64) \<mapsto> n, tail (t + 64) n \<mapsto> t + 64, bsize ?q \<mapsto> r, tail ?q r \<mapsto> ?q)\<rparr>) ?q = Some p3"
      "poolmem p3 ?ck T3 {}" "kept (data ((held (chunk bk t ns))(t + 64 := None))) (p_mem ?p0) (p_mem p3)" "counts p3 = counts ?p0"
      using split_ok [OF k(1), of "t + 64" n r] ch(2) r n(1,2) by auto
    have e: "?q + r = ?e" using r(1) by simp
    have ck: "?ck ?q = Some (KF, r)" "?ck (t + 64) = Some (KA, n)" "?ck ?e = Some (KY, 64)" "?ck t = Some (KE, 64)" using ch r n(1) by auto
    obtain p' where p': "do { e \<leftarrow> B2NB (p_mem p3) ?q; p \<leftarrow> put p3 (magic e) MAGIC_E; p \<leftarrow> charge p (t + 64); Some (p, B2D (t + 64)) } = Some (p', B2D (t + 64))"
      "poolmem p' (?ck(?e \<mapsto> (KX, 64))) T3 {}" "kept (data ?ck) (p_mem p3) (p_mem p')" "counts p' = counts (charged p3 n)"
      using finish_chunk [OF p3(2) ck(1) isend_simps(2) ck(3) [folded e] ck(2)] unfolding e by blast
    have nx: "B2NB (p_mem ?pA) (t + 64) = Some ?q" using block_mem_words(8) [OF d(1,2,3) n(1,3), where m = "p_mem p" and ch = ?ch] by (simp add: B2NB_def ld_def)
    have "do { q \<leftarrow> B2NB (p_mem ?pA) (t + 64); p \<leftarrow> put ?pA (bsize q) r; p \<leftarrow> put_tail p q; add p q } = Some p3"
    proof -
      note wA = block_mem_words [OF d(1,2,3) n(1,3), where m = "p_mem p" and ch = ?ch]
      have "8 dvd n" "8 dvd r" using d(3) r(3) by (auto intro: dvd_trans [of 8 64])
      then have a: "p_mem ?pA (bsize ?q) \<noteq> None" "p_mem ?pA (tail ?q r) \<noteq> None"
        using wA(1) [of "bsize ?q"] wA(1) [of "tail ?q r"] d(1) r n by (auto simp: fld_def tail_def dvd_diff_nat)
      have "(p_mem ?p0)(bsize (t + 64) \<mapsto> n, tail (t + 64) n \<mapsto> t + 64, bsize ?q \<mapsto> r, tail ?q r \<mapsto> ?q) = (p_mem ?pA)(bsize ?q \<mapsto> r, tail ?q r \<mapsto> ?q)"
        using r n(1) by (intro ext) (auto simp: block_mem_def fld_def tail_def)
      moreover note nx
      moreover note put_at [OF a(1), of r]
      moreover have "put_tail (?pA\<lparr>p_mem := (p_mem ?pA)(bsize ?q \<mapsto> r)\<rparr>) ?q = Some (?pA\<lparr>p_mem := (p_mem ?pA)(bsize ?q \<mapsto> r, tail ?q r \<mapsto> ?q)\<rparr>)"
        using put_tail_ok [of "?pA\<lparr>p_mem := (p_mem ?pA)(bsize ?q \<mapsto> r)\<rparr>" ?q r] a(2) by simp
      ultimately show ?thesis using p3(1) by (simp del: fun_upd_apply)
    qed
    then have "new_chunk (p\<lparr>p_mem := p_mem p ++ zero_region t (ns + 128)\<rparr>) t ns n = Some (p', B2D (t + 64))"
      using head r p'(1) nx by (intro new_chunk_eq [where r = r]) (assumption | simp)+
    moreover have "coal (?ck(?e \<mapsto> (KX, 64)))"
    proof -
      have "coal ?ck"
      proof (rule coal_free)
        show "coal ((chunk bk t ns)(t + 64 \<mapsto> (KA, n)))" using coal by (rule coal_take)
        show "((chunk bk t ns)(t + 64 \<mapsto> (KA, n))) (?q + r) \<noteq> Some (KF, x)" for x unfolding e using ch(3) r n(1) by auto
        show "x + sx \<noteq> ?q" if x: "((chunk bk t ns)(t + 64 \<mapsto> (KA, n))) x = Some (KF, sx)" for x sx
        proof -
          have cx: "chunk bk t ns x = Some (KF, sx)" "x \<noteq> t + 64" using x by (auto split: if_splits)
          note tc = poolmem_tiles [OF k(1)]
          show ?thesis using tiles_disj [OF tc cx(1) ch(2) cx(2)] tiles_shape [OF tc cx(1)] r n(1) by (auto simp: bshape_def)
        qed
      qed (use r in simp)
      then show ?thesis by (rule coal_end)
    qed
    moreover have "held (?ck(?e \<mapsto> (KX, 64))) = (held bk)(t \<mapsto> (KE, 64), t + 64 \<mapsto> (KA, n), ?e \<mapsto> (KX, 64))" using none [of ?q] r n(1) by (auto simp: held_def chunk_def fun_eq_iff)
    moreover have "p_mem p' (clink t) = Some ?ch \<and> p_mem p' (csize t) = Some (ns + 64)"
      using lead [of ?ck] lead [of "(held (chunk bk t ns))(t + 64 := None)"] ck(4) ch(1) p'(3) p3(3) w by (simp add: kept_def held_def)
    moreover have "kept (data bk) (p_mem p) (p_mem p')"
    proof -
      have x: "x \<noteq> t + 64" "x \<noteq> ?q" if "bk x = Some y" for x y using that none [of x] r n(1) by auto
      have "data bk \<subseteq> data ((held (chunk bk t ns))(t + 64 := None))"
        by (rule data_mono) (use old x in \<open>auto simp: held_eq\<close>)
      moreover have "data bk \<subseteq> data ?ck" by (rule data_mono) (use old x in auto)
      ultimately show ?thesis using k(2) p3(3) p'(3) by (auto intro: kept_trans)
    qed
    moreover have "counts p' = counts (charged (p\<lparr>p_chain := t\<rparr>) n)" using p'(4) p3(4) by (simp add: counts_def charged_def)
    ultimately show ?thesis using p'(2) by blast
  qed
qed

section \<open>Joining new memory to the last chunk\<close>

text \<open>The memory after the first writes of \<open>merge_chunk\<close>.\<close>

definition merged :: "mem \<Rightarrow> nat \<Rightarrow> nat \<Rightarrow> mem" where
  "merged m q n = (m ++ zero_region (q + 64) n)(magic q \<mapsto> MAGIC_A, bsize q \<mapsto> n, tail q n \<mapsto> q, magic (q + n) \<mapsto> MAGIC_E)"

lemma merged_put:
  assumes a: "z (magic q) \<noteq> None" "z (bsize q) \<noteq> None" "z (tail q n) \<noteq> None" "z (magic (q + n)) \<noteq> None" and tl: "q + 16 < tail q n"
  shows "do { p \<leftarrow> put (p\<lparr>p_mem := z\<rparr>) (magic q) MAGIC_A; p \<leftarrow> put p (bsize q) n; p \<leftarrow> put_tail p q; t \<leftarrow> B2NB (p_mem p) q; put p (magic t) MAGIC_E } =
    Some (p\<lparr>p_mem := z(magic q \<mapsto> MAGIC_A, bsize q \<mapsto> n, tail q n \<mapsto> q, magic (q + n) \<mapsto> MAGIC_E)\<rparr>)"
proof -
  have d: "magic q \<noteq> bsize q" "bsize q \<noteq> tail q n" "magic q \<noteq> tail q n" using tl by (auto simp: fld_def)
  then show ?thesis using a tl by (simp add: put_at put_tail_ok B2NB_def ld_def)
qed

lemma merged_ok:
  assumes c: "poolmem p bk T {}" and q: "bk q = Some (KX, 64)" and fresh: "\<And>a. \<lbrakk> q + 64 \<le> a; a < q + 64 + n \<rbrakk> \<Longrightarrow> p_mem p a = None" and n: "64 \<le> n" "n mod 64 = 0"
  shows "poolmem (p\<lparr>p_mem := merged (p_mem p) q n\<rparr>) (longer bk q n) T {}" "kept (data bk) (p_mem p) (merged (p_mem p) q n)"
    "do { p \<leftarrow> put (p\<lparr>p_mem := p_mem p ++ zero_region (q + 64) n\<rparr>) (magic q) MAGIC_A; p \<leftarrow> put p (bsize q) n; p \<leftarrow> put_tail p q; t \<leftarrow> B2NB (p_mem p) q; put p (magic t) MAGIC_E } =
       Some (p\<lparr>p_mem := merged (p_mem p) q n\<rparr>)"
proof -
  note cc = c [unfolded poolmem_def] and t = poolmem_tiles [OF c]
  let ?m = "p_mem p" and ?z = "p_mem p ++ zero_region (q + 64) n" and ?m' = "merged (p_mem p) q n"
  have q8: "8 dvd q" using tiles_shape [OF t q] by (auto simp: bshape_def)
  have n8: "8 dvd n" using n(2) by (auto intro: dvd_trans [of 8 64])
  have z: "?z a \<noteq> None" if a: "q \<le> a" "a + 8 \<le> q + 64 + n" "8 dvd a" for a
  proof (cases "q + 64 \<le> a")
    case True
    then show ?thesis using region_word [of "q + 64" a n ?m] a by auto
  next
    case False
    obtain i where i: "a = q + 8 * i" using a q8 by (metis dvd_def dvd_diff_nat le_add_diff_inverse)
    then have "?m (fld q i) \<noteq> None" using core_block [OF cc q] False by (auto simp: block_at_def)
    then show ?thesis using region_out [of a "q + 64" n ?m] False i by (auto simp: fld_def)
  qed
  have z': "?m' a \<noteq> None" if a: "q \<le> a" "a + 8 \<le> q + 64 + n" "8 dvd a" for a using z [OF a] unfolding merged_def by (simp del: not_None_eq)
  have tl: "tail q n = q + n - 8" "8 dvd q + n - 8" "q + 16 < q + n - 8" using n q8 n8 by (auto simp: tail_def intro: dvd_diff_nat dvd_add)
  have "block_at ?m' q KA n" unfolding block_at_def
  proof (intro conjI allI impI)
    show "?m' (fld q i) \<noteq> None" if "i < n div 8" for i by (rule z') (use that q8 in \<open>auto simp: fld_def\<close>)
    show "\<exists>g. ?m' (magic q) = Some g \<and> mark KA g" "?m' (bsize q) = Some n" "?m' (tail q n) = Some q"
      using n tl by (auto simp: merged_def fld_def)
  qed
  moreover have "block_at ?m' (q + n) KX 64" unfolding block_at_def
  proof (intro conjI allI impI)
    show "?m' (fld (q + n) i) \<noteq> None" if "i < 64 div 8" for i by (rule z') (use that q8 n8 in \<open>auto simp: fld_def intro!: dvd_add\<close>)
    show "\<exists>g. ?m' (magic (q + n)) = Some g \<and> mark KX g" by (auto simp: merged_def)
  qed simp_all
  moreover have "inside q (n + 64) ?m ?m'" unfolding inside_def
  proof (intro allI impI)
    fix a assume a: "a < q \<or> q + (n + 64) \<le> a"
    then have "a \<noteq> magic q" "a \<noteq> bsize q" "a \<noteq> tail q n" "a \<noteq> magic (q + n)" using n tl by (auto simp: fld_def)
    then show "?m' a = ?m a" using region_out [of a "q + 64" n ?m] a by (auto simp: merged_def)
  qed
  ultimately have l: "core ?m' (p_root p) (longer bk q n) T {} \<and> kept (data bk) ?m ?m'" using longer_core [OF cc q fresh n] by blast
  then show "poolmem (p\<lparr>p_mem := ?m'\<rparr>) (longer bk q n) T {}" "kept (data bk) ?m ?m'" by (simp_all add: poolmem_def)
  have a: "?z (magic q) \<noteq> None" "?z (bsize q) \<noteq> None" "?z (tail q n) \<noteq> None" "?z (magic (q + n)) \<noteq> None"
    unfolding tl(1) fld_def using n tl(2,3) q8 n8 by - (rule z; simp)+
  show "do { p \<leftarrow> put (p\<lparr>p_mem := ?z\<rparr>) (magic q) MAGIC_A; p \<leftarrow> put p (bsize q) n; p \<leftarrow> put_tail p q; t \<leftarrow> B2NB (p_mem p) q; put p (magic t) MAGIC_E } = Some (p\<lparr>p_mem := ?m'\<rparr>)"
    unfolding merged_def by (rule merged_put) (use a tl in \<open>auto simp: fld_def simp del: map_add_None\<close>)
qed

lemma merge_chunk_eq:
  assumes "do { p \<leftarrow> put p (magic q) MAGIC_A; p \<leftarrow> put p (bsize q) n; p \<leftarrow> put_tail p q; t \<leftarrow> B2NB (p_mem p) q; put p (magic t) MAGIC_E } = Some p1"
    and "do { cs \<leftarrow> ld (p_mem p1) (csize c); p \<leftarrow> put p1 (csize c) (cs + n); poolfree (p\<lparr>p_cursize := p_cursize p + of_nat n\<rparr>) (B2D q) } = R"
    and "p_chain p1 = c"
  shows "merge_chunk p q n = R"
proof -
  have put: "p_chain p2 = p_chain p1" if "put p1 a v = Some p2" for p1 p2 a v using that by (auto simp: put_def bind_eq_Some_conv)
  have tl: "p_chain p2 = p_chain p1" if "put_tail p1 a = Some p2" for p1 p2 a using that by (auto simp: put_tail_def bind_eq_Some_conv)
  obtain p2 p3 p4 t where "put p (magic q) MAGIC_A = Some p2" "put p2 (bsize q) n = Some p3" "put_tail p3 q = Some p4" "B2NB (p_mem p4) q = Some t" "put p4 (magic t) MAGIC_E = Some p1"
    using assms(1) by (auto simp: bind_eq_Some_conv)
  moreover have "do { cs \<leftarrow> ld (p_mem p1) (csize (p_chain p1)); p \<leftarrow> put p1 (csize (p_chain p1)) (cs + n); poolfree (p\<lparr>p_cursize := p_cursize p + of_nat n\<rparr>) (B2D q) } = R"
    using assms(2,3) by simp
  ultimately show ?thesis unfolding merge_chunk_def by simp
qed

lemma merge_chunk_ok:
  assumes c: "poolmem p bk T {}" "coal bk" and q: "bk q = Some (KX, 64)" and fresh: "\<And>a. \<lbrakk> q + 64 \<le> a; a < q + 64 + n \<rbrakk> \<Longrightarrow> p_mem p a = None" and n: "64 \<le> n" "n mod 64 = 0"
    and L: "bk (p_chain p) = Some (KE, 64)" "p_mem p (csize (p_chain p)) = Some cs"
  shows "\<exists>p' T' bk'. merge_chunk (p\<lparr>p_mem := p_mem p ++ zero_region (q + 64) n\<rparr>) q n = Some (Inr p') \<and> poolmem p' bk' T' {} \<and> coal bk' \<and>
    held bk' = (held bk)(q := None, q + n \<mapsto> (KX, 64)) \<and> (\<exists>a sa. bk' a = Some (KF, sa) \<and> n \<le> sa) \<and> kept (data bk - {csize (p_chain p)}) (p_mem p) (p_mem p') \<and>
    p_mem p' (csize (p_chain p)) = Some (cs + n) \<and> counts p' = counts (p\<lparr>p_nfree := p_nfree p + 1\<rparr>)"
proof -
  note m = merged_ok [OF c(1) q fresh n]
  let ?c = "csize (p_chain p)" and ?bk = "longer bk q n"
  let ?p1 = "p\<lparr>p_mem := (merged (p_mem p) q n)(?c \<mapsto> cs + n), p_cursize := p_cursize p + of_nat n\<rparr>"
  have Ln: "p_chain p \<noteq> q" "p_chain p \<noteq> q + n" "?bk (p_chain p) = Some (KE, 64)" "?c \<in> data bk" "?c \<in> data ?bk"
  proof -
    show 1: "p_chain p \<noteq> q" using L(1) q by auto
    show 2: "p_chain p \<noteq> q + n"
    proof
      assume e: "p_chain p = q + n"
      then have "p_mem p (fld (q + n) 0) \<noteq> None" using core_block [OF c(1) [unfolded poolmem_def] L(1)] by (auto simp: block_at_def)
      then show False using fresh [of "q + n"] n by (simp add: fld_def)
    qed
    show 3: "?bk (p_chain p) = Some (KE, 64)" using 1 2 L(1) by (simp add: longer_def)
    have "?c \<in> data bk'" if "bk' (p_chain p) = Some (KE, 64)" for bk'
      unfolding data_def using that by (intro CollectI exI [of _ "p_chain p"] exI [of _ 3] exI [of _ KE] exI [of _ 64]) auto
    then show "?c \<in> data bk" "?c \<in> data ?bk" using L(1) 3 by auto
  qed
  have cs: "merged (p_mem p) q n ?c = Some cs" using m(2) Ln(4) L(2) by (simp add: kept_def)
  have 1: "poolmem ?p1 ?bk T {}" using data_write_core [OF m(1) [unfolded poolmem_def] Ln(5), of "cs + n"] by (simp add: poolmem_def)
  have 2: "coal ?bk" using c(2) by (auto simp: longer_def intro!: coal_end coal_take)
  have 3: "?bk q = Some (KA, n)" using n by (simp add: longer_def)
  obtain p' T' bk' where p': "poolfree ?p1 (B2D q) = Some (Inr p')" "poolmem p' bk' T' {}" "coal bk'" "held bk' = (held ?bk)(q := None)"
    "\<exists>a sa. bk' a = Some (KF, sa) \<and> a \<le> q \<and> q + n \<le> a + sa" "kept (data ((held ?bk)(q := None))) (p_mem ?p1) (p_mem p')"
    "counts p' = counts (?p1\<lparr>p_nfree := p_nfree ?p1 + 1, p_cursize := p_cursize ?p1 - of_nat n\<rparr>)"
    using poolfree_ok [OF 1 2 3] by blast
  have "merge_chunk (p\<lparr>p_mem := p_mem p ++ zero_region (q + 64) n\<rparr>) q n = Some (Inr p')"
  proof -
    have "put (p\<lparr>p_mem := merged (p_mem p) q n\<rparr>) ?c (cs + n) = Some (p\<lparr>p_mem := (merged (p_mem p) q n)(?c \<mapsto> cs + n)\<rparr>)"
      using put_at [of "p\<lparr>p_mem := merged (p_mem p) q n\<rparr>" ?c] cs by simp
    then have e: "do { cs \<leftarrow> ld (p_mem (p\<lparr>p_mem := merged (p_mem p) q n\<rparr>)) ?c; p \<leftarrow> put (p\<lparr>p_mem := merged (p_mem p) q n\<rparr>) ?c (cs + n);
        poolfree (p\<lparr>p_cursize := p_cursize p + of_nat n\<rparr>) (B2D q) } = Some (Inr p')"
      using p'(1) cs by (simp add: ld_def del: fun_upd_apply)
    have "p_chain (p\<lparr>p_mem := merged (p_mem p) q n\<rparr>) = p_chain p" by simp
    with m(3) e show ?thesis by (rule merge_chunk_eq)
  qed
  moreover have h: "(held ?bk)(q := None) = (held bk)(q := None, q + n \<mapsto> (KX, 64))" using n by (auto simp: held_def longer_def fun_eq_iff)
  moreover have k: "data bk \<subseteq> data ((held ?bk)(q := None))"
  proof (rule data_mono)
    fix x k s assume x: "bk x = Some (k, s)" "owned k"
    then have "x \<noteq> q" "p_mem p (fld x 0) \<noteq> None" using q core_block [OF c(1) [unfolded poolmem_def] x(1)] by (auto simp: block_at_def)
    moreover have "p_mem p (fld (q + n) 0) = None" using fresh [of "q + n"] n by (simp add: fld_def)
    ultimately show "((held ?bk)(q := None)) x = Some (k, s)" using x by (auto simp: held_eq longer_def)
  qed
  moreover have "p_mem p' ?c = Some (cs + n)" using p'(6) k Ln(4) by (auto simp: kept_def)
  moreover have "kept (data bk - {?c}) (p_mem p) (p_mem p')" using p'(6) k m(2) by (auto simp: kept_def split: if_splits dest!: bspec)
  moreover have "\<exists>a sa. bk' a = Some (KF, sa) \<and> n \<le> sa" using p'(5) by (elim exE conjE) (intro exI conjI, assumption, linarith)
  moreover have "counts p' = counts (p\<lparr>p_nfree := p_nfree p + 1\<rparr>)" using p'(7) by (simp add: counts_def)
  ultimately show ?thesis using p'(2,3,4) by metis
qed

end
