(* ===== verification/PoolInv.thy ===== *)
theory PoolInv
  imports PoolGrow
begin

unbundle bit_operations_syntax

text \<open>The invariant of a pool, with the chain of its chunks and its account, and the pool as its users see it: a map from the addresses they have to the bytes they
  may use. The contract of an allocator is the locale \<open>allocator\<close>; the pools implement it, and \<open>poolrealloc\<close> rests on it. A step relation has everything the users
  may do.\<close>

section \<open>The state of a pool\<close>

text \<open>The chain of chunks, from the last one: the leaders and the ends.\<close>

fun chain_at :: "mem \<Rightarrow> bmap \<Rightarrow> nat \<Rightarrow> (nat \<times> nat) list \<Rightarrow> bool" where
  "chain_at m h c [] \<longleftrightarrow> c = 0"
| "chain_at m h c ((l, e) # ls) \<longleftrightarrow> c = l \<and> h l = Some (KE, 64) \<and> h e = Some (KX, 64) \<and>
     (\<exists>s c'. m (csize l) = Some s \<and> l + s = e \<and> m (clink l) = Some c' \<and> chain_at m h c' ls)"

lemma chain_frame:
  assumes "chain_at m h c ls" "\<And>l e. (l, e) \<in> set ls \<Longrightarrow> h l = Some (KE, 64) \<Longrightarrow> h' l = Some (KE, 64) \<and> m' (clink l) = m (clink l) \<and> m' (csize l) = m (csize l)"
    and "\<And>l e. (l, e) \<in> set ls \<Longrightarrow> h e = Some (KX, 64) \<Longrightarrow> h' e = Some (KX, 64)"
  shows "chain_at m' h' c ls"
  using assms
proof (induction ls arbitrary: c)
  case (Cons x ls)
  obtain l e where x: "x = (l, e)" by (cases x)
  have "chain_at m' h' c' ls" if "chain_at m h c' ls" for c' using that by (rule Cons.IH) (use Cons.prems(2,3) in auto)
  moreover have "h' l = Some (KE, 64) \<and> m' (clink l) = m (clink l) \<and> m' (csize l) = m (csize l)" "h' e = Some (KX, 64)"
    using Cons.prems(2) [of l e] Cons.prems(3) [of l e] Cons.prems(1) by (auto simp: x)
  ultimately show ?case using Cons.prems(1) by (auto simp: x)
qed simp

lemma chain_leader: "chain_at m h c ls \<Longrightarrow> (l, e) \<in> set ls \<Longrightarrow> h l = Some (KE, 64) \<and> h e = Some (KX, 64)"
  by (induction ls arbitrary: c) auto

lemma leader_data: "bk l = Some (KE, 64) \<Longrightarrow> clink l \<in> data bk \<and> csize l \<in> data bk"
proof -
  assume l: "bk l = Some (KE, 64)"
  have "fld l i \<in> data bk" if i: "i = 2 \<or> i = 3" for i
    unfolding data_def using l i by (intro CollectI exI [of _ l] exI [of _ i] exI [of _ KE] exI [of _ 64]) auto
  then show ?thesis by simp
qed

text \<open>The bytes of the allocated blocks, and the addresses that the users have, with the number of bytes they may use.\<close>

definition used :: "bmap \<Rightarrow> nat" where
  "used h = (\<Sum>b | \<exists>s. h b = Some (KA, s). bsz h b)"

definition users :: "bmap \<Rightarrow> nat \<rightharpoonup> nat" where
  "users h v = (if v < 16 then None else case h (v - 16) of Some (KA, s) \<Rightarrow> Some (s - BHDRSIZE) | _ \<Rightarrow> None)"

definition user_words :: "(nat \<rightharpoonup> nat) \<Rightarrow> nat set" where
  "user_words A = {a. 8 dvd a \<and> (\<exists>v n. A v = Some n \<and> v \<le> a \<and> a + 8 \<le> v + n)}"

lemma users_eq: "users h v = Some n \<longleftrightarrow> (\<exists>b s. v = B2D b \<and> h b = Some (KA, s) \<and> n = s - BHDRSIZE)"
proof
  assume "users h v = Some n"
  then obtain s where "v = B2D (v - 16)" "h (v - 16) = Some (KA, s)" "n = s - BHDRSIZE"
    by (auto simp: users_def B2D_def split: if_splits option.splits kind.splits)
  then show "\<exists>b s. v = B2D b \<and> h b = Some (KA, s) \<and> n = s - BHDRSIZE" by blast
qed (auto simp: users_def B2D_def)

lemma users_held [simp]: "users (held bk) = users bk"
  by (auto simp: users_def held_def fun_eq_iff split: option.splits kind.splits)

lemma users_take: "users (h(b \<mapsto> (KA, s))) = (users h)(B2D b \<mapsto> s - BHDRSIZE)"
  by (auto simp: users_def B2D_def fun_eq_iff)

lemma users_drop: "users (h(b := None)) = (users h)(B2D b := None)"
  by (auto simp: users_def B2D_def fun_eq_iff)

lemma users_other: "users h (B2D b) = None \<Longrightarrow> k \<noteq> KA \<Longrightarrow> users (h(b \<mapsto> (k, s))) = users h"
  by (cases k) (auto simp: users_def B2D_def fun_eq_iff)

lemma used_cong:
  assumes "\<And>b s. h b = Some (KA, s) \<longleftrightarrow> h' b = Some (KA, s)"
  shows "used h = used h'"
  unfolding used_def
proof (rule sum.cong)
  fix b assume "b \<in> {b. \<exists>s. h' b = Some (KA, s)}"
  then obtain s where "h' b = Some (KA, s)" "h b = Some (KA, s)" using assms by blast
  then show "bsz h b = bsz h' b" by (simp add: bsz_def)
qed (use assms in simp)

lemma used_held [simp]: "used (held bk) = used bk"
  by (rule used_cong) (auto simp: held_eq)

lemma used_take:
  assumes "finite (dom h)" "\<And>s. h b \<noteq> Some (KA, s)"
  shows "used (h(b \<mapsto> (KA, s))) = used h + s"
proof -
  let ?S = "{b. \<exists>s. h b = Some (KA, s)}"
  have f: "finite ?S" by (rule finite_subset [OF _ assms(1)]) auto
  have "{x. \<exists>s'. (h(b \<mapsto> (KA, s))) x = Some (KA, s')} = insert b ?S" "b \<notin> ?S" using assms(2) by auto
  then have "used (h(b \<mapsto> (KA, s))) = s + (\<Sum>x \<in> ?S. bsz (h(b \<mapsto> (KA, s))) x)" using f by (simp add: used_def bsz_def)
  also have "(\<Sum>x \<in> ?S. bsz (h(b \<mapsto> (KA, s))) x) = (\<Sum>x \<in> ?S. bsz h x)" by (rule sum.cong) (use assms(2) in \<open>auto simp: bsz_def\<close>)
  finally show ?thesis unfolding used_def by linarith
qed

lemma used_drop:
  assumes "finite (dom h)" "h b = Some (KA, s)"
  shows "used h = used (h(b := None)) + s"
  using used_take [of "h(b := None)" b s] assms by (simp add: fun_upd_idem)

text \<open>Every word that a user may touch is in memory, and belongs to a block that is allocated.\<close>

lemma user_word:
  assumes t: "tiles bk" and a: "a \<in> user_words (users bk)"
  shows "\<exists>b s i. bk b = Some (KA, s) \<and> a = fld b i \<and> 2 \<le> i \<and> i + 1 < s div 8"
proof -
  obtain b s where b: "bk b = Some (KA, s)" "b + 16 \<le> a" "a + 8 \<le> b + 16 + (s - 24)" "8 dvd a"
    using a by (auto simp: user_words_def users_eq B2D_def)
  note sh = tiles_shape [OF t b(1)]
  then have "8 dvd b" "64 \<le> s" by (auto simp: bshape_def)
  then obtain i where i: "a = b + 8 * i" using b(2,4) by (metis add_leD1 dvd_def dvd_diff_nat le_add_diff_inverse)
  then have "2 \<le> i" "i + 1 < s div 8" using b(2,3) \<open>64 \<le> s\<close> by linarith+
  then show ?thesis using b(1) i by (auto simp: fld_def)
qed

lemma user_words_data: "tiles bk \<Longrightarrow> user_words (users bk) \<subseteq> data bk"
  using user_word [of bk] unfolding data_def by fastforce

lemma user_words_leader:
  assumes "tiles bk" "bk l = Some (KE, 64)"
  shows "clink l \<notin> user_words (users bk)" "csize l \<notin> user_words (users bk)"
proof -
  have "fld l j \<notin> user_words (users bk)" if j: "j < 8" for j
  proof
    assume "fld l j \<in> user_words (users bk)"
    then obtain b s i where b: "bk b = Some (KA, s)" "fld l j = fld b i" "i + 1 < s div 8" using user_word [OF assms(1)] by blast
    then show False using word_eq [OF assms(1) assms(2) b(1), of j i] j assms(2) by auto
  qed
  then show "clink l \<notin> user_words (users bk)" "csize l \<notin> user_words (users bk)" by simp_all
qed

text \<open>The invariant.\<close>

definition pinv :: "pool \<Rightarrow> bmap \<Rightarrow> bool" where
  "pinv p bk \<longleftrightarrow> (\<exists>T. poolmem p bk T {}) \<and> coal bk \<and>
     (\<exists>ls. chain_at (p_mem p) bk (p_chain p) ls \<and> distinct (map fst ls) \<and> distinct (map snd ls)) \<and>
     p_cursize p = of_nat (used bk) \<and> 0 < p_chunk p \<and> p_chunk p mod 64 = 0 \<and> p_chunk p < 2 ^ 30"

lemma pinvI:
  assumes "poolmem p bk T {}" "coal bk" "chain_at (p_mem p) bk (p_chain p) ls" "distinct (map fst ls)" "distinct (map snd ls)"
    "p_cursize p = of_nat (used bk)" "0 < p_chunk p" "p_chunk p mod 64 = 0" "p_chunk p < 2 ^ 30"
  shows "pinv p bk"
  using assms unfolding pinv_def by blast

lemma pinv_chunk: "pinv p bk \<Longrightarrow> 0 < p_chunk p \<and> p_chunk p mod 64 = 0 \<and> p_chunk p < 2 ^ 30 \<and> p_cursize p = of_nat (used bk)"
  by (simp add: pinv_def)

lemma pinv_keep:
  assumes i: "pinv p bk" and c: "poolmem p' bk' T' {}" "coal bk'" and k: "kept (data bk) (p_mem p) (p_mem p')"
    and h: "\<And>b k s. bk b = Some (k, s) \<Longrightarrow> k = KE \<or> k = KX \<Longrightarrow> bk' b = Some (k, s)"
    and q: "p_chain p' = p_chain p" "p_chunk p' = p_chunk p" "p_cursize p' = of_nat (used bk')"
  shows "pinv p' bk'"
proof -
  obtain ls where ls: "chain_at (p_mem p) bk (p_chain p) ls" "distinct (map fst ls)" "distinct (map snd ls)" using i by (auto simp: pinv_def)
  have "chain_at (p_mem p') bk' (p_chain p) ls"
    by (rule chain_frame [OF ls(1)]) (use k h leader_data [of bk] in \<open>auto simp: kept_def\<close>)
  then show ?thesis using i c q ls(2,3) by (auto simp: pinv_def)
qed

lemma pinv_write: "pinv p bk \<Longrightarrow> a \<in> user_words (users bk) \<Longrightarrow> pinv (p\<lparr>p_mem := (p_mem p)(a \<mapsto> x)\<rparr>) bk"
proof -
  assume i: "pinv p bk" and a: "a \<in> user_words (users bk)"
  obtain T ls where T: "poolmem p bk T {}" and ls: "chain_at (p_mem p) bk (p_chain p) ls" "distinct (map fst ls)" "distinct (map snd ls)" using i by (auto simp: pinv_def)
  have t: "tiles bk" by (rule poolmem_tiles [OF T])
  have "poolmem (p\<lparr>p_mem := (p_mem p)(a \<mapsto> x)\<rparr>) bk T {}"
    using data_write_core [OF T [unfolded poolmem_def]] user_words_data [OF t] a by (auto simp: poolmem_def)
  moreover have "chain_at ((p_mem p)(a \<mapsto> x)) bk (p_chain p) ls"
    by (rule chain_frame [OF ls(1)]) (use a user_words_leader [OF t] in auto)
  ultimately show ?thesis using i ls by (auto simp: pinv_def)
qed

lemma fault: "\<lbrakk> p_mem p (magic b) = Some g; g \<noteq> MAGIC_A; g \<noteq> MAGIC_I \<rbrakk> \<Longrightarrow> poolfree p (B2D b) = Some (Inl Poolfault)"
  by (simp add: poolfree_def D2B_def B2D_def ld_def)

lemma pinv_free:
  assumes i: "pinv p bk" and b: "bk b = Some (KA, s)"
  shows "\<exists>p' bk'. poolfree p (B2D b) = Some (Inr p') \<and> pinv p' bk' \<and> users bk' = (users bk)(B2D b := None) \<and>
    (\<exists>a sa. bk' a = Some (KF, sa) \<and> a \<le> b \<and> b + s \<le> a + sa) \<and> kept (user_words ((users bk)(B2D b := None))) (p_mem p) (p_mem p') \<and>
    poolfree p' (B2D b) = Some (Inl Poolfault) \<and> counts p' = counts (p\<lparr>p_nfree := p_nfree p + 1, p_cursize := p_cursize p - of_nat s\<rparr>)"
proof -
  obtain T ls where T: "poolmem p bk T {}" "coal bk" and ls: "chain_at (p_mem p) bk (p_chain p) ls" "distinct (map fst ls)" "distinct (map snd ls)"
    using i by (auto simp: pinv_def)
  obtain p' T' bk' where p': "poolfree p (B2D b) = Some (Inr p')" "poolmem p' bk' T' {}" "coal bk'" "held bk' = (held bk)(b := None)"
    "\<exists>a sa. bk' a = Some (KF, sa) \<and> a \<le> b \<and> b + s \<le> a + sa" "kept (data ((held bk)(b := None))) (p_mem p) (p_mem p')"
    "p_mem p' (magic b) = Some MAGIC_F \<or> p_mem p' (magic b) = Some 0"
    "counts p' = counts (p\<lparr>p_nfree := p_nfree p + 1, p_cursize := p_cursize p - of_nat s\<rparr>)" using poolfree_ok [OF T b] by blast
  have e: "((held bk)(b := None)) x = Some (k, y)" if "bk x = Some (k, y)" "k = KE \<or> k = KX" for x k y using that b by (auto simp: held_eq)
  then have e': "bk' x = Some (k, y)" if "bk x = Some (k, y)" "k = KE \<or> k = KX" for x k y using that p'(4) held_eq [of bk' x k y] by metis
  have "chain_at (p_mem p') bk' (p_chain p) ls"
    by (rule chain_frame [OF ls(1)]) (use p'(6) e e' leader_data [of "(held bk)(b := None)"] in \<open>auto simp: kept_def\<close>)
  moreover have "users bk' = (users bk)(B2D b := None)" using users_held [of bk'] users_held [of bk] unfolding p'(4) users_drop by simp
  moreover have u: "used bk = used bk' + s"
  proof -
    have "finite (dom (held bk))" by (rule finite_subset [OF _ tiles_finite [OF poolmem_tiles [OF T(1)]]]) (auto simp: held_eq)
    then show ?thesis using used_drop [of "held bk" b s] b used_held [of bk'] unfolding p'(4) by (simp add: held_eq)
  qed
  moreover have "kept (user_words ((users bk)(B2D b := None))) (p_mem p) (p_mem p')"
  proof -
    have "tiles bk'" by (rule poolmem_tiles [OF p'(2)])
    then have "user_words (users bk') \<subseteq> data bk'" by (rule user_words_data)
    moreover have "data bk' = data ((held bk)(b := None))" using data_held [of bk'] p'(4) by simp
    ultimately show ?thesis using p'(6) \<open>users bk' = (users bk)(B2D b := None)\<close> by (auto simp: kept_def)
  qed
  moreover have "poolfree p' (B2D b) = Some (Inl Poolfault)" using p'(7) fault [of p' b] by auto
  moreover have "pinv p' bk'" using i p'(2,3,8) ls(2,3) \<open>chain_at (p_mem p') bk' (p_chain p) ls\<close> u by (auto simp: pinv_def counts_def)
  ultimately show ?thesis using p'(1,5,8) by metis
qed

section \<open>Requests\<close>

text \<open>\<open>sbrk\<close> gives memory at any address, aligned or not, that the pool does not have yet. A word is at a multiple of 8, so the words of the
  pool that start before the next such multiple behind the memory are those that start in it.\<close>

definition brk_ok :: "(pool \<Rightarrow> nat \<Rightarrow> nat option) \<Rightarrow> mem \<Rightarrow> bool" where
  "brk_ok brk m \<longleftrightarrow> (\<forall>p n t. p_mem p = m \<longrightarrow> brk p n = Some t \<longrightarrow> 0 < t \<and> (\<forall>a. t \<le> a \<and> a < (t + n + 7) div 8 * 8 \<longrightarrow> m a = None))"

lemma brk_okD: "\<lbrakk> brk_ok brk (p_mem p); p_mem p' = p_mem p; brk p' n = Some t \<rbrakk> \<Longrightarrow> 0 < t \<and> (\<forall>a. t \<le> a \<and> a < (t + n + 7) div 8 * 8 \<longrightarrow> p_mem p a = None)"
  unfolding brk_ok_def by blast

definition grants :: "nat \<Rightarrow> pool \<Rightarrow> bmap \<Rightarrow> pool \<Rightarrow> nat \<Rightarrow> bool" where
  "grants n p bk p' v \<longleftrightarrow> v \<noteq> 0 \<and> users bk v = None \<and> kept (user_words (users bk)) (p_mem p) (p_mem p') \<and>
     (\<exists>bk' m. n \<le> m \<and> pinv p' bk' \<and> users bk' = (users bk)(v \<mapsto> m))"

lemma held_finite: "poolmem p bk T X \<Longrightarrow> finite (dom (held bk))"
  by (rule finite_subset [OF _ tiles_finite [OF poolmem_tiles]]) (auto simp: held_eq)

lemma gains_grants:
  assumes i: "pinv p bk" and g: "gains n p bk p' v" and n: "a + BHDRSIZE \<le> n"
  shows "grants a p bk p' v"
proof -
  obtain T where T: "poolmem p bk T {}" using i by (auto simp: pinv_def)
  obtain T' bk' b s where v: "v = B2D b" "poolmem p' bk' T' {}" "coal bk'" "held bk b = None" "n \<le> s" "held bk' = (held bk)(b \<mapsto> (KA, s))"
    "kept (data bk) (p_mem p) (p_mem p')" "counts p' = counts (charged p s)" using g unfolding gains_def by blast
  have nb: "users bk v = None" using v(4) users_eq [of "held bk" v] by (cases "users bk v") (auto simp: v(1) B2D_def)
  have u: "used bk' = used bk + s" using used_take [OF held_finite [OF T], of b s] v(4) used_held [of bk'] unfolding v(6) by simp
  have "pinv p' bk'"
  proof (rule pinv_keep [OF i v(2,3,7)])
    show "bk' x = Some (k, y)" if "bk x = Some (k, y)" "k = KE \<or> k = KX" for x k y
    proof -
      have "held bk x = Some (k, y)" using that by (auto simp: held_eq)
      moreover from this have "x \<noteq> b" using v(4) by auto
      ultimately have "held bk' x = Some (k, y)" by (simp add: v(6))
      then show ?thesis by (simp add: held_eq)
    qed
    show "p_cursize p' = of_nat (used bk')" "p_chain p' = p_chain p" "p_chunk p' = p_chunk p" using v(8) u i by (auto simp: counts_def charged_def pinv_def)
  qed
  moreover have "users bk' = (users bk)(v \<mapsto> s - BHDRSIZE)" using users_held [of bk'] users_held [of bk] unfolding v(6) users_take v(1) by simp
  moreover have "kept (user_words (users bk)) (p_mem p) (p_mem p')" using v(7) user_words_data [OF poolmem_tiles [OF T]] by (auto simp: kept_def)
  moreover have "a \<le> s - BHDRSIZE" using v(5) n by simp
  ultimately show ?thesis using nb v(1) unfolding grants_def by (auto simp: B2D_def)
qed

lemma grow_size_ok:
  assumes "grow_size p sz = Some (ns, arena)" "0 < p_chunk p" "p_chunk p mod 64 = 0" "sz mod 64 = 0" "64 \<le> sz"
  shows "\<exists>k. ns = int k \<and> sz \<le> k \<and> k mod 64 = 0"
proof -
  have a: "x AND - 64 = x div 64 * 64" for x :: int using and_not_63 [of x] by simp
  have "int sz \<le> ns \<and> ns mod 64 = 0"
  proof (cases "p_arenasize p + of_int ((if int sz > p_chunk p then int sz else p_chunk p) + 2 * int LDR) > p_maxsize p")
    case True
    then show ?thesis using assms(1) by (auto simp: grow_size_def Let_def a split: if_splits)
  next
    case False
    then have "ns = (if int sz > p_chunk p then int sz else p_chunk p)" using assms(1) by (auto simp: grow_size_def Let_def split: if_splits)
    then show ?thesis using assms(3,4) by (auto split: if_splits)
  qed
  then have "int sz \<le> ns" "ns = int (nat ns)" "int (nat ns) mod 64 = 0" by auto
  moreover from this have "nat ns mod 64 = 0" by presburger
  ultimately show ?thesis by (intro exI [of _ "nat ns"]) auto
qed

lemma grow_size_nalloc [simp]: "grow_size (p\<lparr>p_nalloc := c\<rparr>) n = grow_size p n"
  by (simp add: grow_size_def Let_def)

text \<open>Neither the limit of the pool nor the system lets the arena grow by a block of \<open>n\<close> bytes.\<close>

definition no_memory :: "(pool \<Rightarrow> nat \<Rightarrow> nat option) \<Rightarrow> nat \<Rightarrow> pool \<Rightarrow> bool" where
  "no_memory brk n p \<longleftrightarrow> grow_size p n = None \<or> (\<exists>q s. p_mem q = p_mem p \<and> n \<le> s \<and> brk q s = None)"

text \<open>The pool has grown by a free block that is large enough.\<close>

definition grown :: "nat \<Rightarrow> pool \<Rightarrow> bmap \<Rightarrow> pool \<Rightarrow> bool" where
  "grown n p bk p' \<longleftrightarrow> (\<exists>bk'. pinv p' bk' \<and> users bk' = users bk \<and> (\<exists>a sa. bk' a = Some (KF, sa) \<and> n \<le> sa)) \<and>
     kept (user_words (users bk)) (p_mem p) (p_mem p') \<and> p_cursize p' = p_cursize p \<and> p_ressize p' = p_ressize p"

lemma region_old: "\<lbrakk> \<And>a. t \<le> a \<and> a < t + n \<Longrightarrow> m a = None; m a = Some x \<rbrakk> \<Longrightarrow> (m ++ zero_region t n) a = Some x"
  by (rule map_add_SomeD [THEN disjE]) (auto simp: zero_region_def map_add_Some_iff)

lemma chunk_before_ok:
  assumes i: "pinv p bk" and fresh: "\<And>a. \<lbrakk> t \<le> a; a < t + n \<rbrakk> \<Longrightarrow> p_mem p a = None"
  shows "\<exists>e. chunk_before (p\<lparr>p_mem := p_mem p ++ zero_region t n\<rparr>) t = Some e \<and>
    (\<forall>q. e = Some q \<longrightarrow> t = q + 64 \<and> bk (p_chain p) = Some (KE, 64) \<and> p_mem p (csize (p_chain p)) = Some (q - p_chain p) \<and> bk q = Some (KX, 64))"
proof -
  obtain ls where ls: "chain_at (p_mem p) bk (p_chain p) ls" using i by (auto simp: pinv_def)
  obtain T where T: "poolmem p bk T {}" using i by (auto simp: pinv_def)
  show ?thesis
  proof (cases ls)
    case Nil
    then show ?thesis using ls by (auto simp: chunk_before_def)
  next
    case (Cons x ls')
    obtain l e where x: "x = (l, e)" by (cases x)
    obtain s where s: "p_chain p = l" "bk l = Some (KE, 64)" "bk e = Some (KX, 64)" "p_mem p (csize l) = Some s" "l + s = e" using ls by (auto simp: Cons x)
    have "(p_mem p ++ zero_region t n) (csize l) = Some s" by (rule region_old) (use fresh s(4) in auto)
    moreover have "l \<noteq> 0" using tiles_shape [OF poolmem_tiles [OF T] s(2)] by (auto simp: bshape_def)
    ultimately show ?thesis using s by (auto simp: chunk_before_def B2LIMIT_def ld_def)
  qed
qed

lemma fresh_none: "\<lbrakk> poolmem p bk T X; p_mem p x = None \<rbrakk> \<Longrightarrow> bk x = None"
  using core_block [of "p_mem p" "p_root p" bk T X x] by (cases "bk x") (auto simp: poolmem_def block_at_def fld_def)

lemma held_none: "bk x = None \<Longrightarrow> held bk x = None" by (simp add: held_def)

lemma users_none: "bk b = None \<Longrightarrow> users bk (B2D b) = None" by (simp add: users_def B2D_def)

lemma new_chunk_grants:
  assumes i: "pinv p bk" and fresh: "\<And>a. \<lbrakk> t \<le> a; a < t + (ns + 128) \<rbrakk> \<Longrightarrow> p_mem p a = None" and t: "0 < t" "t mod 8 = 0"
    and n: "64 \<le> n" "n mod 64 = 0" "n \<le> ns" "ns mod 64 = 0" and a: "a + BHDRSIZE \<le> n"
  shows "\<exists>p'. new_chunk (p\<lparr>p_mem := p_mem p ++ zero_region t (ns + 128)\<rparr>) t ns n = Some (p', B2D (t + 64)) \<and> grants a p bk p' (B2D (t + 64))"
proof -
  obtain T ls where T: "poolmem p bk T {}" "coal bk" and ls: "chain_at (p_mem p) bk (p_chain p) ls" "distinct (map fst ls)" "distinct (map snd ls)"
    using i by (auto simp: pinv_def)
  let ?e = "t + 64 + ns"
  obtain p' T' bk' where p': "new_chunk (p\<lparr>p_mem := p_mem p ++ zero_region t (ns + 128)\<rparr>) t ns n = Some (p', B2D (t + 64))" "poolmem p' bk' T' {}" "coal bk'"
    "held bk' = (held bk)(t \<mapsto> (KE, 64), t + 64 \<mapsto> (KA, n), ?e \<mapsto> (KX, 64))" "kept (data bk) (p_mem p) (p_mem p')"
    "p_mem p' (clink t) = Some (p_chain p)" "p_mem p' (csize t) = Some (ns + 64)" "counts p' = counts (charged (p\<lparr>p_chain := t\<rparr>) n)"
    using new_chunk_ok [OF T fresh t n] by blast
  have none: "bk t = None" "bk (t + 64) = None" "bk ?e = None" using fresh by (auto intro!: fresh_none [OF T(1)])
  have old: "bk' x = Some (k, y)" if x: "bk x = Some (k, y)" "k = KE \<or> k = KX" for x k y
  proof -
    have "held bk' x = Some (k, y)" using x none by (auto simp: p'(4) held_eq)
    then show ?thesis by (simp add: held_eq)
  qed
  have new: "bk' t = Some (KE, 64)" "bk' ?e = Some (KX, 64)" using p'(4) n(1,3) held_eq [of bk' t] held_eq [of bk' ?e] by auto
  have "chain_at (p_mem p') bk' (p_chain p) ls"
    by (rule chain_frame [OF ls(1)]) (use p'(5) old leader_data [of bk] in \<open>auto simp: kept_def\<close>)
  then have "chain_at (p_mem p') bk' (p_chain p') ((t, ?e) # ls)" using new p'(6,7,8) by (auto simp: counts_def charged_def)
  moreover have "t \<notin> fst ` set ls" "?e \<notin> snd ` set ls" using chain_leader [OF ls(1)] none by force+
  then have "distinct (map fst ((t, ?e) # ls))" "distinct (map snd ((t, ?e) # ls))" using ls(2,3) by auto
  moreover have "used bk' = used bk + n"
  proof -
    have "used (held bk') = used ((held bk)(t + 64 \<mapsto> (KA, n)))" unfolding p'(4) by (rule used_cong) (use none n(1,3) in \<open>auto simp: held_none\<close>)
    then show ?thesis using used_take [OF held_finite [OF T(1)], of "t + 64" n] none(2) by (simp add: held_none)
  qed
  ultimately have "pinv p' bk'" using pinv_chunk [OF i] p'(8) by (intro pinvI [OF p'(2,3)]) (assumption | simp add: counts_def charged_def)+
  moreover have "users bk' = (users bk)(B2D (t + 64) \<mapsto> n - BHDRSIZE)"
  proof -
    have "users (held bk') = users ((held bk)(t + 64 \<mapsto> (KA, n)))"
      unfolding p'(4) users_def using none n(1,3) by (intro ext) (auto simp: held_none)
    then show ?thesis using users_take [of "held bk"] by simp
  qed
  moreover have "users bk (B2D (t + 64)) = None" using none(2) by (rule users_none)
  moreover have "kept (user_words (users bk)) (p_mem p) (p_mem p')" using p'(5) user_words_data [OF poolmem_tiles [OF T(1)]] by (auto simp: kept_def)
  moreover have "a \<le> n - BHDRSIZE" using a by simp
  ultimately have "grants a p bk p' (B2D (t + 64))" unfolding grants_def by (auto simp: B2D_def)
  then show ?thesis using p'(1) by blast
qed

lemma merge_chunk_grown:
  assumes i: "pinv p bk" and q: "bk q = Some (KX, 64)" and fresh: "\<And>a. \<lbrakk> q + 64 \<le> a; a < q + 64 + n \<rbrakk> \<Longrightarrow> p_mem p a = None" and n: "64 \<le> n" "n mod 64 = 0"
    and L: "bk (p_chain p) = Some (KE, 64)" "p_mem p (csize (p_chain p)) = Some (q - p_chain p)"
  shows "\<exists>p'. merge_chunk (p\<lparr>p_mem := p_mem p ++ zero_region (q + 64) n\<rparr>) q n = Some (Inr p') \<and> grown n p bk p'"
proof -
  obtain T ls where T: "poolmem p bk T {}" "coal bk" and ls: "chain_at (p_mem p) bk (p_chain p) ls" "distinct (map fst ls)" "distinct (map snd ls)"
    using i by (auto simp: pinv_def)
  let ?L = "p_chain p"
  note t = poolmem_tiles [OF T(1)]
  obtain p' T' bk' where p': "merge_chunk (p\<lparr>p_mem := p_mem p ++ zero_region (q + 64) n\<rparr>) q n = Some (Inr p')" "poolmem p' bk' T' {}" "coal bk'"
    "held bk' = (held bk)(q := None, q + n \<mapsto> (KX, 64))" "\<exists>a sa. bk' a = Some (KF, sa) \<and> n \<le> sa" "kept (data bk - {csize ?L}) (p_mem p) (p_mem p')"
    "p_mem p' (csize ?L) = Some (q - ?L + n)" "counts p' = counts (p\<lparr>p_nfree := p_nfree p + 1\<rparr>)"
    using merge_chunk_ok [OF T q fresh n L] by blast
  have none: "bk (q + n) = None" using fresh n by (auto intro!: fresh_none [OF T(1)])
  have "?L \<noteq> 0" using tiles_shape [OF t L(1)] by (auto simp: bshape_def)
  then obtain e ls' s c' where ls': "ls = (?L, e) # ls'" "p_mem p (csize ?L) = Some s" "?L + s = e" "p_mem p (clink ?L) = Some c'" "chain_at (p_mem p) bk c' ls'"
    using ls(1) by (cases ls) auto
  have "bk e = Some (KX, 64)" using ls(1) by (simp add: ls'(1))
  then have "e \<noteq> ?L" using L(1) by auto
  then have e: "e = q" "?L \<le> q" using ls'(2,3) L(2) by auto
  have old: "bk' x = Some (k, y)" if x: "bk x = Some (k, y)" "k = KE \<or> k = KX" "x \<noteq> q" for x k y
  proof -
    have "held bk' x = Some (k, y)" using x none by (auto simp: p'(4) held_eq)
    then show ?thesis by (simp add: held_eq)
  qed
  have ne: "fld l 2 \<noteq> csize ?L" if "bk l = Some (KE, 64)" for l using word_eq [OF t that L(1), of 2 3] by auto
  have ne': "csize l \<noteq> csize ?L" if "l \<noteq> ?L" for l using that by (simp add: fld_def)
  have "chain_at (p_mem p') bk' c' ls'"
  proof (rule chain_frame [OF ls'(5)])
    fix l e' assume l: "(l, e') \<in> set ls'" "bk l = Some (KE, 64)"
    then have "l \<noteq> ?L" "l \<noteq> q" using ls(2) q by (auto simp: ls'(1) rev_image_eqI)
    then show "bk' l = Some (KE, 64) \<and> p_mem p' (clink l) = p_mem p (clink l) \<and> p_mem p' (csize l) = p_mem p (csize l)"
      using old l(2) leader_data [of bk l] ne [OF l(2)] ne' p'(6) by (auto simp: kept_def)
  next
    fix l e' assume l: "(l, e') \<in> set ls'" "bk e' = Some (KX, 64)"
    then have "e' \<noteq> q" using ls(3) e(1) by (auto simp: ls'(1) rev_image_eqI)
    then show "bk' e' = Some (KX, 64)" using old l(2) by blast
  qed
  moreover have "p_mem p' (clink ?L) = Some c'" using p'(6) leader_data [of bk ?L] L(1) ne [OF L(1)] ls'(4) by (auto simp: kept_def)
  moreover have "bk' ?L = Some (KE, 64)" by (rule old [OF L(1)]) (use L(1) q in auto)
  moreover have new: "bk' (q + n) = Some (KX, 64)" using p'(4) held_eq [of bk' "q + n" KX 64] by simp
  ultimately have "chain_at (p_mem p') bk' ?L ((?L, q + n) # ls')" using p'(7) e(2) by auto
  moreover have "q + n \<notin> snd ` set ls'" using chain_leader [OF ls'(5)] none by force
  then have "distinct (map fst ((?L, q + n) # ls'))" "distinct (map snd ((?L, q + n) # ls'))" using ls(2,3) by (auto simp: ls'(1))
  moreover have "held bk' x = Some (KA, s) \<longleftrightarrow> held bk x = Some (KA, s)" for x s using q none by (auto simp: p'(4) held_eq)
  then have u: "used bk' = used bk" using used_cong [of "held bk'" "held bk"] by simp
  ultimately have "pinv p' bk'" using pinv_chunk [OF i] p'(8) by (intro pinvI [OF p'(2,3), where ls = "(?L, q + n) # ls'"]) (assumption | simp add: counts_def)+
  moreover have us: "users bk' = users bk"
  proof -
    have "users (held bk') = users (held bk)" unfolding p'(4) users_def using q none by (intro ext) (auto simp: held_none held_def)
    then show ?thesis by simp
  qed
  moreover have "kept (user_words (users bk)) (p_mem p) (p_mem p')" using p'(6) user_words_data [OF t] user_words_leader [OF t L(1)] by (auto simp: kept_def)
  ultimately have "grown n p bk p'" using p'(5,8) unfolding grown_def by (auto simp: counts_def)
  then show ?thesis using p'(1) by blast
qed

text \<open>The tried of one attempt.\<close>

definition tried :: "(pool \<Rightarrow> nat \<Rightarrow> nat option) \<Rightarrow> nat \<Rightarrow> nat \<Rightarrow> pool \<Rightarrow> bmap \<Rightarrow> pool \<Rightarrow> attempt \<Rightarrow> bool" where
  "tried brk a n p bk p' r = (case r of
     Done v \<Rightarrow> (if v = 0 then p_mem p' = p_mem p \<and> pinv p' bk \<and> no_memory brk n p else grants a p bk p' v)
   | Again \<Rightarrow> grown n p bk p')"

text \<open>Fields that the invariant does not read.\<close>

lemma pinv_cong: "\<lbrakk> p_mem p' = p_mem p; p_root p' = p_root p; p_chain p' = p_chain p; p_cursize p' = p_cursize p; p_chunk p' = p_chunk p \<rbrakk> \<Longrightarrow> pinv p' bk = pinv p bk"
  by (simp add: pinv_def poolmem_def)

lemma grants_cong: "p_mem p = p_mem q \<Longrightarrow> grants a p bk p' v = grants a q bk p' v"
  by (simp add: grants_def)

text \<open>The rounded address and the words that the pool gets.\<close>

lemma round8: "(t + 7) div 8 * 8 mod 8 = (0 :: nat)" "0 < t \<Longrightarrow> 0 < (t + 7) div 8 * (8 :: nat)" "t \<le> (t + 7) div 8 * (8 :: nat)"
  by presburger+

lemma region_round8:
  assumes "n mod 8 = 0"
  shows "zero_region ((t + 7) div 8 * 8) n = zero_region t n" "(t + n + 7) div 8 * 8 = (t + 7) div 8 * 8 + n"
proof -
  have "(t + 7) div 8 * 8 \<le> a \<longleftrightarrow> t \<le> a" "a < (t + 7) div 8 * 8 + n \<longleftrightarrow> a < t + n" if "a mod 8 = 0" for a using that assms by presburger+
  then show "zero_region ((t + 7) div 8 * 8) n = zero_region t n" by (intro ext) (auto simp: zero_region_def)
  show "(t + n + 7) div 8 * 8 = (t + 7) div 8 * 8 + n" using assms by presburger
qed

lemma alloc_grow_ok:
  assumes i: "pinv p bk" and b: "brk_ok brk (p_mem p)" and n: "64 \<le> n" "n mod 64 = 0" "a + BHDRSIZE \<le> n"
  shows "\<exists>p' r. alloc_grow brk p n = Some (Inr (p', r)) \<and> tried brk a n p bk p' r"
proof (cases "grow_size p n")
  case None
  then show ?thesis using i by (simp add: alloc_grow_def tried_def no_memory_def)
next
  case (Some x)
  obtain ns0 arena where x: "x = (ns0, arena)" by (cases x)
  obtain k where k: "ns0 = int k" "n \<le> k" "k mod 64 = 0" using grow_size_ok [of p n ns0 arena] Some pinv_chunk [OF i] n(1,2) by (auto simp: x)
  let ?p = "p\<lparr>p_arenasize := arena, p_nbrk := p_nbrk p + 1\<rparr>"
  have i': "pinv ?p bk" using i by (subst pinv_cong [of _ p]) simp_all
  have sz: "nat (ns0 + 2 * int LDR) = k + 128" using k(1) by simp
  show ?thesis
  proof (cases "brk ?p (k + 128)")
    case None
    moreover have "pinv (?p\<lparr>p_nbrk := p_nbrk p\<rparr>) bk" using i by (subst pinv_cong [of _ p]) simp_all
    moreover have "no_memory brk n p" using None k(2) unfolding no_memory_def by (intro disjI2 exI [of _ ?p] exI [of _ "k + 128"]) simp
    ultimately show ?thesis using Some sz by (simp add: alloc_grow_def x tried_def Let_def)
  next
    case t: (Some t0)
    define t where "t = (t0 + 7) div 8 * 8"
    have k8: "(k + 128) mod 8 = 0" using k(3) by presburger
    note bd = brk_okD [OF b _ t]
    have tt: "0 < t" "t mod 8 = 0" and fresh: "\<And>a. \<lbrakk> t \<le> a; a < t + (k + 128) \<rbrakk> \<Longrightarrow> p_mem p a = None"
      using bd round8 [of t0] region_round8(2) [OF k8, of t0] by (simp_all add: t_def)
    have z: "zero_region t0 (k + 128) = zero_region t (k + 128)" using region_round8(1) [OF k8, of t0] by (simp add: t_def)
    have fresh': "\<And>a. \<lbrakk> t \<le> a; a < t + (k + 128) \<rbrakk> \<Longrightarrow> p_mem ?p a = None" using fresh by simp
    let ?z = "?p\<lparr>p_mem := p_mem ?p ++ zero_region t (k + 128)\<rparr>"
    obtain e where e: "chunk_before ?z t = Some e"
      "\<And>q. e = Some q \<Longrightarrow> t = q + 64 \<and> bk (p_chain p) = Some (KE, 64) \<and> p_mem p (csize (p_chain p)) = Some (q - p_chain p) \<and> bk q = Some (KX, 64)"
      using chunk_before_ok [OF i', where t = t and n = "k + 128"] fresh by auto
    have step: "alloc_grow brk p n = (case e of
        Some q \<Rightarrow> do { r \<leftarrow> merge_chunk ?z q (k + 128); Some (map_sum id (\<lambda>p. (p, Again)) r) }
      | None \<Rightarrow> do { (p, v) \<leftarrow> new_chunk ?z t k n; Some (Inr (p, Done v)) })"
      using Some t e(1) sz k(1) z by (simp add: alloc_grow_def x Let_def t_def [symmetric] split: option.split)
    show ?thesis
    proof (cases e)
      case None
      obtain p' where p': "new_chunk ?z t k n = Some (p', B2D (t + 64))" "grants a ?p bk p' (B2D (t + 64))"
        using new_chunk_grants [OF i' fresh' tt n(1,2) k(2,3) n(3)] by blast
      then have "tried brk a n p bk p' (Done (B2D (t + 64)))" using grants_cong [of ?p p] by (simp add: tried_def grants_def)
      then show ?thesis using step p'(1) None by simp
    next
      case (Some q)
      note q = e(2) [OF this]
      have "\<exists>p'. merge_chunk (?p\<lparr>p_mem := p_mem ?p ++ zero_region (q + 64) (k + 128)\<rparr>) q (k + 128) = Some (Inr p') \<and> grown (k + 128) ?p bk p'"
        by (rule merge_chunk_grown [OF i']) (use q fresh k n in auto)
      then obtain p' where p': "merge_chunk ?z q (k + 128) = Some (Inr p')" "grown (k + 128) ?p bk p'" using q by auto
      then have "grown n p bk p'" using k(2) by (fastforce simp: grown_def)
      then show ?thesis using step p'(1) Some by (simp add: tried_def)
    qed
  qed
qed

text \<open>The search finds a block when there is one that is large enough.\<close>

lemma search_ok:
  assumes "pinv p bk"
  shows "\<exists>bs. set bs = frees bk \<and> distinct bs \<and> sorted (map (bsz bk) bs) \<and>
    (\<forall>n. find_loop (p_mem p) n 0 (p_root p) = Some (case find (\<lambda>b. n \<le> bsz bk b) bs of None \<Rightarrow> (False, 0) | Some b \<Rightarrow> (bsz bk b = n, b)))"
proof -
  obtain T where T: "poolmem p bk T {}" using assms by (auto simp: pinv_def)
  note cc = T [unfolded poolmem_def]
  have ft: "tree_at (p_mem p) 0 T" "p_root p = ptr T" "distinct (nodes T)" "rbst (bsz bk) T" and N: "set (nodes T) = frees bk" using cc by (auto simp: core_def free_tree_def)
  have "\<forall>x \<in> set (nodes T). p_mem p (bsize x) = Some (bsz bk x)" using core_sizes [OF cc] N by auto
  then have "find_loop (p_mem p) n 0 (ptr T) = Some (case find (\<lambda>b. n \<le> bsz bk b) (nodes T) of None \<Rightarrow> (False, 0) | Some b \<Rightarrow> (bsz bk b = n, b))" for n
    using find_loop_first [OF core_room [OF cc] ft(1) _ ft(4)] N frees_dom [of bk] by auto
  then show ?thesis using ft N rbst_sorted [OF ft(4)] by (intro exI [of _ "nodes T"]) simp
qed

text \<open>A request that the free blocks can serve, and one that they cannot.\<close>

lemma alloc_search:
  assumes i: "pinv p bk" and a: "a < 2 ^ 30"
  shows "(\<exists>p' v. alloc_once brk p a = Some (Inr (p', Done v)) \<and> grants a p bk p' v) \<or>
    (\<forall>x \<in> frees bk. bsz bk x < alloc_size a) \<and> alloc_once brk p a = alloc_grow brk (p\<lparr>p_nalloc := p_nalloc p + 1\<rparr>) (alloc_size a)"
proof -
  let ?n = "alloc_size a" and ?p = "p\<lparr>p_nalloc := p_nalloc p + 1\<rparr>"
  note sz = alloc_size_bounds [of a]
  have i': "pinv ?p bk" using i by (subst pinv_cong [of _ p]) simp_all
  obtain T where T: "poolmem ?p bk T {}" "coal bk" using i' by (auto simp: pinv_def)
  have N: "set (nodes T) = frees bk" using poolmem_nodes [OF T(1)] by simp
  obtain bs where bs: "set bs = frees bk" "find_loop (p_mem p) ?n 0 (p_root p) = Some (case find (\<lambda>b. ?n \<le> bsz bk b) bs of None \<Rightarrow> (False, 0) | Some b \<Rightarrow> (bsz bk b = ?n, b))"
    using search_ok [OF i] by blast
  obtain ex q where r: "find_loop (p_mem p) ?n 0 (p_root p) = Some (ex, q)" by (cases "case find (\<lambda>b. ?n \<le> bsz bk b) bs of None \<Rightarrow> (False, 0) | Some b \<Rightarrow> (bsz bk b = ?n, b)") (use bs in auto)
  have nz: "0 \<notin> frees bk" using tiles_shape [OF poolmem_tiles [OF T(1)]] by (auto simp: frees_def bshape_def)
  consider "ex" "q \<in> frees bk" "bsz bk q = ?n" | "\<not> ex" "q \<noteq> 0" "q \<in> frees bk" "?n < bsz bk q" | "\<not> ex" "q = 0" "\<forall>x \<in> frees bk. bsz bk x < ?n"
  proof (cases "find (\<lambda>b. ?n \<le> bsz bk b) bs")
    case None
    then have "\<not> ex" "q = 0" using bs(2) r by auto
    moreover have "\<forall>x \<in> frees bk. bsz bk x < ?n" using None bs(1) by (auto simp: find_None_iff not_le)
    ultimately show thesis by (rule that(3))
  next
    case (Some b)
    then have b: "b \<in> frees bk" "?n \<le> bsz bk b" using bs(1) by (auto simp: find_Some_iff)
    moreover have "q = b" "ex = (bsz bk b = ?n)" using Some bs(2) r by auto
    moreover have "b \<noteq> 0" using b(1) nz by metis
    ultimately show thesis using that(1,2) by (cases ex) auto
  qed
  then show ?thesis
  proof cases
    case 1
    then obtain p' v where g: "alloc_once brk p a = Some (Inr (p', Done v))" "gains ?n ?p bk p' v" using alloc_exact_ok [OF T, of q] N r a by (auto simp: alloc_once_def)
    then show ?thesis using gains_grants [OF i' g(2) sz(1)] grants_cong [of ?p p] by auto
  next
    case 2
    then obtain p' v where g: "alloc_once brk p a = Some (Inr (p', Done v))" "gains ?n ?p bk p' v" using alloc_split_ok [OF T, of q ?n] N sz r a by (auto simp: alloc_once_def)
    then show ?thesis using gains_grants [OF i' g(2) sz(1)] grants_cong [of ?p p] by auto
  next
    case 3
    then show ?thesis using r a by (simp add: alloc_once_def)
  qed
qed

lemma alloc_once_ok:
  assumes i: "pinv p bk" and b: "brk_ok brk (p_mem p)" and a: "a < 2 ^ 30"
  shows "\<exists>p' r. alloc_once brk p a = Some (Inr (p', r)) \<and> tried brk a (alloc_size a) p bk p' r \<and> (r = Done 0 \<longrightarrow> (\<forall>x \<in> frees bk. bsz bk x < alloc_size a))"
proof -
  let ?n = "alloc_size a" and ?p = "p\<lparr>p_nalloc := p_nalloc p + 1\<rparr>"
  note sz = alloc_size_bounds [of a]
  have i': "pinv ?p bk" using i by (subst pinv_cong [of _ p]) simp_all
  have "\<exists>p' r. alloc_grow brk ?p ?n = Some (Inr (p', r)) \<and> tried brk a ?n ?p bk p' r" by (rule alloc_grow_ok [OF i']) (use b sz in auto)
  moreover have "tried brk a ?n ?p bk p' r = tried brk a ?n p bk p' r" for p' r by (cases r) (simp_all add: tried_def grants_def grown_def no_memory_def)
  moreover have "tried brk a ?n p bk p' (Done v)" "v \<noteq> 0" if "grants a p bk p' v" for p' v using that by (simp_all add: tried_def grants_def)
  ultimately show ?thesis using alloc_search [OF i a, of brk] by (metis attempt.inject)
qed

lemma alloc_hit: "\<lbrakk> pinv p bk; a < 2 ^ 30; bk x = Some (KF, s); alloc_size a \<le> s \<rbrakk> \<Longrightarrow> \<exists>p' v. alloc_once brk p a = Some (Inr (p', Done v)) \<and> grants a p bk p' v"
  using alloc_search [of p bk a brk] by (fastforce simp: frees_def bsz_def)

text \<open>Two attempts are enough: the second finds the memory that the first has joined to the last chunk.\<close>

lemma poolalloc_ok:
  assumes i: "pinv p bk" and b: "brk_ok brk (p_mem p)"
  shows "\<exists>p' v. poolalloc (Suc (Suc k)) brk res p a = Some (Inr (p', v)) \<and>
    (if v = 0 then p_mem p' = p_mem p \<and> pinv p' bk \<and> (p_cursize p > p_ressize p \<and> res \<or> 2 ^ 30 \<le> a \<or> (\<forall>x \<in> frees bk. bsz bk x < alloc_size a) \<and> no_memory brk (alloc_size a) p)
     else grants a p bk p' v)"
proof (cases "p_cursize p > p_ressize p \<and> res \<or> a \<ge> 2 ^ 30")
  case True
  then show ?thesis using i by (auto simp: alloc_once_def)
next
  case False
  then obtain p1 r where r: "alloc_once brk p a = Some (Inr (p1, r))" "tried brk a (alloc_size a) p bk p1 r" "r = Done 0 \<longrightarrow> (\<forall>x \<in> frees bk. bsz bk x < alloc_size a)" using alloc_once_ok [OF i b, of a] by auto
  show ?thesis
  proof (cases r)
    case (Done v)
    then show ?thesis using r False by (auto simp: tried_def)
  next
    case Again
    then have g: "grown (alloc_size a) p bk p1" using r(2) by (simp add: tried_def)
    then obtain bk1 x s where bk1: "pinv p1 bk1" "users bk1 = users bk" "bk1 x = Some (KF, s)" "alloc_size a \<le> s" by (auto simp: grown_def)
    then obtain p' v where v: "alloc_once brk p1 a = Some (Inr (p', Done v))" "grants a p1 bk1 p' v" using alloc_hit [OF bk1(1) _ bk1(3,4), of brk] False by auto
    have "grants a p bk p' v" using v(2) g bk1(2) by (auto simp: grants_def grown_def kept_def)
    moreover have "poolalloc (Suc (Suc k)) brk res p a = Some (Inr (p', v))" using r(1) v(1) Again False g by (auto simp: grown_def)
    ultimately show ?thesis by (auto simp: grants_def)
  qed
qed

section \<open>Pools as their users see them\<close>

text \<open>\<open>A\<close> gives the addresses that are allocated, with the bytes that may be used there.\<close>

definition pool_inv :: "pool \<Rightarrow> (nat \<rightharpoonup> nat) \<Rightarrow> bool" where
  "pool_inv p A \<longleftrightarrow> (\<exists>bk. pinv p bk \<and> users bk = A)"

lemma user_at:
  assumes "pool_inv p A" "A v = Some n"
  obtains bk b s where "pinv p bk" "users bk = A" "v = B2D b" "bk b = Some (KA, s)" "n + BHDRSIZE = s" "bshape b KA s"
proof -
  obtain bk where bk: "pinv p bk" "users bk = A" using assms(1) by (auto simp: pool_inv_def)
  then obtain b s where b: "v = B2D b" "bk b = Some (KA, s)" "n = s - BHDRSIZE" using assms(2) users_eq [of bk v n] by auto
  moreover obtain T where "poolmem p bk T {}" using bk by (auto simp: pinv_def)
  then have "bshape b KA s" using poolmem_tiles tiles_shape b(2) by blast
  ultimately show thesis using that [OF bk b(1,2)] by (auto simp: bshape_def)
qed

lemma pool_disjoint:
  assumes "pool_inv p A" "A v = Some n" "A w = Some k" "v \<noteq> w"
  shows "v + n \<le> w \<or> w + k \<le> v"
proof -
  obtain bk b s where b: "pinv p bk" "users bk = A" "v = B2D b" "bk b = Some (KA, s)" "n + BHDRSIZE = s" using user_at [OF assms(1,2)] by metis
  obtain c s' where c: "w = B2D c" "bk c = Some (KA, s')" "k = s' - BHDRSIZE" using users_eq [of bk w k] assms(3) b(2) by auto
  obtain T where "poolmem p bk T {}" using b(1) by (auto simp: pinv_def)
  then have t: "tiles bk" by (rule poolmem_tiles)
  have "b \<noteq> c" using assms(4) b(3) c(1) by auto
  then show ?thesis using tiles_disj [OF t b(4) c(2)] b(3,5) c by (auto simp: B2D_def)
qed

lemma pool_shape:
  assumes "pool_inv p A" "A v = Some n"
  shows "16 < v \<and> v mod 8 = 0 \<and> 40 \<le> n \<and> n mod 8 = 0"
proof -
  obtain bk b s where b: "v = B2D b" "n + BHDRSIZE = s" "bshape b KA s" using user_at [OF assms] by metis
  then have "8 dvd b" "8 dvd s" "0 < b" "64 \<le> s" by (auto simp: bshape_def intro: dvd_trans [of 8 64])
  then have "8 dvd v" "8 dvd n" "16 < v" "40 \<le> n" using b(1,2) unfolding B2D_def by presburger+
  then show ?thesis by simp
qed

lemma pool_word:
  assumes "pool_inv p A" "a \<in> user_words A"
  shows "p_mem p a \<noteq> None"
proof -
  obtain bk where bk: "pinv p bk" "users bk = A" using assms(1) by (auto simp: pool_inv_def)
  then obtain T where T: "poolmem p bk T {}" by (auto simp: pinv_def)
  obtain b s i where b: "bk b = Some (KA, s)" "a = fld b i" "i + 1 < s div 8" using user_word [OF poolmem_tiles [OF T]] assms(2) bk(2) by blast
  then show ?thesis using core_block [OF T [unfolded poolmem_def] b(1)] by (auto simp: block_at_def)
qed

lemma pool_write: "pool_inv p A \<Longrightarrow> a \<in> user_words A \<Longrightarrow> pool_inv (p\<lparr>p_mem := (p_mem p)(a \<mapsto> x)\<rparr>) A"
  unfolding pool_inv_def using pinv_write by blast

lemma pool_alloc:
  assumes "pool_inv p A" "brk_ok brk (p_mem p)"
  shows "\<exists>p' v. poolalloc (Suc (Suc k)) brk res p n = Some (Inr (p', v)) \<and> kept (user_words A) (p_mem p) (p_mem p') \<and>
    (if v = 0 then pool_inv p' A else A v = None \<and> (\<exists>m. n \<le> m \<and> pool_inv p' (A(v \<mapsto> m))))"
proof -
  obtain bk where bk: "pinv p bk" "users bk = A" using assms(1) by (auto simp: pool_inv_def)
  obtain p' v where r: "poolalloc (Suc (Suc k)) brk res p n = Some (Inr (p', v))" "if v = 0 then p_mem p' = p_mem p \<and> pinv p' bk else grants n p bk p' v"
    using poolalloc_ok [OF bk(1) assms(2), of k res n] by (auto split: if_splits)
  then have "kept (user_words A) (p_mem p) (p_mem p') \<and> (if v = 0 then pool_inv p' A else A v = None \<and> (\<exists>m. n \<le> m \<and> pool_inv p' (A(v \<mapsto> m))))"
    using bk(2) by (cases "v = 0") (auto simp: pool_inv_def grants_def)
  then show ?thesis using r(1) by blast
qed

lemma pool_free:
  assumes "pool_inv p A" "A v = Some n"
  shows "\<exists>p'. poolfree p v = Some (Inr p') \<and> pool_inv p' (A(v := None)) \<and> kept (user_words (A(v := None))) (p_mem p) (p_mem p') \<and>
    p_cursize p' = p_cursize p - of_nat (n + BHDRSIZE) \<and> poolfree p' v = Some (Inl Poolfault)"
proof -
  obtain bk b s where b: "pinv p bk" "users bk = A" "v = B2D b" "bk b = Some (KA, s)" "n + BHDRSIZE = s" using user_at [OF assms] by metis
  obtain p' bk' where p': "poolfree p v = Some (Inr p')" "pinv p' bk'" "users bk' = A(v := None)" "kept (user_words (A(v := None))) (p_mem p) (p_mem p')"
    "poolfree p' v = Some (Inl Poolfault)" "counts p' = counts (p\<lparr>p_nfree := p_nfree p + 1, p_cursize := p_cursize p - of_nat s\<rparr>)"
    using pinv_free [OF b(1,4)] unfolding b(2,3) by blast
  moreover have "p_cursize p' = p_cursize p - of_nat (n + BHDRSIZE)" using p'(6) b(5) by (simp add: counts_def)
  ultimately show ?thesis unfolding pool_inv_def by blast
qed

lemma pool_msize:
  assumes "pool_inv p A" "A v = Some n"
  shows "poolmsize p v = Some (Inr n)" "D2B p v = Some (Inr (v - 16)) \<and> p_mem p (bsize (v - 16)) = Some (n + BHDRSIZE)"
proof -
  obtain bk b s where b: "pinv p bk" "v = B2D b" "bk b = Some (KA, s)" "n + BHDRSIZE = s" using user_at [OF assms] by metis
  obtain T where T: "poolmem p bk T {}" using b(1) by (auto simp: pinv_def)
  have "p_mem p (magic b) = Some MAGIC_A" "p_mem p (bsize b) = Some s" using core_fields [OF T [unfolded poolmem_def] b(3)] by auto
  then show "D2B p v = Some (Inr (v - 16)) \<and> p_mem p (bsize (v - 16)) = Some (n + BHDRSIZE)" using b(2,4) by (simp add: D2B_def B2D_def ld_def)
  then show "poolmsize p v = Some (Inr n)" using pool_shape [OF assms] by (simp add: poolmsize_def ld_def)
qed

section \<open>The contract of an allocator\<close>

text \<open>What the clients of an allocator rely on: \<open>alloc\<close> gives memory that nobody has, \<open>free\<close> takes a block back, and both leave the
  contents of the other blocks alone.\<close>

locale allocator =
  fixes inv :: "'s \<Rightarrow> (nat \<rightharpoonup> nat) \<Rightarrow> bool" and words :: "'s \<Rightarrow> mem" and ready :: "'s \<Rightarrow> bool"
    and alloc :: "'s \<Rightarrow> nat \<Rightarrow> ('s \<times> nat) presult" and free :: "'s \<Rightarrow> nat \<Rightarrow> 's presult"
  assumes disjoint: "\<lbrakk> inv s A; A v = Some n; A w = Some k; v \<noteq> w \<rbrakk> \<Longrightarrow> v + n \<le> w \<or> w + k \<le> v"
    and alloc_law: "\<lbrakk> inv s A; ready s \<rbrakk> \<Longrightarrow> \<exists>s' v. alloc s n = Some (Inr (s', v)) \<and> kept (user_words A) (words s) (words s') \<and>
      (if v = 0 then inv s' A else A v = None \<and> (\<exists>m. n \<le> m \<and> inv s' (A(v \<mapsto> m))))"
    and free_law: "\<lbrakk> inv s A; A v = Some n \<rbrakk> \<Longrightarrow> \<exists>s'. free s v = Some (Inr s') \<and> inv s' (A(v := None)) \<and> kept (user_words (A(v := None))) (words s) (words s')"
begin

text \<open>A new block lies apart from the old ones.\<close>

lemma apart:
  assumes "inv s A" "ready s" "alloc s n = Some (Inr (s', w))" "w \<noteq> 0"
  shows "A w = None \<and> kept (user_words A) (words s) (words s') \<and> (\<exists>m. n \<le> m \<and> inv s' (A(w \<mapsto> m)) \<and> (\<forall>v k. A v = Some k \<longrightarrow> v + k \<le> w \<or> w + m \<le> v))"
proof -
  obtain m where m: "A w = None" "kept (user_words A) (words s) (words s')" "n \<le> m" "inv s' (A(w \<mapsto> m))" using alloc_law [OF assms(1,2), of n] assms(3,4) by auto
  have "v + k \<le> w \<or> w + m \<le> v" if v: "A v = Some k" for v k
  proof -
    have "v \<noteq> w" using v m(1) by auto
    then show ?thesis using disjoint [OF m(4), of v k w m] v by simp
  qed
  then show ?thesis using m by blast
qed

text \<open>A client that has written only to the block \<open>w\<close> may free \<open>v\<close>: what it has written stays, and so do the blocks of the others.\<close>

lemma release:
  assumes "inv s A" "A v = Some n" "inv s' (A(w \<mapsto> m))" "v \<noteq> w" "kept (user_words A) (words s) (words s')"
  shows "\<exists>s''. free s' v = Some (Inr s'') \<and> inv s'' (A(v := None, w \<mapsto> m)) \<and> kept (user_words (A(v := None, w \<mapsto> m))) (words s') (words s'') \<and>
    kept (user_words (A(v := None, w := None))) (words s) (words s'')"
proof -
  have e: "(A(w \<mapsto> m))(v := None) = A(v := None, w \<mapsto> m)" using assms(4) by (auto simp: fun_eq_iff)
  obtain s'' where s: "free s' v = Some (Inr s'')" "inv s'' (A(v := None, w \<mapsto> m))" "kept (user_words (A(v := None, w \<mapsto> m))) (words s') (words s'')"
    using free_law [OF assms(3), of v n] assms(2,4) unfolding e by auto
  have "user_words (A(v := None, w := None)) \<subseteq> user_words A" "user_words (A(v := None, w := None)) \<subseteq> user_words (A(v := None, w \<mapsto> m))"
    by (auto simp: user_words_def split: if_splits)
  then have "kept (user_words (A(v := None, w := None))) (words s) (words s'')"
    using kept_trans [OF kept_mono [OF assms(5)] s(3)] by blast
  then show ?thesis using s by blast
qed

end

interpretation pa: allocator pool_inv p_mem "\<lambda>p. brk_ok brk (p_mem p)" "poolalloc (Suc (Suc k)) brk res" poolfree for brk k res
proof unfold_locales
  show "v + n \<le> w \<or> w + k \<le> v" if "pool_inv p A" "A v = Some n" "A w = Some k" "v \<noteq> w" for p A v n w k using pool_disjoint [OF that] .
  show "\<exists>p' v. poolalloc (Suc (Suc k)) brk res p n = Some (Inr (p', v)) \<and> kept (user_words A) (p_mem p) (p_mem p') \<and>
      (if v = 0 then pool_inv p' A else A v = None \<and> (\<exists>m. n \<le> m \<and> pool_inv p' (A(v \<mapsto> m))))"
    if "pool_inv p A" "brk_ok brk (p_mem p)" for p A n using pool_alloc [OF that] .
  show "\<exists>p'. poolfree p v = Some (Inr p') \<and> pool_inv p' (A(v := None)) \<and> kept (user_words (A(v := None))) (p_mem p) (p_mem p')"
    if "pool_inv p A" "A v = Some n" for p A v n using pool_free [OF that] by blast
qed

section \<open>Resizing\<close>

lemma user_wordI: "\<lbrakk> pool_inv p A; A v = Some n; 8 * i + 8 \<le> n \<rbrakk> \<Longrightarrow> v + 8 * i \<in> user_words A"
  using pool_shape [of p A v n] unfolding user_words_def by fastforce

lemma copy_words_ok:
  "\<lbrakk> pool_inv p A; A v = Some n; A w = Some m; v \<noteq> w; 8 * (j + k) \<le> n; 8 * (j + k) \<le> m \<rbrakk> \<Longrightarrow>
    \<exists>M. copy_words (p_mem p) (w + 8 * j) (v + 8 * j) k = Some M \<and> pool_inv (p\<lparr>p_mem := M\<rparr>) A \<and>
      (\<forall>i. j \<le> i \<and> i < j + k \<longrightarrow> M (w + 8 * i) = p_mem p (v + 8 * i)) \<and> (\<forall>a. (\<forall>i. j \<le> i \<and> i < j + k \<longrightarrow> a \<noteq> w + 8 * i) \<longrightarrow> M a = p_mem p a)"
proof (induction k arbitrary: j p)
  case 0
  have "p\<lparr>p_mem := p_mem p\<rparr> = p" by simp
  then show ?case using 0(1) by auto
next
  case (Suc k)
  have in_v: "v + 8 * j \<in> user_words A" and in_w: "w + 8 * j \<in> user_words A" using Suc.prems user_wordI [of p A] by auto
  obtain x where x: "p_mem p (v + 8 * j) = Some x" using pool_word [OF Suc.prems(1) in_v] by auto
  have w: "p_mem p (w + 8 * j) \<noteq> None" by (rule pool_word [OF Suc.prems(1) in_w])
  let ?p = "p\<lparr>p_mem := (p_mem p)(w + 8 * j \<mapsto> x)\<rparr>"
  obtain M where M: "copy_words (p_mem ?p) (w + 8 * Suc j) (v + 8 * Suc j) k = Some M" "pool_inv (?p\<lparr>p_mem := M\<rparr>) A"
    "\<forall>i. Suc j \<le> i \<and> i < Suc j + k \<longrightarrow> M (w + 8 * i) = p_mem ?p (v + 8 * i)" "\<forall>a. (\<forall>i. Suc j \<le> i \<and> i < Suc j + k \<longrightarrow> a \<noteq> w + 8 * i) \<longrightarrow> M a = p_mem ?p a"
    using Suc.IH [OF pool_write [OF Suc.prems(1) in_w, of x] Suc.prems(2,3,4), of "Suc j"] Suc.prems(5,6) by (auto simp del: fun_upd_apply)
  have "v + n \<le> w \<or> w + m \<le> v" by (rule pool_disjoint [OF Suc.prems(1-4)])
  then have ne: "v + 8 * i \<noteq> w + 8 * j" if "i < j + Suc k" for i using that Suc.prems(5,6) by auto
  show ?case
  proof (intro exI conjI allI impI)
    show "copy_words (p_mem p) (w + 8 * j) (v + 8 * j) (Suc k) = Some M" using M(1) x w by (simp add: ld_def st_def add.commute add.left_commute)
    show "pool_inv (p\<lparr>p_mem := M\<rparr>) A" using M(2) by simp
    show "M (w + 8 * i) = p_mem p (v + 8 * i)" if i: "j \<le> i \<and> i < j + Suc k" for i
    proof (cases "i = j")
      case True
      then show ?thesis using M(4) x by simp
    next
      case False
      then show ?thesis using M(3) i ne [of i] by simp
    qed
    show "M a = p_mem p a" if a: "\<forall>i. j \<le> i \<and> i < j + Suc k \<longrightarrow> a \<noteq> w + 8 * i" for a
    proof -
      have "a \<noteq> w + 8 * j" using a by simp
      then show ?thesis using M(4) a by simp
    qed
  qed
qed

lemma kept_words_out:
  assumes "\<And>a. (\<And>i. i < k \<Longrightarrow> a \<noteq> w + 8 * i) \<Longrightarrow> M a = m a" "8 * k \<le> n" "\<And>v s. A v = Some s \<Longrightarrow> v + s \<le> w \<or> w + n \<le> v"
  shows "kept (user_words A) m M"
  unfolding kept_def
proof
  fix a assume "a \<in> user_words A"
  then obtain v s where v: "A v = Some s" "v \<le> a" "a + 8 \<le> v + s" by (auto simp: user_words_def)
  then have "a + 8 \<le> w \<or> w + n \<le> a" using assms(3) [OF v(1)] by linarith
  then show "M a = m a" using assms(2) by (intro assms(1)) auto
qed

lemma poolrealloc_moves:
  assumes i: "pool_inv p A" and v: "A v = Some n" and b: "brk_ok brk (p_mem p)" and s: "n < s" "s < 2 ^ 30"
  shows "\<exists>p' w. poolrealloc (Suc (Suc k)) brk res p v s = Some (Inr (p', w)) \<and>
    (if w = 0 then pool_inv p' A \<and> kept (user_words A) (p_mem p) (p_mem p')
     else A w = None \<and> (\<exists>m. s \<le> m \<and> pool_inv p' (A(v := None, w \<mapsto> m))) \<and> (\<forall>i. 8 * i + 8 \<le> n \<longrightarrow> p_mem p' (w + 8 * i) = p_mem p (v + 8 * i)) \<and>
       kept (user_words (A(v := None))) (p_mem p) (p_mem p'))"
proof -
  have sh: "v \<noteq> 0" "s \<noteq> 0" "n mod 8 = 0" using pool_shape [OF i v] s by auto
  note d = pool_msize(2) [OF i v]
  obtain p1 w where a: "poolalloc (Suc (Suc k)) brk res p s = Some (Inr (p1, w))" "kept (user_words A) (p_mem p) (p_mem p1)" "w = 0 \<Longrightarrow> pool_inv p1 A"
    using pa.alloc_law [OF i b, of k res s] by auto
  show ?thesis
  proof (cases "w = 0")
    case True
    then have "poolrealloc (Suc (Suc k)) brk res p v s = Some (Inr (p1, 0))" using sh s d a(1) by (auto simp: poolrealloc_def ld_def)
    then show ?thesis using a True by auto
  next
    case False
    obtain m where m: "A w = None" "s \<le> m" "pool_inv p1 (A(w \<mapsto> m))" "\<And>v k. A v = Some k \<Longrightarrow> v + k \<le> w \<or> w + m \<le> v"
      using pa.apart [OF i b a(1) False] by blast
    have vw: "v \<noteq> w" using v m(1) by auto
    have A': "(A(w \<mapsto> m)) v = Some n" "(A(w \<mapsto> m)) w = Some m" using v vw by auto
    obtain M where M: "copy_words (p_mem p1) w v (n div 8) = Some M" "pool_inv (p1\<lparr>p_mem := M\<rparr>) (A(w \<mapsto> m))"
      "\<And>i. i < n div 8 \<Longrightarrow> M (w + 8 * i) = p_mem p1 (v + 8 * i)" "\<And>a. (\<And>i. i < n div 8 \<Longrightarrow> a \<noteq> w + 8 * i) \<Longrightarrow> M a = p_mem p1 a"
    proof -
      have "8 * (0 + n div 8) \<le> n" "8 * (0 + n div 8) \<le> m" using s m(2) by auto
      then show thesis using copy_words_ok [OF m(3) A' vw, of 0 "n div 8"] that by (auto simp del: fun_upd_apply)
    qed
    have "kept (user_words A) (p_mem p1) M" by (rule kept_words_out [OF M(4) _ m(4)]) (use s m(2) in auto)
    then have kM: "kept (user_words A) (p_mem p) (p_mem (p1\<lparr>p_mem := M\<rparr>))" using a(2) by (auto simp: kept_def)
    obtain p' where p': "poolfree (p1\<lparr>p_mem := M\<rparr>) v = Some (Inr p')" "pool_inv p' (A(v := None, w \<mapsto> m))"
      "kept (user_words (A(v := None, w \<mapsto> m))) M (p_mem p')" "kept (user_words (A(v := None, w := None))) (p_mem p) (p_mem p')"
      using pa.release [OF i v M(2) vw kM] by auto
    have "poolrealloc (Suc (Suc k)) brk res p v s = Some (Inr (p', w))" using sh s d a(1) M(1) p'(1) False by (auto simp: poolrealloc_def ld_def)
    moreover have "p_mem p' (w + 8 * i) = p_mem p (v + 8 * i)" if "8 * i + 8 \<le> n" for i
    proof -
      have "w + 8 * i \<in> user_words (A(v := None, w \<mapsto> m))" by (rule user_wordI [OF p'(2), of w m]) (use that s m(2) in auto)
      moreover have "v + 8 * i \<in> user_words A" by (rule user_wordI [OF i v that])
      ultimately show ?thesis using p'(3) M(3) [of i] a(2) that by (auto simp: kept_def)
    qed
    moreover have "A(v := None, w := None) = A(v := None)" using m(1) by (auto simp: fun_eq_iff)
    ultimately show ?thesis using p'(2,4) m(1,2) False by (intro exI [of _ p'] exI [of _ w]) auto
  qed
qed

section \<open>Sizes\<close>

lemma used_users: "used bk = (\<Sum>v \<in> dom (users bk). the (users bk v) + BHDRSIZE)" if t: "tiles bk" for bk
proof -
  let ?S = "{b. \<exists>s. bk b = Some (KA, s)}"
  have d: "dom (users bk) = B2D ` ?S" using users_eq [of bk] by (auto simp: dom_def)
  have "bsz bk b = the (users bk (B2D b)) + BHDRSIZE" if b: "b \<in> ?S" for b
  proof -
    obtain s where s: "bk b = Some (KA, s)" using b by auto
    then show ?thesis using users_eq [of bk "B2D b" "s - BHDRSIZE"] tiles_shape [OF t s] by (auto simp: bsz_def bshape_def)
  qed
  then have "used bk = (\<Sum>b \<in> ?S. the (users bk (B2D b)) + BHDRSIZE)" unfolding used_def by (rule sum.cong [OF refl])
  also have "\<dots> = (\<Sum>v \<in> B2D ` ?S. the (users bk v) + BHDRSIZE)" by (rule sum.reindex_cong [symmetric, of B2D]) (auto simp: inj_on_def B2D_def)
  finally show ?thesis by (simp add: d)
qed

lemma pool_cursize: "pool_inv p A \<Longrightarrow> finite (dom A) \<and> p_cursize p = of_nat (\<Sum>v \<in> dom A. the (A v) + BHDRSIZE)"
proof -
  assume "pool_inv p A"
  then obtain bk where bk: "pinv p bk" "users bk = A" by (auto simp: pool_inv_def)
  then obtain T where T: "poolmem p bk T {}" by (auto simp: pinv_def)
  have "dom (users bk) \<subseteq> B2D ` dom bk" using users_eq [of bk] by (auto simp: dom_def)
  then have "finite (dom A)" using finite_surj [OF tiles_finite [OF poolmem_tiles [OF T]]] bk(2) by blast
  then show ?thesis using pinv_chunk [OF bk(1)] used_users [OF poolmem_tiles [OF T]] bk(2) by simp
qed

lemma max_loop_ok:
  assumes B: "space m B"
  shows "\<lbrakk> tree_at m p t; t \<noteq> Leaf; set (nodes t) \<subseteq> B; rbst f t \<rbrakk> \<Longrightarrow> \<exists>x \<in> set (nodes t). max_loop m (ptr t) = Some x \<and> (\<forall>y \<in> set (nodes t). f y \<le> f x)"
proof (induction t arbitrary: p)
  case (Node l R r)
  have hR: "hd R \<in> set R" using Node.prems(1) node_at_ne by auto
  have n: "m (bhr (hd R)) = Some (ptr r)" using Node.prems(1) by (auto simp: node_at_def)
  have same: "\<And>x. x \<in> set R \<Longrightarrow> f x \<le> f (hd R)" using Node.prems(4) sameD by fastforce
  show ?case
  proof (cases "r = Leaf")
    case True
    then have "max_loop m (hd R) = Some (hd R)" using n by (subst max_loop.simps) (simp add: ld_def)
    then show ?thesis using hR same Node.prems(4) True by (intro bexI [of _ "hd R"]) (auto simp: less_imp_le)
  next
    case False
    then obtain x where x: "x \<in> set (nodes r)" "max_loop m (ptr r) = Some x" "\<forall>y \<in> set (nodes r). f y \<le> f x" using Node.IH(2) [of "hd R"] Node.prems by auto
    have "ptr r \<noteq> 0"
    proof (cases r)
      case (Node rl rR rr)
      then have "hd rR \<in> set rR" using Node.prems(1) node_at_ne by auto
      then have "ptr r \<in> B" using Node.prems(3) Node by auto
      then show ?thesis by (rule room_nz [OF B])
    qed (use False in simp)
    then have "max_loop m (hd R) = Some x" using n x(2) by (subst max_loop.simps) (simp add: ld_def)
    moreover have "f (hd R) < f x" "\<forall>y \<in> set (nodes l). f y < f (hd R)" using Node.prems(4) x(1) by auto
    ultimately show ?thesis using x same by (intro bexI [of _ x]) (auto dest: order.strict_trans dest!: same)
  qed
qed simp

text \<open>The size of the largest free block.\<close>

definition largest :: "bmap \<Rightarrow> nat" where
  "largest bk = Max (insert 0 (bsz bk ` frees bk))"

lemma largest_less: "finite (frees bk) \<Longrightarrow> 0 < n \<Longrightarrow> largest bk < n \<longleftrightarrow> (\<forall>x \<in> frees bk. bsz bk x < n)"
  by (auto simp: largest_def)

text \<open>When a request gets nil.\<close>

lemma poolalloc_nil:
  assumes i: "pinv p bk" and b: "brk_ok brk (p_mem p)" and r: "poolalloc (Suc (Suc k)) brk res p a = Some (Inr (p', v))" "v = 0"
  shows "p_cursize p > p_ressize p \<and> res \<or> 2 ^ 30 \<le> a \<or> no_memory brk (alloc_size a) p \<and> largest bk < alloc_size a"
proof -
  obtain T where "poolmem p bk T {}" using i by (auto simp: pinv_def)
  then have "finite (frees bk)" by (rule finite_subset [OF frees_dom tiles_finite [OF poolmem_tiles]])
  moreover have "0 < alloc_size a" using alloc_size_bounds(3) [of a] by linarith
  ultimately show ?thesis using poolalloc_ok [OF i b, of k res a] r largest_less [of bk "alloc_size a"] by (auto simp: grants_def)
qed

lemma poolmax_ok:
  assumes i: "pinv p bk"
  shows "poolmax p = Some (let s = max (p_maxsize p - p_cursize p) (of_nat (largest bk)) in if s \<ge> of_nat BHDRSIZE then s - of_nat BHDRSIZE else s)"
proof -
  obtain T where T: "poolmem p bk T {}" using i by (auto simp: pinv_def)
  note cc = T [unfolded poolmem_def]
  have ft: "free_tree (p_mem p) (p_root p) T" "rbst (bsz bk) T" and N: "set (nodes T) = frees bk" using cc by (auto simp: core_def)
  show ?thesis
  proof (cases "T = Leaf")
    case True
    then have "p_root p = 0" "largest bk = 0" using ft N by (auto simp: free_tree_def largest_def)
    then show ?thesis by (simp add: poolmax_def Let_def max_def)
  next
    case False
    obtain x where x: "x \<in> frees bk" "max_loop (p_mem p) (p_root p) = Some x" "\<forall>y \<in> frees bk. bsz bk y \<le> bsz bk x"
      using max_loop_ok [OF core_room [OF cc], of 0 T "bsz bk"] ft N False frees_dom [of bk] by (auto simp: free_tree_def)
    have "p_root p \<noteq> 0"
    proof
      assume "p_root p = 0"
      obtain l R r where "T = Node l R r" using False by (cases T) auto
      with \<open>p_root p = 0\<close> have "hd R \<in> frees bk" "hd R = 0" using ft N node_at_ne by (fastforce simp: free_tree_def)+
      then show False using tiles_shape [OF poolmem_tiles [OF T]] by (auto simp: frees_def bshape_def)
    qed
    moreover have "finite (frees bk)" by (rule finite_subset [OF frees_dom tiles_finite [OF poolmem_tiles [OF T]]])
    then have "largest bk = bsz bk x" using x(1,3) unfolding largest_def by (intro Max_eqI) auto
    moreover have "p_mem p (bsize x) = Some (bsz bk x)" using core_sizes [OF cc, of x] x(1) by simp
    moreover have "(if s < s' then s' else s) = max s s'" for s s' :: u64 by (cases "s < s'") (simp_all add: max_absorb1 max_absorb2)
    ultimately show ?thesis using x(2) by (simp add: poolmax_def ld_def Let_def)
  qed
qed

section \<open>The pools of the table\<close>

lemma pool0_inv: "\<lbrakk> 0 < c; c mod 64 = 0; c < 2 ^ 30 \<rbrakk> \<Longrightarrow> pool_inv (pool0 mx rs c) Map.empty"
proof -
  assume c: "0 < c" "c mod 64 = 0" "c < 2 ^ 30"
  have "poolmem (pool0 mx rs c) Map.empty Leaf {}" by (simp add: poolmem_def pool0_def core_def tiles_def free_tree_def frees_def)
  then have "pinv (pool0 mx rs c) Map.empty"
    by (rule pinvI [where ls = "[]"]) (use c in \<open>auto simp: coal_def pool0_def used_def\<close>)
  then show ?thesis unfolding pool_inv_def by (intro exI [of _ Map.empty]) (auto simp: users_def fun_eq_iff)
qed

lemma table_inv: "pool_inv mainmem Map.empty" "pool_inv heapmem Map.empty" "pool_inv imagmem Map.empty"
  unfolding mainmem_def heapmem_def imagmem_def by (rule pool0_inv; simp)+

section \<open>The pool in use\<close>

text \<open>The operations of the users of a pool, with what they return; \<open>A\<close> is the account of what is allocated.\<close>

datatype pop = Palloc nat nat | Pfree nat | Pwrite nat nat | Prealloc nat nat nat

inductive pool_step :: "pool \<times> (nat \<rightharpoonup> nat) \<Rightarrow> pop \<Rightarrow> pool \<times> (nat \<rightharpoonup> nat) \<Rightarrow> bool" where
  alloc: "\<lbrakk> brk_ok brk (p_mem p); poolalloc 2 brk res p n = Some (Inr (p', v)); v \<noteq> 0; poolmsize p' v = Some (Inr m) \<rbrakk> \<Longrightarrow> pool_step (p, A) (Palloc n v) (p', A(v \<mapsto> m))"
| refuse: "\<lbrakk> brk_ok brk (p_mem p); poolalloc 2 brk res p n = Some (Inr (p', 0)) \<rbrakk> \<Longrightarrow> pool_step (p, A) (Palloc n 0) (p', A)"
| free: "\<lbrakk> A v \<noteq> None; poolfree p v = Some (Inr p') \<rbrakk> \<Longrightarrow> pool_step (p, A) (Pfree v) (p', A(v := None))"
| store: "a \<in> user_words A \<Longrightarrow> pool_step (p, A) (Pwrite a x) (p\<lparr>p_mem := (p_mem p)(a \<mapsto> x)\<rparr>, A)"
| move: "\<lbrakk> A v = Some k; k < n; n < 2 ^ 30; brk_ok brk (p_mem p); poolrealloc 2 brk res p v n = Some (Inr (p', w)); w \<noteq> 0; poolmsize p' w = Some (Inr m) \<rbrakk> \<Longrightarrow>
    pool_step (p, A) (Prealloc v n w) (p', A(v := None, w \<mapsto> m))"

inductive pool_run :: "pool \<times> (nat \<rightharpoonup> nat) \<Rightarrow> pop list \<Rightarrow> pool \<times> (nat \<rightharpoonup> nat) \<Rightarrow> bool" where
  stop: "pool_run s [] s"
| more: "\<lbrakk> pool_step s l s'; pool_run s' ls s'' \<rbrakk> \<Longrightarrow> pool_run s (l # ls) s''"

inductive_cases pool_stepE: "pool_step (p, A) l (p', A')"
inductive_cases pool_runE: "pool_run s (l # ls) s'"

lemmas pool_step_cases = pool_stepE [consumes 1, case_names alloc refuse free store move]

text \<open>The operation \<open>l\<close> leaves the block of \<open>n\<close> bytes at \<open>v\<close> alone.\<close>

fun spares :: "nat \<Rightarrow> nat \<Rightarrow> pop \<Rightarrow> bool" where
  "spares v n (Palloc _ _) \<longleftrightarrow> True"
| "spares v n (Pfree u) \<longleftrightarrow> u \<noteq> v"
| "spares v n (Pwrite a x) \<longleftrightarrow> a + 8 \<le> v \<or> v + n \<le> a"
| "spares v n (Prealloc u _ _) \<longleftrightarrow> u \<noteq> v"

lemma two: "2 = Suc (Suc 0)" by simp

lemma kept_block: "kept (user_words A) m m' \<Longrightarrow> A v = Some n \<Longrightarrow> kept (user_words [v \<mapsto> n]) m m'"
  by (erule kept_mono) (auto simp: user_words_def split: if_splits)

lemma step_ok:
  assumes s: "pool_step (p, A) l (p', A')" and i: "pool_inv p A"
  shows "pool_inv p' A' \<and> (\<forall>v n. A v = Some n \<longrightarrow> spares v n l \<longrightarrow> A' v = Some n \<and> kept (user_words [v \<mapsto> n]) (p_mem p) (p_mem p'))"
  using s
proof (cases rule: pool_step_cases)
  case (alloc brk res n w m)
  obtain k where k: "A w = None" "kept (user_words A) (p_mem p) (p_mem p')" "pool_inv p' (A(w \<mapsto> k))"
    using pool_alloc [OF i alloc(3), of 0 res n] alloc(4,5) by (auto simp: two)
  then have "m = k" using pool_msize(1) [OF k(3), of w k] alloc(6) by simp
  then show ?thesis using k alloc(2) kept_block [OF k(2)] by auto
next
  case (refuse brk res n)
  then show ?thesis using pool_alloc [OF i refuse(3), of 0 res n] kept_block [of A "p_mem p" "p_mem p'"] by (auto simp: two)
next
  case (free v n)
  have "pool_inv p' A'" "kept (user_words A') (p_mem p) (p_mem p')" using pool_free [OF i free(4)] free(2,3) by auto
  then show ?thesis using free(1,2) kept_block [of A' "p_mem p" "p_mem p'"] by auto
next
  case (store a x)
  have "kept (user_words [v \<mapsto> n]) (p_mem p) (p_mem p')" if "a + 8 \<le> v \<or> v + n \<le> a" for v n
    using that store(3) by (auto simp: kept_def user_words_def split: if_splits)
  then show ?thesis using store pool_write [OF i, of a x] by auto
next
  case (move v k n brk res w m)
  have n: "n < 2 ^ 30" using move(5) by simp
  obtain j where j: "A w = None" "pool_inv p' (A(v := None, w \<mapsto> j))" "kept (user_words (A(v := None))) (p_mem p) (p_mem p')"
    using poolrealloc_moves [OF i move(3,6,4) n, of 0 res] move(7) [unfolded two] move(8) by auto
  then have "m = j" using pool_msize(1) [OF j(2), of w j] move(9) by simp
  then show ?thesis using j(1,2) move(1,2) kept_block [OF j(3)] by auto
qed

lemma run_ok:
  "pool_run s ls s' \<Longrightarrow> pool_inv (fst s) (snd s) \<Longrightarrow>
    pool_inv (fst s') (snd s') \<and> (\<forall>v n. snd s v = Some n \<longrightarrow> list_all (spares v n) ls \<longrightarrow> snd s' v = Some n \<and> kept (user_words [v \<mapsto> n]) (p_mem (fst s)) (p_mem (fst s')))"
proof (induction rule: pool_run.induct)
  case (more s l s' ls s'')
  have st: "pool_inv (fst s') (snd s') \<and> (\<forall>v n. snd s v = Some n \<longrightarrow> spares v n l \<longrightarrow> snd s' v = Some n \<and> kept (user_words [v \<mapsto> n]) (p_mem (fst s)) (p_mem (fst s')))"
    using step_ok [of "fst s" "snd s" l "fst s'" "snd s'"] more by simp
  show ?case
  proof (intro conjI allI impI)
    show "pool_inv (fst s'') (snd s'')" using st more.IH by blast
    fix v n assume v: "snd s v = Some n" "list_all (spares v n) (l # ls)"
    then have 1: "snd s' v = Some n" "kept (user_words [v \<mapsto> n]) (p_mem (fst s)) (p_mem (fst s'))" using st by (auto simp del: fun_upd_apply)
    then have 2: "snd s'' v = Some n" "kept (user_words [v \<mapsto> n]) (p_mem (fst s')) (p_mem (fst s''))" using v(2) st more.IH by (auto simp del: fun_upd_apply)
    show "snd s'' v = Some n" by (rule 2)
    show "kept (user_words [v \<mapsto> n]) (p_mem (fst s)) (p_mem (fst s''))" by (rule kept_trans [OF 1(2) 2(2) order_refl])
  qed
qed simp

end
