(* ===== verification/PoolThms.thy ===== *)
theory PoolThms
  imports PoolInv
begin

unbundle bit_operations_syntax

text \<open>The properties of the memory pools.\<close>

section \<open>The first request\<close>

lemma find_empty: "find_loop m n q 0 = Some (False, q)" by (subst find_loop.simps) simp

lemma first_alloc:
  assumes g: "grow_size (pool0 mx rs ch) (alloc_size n) = Some (ns, arena)" and c: "0 < ch" "ch mod 64 = 0" "ch < 2 ^ 30" and t: "0 < t" "t mod 8 = 0" and n: "n < 2 ^ 30"
  shows "\<exists>p' m. poolalloc 2 (\<lambda>_ _. Some t) False (pool0 mx rs ch) n = Some (Inr (p', t + 80)) \<and> n \<le> m \<and> pool_inv p' [t + 80 \<mapsto> m]"
proof -
  let ?p = "pool0 mx rs ch\<lparr>p_nalloc := 1\<rparr>" and ?n = "alloc_size n"
  let ?q = "?p\<lparr>p_arenasize := arena, p_nbrk := 1\<rparr>"
  note sz = alloc_size_bounds [of n]
  obtain k where k: "ns = int k" "?n \<le> k" "k mod 64 = 0" using grow_size_ok [OF g] c sz by (auto simp: pool0_def)
  obtain bk where bk: "pinv (pool0 mx rs ch) bk" "users bk = Map.empty" using pool0_inv [OF c, of mx rs] by (auto simp: pool_inv_def)
  have i: "pinv ?q bk" using bk(1) by (subst pinv_cong [of _ "pool0 mx rs ch"]) (simp_all add: pool0_def)
  have fresh: "p_mem ?q a = None" for a by (simp add: pool0_def)
  obtain p' where p': "new_chunk (?q\<lparr>p_mem := p_mem ?q ++ zero_region t (k + 128)\<rparr>) t k ?n = Some (p', B2D (t + 64))" "grants n ?q bk p' (B2D (t + 64))"
    using new_chunk_grants [OF i fresh t sz(3,2) k(2,3) sz(1)] by blast
  have g': "grow_size ?p ?n = Some (ns, arena)" using g by simp
  have t8: "(t + 7) div 8 * 8 = t" using t(2) by presburger
  have e: "B2D (t + 64) = t + 80" by (simp add: B2D_def)
  have "alloc_grow (\<lambda>_ _. Some t) ?p ?n = Some (Inr (p', Done (B2D (t + 64))))"
    using g' k(1) p'(1) t8 by (simp add: alloc_grow_def chunk_before_def Let_def pool0_def nat_add_distrib)
  then have "alloc_once (\<lambda>_ _. Some t) (pool0 mx rs ch) n = Some (Inr (p', Done (B2D (t + 64))))"
    using n by (simp add: alloc_once_def find_empty pool0_def Let_def)
  then have "poolalloc 2 (\<lambda>_ _. Some t) False (pool0 mx rs ch) n = Some (Inr (p', t + 80))" by (simp add: two B2D_def)
  moreover obtain m where "n \<le> m" "pool_inv p' [t + 80 \<mapsto> m]" using p'(2) bk(2) unfolding e by (auto simp: grants_def pool_inv_def)
  ultimately show ?thesis by blast
qed

lemma main_alloc:
  "\<exists>p m. poolalloc 2 (\<lambda>_ _. Some 4096) False mainmem 100 = Some (Inr (p, 4176)) \<and> 100 \<le> m \<and> pool_inv p [4176 \<mapsto> m]"
proof -
  have "alloc_size 100 = 128" by (simp add: alloc_size_eq)
  then have "grow_size (pool0 (32 * 1024 * 1024) (31 * 1024 * 1024) (512 * 1024)) (alloc_size 100) = Some (524288, 524416)"
    by (simp add: grow_size_def pool0_def)
  from first_alloc [OF this, of 4096] show ?thesis unfolding mainmem_def by simp
qed

lemma brk_any: "0 < t \<Longrightarrow> brk_ok (\<lambda>_ _. Some t) (p_mem mainmem)" by (simp add: brk_ok_def mainmem_def pool0_def)

lemma brk_none: "brk_ok (\<lambda>_ _. None) m" by (simp add: brk_ok_def)

text \<open>The main pool after a request of 100 bytes.\<close>

lemma main_run: "\<exists>p m. pool_run (mainmem, Map.empty) [Palloc 100 4176] (p, [4176 \<mapsto> m]) \<and> 100 \<le> m \<and> pool_inv p [4176 \<mapsto> m]"
proof -
  obtain p m where p: "poolalloc 2 (\<lambda>_ _. Some 4096) False mainmem 100 = Some (Inr (p, 4176))" "100 \<le> m" "pool_inv p [4176 \<mapsto> m]" using main_alloc by blast
  have "pool_step (mainmem, Map.empty) (Palloc 100 4176) (p, [4176 \<mapsto> m])"
    by (rule pool_step.alloc [OF brk_any p(1)]) (use pool_msize(1) [OF p(3), of 4176 m] in auto)
  then show ?thesis using p(2,3) by (blast intro: pool_run.intros)
qed

section \<open>Requests that the system refuses\<close>

text \<open>\<open>k\<close> requests of one byte while \<open>sbrk\<close> fails.\<close>

fun refused :: "nat \<Rightarrow> pool \<Rightarrow> pool option" where
  "refused 0 p = Some p"
| "refused (Suc k) p = (case poolalloc 2 (\<lambda>_ _. None) False p 1 of Some (Inr (p', v)) \<Rightarrow> if v = 0 then refused k p' else None | _ \<Rightarrow> None)"

lemma refuse_once:
  assumes "p_root p = 0" "grow_size p 64 = Some (ns, arena)"
  shows "poolalloc 2 (\<lambda>_ _. None) False p 1 = Some (Inr (p\<lparr>p_nalloc := p_nalloc p + 1, p_arenasize := arena\<rparr>, 0))"
proof -
  have "alloc_size 1 = 64" by (simp add: alloc_size_eq)
  then show ?thesis using assms by (simp add: two alloc_once_def find_empty alloc_grow_def Let_def)
qed

definition drained :: "nat \<Rightarrow> u64 \<Rightarrow> pool" where
  "drained k a = mainmem\<lparr>p_nalloc := of_nat k, p_arenasize := a\<rparr>"

lemma drained_0: "drained 0 0 = mainmem" by (simp add: drained_def mainmem_def pool0_def)

lemma drained_once:
  assumes "grow_size (drained k a) 64 = Some (ns, arena)"
  shows "poolalloc 2 (\<lambda>_ _. None) False (drained k a) 1 = Some (Inr (drained (Suc k) arena, 0))"
proof -
  have "p_root (drained k a) = 0" by (simp add: drained_def mainmem_def pool0_def)
  then show ?thesis using refuse_once [OF _ assms] by (simp add: drained_def mainmem_def pool0_def add.commute)
qed

lemma grow_drained: "k < 63 \<Longrightarrow> grow_size (drained j (of_nat (k * 524416))) 64 = Some (524288, of_nat (Suc k * 524416))"
proof -
  assume k: "k < 63"
  have "of_nat (Suc k * 524416) = (of_nat (k * 524416) :: u64) + 524416" by simp
  moreover have "\<not> (of_nat x :: u64) > 33554432" if "x \<le> 33554432" for x
    using that by (simp add: word_less_nat_alt unat_of_nat)
  then have "\<not> (of_nat (Suc k * 524416) :: u64) > 33554432" using k by (simp del: of_nat_mult mult_Suc)
  ultimately show ?thesis by (simp add: grow_size_def drained_def mainmem_def pool0_def Let_def add.commute del: of_nat_mult)
qed

lemma refused_add: "refused (j + k) p = (case refused j p of Some p' \<Rightarrow> refused k p' | None \<Rightarrow> None)"
  by (induction j arbitrary: p) (auto split: option.splits sum.splits)

lemma refused_63: "k \<le> 63 \<Longrightarrow> refused k mainmem = Some (drained k (of_nat (k * 524416)))"
proof (induction k)
  case 0
  then show ?case by (simp add: drained_0)
next
  case (Suc k)
  have "refused (Suc 0) (drained k (of_nat (k * 524416))) = Some (drained (Suc k) (of_nat (Suc k * 524416)))"
    using drained_once [OF grow_drained [of k k]] Suc.prems by (simp del: of_nat_mult)
  then show ?case using Suc refused_add [of k "Suc 0" mainmem] by (simp del: of_nat_mult refused.simps)
qed

lemma refused_64: "refused 64 mainmem = Some (drained 64 33554432)"
proof -
  have "grow_size (drained 63 (of_nat (63 * 524416))) 64 = Some (516096, 33554432)"
    by (simp add: grow_size_def drained_def mainmem_def pool0_def)
  from drained_once [OF this] have "refused (Suc 0) (drained 63 (of_nat (63 * 524416))) = Some (drained 64 33554432)" by simp
  then show ?thesis using refused_63 [of 63] refused_add [of 63 "Suc 0" mainmem] by (simp del: of_nat_mult refused.simps)
qed

lemma grow_64: "\<lbrakk> 64 \<le> n; n \<le> 2 ^ 31 \<rbrakk> \<Longrightarrow> grow_size (drained 64 33554432) n = None"
proof -
  assume n: "64 \<le> n" "n \<le> 2 ^ 31"
  have "(33554432 :: u64) < 33554560 + of_nat n"
  proof -
    have "(33554560 :: u64) + of_nat n = of_nat (n + 33554560)" by simp
    then show ?thesis using n(2) by (simp add: word_less_nat_alt unat_of_nat del: of_nat_add)
  qed
  then show ?thesis using n by (simp add: grow_size_def drained_def mainmem_def pool0_def)
qed

text \<open>C22 (termination). A request for any number of bytes, whatever free blocks there are and whether the arena grows by a new chunk, by joining the last one
  or not at all, returns after at most two attempts without leaving the memory of the pool. It gives nil (only to a restricted program over its limit, for 2^30 bytes or
  more, or when all free blocks are too small and the arena cannot grow), and then nobody's memory has changed, or the address of at least \<open>n\<close> bytes, aligned to words, apart from all blocks that are in use; those keep their contents. Of \<open>sbrk\<close> it takes that the memory it
  gives is new; its address need not be aligned.\<close>

theorem poolalloc_returns:
  assumes "pool_inv p A" "brk_ok brk (p_mem p)"
  shows "\<exists>p' v. poolalloc (Suc (Suc k)) brk res p n = Some (Inr (p', v)) \<and> kept (user_words A) (p_mem p) (p_mem p') \<and>
    (v = 0 \<and> pool_inv p' A \<and> (p_cursize p > p_ressize p \<and> res \<or> 2 ^ 30 \<le> n \<or> no_memory brk (alloc_size n) p \<and> (\<forall>bk. pinv p bk \<longrightarrow> largest bk < alloc_size n)) \<or>
     v \<noteq> 0 \<and> A v = None \<and> v mod 8 = 0 \<and> (\<exists>m. n \<le> m \<and> pool_inv p' (A(v \<mapsto> m)) \<and> (\<forall>w j. A w = Some j \<longrightarrow> w + j \<le> v \<or> v + m \<le> w)))"
proof -
  obtain p' v where r: "poolalloc (Suc (Suc k)) brk res p n = Some (Inr (p', v))" "kept (user_words A) (p_mem p) (p_mem p')" "v = 0 \<Longrightarrow> pool_inv p' A"
    using pa.alloc_law [OF assms, of k res n] by auto
  show ?thesis
  proof (cases "v = 0")
    case False
    obtain m where m: "A v = None" "n \<le> m" "pool_inv p' (A(v \<mapsto> m))" "\<forall>w j. A w = Some j \<longrightarrow> w + j \<le> v \<or> v + m \<le> w"
      using pa.apart [OF assms r(1) False] by blast
    have "v mod 8 = 0" using pool_shape [OF m(3), of v m] by simp
    then show ?thesis using r(1,2) m False by (intro exI [of _ p'] exI [of _ v] conjI disjI2 exI [of _ m]) auto
  next
    case True
    then have "p_cursize p > p_ressize p \<and> res \<or> 2 ^ 30 \<le> n \<or> no_memory brk (alloc_size n) p \<and> largest bk < alloc_size n" if "pinv p bk" for bk
      using poolalloc_nil [OF that assms(2) r(1)] by blast
    moreover obtain bk where "pinv p bk" using assms(1) by (auto simp: pool_inv_def)
    ultimately have "p_cursize p > p_ressize p \<and> res \<or> 2 ^ 30 \<le> n \<or> no_memory brk (alloc_size n) p \<and> (\<forall>bk. pinv p bk \<longrightarrow> largest bk < alloc_size n)" by metis
    then show ?thesis using r(1,2) r(3) [OF True] True by (intro exI [of _ p'] exI [of _ v]) simp
  qed
qed

theorem poolalloc_returns_witness: "\<exists>p' v. poolalloc (Suc (Suc 0)) (\<lambda>_ _. Some 4099) False mainmem 100 = Some (Inr (p', v)) \<and> v mod 8 = 0"
  using poolalloc_returns [OF table_inv(1) brk_any [of 4099], of 0 False 100] by fastforce

text \<open>C23 (functional). Freeing a block that is in use takes it from the account and from \<open>cursize\<close>, leaves the contents of all other blocks, and puts its bytes,
  header and tail included, into one free block, joined with the free neighbours: no two free blocks lie side by side. Freeing the same address again is
  a fault.\<close>

theorem poolfree_joins:
  assumes "pool_inv p A" "A v = Some n"
  shows "\<exists>p' bk. poolfree p v = Some (Inr p') \<and> pool_inv p' (A(v := None)) \<and> pinv p' bk \<and> users bk = A(v := None) \<and>
    (\<exists>a s. bk a = Some (KF, s) \<and> a + 16 \<le> v \<and> v + n + 8 \<le> a + s \<and> (\<forall>s'. bk (a + s) \<noteq> Some (KF, s')) \<and> (\<forall>c s'. bk c = Some (KF, s') \<longrightarrow> c + s' \<noteq> a)) \<and>
    kept (user_words (A(v := None))) (p_mem p) (p_mem p') \<and> p_cursize p' = p_cursize p - of_nat (n + BHDRSIZE) \<and> poolfree p' v = Some (Inl Poolfault)"
proof -
  obtain bk b s where b: "pinv p bk" "users bk = A" "v = B2D b" "bk b = Some (KA, s)" "n + BHDRSIZE = s" using user_at [OF assms] by metis
  obtain p' bk' where p': "poolfree p v = Some (Inr p')" "pinv p' bk'" "users bk' = A(v := None)" "\<exists>a sa. bk' a = Some (KF, sa) \<and> a \<le> b \<and> b + s \<le> a + sa"
    "kept (user_words (A(v := None))) (p_mem p) (p_mem p')" "poolfree p' v = Some (Inl Poolfault)"
    "counts p' = counts (p\<lparr>p_nfree := p_nfree p + 1, p_cursize := p_cursize p - of_nat s\<rparr>)"
    using pinv_free [OF b(1,4)] unfolding b(2,3) by blast
  obtain a sa where a: "bk' a = Some (KF, sa)" "a \<le> b" "b + s \<le> a + sa" using p'(4) by blast
  have co: "coal bk'" using p'(2) by (simp add: pinv_def)
  have "\<forall>s'. bk' (a + sa) \<noteq> Some (KF, s')" using coalD [OF co a(1)] by blast
  moreover have "\<forall>c s'. bk' c = Some (KF, s') \<longrightarrow> c + s' \<noteq> a" using coalD [OF co, of _ _ sa] a(1) by blast
  moreover have "a + 16 \<le> v" "v + n + 8 \<le> a + sa" using a(2,3) b(3,5) by (auto simp: B2D_def)
  moreover have "p_cursize p' = p_cursize p - of_nat (n + BHDRSIZE)" using p'(7) b(5) by (simp add: counts_def)
  moreover have "pool_inv p' (A(v := None))" using p'(2,3) by (auto simp: pool_inv_def)
  ultimately show ?thesis using a(1) p'(1,2,3,5,6) by blast
qed

theorem poolfree_joins_witness: "\<exists>p m p'. pool_inv p [4176 \<mapsto> m] \<and> poolfree p 4176 = Some (Inr p') \<and> pool_inv p' Map.empty \<and> poolfree p' 4176 = Some (Inl Poolfault)"
proof -
  obtain p m where p: "pool_inv p [4176 \<mapsto> m]" using main_alloc by blast
  have "\<exists>p'. poolfree p 4176 = Some (Inr p') \<and> pool_inv p' ([4176 \<mapsto> m](4176 := None)) \<and> poolfree p' 4176 = Some (Inl Poolfault)"
    using poolfree_joins [OF p, of 4176 m] by (auto simp del: fun_upd_upd)
  then show ?thesis using p by auto
qed

text \<open>C21 (invariant). After any sequence of allocations, frees, resizings and writes of the users into their own blocks, from an empty pool of the table: the
  blocks in use are aligned, do not overlap and all their words are in memory; \<open>cursize\<close> is their total size with headers and tails; and the memory is
  cut into blocks from the leader of a chunk to its end, of which the free ones are exactly those of the tree and are never neighbours.\<close>

theorem pool_invariant:
  assumes "pool_run (q, Map.empty) ls (p, A)" "q = mainmem \<or> q = heapmem \<or> q = imagmem"
  shows "pool_inv p A \<and> (\<forall>v n. A v = Some n \<longrightarrow> v mod 8 = 0 \<and> 40 \<le> n \<and> (\<forall>a. v \<le> a \<and> a + 8 \<le> v + n \<and> a mod 8 = 0 \<longrightarrow> p_mem p a \<noteq> None) \<and>
      (\<forall>w j. A w = Some j \<longrightarrow> v \<noteq> w \<longrightarrow> v + n \<le> w \<or> w + j \<le> v)) \<and>
    p_cursize p = of_nat (\<Sum>v \<in> dom A. the (A v) + BHDRSIZE) \<and>
    (\<exists>bk T. users bk = A \<and> tiles bk \<and> (\<forall>b k s. bk b = Some (k, s) \<longrightarrow> block_at (p_mem p) b k s) \<and> free_tree (p_mem p) (p_root p) T \<and> set (nodes T) = frees bk \<and>
      (\<forall>b s s'. bk b = Some (KF, s) \<longrightarrow> bk (b + s) \<noteq> Some (KF, s')))"
proof (intro conjI allI impI)
  have "pool_inv q Map.empty" using assms(2) table_inv by auto
  then show i: "pool_inv p A" using run_ok [OF assms(1)] by simp
  show "p_cursize p = of_nat (\<Sum>v \<in> dom A. the (A v) + BHDRSIZE)" using pool_cursize [OF i] by blast
  obtain bk T where bk: "users bk = A" "poolmem p bk T {}" "coal bk" using i by (auto simp: pool_inv_def pinv_def)
  then show "\<exists>bk T. users bk = A \<and> tiles bk \<and> (\<forall>b k s. bk b = Some (k, s) \<longrightarrow> block_at (p_mem p) b k s) \<and> free_tree (p_mem p) (p_root p) T \<and> set (nodes T) = frees bk \<and>
      (\<forall>b s s'. bk b = Some (KF, s) \<longrightarrow> bk (b + s) \<noteq> Some (KF, s'))"
    by (intro exI [of _ bk] exI [of _ T]) (simp add: poolmem_def core_def coal_def)
  fix v n assume v: "A v = Some n"
  show "v mod 8 = 0" "40 \<le> n" using pool_shape [OF i v] by auto
  show "p_mem p a \<noteq> None" if "v \<le> a \<and> a + 8 \<le> v + n \<and> a mod 8 = 0" for a
    by (rule pool_word [OF i]) (use that v in \<open>auto simp: user_words_def\<close>)
  show "v + n \<le> w \<or> w + j \<le> v" if "A w = Some j" "v \<noteq> w" for w j by (rule pool_disjoint [OF i v that])
qed

theorem pool_invariant_witness:
  "\<exists>p m. pool_run (mainmem, Map.empty) [Palloc 100 4176] (p, [4176 \<mapsto> m]) \<and> 100 \<le> m \<and> p_cursize p = of_nat (m + 24)"
proof -
  obtain p m where p: "pool_run (mainmem, Map.empty) [Palloc 100 4176] (p, [4176 \<mapsto> m])" "100 \<le> m" using main_run by blast
  have "p_cursize p = of_nat (\<Sum>v \<in> dom [4176 :: nat \<mapsto> m]. the ([4176 \<mapsto> m] v) + BHDRSIZE)" using pool_invariant [OF p(1)] by blast
  then show ?thesis using p by auto
qed

text \<open>C24 (safety). A block that its owner does not free, resize or write stays where it is with the same contents, whatever the other users of the pool do.\<close>

theorem pool_frame:
  assumes "pool_inv p A" "pool_run (p, A) ls (p', A')" "A v = Some n" "list_all (spares v n) ls"
  shows "A' v = Some n \<and> (\<forall>a. v \<le> a \<and> a + 8 \<le> v + n \<and> a mod 8 = 0 \<longrightarrow> p_mem p' a = p_mem p a)"
proof -
  have "A' v = Some n" "kept (user_words [v \<mapsto> n]) (p_mem p) (p_mem p')" using run_ok [OF assms(2)] assms(1,3,4) by (auto simp del: fun_upd_apply)
  then show ?thesis by (auto simp: kept_def user_words_def split: if_splits)
qed

theorem pool_frame_witness:
  "\<exists>p m p' A'. pool_inv p [4176 \<mapsto> m] \<and> pool_run (p, [4176 \<mapsto> m]) [Palloc 1073741824 0] (p', A') \<and> A' 4176 = Some m"
proof -
  obtain p m where p: "pool_inv p [4176 \<mapsto> m]" using main_alloc by blast
  have "poolalloc 2 (\<lambda>_ _. None) False p 1073741824 = Some (Inr (p, 0))" by (simp add: two alloc_once_def)
  then have "pool_run (p, [4176 \<mapsto> m]) [Palloc 1073741824 0] (p, [4176 \<mapsto> m])" by (blast intro: pool_run.intros pool_step.refuse [of "\<lambda>_ _. None"] brk_none)
  moreover from pool_frame [OF p this, of 4176 m] have "[4176 \<mapsto> m] 4176 = Some m" by simp
  ultimately show ?thesis using p by blast
qed

text \<open>C25 (equivalence). The search of \<open>dopoolalloc\<close> in the tree of free blocks is the search for the first block that is large enough in a list of all free blocks
  in the order of their sizes: it is the best fit, and it returns.\<close>

theorem find_loop_best:
  assumes "pinv p bk"
  shows "\<exists>bs. set bs = frees bk \<and> distinct bs \<and> sorted (map (bsz bk) bs) \<and>
    (\<forall>n. find_loop (p_mem p) n 0 (p_root p) = Some (case find (\<lambda>b. n \<le> bsz bk b) bs of None \<Rightarrow> (False, 0) | Some b \<Rightarrow> (bsz bk b = n, b)))"
  by (rule search_ok [OF assms])

theorem find_loop_best_witness:
  "\<exists>p bk m. pinv p bk \<and> users bk = [4176 \<mapsto> m] \<and> (\<exists>bs. set bs = frees bk \<and> find_loop (p_mem p) 64 0 (p_root p) = Some (case find (\<lambda>b. 64 \<le> bsz bk b) bs of None \<Rightarrow> (False, 0) | Some b \<Rightarrow> (bsz bk b = 64, b)))"
proof -
  obtain p m bk where p: "pinv p bk" "users bk = [4176 \<mapsto> m]" using main_alloc by (auto simp: pool_inv_def)
  then show ?thesis using find_loop_best [OF p(1)] by blast
qed

text \<open>C26 (functional). Resizing a block: a request of 2^30 bytes or more gives nil and changes nothing, 0 frees the block, a size that the block has space for
  gives the same address; otherwise the result is nil, with nothing lost, or another block of that size with the old contents, and the old block
  is free. The blocks of the others keep their contents.\<close>

theorem poolrealloc_ok:
  assumes "pool_inv p A" "A v = Some n" "brk_ok brk (p_mem p)"
  shows "if 2 ^ 30 \<le> s then poolrealloc (Suc (Suc k)) brk res p v s = Some (Inr (p, 0))
    else if s = 0 then \<exists>p'. poolrealloc (Suc (Suc k)) brk res p v s = Some (Inr (p', 0)) \<and> pool_inv p' (A(v := None)) \<and> kept (user_words (A(v := None))) (p_mem p) (p_mem p')
    else if s \<le> n then poolrealloc (Suc (Suc k)) brk res p v s = Some (Inr (p, v))
    else \<exists>p' w. poolrealloc (Suc (Suc k)) brk res p v s = Some (Inr (p', w)) \<and>
      (if w = 0 then pool_inv p' A \<and> kept (user_words A) (p_mem p) (p_mem p')
       else A w = None \<and> (\<exists>m. s \<le> m \<and> pool_inv p' (A(v := None, w \<mapsto> m))) \<and> (\<forall>i. 8 * i + 8 \<le> n \<longrightarrow> p_mem p' (w + 8 * i) = p_mem p (v + 8 * i)) \<and>
         kept (user_words (A(v := None))) (p_mem p) (p_mem p'))"
proof -
  have v: "v \<noteq> 0" using pool_shape [OF assms(1,2)] by auto
  have "poolrealloc (Suc (Suc k)) brk res p v s = Some (Inr (p, 0))" if "2 ^ 30 \<le> s" using that by (simp add: poolrealloc_def)
  moreover have "\<exists>p'. poolrealloc (Suc (Suc k)) brk res p v 0 = Some (Inr (p', 0)) \<and> pool_inv p' (A(v := None)) \<and> kept (user_words (A(v := None))) (p_mem p) (p_mem p')"
  proof -
    obtain p' where "poolfree p v = Some (Inr p')" "pool_inv p' (A(v := None))" "kept (user_words (A(v := None))) (p_mem p) (p_mem p')" using pool_free [OF assms(1,2)] by blast
    then show ?thesis by (simp add: poolrealloc_def)
  qed
  moreover have "poolrealloc (Suc (Suc k)) brk res p v s = Some (Inr (p, v))" if "s < 2 ^ 30" "s \<noteq> 0" "s \<le> n"
    using that v pool_msize(2) [OF assms(1,2)] by (simp add: poolrealloc_def ld_def Let_def)
  ultimately show ?thesis using poolrealloc_moves [OF assms(1,2,3), of s k res] by (auto simp: not_le)
qed

theorem poolrealloc_ok_witness:
  "\<exists>p m p' w. pool_inv p [4176 \<mapsto> m] \<and> poolrealloc (Suc (Suc 0)) (\<lambda>_ _. None) False p 4176 200 = Some (Inr (p', w))"
proof -
  obtain p m where p: "pool_inv p [4176 \<mapsto> m]" using main_alloc by blast
  have "\<exists>p' w. poolrealloc (Suc (Suc 0)) (\<lambda>_ _. None) False p 4176 200 = Some (Inr (p', w))"
    using poolrealloc_ok [OF p _ brk_none, of 4176 m 200 0 False] by (cases "200 \<le> m") auto
  then show ?thesis using p by blast
qed

text \<open>C27 (error). When \<open>sbrk\<close> refuses, the size of the arena keeps the memory that was not given: after 64 such requests for a single byte the main pool,
  which has no memory at all, refuses every request without calling \<open>sbrk\<close> again.\<close>

theorem pool_starved:
  "\<exists>p. refused 64 mainmem = Some p \<and> p_mem p = p_mem mainmem \<and> p_chain p = 0 \<and> p_arenasize p = p_maxsize p \<and>
    (\<forall>brk res n k. \<exists>p'. poolalloc (Suc k) brk res p n = Some (Inr (p', 0)) \<and> p_mem p' = p_mem p)"
proof (intro exI conjI allI)
  let ?p = "drained 64 33554432"
  show "refused 64 mainmem = Some ?p" by (rule refused_64)
  show "p_mem ?p = p_mem mainmem" "p_chain ?p = 0" "p_arenasize ?p = p_maxsize ?p" by (simp_all add: drained_def mainmem_def pool0_def)
  fix brk :: "pool \<Rightarrow> nat \<Rightarrow> nat option" and res and n k :: nat
  let ?q = "if n < 2 ^ 30 then ?p\<lparr>p_nalloc := p_nalloc ?p + 1\<rparr> else ?p"
  have "p_root ?p = 0" "\<not> p_ressize ?p < p_cursize ?p" by (simp_all add: drained_def mainmem_def pool0_def)
  moreover have "grow_size ?p (alloc_size n) = None" if "n < 2 ^ 30" using alloc_size_bounds [of n] that by (intro grow_64) auto
  ultimately show "poolalloc (Suc k) brk res ?p n = Some (Inr (?q, 0))"
    by (auto simp: alloc_once_def find_empty alloc_grow_def Let_def)
  show "p_mem ?q = p_mem ?p" by simp
qed

end
