(* ===== verification/MntTag.thy ===== *)
theory MntTag
  imports Block
begin

unbundle bit_operations_syntax

text \<open>Tags and request headers of the mount driver (\<open>svcs/devmnt.c\<close>): the bit mask of tags in use, \<open>alloctag\<close> and \<open>freetag\<close>, and the list of free headers,
  \<open>mntralloc\<close> and \<open>mntfree\<close>, which keep their tags. The contract of a source of tags is the locale \<open>tag_source\<close>, interpreted on the driver. An \<open>ulong\<close> has 64 bits; the
  code uses the low 32 of every word of the mask, and \<open>1<<31\<close>, an \<open>int\<close>, sets the high ones too (\<open>wf_word\<close>).\<close>

section \<open>Tags\<close>

abbreviation NOTAG :: nat where "NOTAG \<equiv> 65535"
abbreviation NMASK :: nat where "NMASK \<equiv> 2048"

text \<open>\<open>1<<j\<close> is an \<open>int\<close>; in an operation with an \<open>ulong\<close> it is extended with its sign.\<close>

definition tagbit :: "nat \<Rightarrow> u64" where
  "tagbit j = scast (push_bit j 1 :: u32)"

function find_bit :: "u64 \<Rightarrow> nat \<Rightarrow> nat option" where
  "find_bit v j = (if j < 32 then if v AND tagbit j = 0 then Some j else find_bit v (Suc j) else None)"
  by pat_completeness auto

termination by (relation "measure (\<lambda>(v, j). 32 - j)") auto

declare find_bit.simps [simp del]

fun alloctag_loop :: "u64 list \<Rightarrow> nat \<Rightarrow> (u64 list \<times> nat) option" where
  "alloctag_loop [] i = None"
| "alloctag_loop (v # vs) i =
     (case (if v = - 1 then None else find_bit v 0) of
        Some j \<Rightarrow> Some ((v OR tagbit j) # vs, i * 32 + j)
      | None \<Rightarrow> map_option (\<lambda>(vs, t). (v # vs, t)) (alloctag_loop vs (Suc i)))"

definition alloctag :: "u64 list \<Rightarrow> u64 list \<times> nat" where
  "alloctag ms = (case alloctag_loop ms 0 of None \<Rightarrow> (ms, NOTAG) | Some r \<Rightarrow> r)"

definition freetag :: "u64 list \<Rightarrow> nat \<Rightarrow> u64 list option" where
  "freetag ms t = (if t div 32 < length ms then Some (ms[t div 32 := ms ! (t div 32) AND NOT (tagbit (t mod 32))]) else None)"

text \<open>The tags of \<open>mntinit\<close>: 0 and \<open>NOTAG\<close> are never given out.\<close>

definition tagmask0 :: "u64 list" where
  "tagmask0 = (replicate NMASK 0)[0 := 1, NMASK - 1 := 0x80000000]"

section \<open>The tags in use\<close>

definition wf_word :: "u64 \<Rightarrow> bool" where
  "wf_word v \<longleftrightarrow> (\<forall>j \<ge> 32. bit v j \<longrightarrow> bit v 31)"

definition wf_mask :: "u64 list \<Rightarrow> bool" where
  "wf_mask ms \<longleftrightarrow> length ms = NMASK \<and> list_all wf_word ms"

definition tags :: "u64 list \<Rightarrow> nat set" where
  "tags ms = {t. t div 32 < length ms \<and> bit (ms ! (t div 32)) (t mod 32)}"

lemma bit_tagbit: "j < 32 \<Longrightarrow> bit (tagbit j) i \<longleftrightarrow> i = j \<or> j = 31 \<and> 32 \<le> i \<and> i < 64"
  by (auto simp: tagbit_def bit_simps min_def)

lemma tagbit_test:
  assumes "wf_word v" "j < 32"
  shows "v AND tagbit j = 0 \<longleftrightarrow> \<not> bit v j"
proof
  assume "v AND tagbit j = 0"
  then have "\<not> bit (v AND tagbit j) j" by simp
  then show "\<not> bit v j" using assms(2) by (simp add: bit_and_iff bit_tagbit)
next
  assume n: "\<not> bit v j"
  show "v AND tagbit j = 0"
    by (rule bit_eqI) (use n assms in \<open>auto simp: bit_and_iff bit_tagbit wf_word_def\<close>)
qed

lemma wf_word_or: "wf_word v \<Longrightarrow> j < 32 \<Longrightarrow> wf_word (v OR tagbit j) \<and> (\<forall>i < 32. bit (v OR tagbit j) i \<longleftrightarrow> bit v i \<or> i = j)"
  by (auto simp: wf_word_def bit_or_iff bit_tagbit)

lemma wf_word_clear: "wf_word v \<Longrightarrow> j < 32 \<Longrightarrow> wf_word (v AND NOT (tagbit j)) \<and> (\<forall>i < 32. bit (v AND NOT (tagbit j)) i \<longleftrightarrow> bit v i \<and> i \<noteq> j)"
  by (auto simp: wf_word_def bit_and_iff bit_not_iff bit_tagbit dest: bit_imp_le_length)

lemma find_bit_ok:
  "wf_word v \<Longrightarrow> case find_bit v j of Some k \<Rightarrow> j \<le> k \<and> k < 32 \<and> \<not> bit v k \<and> (\<forall>i. j \<le> i \<and> i < k \<longrightarrow> bit v i) | None \<Rightarrow> \<forall>i. j \<le> i \<and> i < 32 \<longrightarrow> bit v i"
proof (induction v j rule: find_bit.induct)
  case (1 v j)
  show ?case
  proof (cases "j < 32 \<and> bit v j")
    case True
    then have t: "v AND tagbit j \<noteq> 0" using tagbit_test [OF 1(2)] by auto
    have b: "bit v i" if "j \<le> i" "\<not> Suc j \<le> i" for i using that True by (metis le_antisym not_less_eq_eq)
    have "find_bit v j = find_bit v (Suc j)" using True t by (subst find_bit.simps) simp
    moreover note 1(1) [OF _ t 1(2)]
    ultimately show ?thesis using True b by (auto split: option.splits)
  next
    case False
    then show ?thesis using tagbit_test [OF 1(2), of j] by (subst find_bit.simps) auto
  qed
qed

lemma alloctag_loop_ok:
  "list_all wf_word vs \<Longrightarrow> case alloctag_loop vs i of None \<Rightarrow> \<forall>n < length vs. \<forall>j < 32. bit (vs ! n) j
    | Some (vs', t) \<Rightarrow> \<exists>n j. n < length vs \<and> j < 32 \<and> t = (i + n) * 32 + j \<and> \<not> bit (vs ! n) j \<and> vs' = vs[n := vs ! n OR tagbit j] \<and>
        (\<forall>k < j. bit (vs ! n) k) \<and> (\<forall>n' < n. \<forall>k < 32. bit (vs ! n') k)"
proof (induction vs arbitrary: i)
  case (Cons v vs)
  then have v: "wf_word v" by simp
  show ?case
  proof (cases "if v = - 1 then None else find_bit v 0")
    case (Some j)
    then have "j < 32" "\<not> bit v j" "\<forall>k < j. bit v k" using find_bit_ok [OF v, of 0] by (auto split: if_splits)
    moreover have "alloctag_loop (v # vs) i = Some ((v OR tagbit j) # vs, i * 32 + j)" using Some by simp
    ultimately show ?thesis by (simp only: option.case prod.case) (rule exI [of _ 0], rule exI [of _ j], simp)
  next
    case None
    then have b: "\<forall>k < 32. bit v k" using find_bit_ok [OF v, of 0] by (auto split: if_splits)
    have IH: "case alloctag_loop vs (Suc i) of None \<Rightarrow> \<forall>n < length vs. \<forall>j < 32. bit (vs ! n) j
      | Some (vs', t) \<Rightarrow> \<exists>n j. n < length vs \<and> j < 32 \<and> t = (Suc i + n) * 32 + j \<and> \<not> bit (vs ! n) j \<and> vs' = vs[n := vs ! n OR tagbit j] \<and>
        (\<forall>k < j. bit (vs ! n) k) \<and> (\<forall>n' < n. \<forall>k < 32. bit (vs ! n') k)" using Cons by simp
    have step: "alloctag_loop (v # vs) i = map_option (\<lambda>(vs, t). (v # vs, t)) (alloctag_loop vs (Suc i))" using None by simp
    show ?thesis
    proof (cases "alloctag_loop vs (Suc i)")
      case None
      then show ?thesis using IH b step by (auto simp: nth_Cons split: nat.splits)
    next
      case (Some r)
      then obtain vs' t where r: "r = (vs', t)" by (cases r)
      obtain n j where n: "n < length vs" "j < 32" "t = (Suc i + n) * 32 + j" "\<not> bit (vs ! n) j" "vs' = vs[n := vs ! n OR tagbit j]"
        "\<forall>k < j. bit (vs ! n) k" "\<forall>n' < n. \<forall>k < 32. bit (vs ! n') k" using IH Some r by auto
      have "\<forall>n' < Suc n. \<forall>k < 32. bit ((v # vs) ! n') k" using n(7) b by (auto simp: nth_Cons split: nat.splits)
      moreover have "alloctag_loop (v # vs) i = Some (v # vs', t)" using step Some r by simp
      ultimately show ?thesis using n by (simp only: option.case prod.case) (rule exI [of _ "Suc n"], rule exI [of _ j], simp)
    qed
  qed
qed simp

lemma tag_div: "j < 32 \<Longrightarrow> (n * 32 + j) div 32 = n \<and> (n * 32 + j) mod 32 = (j :: nat)" by simp

lemma tags_update:
  assumes "n < length ms" "j < 32" "\<And>i. i < 32 \<Longrightarrow> bit w i \<longleftrightarrow> (if i = j then x else bit (ms ! n) i)"
  shows "tags (ms[n := w]) = (if x then insert (n * 32 + j) (tags ms) else tags ms - {n * 32 + j})"
proof -
  have e: "t = n * 32 + j \<longleftrightarrow> t div 32 = n \<and> t mod 32 = j" for t using assms(2) by auto
  show ?thesis using assms by (auto simp: tags_def nth_list_update e)
qed

lemma wf_mask_update: "wf_mask ms \<Longrightarrow> wf_word v \<Longrightarrow> wf_mask (ms[n := v])"
  by (auto simp: wf_mask_def list_all_iff dest: subsetD [OF set_update_subset_insert])

lemma tags_bound: "wf_mask ms \<Longrightarrow> tags ms \<subseteq> {..<65536}" by (auto simp: tags_def wf_mask_def)

lemma alloctag_ok:
  assumes w: "wf_mask ms"
  shows "\<exists>ms' t. alloctag ms = (ms', t) \<and> wf_mask ms' \<and>
    (if tags ms = {..<65536} then ms' = ms \<and> t = NOTAG else t < 65536 \<and> t \<notin> tags ms \<and> {..<t} \<subseteq> tags ms \<and> tags ms' = insert t (tags ms))"
proof (cases "alloctag_loop ms 0")
  case None
  have "tags ms = {..<65536}" using alloctag_loop_ok [of ms 0] None w by (auto simp: wf_mask_def tags_def)
  then show ?thesis using None w by (simp add: alloctag_def)
next
  case (Some r)
  then obtain ms' t where r: "r = (ms', t)" by (cases r)
  obtain n j where n: "n < length ms" "j < 32" "t = n * 32 + j" "\<not> bit (ms ! n) j" "ms' = ms[n := ms ! n OR tagbit j]"
    "\<forall>k < j. bit (ms ! n) k" "\<forall>n' < n. \<forall>k < 32. bit (ms ! n') k" using alloctag_loop_ok [of ms 0] Some r w by (auto simp: wf_mask_def)
  have wn: "wf_word (ms ! n)" using w n(1) by (auto simp: wf_mask_def list_all_length)
  have "wf_mask ms'" using w n(5) wf_word_or [OF wn n(2)] by (simp add: wf_mask_update)
  moreover have "tags ms' = insert t (tags ms)" unfolding n(3,5) using tags_update [OF n(1,2), of "ms ! n OR tagbit j" True] wf_word_or [OF wn n(2)] by auto
  moreover have "t < 65536" "t \<notin> tags ms" using n w by (auto simp: wf_mask_def tags_def)
  moreover have "{..<t} \<subseteq> tags ms"
  proof
    fix s assume "s \<in> {..<t}"
    then have "s < n * 32 + j" using n(3) by simp
    then have "s div 32 < n \<or> s div 32 = n \<and> s mod 32 < j"
      using div_mult_mod_eq [of s 32] n(2) by (cases "s div 32" n rule: linorder_cases) (auto dest: Suc_leI)
    then show "s \<in> tags ms" using n(1,6,7) by (auto simp: tags_def)
  qed
  ultimately show ?thesis using Some r by (auto simp: alloctag_def)
qed

lemma freetag_ok:
  assumes w: "wf_mask ms" and t: "t < 65536"
  shows "\<exists>ms'. freetag ms t = Some ms' \<and> wf_mask ms' \<and> tags ms' = tags ms - {t}"
proof -
  have n: "t div 32 < length ms" "t mod 32 < 32" using w t by (auto simp: wf_mask_def)
  have wn: "wf_word (ms ! (t div 32))" using w n(1) by (auto simp: wf_mask_def list_all_length)
  have "tags (ms[t div 32 := ms ! (t div 32) AND NOT (tagbit (t mod 32))]) = tags ms - {t div 32 * 32 + t mod 32}"
    using tags_update [OF n, of _ False] wf_word_clear [OF wn n(2)] by auto
  moreover have "wf_mask (ms[t div 32 := ms ! (t div 32) AND NOT (tagbit (t mod 32))])"
    using w wf_word_clear [OF wn n(2)] by (simp add: wf_mask_update)
  ultimately show ?thesis using n by (simp add: freetag_def)
qed

lemma bit_top: "bit (0x80000000 :: u64) j \<longleftrightarrow> j = 31"
proof -
  have e: "(0x80000000 :: u64) = 2 ^ 31" by simp
  show ?thesis unfolding e by (simp only: bit_exp_iff) auto
qed

lemma bit_top_int: "bit (2147483648 :: int) j \<longleftrightarrow> j = 31"
proof -
  have e: "(2147483648 :: int) = 2 ^ 31" by simp
  show ?thesis unfolding e by (simp only: bit_exp_iff) auto
qed

lemma tagmask0_ok: "wf_mask tagmask0 \<and> tags tagmask0 = {0, NOTAG}"
proof
  show "wf_mask tagmask0" unfolding tagmask0_def
    by (intro wf_mask_update) (auto simp: wf_mask_def list_all_iff wf_word_def bit_1_iff bit_top)
  have "t \<in> tags tagmask0 \<longleftrightarrow> t = 0 \<or> t = NOTAG" for t
  proof -
    have "t \<in> tags tagmask0 \<longleftrightarrow> t div 32 < NMASK \<and> (t div 32 = 0 \<and> t mod 32 = 0 \<or> t div 32 = NMASK - 1 \<and> t mod 32 = 31)"
      by (auto simp: tags_def tagmask0_def nth_list_update bit_1_iff bit_top bit_top_int simp del: div_eq_0_iff)
    moreover have "(65535 :: nat) div 32 = 2047" "(65535 :: nat) mod 32 = 31" by simp_all
    moreover have "t div 32 = a \<Longrightarrow> t mod 32 = b \<Longrightarrow> t = a * 32 + b" for a b by (metis div_mult_mod_eq)
    from this [of 2047 31] this [of 0 0] have "t div 32 = 2047 \<Longrightarrow> t mod 32 = 31 \<Longrightarrow> t = NOTAG" "t div 32 = 0 \<Longrightarrow> t mod 32 = 0 \<Longrightarrow> t = 0" by simp_all
    ultimately show ?thesis by (auto simp del: div_eq_0_iff)
  qed
  then show "tags tagmask0 = {0, NOTAG}" by auto
qed

section \<open>Request headers\<close>

text \<open>The part of a \<open>Mntrpc\<close> that outlives a request: its tag and the size of its buffer.\<close>

record rpchdr =
  h_tag :: u16
  h_len :: nat

record mntalloc =
  al_free :: "rpchdr list"
  al_nrpcfree :: int
  al_nrpcused :: int
  al_tagmask :: "u64 list"

definition mntalloc0 :: mntalloc where
  "mntalloc0 = \<lparr>al_free = [], al_nrpcfree = 0, al_nrpcused = 0, al_tagmask = tagmask0\<rparr>"

text \<open>\<open>hm\<close> and \<open>bm\<close>: whether there is memory for a header and for a buffer.\<close>

definition mntralloc :: "mntalloc \<Rightarrow> bool \<Rightarrow> bool \<Rightarrow> nat \<Rightarrow> mntalloc \<times> (kerror + rpchdr)" where
  "mntralloc al hm bm n = (case al_free al of
     [] \<Rightarrow> if \<not> hm then (al, Inl Exhausted)
        else if \<not> bm then (al, Inl Exhausted)
        else let (ms, t) = alloctag (al_tagmask al);
                 al = al\<lparr>al_tagmask := ms\<rparr>
             in if t = NOTAG then (al, Inl Exhausted)
                else (al\<lparr>al_nrpcused := al_nrpcused al + 1\<rparr>, Inr \<lparr>h_tag = of_nat t, h_len = n\<rparr>)
   | h # hs \<Rightarrow> let al = al\<lparr>al_free := hs, al_nrpcfree := al_nrpcfree al - 1\<rparr> in
        if h_len h < n then
          if \<not> bm then (al\<lparr>al_nrpcused := al_nrpcused al - 1\<rparr>, Inl Exhausted)
          else (al\<lparr>al_nrpcused := al_nrpcused al + 1\<rparr>, Inr (h\<lparr>h_len := n\<rparr>))
        else (al\<lparr>al_nrpcused := al_nrpcused al + 1\<rparr>, Inr h))"

definition mntfree :: "mntalloc \<Rightarrow> rpchdr \<Rightarrow> mntalloc option" where
  "mntfree al h = do {
     al \<leftarrow> (if al_nrpcfree al \<ge> 10 then do { ms \<leftarrow> freetag (al_tagmask al) (unat (h_tag h)); Some (al\<lparr>al_tagmask := ms\<rparr>) }
            else Some (al\<lparr>al_free := h # al_free al, al_nrpcfree := al_nrpcfree al + 1\<rparr>));
     Some (al\<lparr>al_nrpcused := al_nrpcused al - 1\<rparr>) }"

section \<open>The contract of a source of tags\<close>

locale tag_source =
  fixes acquire :: "'s \<Rightarrow> bool \<Rightarrow> bool \<Rightarrow> nat \<Rightarrow> 's \<times> (kerror + rpchdr)"
    and release :: "'s \<Rightarrow> rpchdr \<Rightarrow> 's option"
    and held :: "'s \<Rightarrow> u16 set \<Rightarrow> bool"
  assumes acquire_fresh: "held s L \<Longrightarrow> acquire s hm bm n = (s', Inr h) \<Longrightarrow>
      h_tag h \<notin> L \<and> h_tag h \<noteq> 0 \<and> h_tag h \<noteq> - 1 \<and> n \<le> h_len h \<and> held s' (insert (h_tag h) L)"
    and acquire_fails: "held s L \<Longrightarrow> acquire s hm bm n = (s', Inl e) \<Longrightarrow> held s' L"
    and release_held: "held s L \<Longrightarrow> h_tag h \<in> L \<Longrightarrow> \<exists>s'. release s h = Some s' \<and> held s' (L - {h_tag h})"
begin

text \<open>Any history of requests: the ones outstanding have different tags, none of them 0 or \<open>NOTAG\<close>.\<close>

inductive uses :: "'s \<times> rpchdr list \<Rightarrow> 's \<times> rpchdr list \<Rightarrow> bool" where
  begins: "acquire s hm bm n = (s', Inr h) \<Longrightarrow> uses (s, hs) (s', h # hs)"
| refused: "acquire s hm bm n = (s', Inl e) \<Longrightarrow> uses (s, hs) (s', hs)"
| ends: "h \<in> set hs \<Longrightarrow> release s h = Some s' \<Longrightarrow> uses (s, hs) (s', remove1 h hs)"

definition outstanding :: "'s \<times> rpchdr list \<Rightarrow> bool" where
  "outstanding = (\<lambda>(s, hs). held s (set (map h_tag hs)) \<and> distinct (map h_tag hs) \<and> (\<forall>h \<in> set hs. h_tag h \<noteq> 0 \<and> h_tag h \<noteq> - 1))"

lemma distinct_remove1_tags: "distinct (map h_tag hs) \<Longrightarrow> h \<in> set hs \<Longrightarrow>
    distinct (map h_tag (remove1 h hs)) \<and> set (map h_tag (remove1 h hs)) = set (map h_tag hs) - {h_tag h}"
  by (induction hs) auto

lemma uses_outstanding: "uses x y \<Longrightarrow> outstanding x \<Longrightarrow> outstanding y"
proof (induction rule: uses.induct)
  case (begins s hm bm n s' h hs)
  then show ?case using acquire_fresh [of s "set (map h_tag hs)"] by (auto simp: outstanding_def)
next
  case (refused s hm bm n s' e hs)
  then show ?case using acquire_fails [of s "set (map h_tag hs)"] by (auto simp: outstanding_def)
next
  case (ends h hs s s')
  then have "held s' (set (map h_tag hs) - {h_tag h})" using release_held [of s "set (map h_tag hs)" h] by (auto simp: outstanding_def)
  then show ?case using ends distinct_remove1_tags [of hs h] set_remove1_subset [of h hs] by (auto simp: outstanding_def)
qed

lemma history: "uses\<^sup>*\<^sup>* x y \<Longrightarrow> outstanding x \<Longrightarrow> outstanding y"
  by (induction rule: rtranclp_induct) (auto dest: uses_outstanding)

end

section \<open>The driver's source of tags\<close>

definition al_ok :: "mntalloc \<Rightarrow> u16 set \<Rightarrow> bool" where
  "al_ok al L \<longleftrightarrow> wf_mask (al_tagmask al) \<and> distinct (map h_tag (al_free al)) \<and> L \<inter> h_tag ` set (al_free al) = {} \<and>
     {0, NOTAG} \<subseteq> tags (al_tagmask al) \<and> (\<forall>x \<in> L \<union> h_tag ` set (al_free al). unat x \<in> tags (al_tagmask al) \<and> x \<noteq> 0 \<and> x \<noteq> - 1) \<and>
     al_nrpcfree al = int (length (al_free al)) \<and> length (al_free al) \<le> 10"

lemma unat_tag: "t < 65536 \<Longrightarrow> unat (of_nat t :: u16) = t" "unat (- 1 :: u16) = NOTAG"
  by (simp_all add: unat_of_nat take_bit_nat_eq_self unsigned_minus_1_eq_mask mask_eq_exp_minus_1)

lemma mntalloc0_ok: "al_ok mntalloc0 {}"
  using tagmask0_ok unat_tag(2) by (simp add: al_ok_def mntalloc0_def)

lemma alloctag_some:
  assumes "al_ok al L" "alloctag (al_tagmask al) = (ms, t)" "t \<noteq> NOTAG"
  shows "t < 65536 \<and> wf_mask ms \<and> tags ms = insert t (tags (al_tagmask al)) \<and> t \<notin> tags (al_tagmask al)"
  using alloctag_ok [of "al_tagmask al"] assms by (auto simp: al_ok_def split: if_splits)

lemma alloctag_none:
  assumes "al_ok al L" "alloctag (al_tagmask al) = (ms, NOTAG)"
  shows "ms = al_tagmask al"
proof -
  have "NOTAG \<in> tags (al_tagmask al)" using assms(1) unat_tag(2) by (auto simp: al_ok_def)
  then show ?thesis using alloctag_ok [of "al_tagmask al"] assms by (auto simp: al_ok_def split: if_splits)
qed

lemma mntralloc_fresh:
  assumes a: "al_ok al L" and r: "mntralloc al hm bm n = (al', Inr h)"
  shows "h_tag h \<notin> L \<and> h_tag h \<noteq> 0 \<and> h_tag h \<noteq> - 1 \<and> n \<le> h_len h \<and> al_ok al' (insert (h_tag h) L)"
proof (cases "al_free al")
  case Nil
  obtain ms t where t: "alloctag (al_tagmask al) = (ms, t)" by (cases "alloctag (al_tagmask al)")
  have e: "al' = al\<lparr>al_tagmask := ms, al_nrpcused := al_nrpcused al + 1\<rparr>" "h = \<lparr>h_tag = of_nat t, h_len = n\<rparr>" "t \<noteq> NOTAG"
    using r Nil t by (auto simp: mntralloc_def Let_def split: if_splits)
  note x = alloctag_some [OF a t e(3)]
  have u: "unat (of_nat t :: u16) = t" using x unat_tag(1) by blast
  have "unat y \<in> tags (al_tagmask al)" if "y \<in> L \<union> {0, - 1}" for y using a that unat_tag(2) by (auto simp: al_ok_def)
  then have f: "(of_nat t :: u16) \<notin> L \<union> {0, - 1}" using x u by metis
  then show ?thesis using a x u Nil unfolding e(1,2) by (auto simp: al_ok_def)
next
  case (Cons g gs)
  then have "h_tag h = h_tag g" "n \<le> h_len h" "al' = al\<lparr>al_free := gs, al_nrpcfree := al_nrpcfree al - 1, al_nrpcused := al_nrpcused al + 1\<rparr>"
    using r by (auto simp: mntralloc_def Let_def split: if_splits)
  then show ?thesis using a Cons by (auto simp: al_ok_def)
qed

lemma mntralloc_fails: "al_ok al L \<Longrightarrow> mntralloc al hm bm n = (al', Inl e) \<Longrightarrow> al_ok al' L"
proof (cases "al_free al")
  case Nil
  assume a: "al_ok al L" and r: "mntralloc al hm bm n = (al', Inl e)"
  obtain ms t where t: "alloctag (al_tagmask al) = (ms, t)" by (cases "alloctag (al_tagmask al)")
  then show ?thesis using a r Nil alloctag_none [OF a] by (auto simp: mntralloc_def Let_def split: if_splits)
next
  case (Cons g gs)
  assume "al_ok al L" "mntralloc al hm bm n = (al', Inl e)"
  then show ?thesis using Cons by (auto simp: mntralloc_def Let_def al_ok_def split: if_splits)
qed

lemma mntfree_held:
  assumes a: "al_ok al L" and h: "h_tag h \<in> L"
  shows "\<exists>al'. mntfree al h = Some al' \<and> al_ok al' (L - {h_tag h})"
proof (cases "al_nrpcfree al \<ge> 10")
  case True
  have "unat (h_tag h) < 65536" using unsigned_less [of "h_tag h"] by simp
  then obtain ms where ms: "freetag (al_tagmask al) (unat (h_tag h)) = Some ms" "wf_mask ms" "tags ms = tags (al_tagmask al) - {unat (h_tag h)}"
    using freetag_ok [of "al_tagmask al" "unat (h_tag h)"] a by (auto simp: al_ok_def)
  have k: "unat x \<in> tags ms" if "unat x \<in> tags (al_tagmask al)" "x \<noteq> h_tag h" for x using that unfolding ms(3) by (simp add: word_unat_eq_iff)
  have n: "h_tag h \<noteq> 0" "h_tag h \<noteq> - 1" "h_tag h \<notin> h_tag ` set (al_free al)" using a h by (auto simp: al_ok_def)
  have "{0, NOTAG} \<subseteq> tags ms" using k [of 0] k [of "- 1"] n a unat_tag(2) by (auto simp: al_ok_def)
  moreover have "\<forall>x \<in> (L - {h_tag h}) \<union> h_tag ` set (al_free al). unat x \<in> tags ms \<and> x \<noteq> 0 \<and> x \<noteq> - 1"
  proof
    fix x assume x: "x \<in> (L - {h_tag h}) \<union> h_tag ` set (al_free al)"
    then have "x \<noteq> h_tag h" using n(3) by auto
    moreover have "unat x \<in> tags (al_tagmask al) \<and> x \<noteq> 0 \<and> x \<noteq> - 1" using a x unfolding al_ok_def by blast
    ultimately show "unat x \<in> tags ms \<and> x \<noteq> 0 \<and> x \<noteq> - 1" using k by simp
  qed
  moreover have "mntfree al h = Some (al\<lparr>al_tagmask := ms, al_nrpcused := al_nrpcused al - 1\<rparr>)" using True ms(1) by (simp add: mntfree_def)
  ultimately show ?thesis using a ms(2) unfolding al_ok_def by (intro exI conjI) (assumption | simp | blast)+
next
  case False
  then show ?thesis using a h by (auto simp: mntfree_def al_ok_def)
qed

interpretation mt: tag_source mntralloc mntfree al_ok
  by unfold_locales (rule mntralloc_fresh mntralloc_fails mntfree_held; assumption)+

section \<open>Histories of requests\<close>

datatype rpcop = Begin bool bool nat | End nat

fun rpc_step :: "rpcop \<Rightarrow> mntalloc \<times> rpchdr list \<Rightarrow> (mntalloc \<times> rpchdr list) option" where
  "rpc_step (Begin hm bm n) (al, hs) = (case mntralloc al hm bm n of (al, Inr h) \<Rightarrow> Some (al, h # hs) | (al, Inl e) \<Rightarrow> Some (al, hs))"
| "rpc_step (End i) (al, hs) = (if i < length hs then map_option (\<lambda>al. (al, remove1 (hs ! i) hs)) (mntfree al (hs ! i)) else Some (al, hs))"

fun rpc_run :: "rpcop list \<Rightarrow> mntalloc \<times> rpchdr list \<Rightarrow> (mntalloc \<times> rpchdr list) option" where
  "rpc_run [] s = Some s"
| "rpc_run (x # xs) s = do { s \<leftarrow> rpc_step x s; rpc_run xs s }"

lemma rpc_step_uses:
  assumes "mt.outstanding s"
  shows "\<exists>s'. rpc_step x s = Some s' \<and> mt.uses\<^sup>*\<^sup>* s s'"
proof (cases x)
  case (Begin hm bm n)
  obtain al hs where s: "s = (al, hs)" by (cases s)
  obtain al' r where r: "mntralloc al hm bm n = (al', r)" by (cases "mntralloc al hm bm n")
  then show ?thesis using mt.begins mt.refused Begin s by (cases r) (auto intro: r_into_rtranclp)
next
  case (End i)
  obtain al hs where s: "s = (al, hs)" by (cases s)
  show ?thesis
  proof (cases "i < length hs")
    case True
    then have "hs ! i \<in> set hs" by simp
    moreover obtain al' where "mntfree al (hs ! i) = Some al'" using mntfree_held [of al "set (map h_tag hs)" "hs ! i"] assms s True by (auto simp: mt.outstanding_def)
    ultimately show ?thesis using End s True mt.ends [of "hs ! i" hs al al'] by (auto intro: r_into_rtranclp)
  qed (use End s in auto)
qed

lemma rpc_run_outstanding: "mt.outstanding s \<Longrightarrow> \<exists>s'. rpc_run xs s = Some s' \<and> mt.outstanding s'"
proof (induction xs arbitrary: s)
  case (Cons x xs)
  then obtain s1 where "rpc_step x s = Some s1" "mt.outstanding s1" using rpc_step_uses mt.history by blast
  then show ?case using Cons.IH [of s1] by simp
qed simp

text \<open>C35 (invariant). After any sequence of requests begun (with or without memory for header and buffer) and ended, the
  requests outstanding on all mount points have different tags, none of them 0 or \<open>NOTAG\<close>, the driver holds at most ten
  free headers and counts them right, and no step touches memory outside the tag mask.\<close>

theorem rpc_tags:
  "\<exists>al hs. rpc_run ops (mntalloc0, []) = Some (al, hs) \<and> distinct (map h_tag hs) \<and> {0, - 1} \<inter> h_tag ` set hs = {} \<and>
    al_nrpcfree al = int (length (al_free al)) \<and> length (al_free al) \<le> 10"
  using rpc_run_outstanding [of "(mntalloc0, [])" ops] mntalloc0_ok by (fastforce simp: mt.outstanding_def al_ok_def)

end
