(* ===== verification/MntRead.thy ===== *)
theory MntRead
  imports Qio FcallThms
begin

unbundle bit_operations_syntax

text \<open>How the mount driver reads a reply (\<open>svcs/devmnt.c\<close>): \<open>doread\<close> and \<open>mntrpcread\<close>, over the queues of \<open>Qio\<close>, the chains of \<open>Block\<close> and the decoder of \<open>Fcall\<close>. The
  connection is the list of what the following calls of the channel's \<open>bread\<close> give; a process that finds the list empty sleeps. An \<open>int\<close> is an \<open>int\<close> that came from a word
  by \<open>sint\<close>, so sizes above the range of \<open>int\<close> are negative as in the code.\<close>

section \<open>Reading a reply\<close>

text \<open>What a call of the channel's \<open>bread\<close> gives: a chain, the empty one for \<open>nil\<close>, or an error.\<close>

datatype bread = Bread "block list" | Bfail kerror

type_synonym 'a mop = "(queue \<times> bread list \<times> 'a reply) option"

definition mbind :: "'a mop \<Rightarrow> (queue \<Rightarrow> bread list \<Rightarrow> 'a \<Rightarrow> 'b mop) \<Rightarrow> 'b mop" where
  "mbind x k = (case x of None \<Rightarrow> None
     | Some (q, src, Ret a) \<Rightarrow> k q src a
     | Some (q, src, Asleep n) \<Rightarrow> Some (q, src, Asleep n)
     | Some (q, src, Err e) \<Rightarrow> Some (q, src, Err e))"

fun doread :: "queue \<Rightarrow> bread list \<Rightarrow> int \<Rightarrow> int mop" where
  "doread q [] len = (if qlen q < len then Some (q, [], Asleep 0) else Some (q, [], Ret 0))"
| "doread q (e # src) len = (if qlen q < len then
     case e of Bfail er \<Rightarrow> Some (q, src, Err er)
     | Bread b \<Rightarrow> if b = [] then Some (q, src, Ret (- 1))
        else if blocklen b = 0 then Some (q, src, Ret (- 1))
        else doread (qaddlist q b) src len
   else Some (q, e # src, Ret 0))"

definition mpull :: "(nat \<Rightarrow> bool) \<Rightarrow> queue \<Rightarrow> bread list \<Rightarrow> int \<Rightarrow> block mop" where
  "mpull km q src n = (case pullupqueue km q (nat n) of None \<Rightarrow> None
     | Some (Inl e) \<Rightarrow> Some (q, src, Err e)
     | Some (Inr q) \<Rightarrow> (case q_blocks q of [] \<Rightarrow> None | nb # _ \<Rightarrow> Some (q, src, Ret nb)))"

text \<open>
  The loop that hangs the data off the reply. The header, \<open>hlen\<close> bytes, is in the first block. A refused
  allocation raises with the block at hand already off the queue.
\<close>

function hang :: "(nat \<Rightarrow> bool) \<Rightarrow> queue \<Rightarrow> int \<Rightarrow> int \<Rightarrow> (queue \<times> block list \<times> kerror option) option" where
  "hang km q len hlen = (case qremove q of (q', None) \<Rightarrow> None
     | (q', Some b) \<Rightarrow>
        let b = (if hlen > 0 then b\<lparr>b_rp := b_rp b + nat hlen\<rparr> else b);
            len = (if hlen > 0 then len - hlen else len);
            i = int (BLEN b)
        in if i \<le> len then
             if len - i > 0 then map_option (\<lambda>(q, bs, e). (q, b # bs, e)) (hang km q' (len - i) 0)
             else Some (q', [b], None)
           else case iallocb km (nat (i - len)) of None \<Rightarrow> Some (q', [], Some Exhausted)
             | Some nb \<Rightarrow> if int (b_rp b) + len < 0 then None
                else do {
                  xs \<leftarrow> rdn (b_mem b) (nat (int (b_rp b) + len)) (nat (i - len));
                  nb \<leftarrow> bput nb xs;
                  Some (qputback q' nb, [b\<lparr>b_wp := nat (int (b_rp b) + len)\<rparr>], None) })"
  by pat_completeness auto

termination
  by (relation "measure (\<lambda>(km, q, len, hlen). length (q_blocks q))") (auto simp: qremove_def split: list.splits)

declare hang.simps [simp del]

text \<open>
  The part of a \<open>Mntrpc\<close> a reply is read into. The pointers of the reply are offsets from \<open>m_base\<close> in the
  memory of the first block of \<open>m_b\<close>.
\<close>

record mreply =
  m_reply :: rfcall
  m_b :: "block list"
  m_base :: nat

abbreviation HDRSZ :: int where "HDRSZ \<equiv> 7"

definition mnthang :: "(nat \<Rightarrow> bool) \<Rightarrow> queue \<Rightarrow> bread list \<Rightarrow> mreply \<Rightarrow> block \<Rightarrow> u32 \<Rightarrow> int \<Rightarrow> (int \<times> mreply) mop" where
  "mnthang km q src r nb w hlen = do {
     let len = sint w;
     (n, mem, f) \<leftarrow> convM2S (drop (b_rp nb) (b_mem nb)) (unat w) (m_reply r);
     let q = q\<lparr>q_blocks := nb\<lparr>b_mem := take (b_rp nb) (b_mem nb) @ mem\<rparr> # tl (q_blocks q)\<rparr>;
     if n = 0 then Some (fst (qdiscard q (nat len)), src, Ret (- 1, r\<lparr>m_reply := f\<rparr>))
     else do {
       (q, bs, e) \<leftarrow> hang km q len hlen;
       (case e of Some e \<Rightarrow> Some (q, src, Err e)
        | None \<Rightarrow> Some (q, src, Ret (0, \<lparr>m_reply = f, m_b = bs, m_base = b_rp nb\<rparr>))) } }"

definition mntbody :: "(nat \<Rightarrow> bool) \<Rightarrow> queue \<Rightarrow> bread list \<Rightarrow> mreply \<Rightarrow> block \<Rightarrow> u32 \<Rightarrow> (int \<times> mreply) mop" where
  "mntbody km q src r nb w = mbind (doread q src (sint w)) (\<lambda>q src k. if k < 0 then Some (q, src, Ret (- 1, r)) else do {
     t \<leftarrow> GBIT8 (b_mem nb) (b_rp nb + BIT32SZ);
     let hlen = (if t = Rread then HDRSZ + int BIT32SZ else sint w);
     mbind (mpull km q src hlen) (\<lambda>q src nb. mnthang km q src r nb w hlen) })"

definition mntrpcread :: "(nat \<Rightarrow> bool) \<Rightarrow> int \<Rightarrow> queue \<Rightarrow> bread list \<Rightarrow> mreply \<Rightarrow> (int \<times> mreply) mop" where
  "mntrpcread km mxsize q src r =
    (let r = r\<lparr>m_reply := (m_reply r)\<lparr>f_type := 0, f_tag := 0\<rparr>\<rparr> in
     mbind (doread q src HDRSZ) (\<lambda>q src k. if k < 0 then Some (q, src, Ret (- 1, r)) else
     mbind (mpull km q src HDRSZ) (\<lambda>q src nb. do {
       w \<leftarrow> GBIT32 (b_mem nb) (b_rp nb);
       if sint w > mxsize then Some (fst (qdiscard q (nat (qlen q))), src, Ret (- 1, r))
       else mntbody km q src r nb w })))"

end
