(* ===== verification/Mux.thy ===== *)
theory Mux
  imports MntTag MntRead
begin

unbundle bit_operations_syntax

text \<open>The multiplexer of the mount driver (\<open>svcs/devmnt.c\<close>): requests of several processes on one connection, of which one reads for all. Requests are objects at
  addresses; the queue of outstanding requests and the chains linked by \<open>flushed\<close> are lists of addresses; following a pointer to no object is \<open>None\<close>. The operations are
  functions, the processes in \<open>mountio\<close> a step relation over them, one step per section under the lock or per call that may sleep, with these steps joined: \<open>receive\<close> has the
  section of \<open>mountmux\<close> and the \<open>Wakeup(&q->r)\<close> that follows its \<open>unlock\<close> (in the code the process of \<open>q\<close> may see \<open>done\<close> in between by itself and free the request, and \<open>Wakeup\<close> then
  uses freed memory: this race is outside the model); \<open>answered\<close>, \<open>finish\<close> and \<open>failed\<close> have the sections of \<open>mntgate\<close> and of the calls of \<open>mntqrm\<close> in \<open>mntflushfree\<close>, with its test of
  \<open>done\<close>, which the code makes without the lock. \<open>Sleep\<close> and \<open>Wakeup\<close> are those of
  \<open>svcs/proc.c\<close>: the test and going to sleep are one step, since both run under the lock of the rendezvous.\<close>

section \<open>Requests and processes\<close>

type_synonym addr = nat

abbreviation Tmax :: byte where "Tmax \<equiv> 128"

text \<open>The fields of a \<open>Mntrpc\<close> that the multiplexer uses; \<open>rp_reply\<close> is \<open>reply\<close> and \<open>b\<close>.\<close>

record mrpc =
  rp_hdr :: rpchdr
  rp_type :: byte
  rp_oldtag :: u16
  rp_reply :: mreply
  rp_done :: bool

abbreviation rp_tag :: "mrpc \<Rightarrow> u16" where "rp_tag x \<equiv> h_tag (rp_hdr x)"

text \<open>
  Where a process is in \<open>mountio\<close>, with the chain of its requests linked by \<open>flushed\<close>: before the request is
  queued, in \<open>write\<close>, at the gate, before the test in \<open>Sleep\<close>, asleep on \<open>r->r\<close>, after \<open>Sleep\<close>, reading,
  in the error handler (\<open>True\<close> for \<open>Eintr\<close>), and returned to the caller that frees the request.
\<close>

datatype mpc = Idle | Sending "addr list" | Writing "addr list" | Gating "addr list" | Sleepy "addr list" | Waiting "addr list"
  | Woke "addr list" | Reading "addr list" | Caught bool "addr list" | Over addr

record mux =
  x_rpc :: "addr \<Rightarrow> mrpc option"
  x_queue :: "addr list"
  x_rip :: "nat option"
  x_pc :: "mpc list"
  x_q :: queue
  x_src :: "bread list"
  x_al :: mntalloc
  x_other :: "rpchdr list"   \<comment> \<open>requests on other mount points\<close>

section \<open>The operations\<close>

text \<open>\<open>Wakeup\<close> readies the process asleep on the rendezvous of a request and says whether there was one.\<close>

definition asleep_on :: "addr \<Rightarrow> mpc \<Rightarrow> bool" where
  "asleep_on a c = (case c of Waiting (b # _) \<Rightarrow> b = a | _ \<Rightarrow> False)"

definition Wakeup :: "mpc list \<Rightarrow> addr \<Rightarrow> mpc list \<times> bool" where
  "Wakeup ps a = (map (\<lambda>c. case c of Waiting (b # rs) \<Rightarrow> if b = a then Woke (b # rs) else c | _ \<Rightarrow> c) ps, list_ex (asleep_on a) ps)"

fun gate_loop :: "(addr \<Rightarrow> mrpc option) \<Rightarrow> mpc list \<Rightarrow> addr list \<Rightarrow> mpc list option" where
  "gate_loop H ps [] = Some ps"
| "gate_loop H ps (a # as) = do {
     q \<leftarrow> H a;
     if rp_done q then gate_loop H ps as
     else let (ps', w) = Wakeup ps a in if w then Some ps' else gate_loop H ps as }"

definition mntgate :: "mux \<Rightarrow> mux option" where
  "mntgate x = do { ps \<leftarrow> gate_loop (x_rpc x) (x_pc x) (x_queue x); Some (x\<lparr>x_rip := None, x_pc := ps\<rparr>) }"

fun mux_find :: "(addr \<Rightarrow> mrpc option) \<Rightarrow> u16 \<Rightarrow> addr list \<Rightarrow> addr option option" where
  "mux_find H t [] = Some None"
| "mux_find H t (a # as) = do { q \<leftarrow> H a; if rp_tag q = t then Some (Some a) else mux_find H t as }"

definition mountmux :: "mux \<Rightarrow> addr \<Rightarrow> mux option" where
  "mountmux x r = do {
     rr \<leftarrow> x_rpc x r;
     f \<leftarrow> mux_find (x_rpc x) (f_tag (m_reply (rp_reply rr))) (x_queue x);
     (case f of None \<Rightarrow> Some x
      | Some a \<Rightarrow> do {
          q \<leftarrow> x_rpc x a;
          let x = x\<lparr>x_queue := remove1 a (x_queue x)\<rparr>;
          if a \<noteq> r then Some (x\<lparr>x_rpc := (x_rpc x)(a \<mapsto> q\<lparr>rp_reply := rp_reply rr, rp_done := True\<rparr>, r \<mapsto> rr\<lparr>rp_reply := (rp_reply rr)\<lparr>m_b := []\<rparr>\<rparr>),
                                 x_pc := fst (Wakeup (x_pc x) a)\<rparr>)
          else Some (x\<lparr>x_rpc := (x_rpc x)(r \<mapsto> rr\<lparr>rp_done := True\<rparr>)\<rparr>) }) }"

definition mntqrm :: "mux \<Rightarrow> addr \<Rightarrow> mux option" where
  "mntqrm x r = do {
     rr \<leftarrow> x_rpc x r;
     Some (x\<lparr>x_rpc := (x_rpc x)(r \<mapsto> rr\<lparr>rp_done := True\<rparr>), x_queue := remove1 r (x_queue x)\<rparr>) }"

text \<open>\<open>fr\<close> is the address and \<open>y\<close> the old contents of the reply of what \<open>mntralloc\<close> gives.\<close>

definition mntflushalloc :: "mux \<Rightarrow> addr \<Rightarrow> bool \<Rightarrow> bool \<Rightarrow> nat \<Rightarrow> addr \<Rightarrow> mreply \<Rightarrow> (mux \<times> (kerror + addr)) option" where
  "mntflushalloc x r hm bm iounit fr y = (case mntralloc (x_al x) hm bm iounit of
       (al, Inl e) \<Rightarrow> Some (x\<lparr>x_al := al\<rparr>, Inl e)
     | (al, Inr h) \<Rightarrow> do {
         rr \<leftarrow> x_rpc x r;
         Some (x\<lparr>x_al := al, x_rpc := (x_rpc x)(fr \<mapsto> \<lparr>rp_hdr = h, rp_type = Tflush,
             rp_oldtag = (if rp_type rr = Tflush then rp_oldtag rr else rp_tag rr), rp_reply = y\<lparr>m_b := []\<rparr>, rp_done = False\<rparr>)\<rparr>, Inr fr) })"

text \<open>\<open>mntfree\<close> of a request: its header goes back, the object is gone.\<close>

definition rpcfree :: "mux \<Rightarrow> addr \<Rightarrow> mux option" where
  "rpcfree x r = do { rr \<leftarrow> x_rpc x r; al \<leftarrow> mntfree (x_al x) (rp_hdr rr); Some (x\<lparr>x_al := al, x_rpc := (x_rpc x)(r := None)\<rparr>) }"

fun mntflushfree :: "mux \<Rightarrow> addr list \<Rightarrow> mux option" where
  "mntflushfree x [] = Some x"
| "mntflushfree x (r # rs) = do {
     rr \<leftarrow> x_rpc x r;
     x \<leftarrow> (if rp_done rr then Some x
           else mntqrm (x\<lparr>x_rpc := (x_rpc x)(r \<mapsto> rr\<lparr>rp_reply := m_reply_update (f_type_update (\<lambda>_. Rflush)) (rp_reply rr)\<rparr>)\<rparr>) r);
     x \<leftarrow> (if rs \<noteq> [] then rpcfree x r else Some x);
     mntflushfree x rs }"

definition rpcattn :: "mux \<Rightarrow> addr \<Rightarrow> bool option" where
  "rpcattn x r = do { rr \<leftarrow> x_rpc x r; Some (rp_done rr \<or> x_rip x = None) }"

text \<open>The start of a request: \<open>mntralloc\<close> by the caller and the first lines of \<open>mountrpc\<close>.\<close>

definition newrpc :: "rpchdr \<Rightarrow> byte \<Rightarrow> mreply \<Rightarrow> mrpc" where
  "newrpc h t y = \<lparr>rp_hdr = h, rp_type = t, rp_oldtag = 0,
     rp_reply = y\<lparr>m_b := [], m_reply := (m_reply y)\<lparr>f_tag := 0, f_type := Tmax\<rparr>\<rparr>, rp_done = False\<rparr>"

abbreviation Eintr :: "byte list" where
  "Eintr \<equiv> [0x69, 0x6E, 0x74, 0x65, 0x72, 0x72, 0x75, 0x70, 0x74, 0x65, 0x64]"

definition interrupted :: "'a reply \<Rightarrow> bool" where
  "interrupted v = (case v of Err (Raised s) \<Rightarrow> s = Eintr | _ \<Rightarrow> False)"

abbreviation is_at :: "mux \<Rightarrow> nat \<Rightarrow> mpc \<Rightarrow> bool" where
  "is_at x p c \<equiv> p < length (x_pc x) \<and> x_pc x ! p = c"

abbreviation goto :: "mux \<Rightarrow> nat \<Rightarrow> mpc \<Rightarrow> mux" where
  "goto x p c \<equiv> x\<lparr>x_pc := (x_pc x)[p := c]\<rparr>"

text \<open>The first lines of the error handler: \<open>if(m->rip == up) mntgate(m)\<close>.\<close>

definition handler :: "mux \<Rightarrow> nat \<Rightarrow> mux option" where
  "handler x p = (if x_rip x = Some p then mntgate x else Some x)"

section \<open>The steps of the processes\<close>

text \<open>
  \<open>wfail\<close>: the channel's \<open>write\<close> may fail; \<open>am\<close>: \<open>mntflushalloc\<close> may find no memory. Blocks for the input queue are
  always there.
\<close>

inductive mstep :: "bool \<Rightarrow> bool \<Rightarrow> nat \<Rightarrow> mux \<Rightarrow> mux \<Rightarrow> bool" for wfail am n where
  call: "is_at x p Idle \<Longrightarrow> mntralloc (x_al x) hm bm n = (al, Inr h) \<Longrightarrow> x_rpc x a = None \<Longrightarrow> wf_rfcall (m_reply y) \<Longrightarrow>
    mstep wfail am n x (goto (x\<lparr>x_al := al, x_rpc := (x_rpc x)(a \<mapsto> newrpc h t y)\<rparr>) p (Sending [a]))"
| enqueue: "is_at x p (Sending (a # c)) \<Longrightarrow> mstep wfail am n x (goto (x\<lparr>x_queue := a # x_queue x\<rparr>) p (Writing (a # c)))"
| written: "is_at x p (Writing c) \<Longrightarrow> mstep wfail am n x (goto x p (Gating c))"
| unwritten: "is_at x p (Writing c) \<Longrightarrow> wfail \<Longrightarrow> mstep wfail am n x (goto x p (Caught False c))"
| gate: "is_at x p (Gating c) \<Longrightarrow> x_rip x = None \<Longrightarrow> mstep wfail am n x (goto (x\<lparr>x_rip := Some p\<rparr>) p (Reading c))"
| sleepy: "is_at x p (Gating c) \<Longrightarrow> x_rip x \<noteq> None \<Longrightarrow> mstep wfail am n x (goto x p (Sleepy c))"
| sleep: "is_at x p (Sleepy (a # c)) \<Longrightarrow> rpcattn x a = Some b \<Longrightarrow> mstep wfail am n x (goto x p (if b then Woke (a # c) else Waiting (a # c)))"
| again: "is_at x p (Woke (a # c)) \<Longrightarrow> x_rpc x a = Some rr \<Longrightarrow> \<not> rp_done rr \<Longrightarrow> mstep wfail am n x (goto x p (Gating (a # c)))"
| answered: "is_at x p (Woke (a # c)) \<Longrightarrow> x_rpc x a = Some rr \<Longrightarrow> rp_done rr \<Longrightarrow> mntflushfree x (a # c) = Some x' \<Longrightarrow>
    mstep wfail am n x (goto x' p (Over (last (a # c))))"
| receive: "is_at x p (Reading (a # c)) \<Longrightarrow> x_rpc x a = Some rr \<Longrightarrow> \<not> rp_done rr \<Longrightarrow>
    mntrpcread (\<lambda>_. True) (int n) (x_q x) (x_src x) (rp_reply rr) = Some (q, src, Ret (0, y)) \<Longrightarrow>
    mountmux (x\<lparr>x_q := q, x_src := src, x_rpc := (x_rpc x)(a \<mapsto> rr\<lparr>rp_reply := y\<rparr>)\<rparr>) a = Some x' \<Longrightarrow> mstep wfail am n x x'"
| unread: "is_at x p (Reading (a # c)) \<Longrightarrow> x_rpc x a = Some rr \<Longrightarrow> \<not> rp_done rr \<Longrightarrow>
    mntrpcread (\<lambda>_. True) (int n) (x_q x) (x_src x) (rp_reply rr) = Some (q, src, v) \<Longrightarrow> (\<exists>k y. v = Ret (k, y) \<and> k < 0) \<or> (\<exists>e. v = Err e) \<Longrightarrow>
    mstep wfail am n x (goto (x\<lparr>x_q := q, x_src := src\<rparr>) p (Caught (interrupted v) (a # c)))"
| finish: "is_at x p (Reading (a # c)) \<Longrightarrow> x_rpc x a = Some rr \<Longrightarrow> rp_done rr \<Longrightarrow> mntgate x = Some z \<Longrightarrow> mntflushfree z (a # c) = Some x' \<Longrightarrow>
    mstep wfail am n x (goto x' p (Over (last (a # c))))"
| interrupt: "is_at x p s \<Longrightarrow> s \<in> {Writing c, Sleepy c, Waiting c, Woke c} \<Longrightarrow> mstep wfail am n x (goto x p (Caught True c))"
| failed: "is_at x p (Caught False c) \<Longrightarrow> handler x p = Some z \<Longrightarrow> mntflushfree z c = Some x' \<Longrightarrow>
    mstep wfail am n x (goto x' p (Over (last c)))"
| flush: "is_at x p (Caught True (a # c)) \<Longrightarrow> handler x p = Some z \<Longrightarrow> x_rpc x fr = None \<Longrightarrow> wf_rfcall (m_reply y) \<Longrightarrow>
    mntflushalloc z a hm bm n fr y = Some (x', Inr fr) \<Longrightarrow> mstep wfail am n x (goto x' p (Sending (fr # a # c)))"
| noflush: "is_at x p (Caught True (a # c)) \<Longrightarrow> am \<Longrightarrow> handler x p = Some z \<Longrightarrow> mntflushalloc z a hm bm n fr y = Some (x', Inl e) \<Longrightarrow>
    mstep wfail am n x (goto x' p (Over (last (a # c))))"
| leave: "is_at x p (Over a) \<Longrightarrow> rpcfree x a = Some x' \<Longrightarrow> mstep wfail am n x (goto x' p Idle)"
| nocall: "mntralloc (x_al x) hm bm k = (al, Inl e) \<Longrightarrow> mstep wfail am n x (x\<lparr>x_al := al\<rparr>)"
| elsewhere: "mntralloc (x_al x) hm bm k = (al, Inr h) \<Longrightarrow> mstep wfail am n x (x\<lparr>x_al := al, x_other := h # x_other x\<rparr>)"
| elsefree: "h \<in> set (x_other x) \<Longrightarrow> mntfree (x_al x) h = Some al \<Longrightarrow> mstep wfail am n x (x\<lparr>x_al := al, x_other := remove1 h (x_other x)\<rparr>)"
| arrive: "mstep wfail am n x (x\<lparr>x_src := x_src x @ src\<rparr>)"

end
