(* ===== verification/MntReadThms.thy ===== *)
theory MntReadThms
  imports MntRead QioReads
begin

unbundle bit_operations_syntax

text \<open>What \<open>mntrpcread\<close> does to a stream of messages, on any division into blocks; its safety on any input; and the sizes it does not guard against. \<open>mq\<close> is what is
  left of the invariant of the input queue after \<open>pullupqueue\<close>, which does not keep \<open>len\<close>.\<close>

section \<open>The stream\<close>

definition mq :: "queue \<Rightarrow> bool" where
  "mq q \<longleftrightarrow> wf_chain (q_blocks q) \<and> q_dlen q = int (blocklen (q_blocks q))"

definition wf_src :: "bread list \<Rightarrow> bool" where
  "wf_src src \<longleftrightarrow> list_all (\<lambda>e. case e of Bread bs \<Rightarrow> wf_chain bs \<and> 0 < blocklen bs | Bfail _ \<Rightarrow> False) src"

fun srcbytes :: "bread \<Rightarrow> byte list" where
  "srcbytes (Bread bs) = cbytes bs"
| "srcbytes (Bfail e) = []"

definition stream :: "queue \<Rightarrow> bread list \<Rightarrow> byte list" where
  "stream q src = qbytes q @ concat (map srcbytes src)"

lemma mbind_simps [simp]: "mbind None k = None" "mbind (Some (q, src, Ret a)) k = k q src a"
    "mbind (Some (q, src, Asleep n)) k = Some (q, src, Asleep n)" "mbind (Some (q, src, Err e)) k = Some (q, src, Err e)"
  by (simp_all add: mbind_def)

lemma mq_length: "mq q \<Longrightarrow> qlen q = int (length (qbytes q))"
  by (simp add: mq_def qlen_def qbytes_def chain_simps)

lemma mq_qaddlist: "mq q \<Longrightarrow> wf_chain bs \<Longrightarrow> mq (qaddlist q bs) \<and> qbytes (qaddlist q bs) = qbytes q @ cbytes bs"
  by (simp add: mq_def qaddlist_def qbytes_def)

lemma doread_ok:
  "\<lbrakk> mq q; wf_src src; len \<le> int (length (stream q src)) \<rbrakk> \<Longrightarrow>
   \<exists>q' src' bs. doread q src len = Some (q', src', Ret 0) \<and> mq q' \<and> wf_src src' \<and> stream q' src' = stream q src \<and>
     len \<le> int (length (qbytes q')) \<and> q_blocks q' = q_blocks q @ bs"
proof (induction q src len rule: doread.induct)
  case (1 q len)
  then show ?case using mq_length [of q] by (auto simp: stream_def)
next
  case (2 q e src len)
  show ?case
  proof (cases "qlen q < len")
    case True
    obtain bs where e: "e = Bread bs" "wf_chain bs" "0 < blocklen bs" "wf_src src" using 2(3) by (auto simp: wf_src_def split: bread.splits)
    have s: "stream (qaddlist q bs) src = stream q (e # src)" using mq_qaddlist [OF 2(2) e(2)] e(1) by (simp add: stream_def)
    have ne: "bs \<noteq> []" using e(3) by auto
    from 2(1) [OF True e(1) ne _ _ e(4)] mq_qaddlist [OF 2(2) e(2)] 2(4) s e(3) obtain q' src' bs' where
      "doread (qaddlist q bs) src len = Some (q', src', Ret 0)" "mq q'" "wf_src src'" "stream q' src' = stream q (e # src)"
      "len \<le> int (length (qbytes q'))" "q_blocks q' = q_blocks (qaddlist q bs) @ bs'" by auto
    then show ?thesis using True e ne by (auto simp: qaddlist_def)
  next
    case False
    then show ?thesis using 2 mq_length [of q] by auto
  qed
qed

lemma mpull_ok:
  assumes q: "mq q" and n: "n \<le> int (length (qbytes q))" and ne: "q_blocks q \<noteq> []"
  shows "(\<exists>q' nb. mpull km q src n = Some (q', src, Ret nb) \<and> mq q' \<and> qbytes q' = qbytes q \<and> (\<exists>rest. q_blocks q' = nb # rest) \<and>
      n \<le> int (BLEN nb) \<and> BLEN (hd (q_blocks q)) \<le> BLEN nb \<and> wf_block nb) \<or> (\<exists>n. \<not> km n) \<and> mpull km q src n = Some (q, src, Err Exhausted)"
proof (cases "nat n \<le> BLEN (hd (q_blocks q))")
  case True
  then show ?thesis using ne q by (cases "q_blocks q") (auto simp: mpull_def pullupqueue_def mq_def)
next
  case False
  have w: "wf_chain (q_blocks q)" using q by (simp add: mq_def)
  have le: "nat n \<le> blocklen (q_blocks q)" using n w by (simp add: qbytes_def chain_simps)
  have p: "pullupqueue km q (nat n) = map_option (map_sum id (\<lambda>bs. q\<lparr>q_blocks := bs\<rparr>)) (pullupblock km (q_blocks q) (nat n))"
    using False ne by (cases "q_blocks q") (auto simp: pullupqueue_def)
  consider r where "pullupblock km (q_blocks q) (nat n) = Some (Inr r)" "wf_chain r" "cbytes r = cbytes (q_blocks q)" "r \<noteq> []"
      "BLEN (hd r) = max (nat n) (BLEN (hd (q_blocks q)))"
    | "pullupblock km (q_blocks q) (nat n) = Some (Inl Exhausted)" "\<exists>n. \<not> km n"
    using pullupblock_ok [OF w ne, of km "nat n"] le by (auto simp: outcome_def split: option.splits sum.splits)
  then show ?thesis
  proof cases
    case 1
    then obtain nb rest where r: "r = nb # rest" by (cases r) auto
    have "blocklen r = blocklen (q_blocks q)" using 1(2,3) w by (metis length_cbytes)
    then show ?thesis using 1 r p q w by (auto simp: mpull_def mq_def qbytes_def)
  next
    case 2
    then show ?thesis using p by (simp add: mpull_def)
  qed
qed

lemma mq_qremove:
  assumes "mq q" "q_blocks q = b # bs"
  shows "\<exists>q'. qremove q = (q', Some b) \<and> mq q' \<and> wf_block b \<and> q_blocks q' = bs \<and> qbytes q = bbytes b @ qbytes q'"
  using assms by (simp add: mq_def qremove_def qbytes_def)

lemma mq_qputback: "mq q \<Longrightarrow> wf_block b \<Longrightarrow> mq (qputback q b) \<and> qbytes (qputback q b) = bbytes b @ qbytes q"
  by (simp add: mq_def qputback_def qbytes_def)

text \<open>Taking bytes off the front of a block, and cutting it.\<close>

lemma bskip: "wf_block b \<Longrightarrow> n \<le> BLEN b \<Longrightarrow> wf_block (b\<lparr>b_rp := b_rp b + n\<rparr>) \<and> bbytes (b\<lparr>b_rp := b_rp b + n\<rparr>) = drop n (bbytes b) \<and>
    BLEN (b\<lparr>b_rp := b_rp b + n\<rparr>) = BLEN b - n"
  by (auto simp: wf_block_def bbytes_def BLEN_def drop_take add.commute)

lemma bcut: "wf_block b \<Longrightarrow> n \<le> BLEN b \<Longrightarrow> wf_block (b\<lparr>b_wp := b_rp b + n\<rparr>) \<and> bbytes (b\<lparr>b_wp := b_rp b + n\<rparr>) = take n (bbytes b)"
  by (auto simp: wf_block_def bbytes_def BLEN_def min.absorb1)

lemma btail: "wf_block b \<Longrightarrow> n \<le> BLEN b \<Longrightarrow> rdn (b_mem b) (b_rp b + n) (BLEN b - n) = Some (drop n (bbytes b))"
  by (auto simp: wf_block_def bbytes_def BLEN_def rdn_def drop_take add.commute)

lemma bput_newb_all: "\<exists>nb. bput (newb (length xs)) xs = Some nb \<and> wf_block nb \<and> bbytes nb = xs"
  by (auto simp: bput_def wrn_def newb_def wf_block_def bbytes_def BLEN_def)

definition hung :: "(nat \<Rightarrow> bool) \<Rightarrow> byte list \<Rightarrow> byte list \<Rightarrow> (queue \<times> block list \<times> kerror option) option \<Rightarrow> (block \<Rightarrow> bool) \<Rightarrow> bool" where
  "hung km xs ys x P \<longleftrightarrow> (\<exists>q b bs. x = Some (q, b # bs, None) \<and> mq q \<and> wf_chain (b # bs) \<and> cbytes (b # bs) = xs \<and> qbytes q = ys \<and> P b) \<or>
     (\<exists>n. \<not> km n) \<and> (\<exists>q bs. x = Some (q, bs, Some Exhausted) \<and> mq q)"

lemma hang_nat: "(if int a \<le> int k then if int k - int a > 0 then f (int k - int a) else y
     else case g (nat (int a - int k)) of None \<Rightarrow> z | Some nb \<Rightarrow> if int r + int k < 0 then None else u nb (nat (int r + int k)) (nat (int a - int k)))
   = (if a \<le> k then if k - a > 0 then f (int (k - a)) else y else case g (a - k) of None \<Rightarrow> z | Some nb \<Rightarrow> u nb (r + k) (a - k))"
proof -
  have "nat (int a - int k) = a - k" "nat (int r + int k) = r + k" by linarith+
  moreover have "\<not> int r + int k < 0" by simp
  ultimately show ?thesis by (auto simp: of_nat_diff split: option.split)
qed

lemma hang_step:
  assumes q: "mq q" "q_blocks q = b # bs" and h: "h \<le> BLEN b" "h \<le> n"
    and n: "n \<le> length (qbytes q)"
  shows "hung km (take (n - h) (drop h (qbytes q))) (drop n (qbytes q)) (hang km q (int n) (int h)) (\<lambda>b'. b_mem b' = b_mem b)"
  using assms
proof (induction "q_blocks q" arbitrary: q b bs h n)
  case (Cons b0 bs0)
  obtain q' where q': "qremove q = (q', Some b)" "mq q'" "wf_block b" "q_blocks q' = bs" "qbytes q = bbytes b @ qbytes q'"
    using mq_qremove [OF Cons.prems(1,2)] by auto
  define c where "c = b\<lparr>b_rp := b_rp b + h\<rparr>"
  have c: "wf_block c" "bbytes c = drop h (bbytes b)" "BLEN c = BLEN b - h" "b_mem c = b_mem b"
    using bskip [OF q'(3) Cons.prems(3)] by (simp_all add: c_def)
  have ch: "(if int h > 0 then b\<lparr>b_rp := b_rp b + nat (int h)\<rparr> else b) = c" by (simp add: c_def)
  have lh: "(if int h > 0 then int n - int h else int n) = int (n - h)" using Cons.prems(4) by auto
  have lb: "length (bbytes b) = BLEN b" using q'(3) by (rule length_bbytes)
  have e: "hang km q (int n) (int h) = (if BLEN c \<le> n - h then
        if n - h - BLEN c > 0 then map_option (\<lambda>(q, bs, e). (q, c # bs, e)) (hang km q' (int (n - h - BLEN c)) 0)
        else Some (q', [c], None)
      else case iallocb km (BLEN c - (n - h)) of None \<Rightarrow> Some (q', [], Some Exhausted)
        | Some nb \<Rightarrow> do { xs \<leftarrow> rdn (b_mem c) (b_rp c + (n - h)) (BLEN c - (n - h)); nb \<leftarrow> bput nb xs;
            Some (qputback q' nb, [c\<lparr>b_wp := b_rp c + (n - h)\<rparr>], None) })"
    unfolding hang.simps [of km q] q'(1) prod.case option.case ch lh Let_def by (rule hang_nat)
  show ?case
  proof (cases "BLEN c \<le> n - h")
    case True
    show ?thesis
    proof (cases "n - h - BLEN c > 0")
      case more: True
      obtain b1 bs1 where b1: "bs = b1 # bs1"
        using more Cons.prems(5) q'(4,5) lb c(3) Cons.prems(3) by (cases bs) (auto simp: qbytes_def)
      have le: "n - h - BLEN c \<le> length (qbytes q')" using Cons.prems(5) q'(5) lb c(3) by simp
      have "bs0 = q_blocks q'" "q_blocks q' = b1 # bs1" using Cons.hyps(2) Cons.prems(2) q'(4) b1 by simp_all
      from Cons.hyps(1) [OF this(1) q'(2) this(2), of 0 "n - h - BLEN c"] le
      have IH: "hung km (take (n - h - BLEN c) (qbytes q')) (drop (n - h - BLEN c) (qbytes q')) (hang km q' (int (n - h - BLEN c)) 0) (\<lambda>b'. b_mem b' = b_mem b1)" by simp
      have t: "take (n - h) (drop h (qbytes q)) = bbytes c @ take (n - h - BLEN c) (qbytes q')"
        "drop n (qbytes q) = drop (n - h - BLEN c) (qbytes q')"
        using q'(5) c(2,3) lb Cons.prems(3,4) True by simp_all
      show ?thesis unfolding e t using IH True more c by (auto simp: hung_def)
    next
      case False
      then have "n - h = BLEN c" using True by simp
      then show ?thesis unfolding e using True False c q' lb Cons.prems(3,4) by (auto simp: hung_def)
    qed
  next
    case False
    then have le: "n - h \<le> BLEN c" by simp
    obtain nb where nb: "bput (newb (BLEN c - (n - h))) (drop (n - h) (bbytes c)) = Some nb" "wf_block nb" "bbytes nb = drop (n - h) (bbytes c)"
      using bput_newb_all [of "drop (n - h) (bbytes c)"] length_bbytes [OF c(1)] by auto
    have "take (n - h) (drop h (qbytes q)) = take (n - h) (bbytes c)" "drop n (qbytes q) = drop (n - h) (bbytes c) @ qbytes q'"
      using q'(5) c(2,3) lb Cons.prems(3,4) le by simp_all
    then show ?thesis unfolding e using False nb mq_qputback [OF q'(2) nb(2)] bcut [OF c(1) le] btail [OF c(1) le] c(4) q'(2)
      by (auto simp: hung_def iallocb_newb)
  qed
qed simp

definition reply_is :: "u16 \<Rightarrow> msg \<Rightarrow> mreply \<Rightarrow> bool" where
  "reply_is tag m r \<longleftrightarrow> f_tag (m_reply r) = tag \<and> f_type (m_reply r) = mtype m \<and> m_b r \<noteq> [] \<and> wf_chain (m_b r) \<and>
     (case m of MRread d \<Rightarrow> f_count (m_reply r) = of_nat (length d) \<and> cbytes (m_b r) = d
      | _ \<Rightarrow> rview (drop (m_base r) (b_mem (hd (m_b r)))) (m_reply r) = Some m)"

lemma mtype_Rread: "mtype m = Rread \<longleftrightarrow> (\<exists>d. m = MRread d)"
  by (cases m) auto

lemma reply_is_other: "mtype m \<noteq> Rread \<Longrightarrow> reply_is tag m r \<longleftrightarrow> f_tag (m_reply r) = tag \<and> f_type (m_reply r) = mtype m \<and> m_b r \<noteq> [] \<and>
    wf_chain (m_b r) \<and> rview (drop (m_base r) (b_mem (hd (m_b r)))) (m_reply r) = Some m"
  by (cases m) (simp_all add: reply_is_def)

lemma length_enc: "length (enc tag m) = msize m"
  by (simp add: enc_def msize_def)

lemma msize_ge: "7 \<le> msize m" by (simp add: msize_def)

lemma convM2S_Rread:
  assumes b: "take 11 b = take 11 (enc tag (MRread d))" and wf: "wf_msg (MRread d)" and l: "11 \<le> length b"
  shows "convM2S b (msize (MRread d)) f = Some (msize (MRread d), b, f\<lparr>f_type := Rread, f_tag := tag, f_count := of_nat (length d), f_data := 11\<rparr>)"
proof -
  have "msize (MRread d) < 2 ^ 32" using wf by (simp add: wf_msg_def)
  moreover have sz: "msize (MRread d) = 11 + length d" by (simp add: msize_def)
  ultimately have m: "unat (of_nat (msize (MRread d)) :: u32) = msize (MRread d)" "unat (of_nat (length d) :: u32) = length d"
    by (simp_all only: unat_of_nat) (simp_all add: take_bit_nat_eq_self)
  have "window b 11 0 (le32 (of_nat (msize (MRread d))) @ le8 Rread @ le16 tag @ le32 (of_nat (length d)) @ [])"
    using b l by (simp add: window_def enc_def)
  then have "GBIT32 b 0 = Some (of_nat (msize (MRread d)))" "GBIT8 b 4 = Some Rread" "GBIT16 b 5 = Some tag" "GBIT32 b 7 = Some (of_nat (length d))"
    using f32.window_get [of b 11 7 _ "[]"] by (auto dest!: window_dest)
  then show ?thesis using m sz by (simp add: convM2S_def convM2S_T_def convM2S_R_def)
qed

lemma rview_type: "rview b f = Some m \<Longrightarrow> f_type f = mtype m"
  by (auto simp: rview_def view_def Let_def split: if_splits)

lemma bbytes_prefix:
  assumes "wf_block b" "bbytes b @ xs = ys" "p + n \<le> BLEN b"
  shows "take n (drop (b_rp b + p) (b_mem b)) = take n (drop p ys)"
proof -
  have "take n (drop p (bbytes b)) = take n (drop (b_rp b + p) (b_mem b))"
    using assms(3) by (simp add: bbytes_def drop_take add.commute min.absorb1)
  then show ?thesis using assms length_bbytes [OF assms(1)] by auto
qed

lemma sint_small: "n < 2 ^ 31 \<Longrightarrow> sint (of_nat n :: u32) = int n"
  by (simp add: signed_of_nat signed_take_bit_int_eq_self)


text \<open>Decoding at the front of the queue changes bytes of the message at most.\<close>

lemma redecode:
  assumes q: "mq q" "q_blocks q = nb # rest" and n: "n \<le> BLEN nb"
    and mem: "length mem = length (drop (b_rp nb) (b_mem nb))" "drop n mem = drop n (drop (b_rp nb) (b_mem nb))"
  defines "c \<equiv> nb\<lparr>b_mem := take (b_rp nb) (b_mem nb) @ mem\<rparr>"
  defines "q' \<equiv> q\<lparr>q_blocks := c # rest\<rparr>"
  shows "mq q'" "length (qbytes q') = length (qbytes q)" "drop n (qbytes q') = drop n (qbytes q)" "drop (b_rp nb) (b_mem c) = mem" "BLEN c = BLEN nb"
proof -
  have w: "wf_block nb" using q by (simp add: mq_def)
  then have c: "wf_block c" "BLEN c = BLEN nb" "bbytes c = take (BLEN nb) mem"
    using mem(1) by (auto simp: c_def wf_block_def BLEN_def bbytes_def)
  have d: "drop n (bbytes c) = drop n (bbytes nb)" unfolding c(3) bbytes_def [of nb] using mem(2) by (simp only: drop_take)
  show "mq q'" using q c by (simp add: mq_def q'_def)
  show "length (qbytes q') = length (qbytes q)" "drop n (qbytes q') = drop n (qbytes q)"
    using c d w n q(2) length_bbytes [OF w] length_bbytes [OF c(1)] by (simp_all add: q'_def qbytes_def)
  show "drop (b_rp nb) (b_mem c) = mem" "BLEN c = BLEN nb" using c(2) w by (simp_all add: c_def wf_block_def BLEN_def)
qed

definition mreads :: "(nat \<Rightarrow> bool) \<Rightarrow> u16 \<Rightarrow> msg \<Rightarrow> byte list \<Rightarrow> (int \<times> mreply) mop \<Rightarrow> bool" where
  "mreads km tag m rest x \<longleftrightarrow>
     (\<exists>q src r. x = Some (q, src, Ret (0, r)) \<and> mq q \<and> wf_src src \<and> stream q src = rest \<and> reply_is tag m r) \<or>
     (\<exists>n. \<not> km n) \<and> (\<exists>q src. x = Some (q, src, Err Exhausted))"

lemma mnthang_ok:
  assumes q: "mq q" "q_blocks q = nb # bl" and src: "wf_src src" and s: "stream q src = enc tag m @ rest"
    and m: "wf_msg m" "msize m < 2 ^ 31" "msize m \<le> length (qbytes q)" and f: "wf_rfcall (m_reply r)"
    and h: "h = (if mtype m = Rread then 11 else msize m)" "h \<le> BLEN nb"
  shows "mreads km tag m rest (mnthang km q src r nb (of_nat (msize m)) (int h))"
proof -
  have w: "wf_block nb" using q by (simp add: mq_def)
  have n: "unat (of_nat (msize m) :: u32) = msize m" "sint (of_nat (msize m) :: u32) = int (msize m)"
    using m(1,2) by (simp_all add: wf_msg_def unat_of_nat take_bit_nat_eq_self sint_small)
  have qe: "take (msize m) (qbytes q) = enc tag m" "drop (msize m) (qbytes q) @ concat (map srcbytes src) = rest"
  proof -
    have "take (msize m) (stream q src) = take (msize m) (qbytes q)" "drop (msize m) (stream q src) = drop (msize m) (qbytes q) @ concat (map srcbytes src)"
      using m(3) by (simp_all add: stream_def)
    then show "take (msize m) (qbytes q) = enc tag m" "drop (msize m) (qbytes q) @ concat (map srcbytes src) = rest"
      using s length_enc [of tag m] by simp_all
  qed
  have hn: "h \<le> msize m" "0 < msize m" using h(1) msize_ge [of m] by (auto simp: mtype_Rread msize_def)
  have hb: "take h (drop (b_rp nb) (b_mem nb)) = take h (enc tag m)"
  proof -
    have "take h (drop (b_rp nb) (b_mem nb)) = take h (qbytes q)"
      using bbytes_prefix [OF w, of "cbytes bl" "qbytes q" 0 h] h(2) q(2) by (simp add: qbytes_def)
    also have "\<dots> = take h (take (msize m) (qbytes q))" using hn(1) by (simp add: min.absorb1)
    finally show ?thesis unfolding qe(1) .
  qed
  show ?thesis
  proof (cases "mtype m = Rread")
    case True
    then obtain d where d: "m = MRread d" by (auto simp: mtype_Rread)
    have h11: "h = 11" using h(1) True by simp
    have lb: "11 \<le> length (drop (b_rp nb) (b_mem nb))" using h(2) h11 w by (auto simp: wf_block_def BLEN_def)
    define f where "f = (m_reply r)\<lparr>f_type := Rread, f_tag := tag, f_count := of_nat (length d), f_data := 11\<rparr>"
    have c: "convM2S (drop (b_rp nb) (b_mem nb)) (msize m) (m_reply r) = Some (msize m, drop (b_rp nb) (b_mem nb), f)"
      unfolding d f_def by (rule convM2S_Rread) (use hb m(1) lb in \<open>simp_all add: d h11\<close>)
    have same: "q\<lparr>q_blocks := nb # tl (q_blocks q)\<rparr> = q" using q(2) by simp
    have x: "mnthang km q src r nb (of_nat (msize m)) (int h) = Option.bind (hang km q (int (msize m)) (int h))
      (\<lambda>(q, bs, e). case e of Some e \<Rightarrow> Some (q, src, Err e) | None \<Rightarrow> Some (q, src, Ret (0, \<lparr>m_reply = f, m_b = bs, m_base = b_rp nb\<rparr>)))"
      unfolding mnthang_def n c Let_def using hn(2) by (simp add: same)
    have "take (msize m - 11) (drop 11 (qbytes q)) = drop 11 (take (msize m) (qbytes q))" by (simp add: drop_take)
    also have "\<dots> = d" by (simp add: qe(1)) (simp add: d enc_def)
    finally have "hung km d (drop (msize m) (qbytes q)) (hang km q (int (msize m)) (int h)) (\<lambda>b'. b_mem b' = b_mem nb)"
      using hang_step [OF q h(2) hn(1) m(3), of km] by (simp add: h11)
    then show ?thesis unfolding x using qe(2)
      by (auto simp: hung_def mreads_def reply_is_def f_def d stream_def src)
  next
    case False
    have hm: "h = msize m" using h(1) False by simp
    have lb: "msize m \<le> length (drop (b_rp nb) (b_mem nb))" using h(2) hm w by (auto simp: wf_block_def BLEN_def)
    have win: "window (drop (b_rp nb) (b_mem nb)) (msize m) 0 (enc tag m @ [])" using hb hm lb length_enc [of tag m] by (simp add: window_def)
    obtain mem f where c: "convM2S (drop (b_rp nb) (b_mem nb)) (msize m) (m_reply r) = Some (msize m, mem, f)" "rview mem f = Some m" "f_tag f = tag"
      using convM2S_dec [OF win m(1) f] by auto
    have mem: "length mem = length (drop (b_rp nb) (b_mem nb))" "drop (msize m) mem = drop (msize m) (drop (b_rp nb) (b_mem nb))"
      using convM2S_total [OF lb f] c(1) by auto
    define c' where "c' = nb\<lparr>b_mem := take (b_rp nb) (b_mem nb) @ mem\<rparr>"
    define q' where "q' = q\<lparr>q_blocks := c' # bl\<rparr>"
    have q': "mq q'" "length (qbytes q') = length (qbytes q)" "drop (msize m) (qbytes q') = drop (msize m) (qbytes q)" "drop (b_rp nb) (b_mem c') = mem" "BLEN c' = BLEN nb"
      using redecode [OF q, of "msize m" mem] h(2) hm mem unfolding q'_def c'_def by auto
    have x: "mnthang km q src r nb (of_nat (msize m)) (int h) = Option.bind (hang km q' (int (msize m)) (int h))
      (\<lambda>(q, bs, e). case e of Some e \<Rightarrow> Some (q, src, Err e) | None \<Rightarrow> Some (q, src, Ret (0, \<lparr>m_reply = f, m_b = bs, m_base = b_rp nb\<rparr>)))"
      unfolding mnthang_def n c Let_def using hn(2) q(2) by (simp add: q'_def c'_def)
    have qb: "q_blocks q' = c' # bl" by (simp add: q'_def)
    have "hung km [] (drop (msize m) (qbytes q)) (hang km q' (int (msize m)) (int h)) (\<lambda>b'. b_mem b' = b_mem c')"
      using hang_step [OF q'(1) qb, of h "msize m" km] h(2) hn(1) m(3) q'(2,3,5) by (simp add: hm)
    moreover have "reply_is tag m \<lparr>m_reply = f, m_b = b # bs, m_base = b_rp nb\<rparr>" if "wf_chain (b # bs)" "b_mem b = b_mem c'" for b bs
      using that c q'(4) rview_type [OF c(2)] reply_is_other [OF False] by simp
    ultimately show ?thesis unfolding x using qe(2) src by (auto simp: hung_def mreads_def stream_def)
  qed
qed


lemma mntbody_ok:
  assumes q: "mq q" "q_blocks q = nb # bl" and src: "wf_src src" and s: "stream q src = enc tag m @ rest" and m: "wf_msg m" "msize m < 2 ^ 31"
    and f: "wf_rfcall (m_reply r)" and g: "GBIT8 (b_mem nb) (b_rp nb + BIT32SZ) = Some (mtype m)"
  shows "mreads km tag m rest (mntbody km q src r nb (of_nat (msize m)))"
proof -
  have w: "sint (of_nat (msize m) :: u32) = int (msize m)" using m(2) by (rule sint_small)
  have ls: "msize m \<le> length (stream q src)" using s length_enc [of tag m] by simp
  obtain q3 src3 bs3 where d3: "doread q src (int (msize m)) = Some (q3, src3, Ret 0)" "mq q3" "wf_src src3" "stream q3 src3 = stream q src"
      "int (msize m) \<le> int (length (qbytes q3))" "q_blocks q3 = q_blocks q @ bs3"
    using doread_ok [OF q(1) src, of "int (msize m)"] ls by auto
  define h where "h = (if mtype m = Rread then 11 else msize m)"
  have hh: "(if mtype m = Rread then HDRSZ + int BIT32SZ else int (msize m)) = int h" by (simp add: h_def)
  have hl: "int h \<le> int (length (qbytes q3))" using d3(5) by (auto simp: h_def mtype_Rread msize_def)
  have ne3: "q_blocks q3 \<noteq> []" using d3(6) q(2) by simp
  have x: "mntbody km q src r nb (of_nat (msize m)) = mbind (mpull km q3 src3 (int h)) (\<lambda>q src nb. mnthang km q src r nb (of_nat (msize m)) (int h))"
    by (simp only: mntbody_def w d3(1) g bind.bind_lunit Let_def hh) (simp add: mbind_def)
  consider q4 nb4 bl where "mpull km q3 src3 (int h) = Some (q4, src3, Ret nb4)" "mq q4" "qbytes q4 = qbytes q3" "q_blocks q4 = nb4 # bl" "h \<le> BLEN nb4"
    | "\<exists>n. \<not> km n" "mpull km q3 src3 (int h) = Some (q3, src3, Err Exhausted)"
    using mpull_ok [OF d3(2) hl ne3, of km src3] by auto
  then show ?thesis
  proof cases
    case 1
    have "stream q4 src3 = enc tag m @ rest" using d3(4) s 1(3) by (simp add: stream_def)
    from mnthang_ok [OF 1(2,4) d3(3) this m(1,2) _ f h_def 1(5)] d3(5) 1(3) show ?thesis
      by (simp add: x mbind_def 1(1))
  qed (simp add: x mbind_def mreads_def)
qed

lemma mntrpcread_reads:
  assumes q: "mq q" and src: "wf_src src" and s: "stream q src = enc tag m @ rest" and m: "wf_msg m" "int (msize m) \<le> mxsize" "mxsize < 2 ^ 31"
    and f: "wf_rfcall (m_reply r)"
  shows "mreads km tag m rest (mntrpcread km mxsize q src r)"
proof -
  define r0 where "r0 = r\<lparr>m_reply := (m_reply r)\<lparr>f_type := 0, f_tag := 0\<rparr>\<rparr>"
  have f0: "wf_rfcall (m_reply r0)" using f by (simp add: r0_def wf_rfcall_def)
  have sz: "msize m < 2 ^ 31" using m(2,3) by simp
  have "7 \<le> int (length (stream q src))" using s length_enc [of tag m] msize_ge [of m] by simp
  then obtain q1 src1 bs1 where d1: "doread q src 7 = Some (q1, src1, Ret 0)" "mq q1" "wf_src src1" "stream q1 src1 = stream q src" "7 \<le> int (length (qbytes q1))"
    using doread_ok [OF q src] by blast
  have ne: "q_blocks q1 \<noteq> []" using d1(5) by (auto simp: qbytes_def)
  consider q2 nb rest2 where "mpull km q1 src1 7 = Some (q2, src1, Ret nb)" "mq q2" "qbytes q2 = qbytes q1" "q_blocks q2 = nb # rest2" "7 \<le> BLEN nb" "wf_block nb"
    | "\<exists>n. \<not> km n" "mpull km q1 src1 7 = Some (q1, src1, Err Exhausted)"
    using mpull_ok [OF d1(2,5) ne, of km src1] by auto
  then show ?thesis
  proof cases
    case 1
    have s2: "stream q2 src1 = enc tag m @ rest" using d1(4) 1(3) s by (simp add: stream_def)
    then have e: "bbytes nb @ (cbytes rest2 @ concat (map srcbytes src1)) = enc tag m @ rest" using 1(4) by (simp add: stream_def qbytes_def)
    have t: "take 4 (drop (b_rp nb) (b_mem nb)) = le32 (of_nat (msize m))" "take 1 (drop (b_rp nb + 4) (b_mem nb)) = le8 (mtype m)"
      using bbytes_prefix [OF 1(6) e, of 0 4] bbytes_prefix [OF 1(6) e, of 4 1] 1(5) by (simp_all add: enc_def)
    have g: "GBIT32 (b_mem nb) (b_rp nb) = Some (of_nat (msize m))" "GBIT8 (b_mem nb) (b_rp nb + BIT32SZ) = Some (mtype m)"
      using f32.get_put t(1) f8.get_put t(2) by simp_all
    have "mntrpcread km mxsize q src r = mntbody km q2 src1 r0 nb (of_nat (msize m))"
      using m(2) by (simp add: mntrpcread_def d1(1) 1(1) g(1) sint_small [OF sz] mbind_def flip: r0_def)
    then show ?thesis using mntbody_ok [OF 1(2,4) d1(3) s2 m(1) sz f0 g(2)] by simp
  qed (simp add: mntrpcread_def d1(1) mbind_def mreads_def)
qed

section \<open>Arbitrary input\<close>

definition wf_bread :: "bread \<Rightarrow> bool" where
  "wf_bread e = (case e of Bread bs \<Rightarrow> wf_chain bs | Bfail _ \<Rightarrow> True)"

abbreviation wf_input :: "bread list \<Rightarrow> bool" where
  "wf_input src \<equiv> list_all wf_bread src"

lemma doread_any:
  "\<lbrakk> mq q; wf_input src \<rbrakk> \<Longrightarrow>
   \<exists>q' src' v bs. doread q src len = Some (q', src', v) \<and> mq q' \<and> wf_input src' \<and> q_blocks q' = q_blocks q @ bs \<and>
     (\<forall>k. v = Ret k \<longrightarrow> k = - 1 \<or> k = 0 \<and> len \<le> int (length (qbytes q'))) \<and> (\<exists>ys. stream q src = qbytes q' @ ys)"
proof (induction q src len rule: doread.induct)
  case (1 q len)
  then show ?case using mq_length [of q] by (auto simp: stream_def)
next
  case (2 q e src len)
  consider "\<not> qlen q < len" | bs where "qlen q < len" "e = Bread bs" "bs \<noteq> []" "blocklen bs \<noteq> 0"
    | "qlen q < len" "doread q (e # src) len = Some (q, src, Ret (- 1)) \<or> (\<exists>er. doread q (e # src) len = Some (q, src, Err er))"
    by (cases "qlen q < len"; cases e; cases "\<exists>bs. e = Bread bs \<and> bs \<noteq> [] \<and> blocklen bs \<noteq> 0") auto
  then show ?case
  proof cases
    case 2
    note prems = \<open>mq q\<close> \<open>wf_input (e # src)\<close>
    have w: "wf_chain bs" using prems(2) \<open>e = Bread bs\<close> by (simp add: wf_bread_def)
    have s: "stream (qaddlist q bs) src = stream q (e # src)" using mq_qaddlist [OF prems(1) w] 2(2) by (simp add: stream_def)
    from "2.IH" [OF 2] mq_qaddlist [OF prems(1) w] prems(2) obtain q' src' v bs' where
      "doread (qaddlist q bs) src len = Some (q', src', v)" "mq q'" "wf_input src'" "q_blocks q' = q_blocks (qaddlist q bs) @ bs'"
      "\<forall>k. v = Ret k \<longrightarrow> k = - 1 \<or> k = 0 \<and> len \<le> int (length (qbytes q'))" "\<exists>ys. stream q (e # src) = qbytes q' @ ys" by (auto simp: s)
    then show ?thesis using 2 by (auto simp: qaddlist_def)
  qed (use \<open>mq q\<close> \<open>wf_input (e # src)\<close> mq_length [of q] in \<open>auto simp: stream_def\<close>)
qed

lemma mq_qdiscard: "mq q \<Longrightarrow> mq (fst (qdiscard q n))"
proof -
  assume q: "mq q"
  have "wf_chain bs \<Longrightarrow> d = int (blocklen bs) \<Longrightarrow> \<exists>r l' s. discard bs l d sofar n = (r, l', int (blocklen r), s) \<and> wf_chain r" for bs l d sofar
  proof (induction bs l d sofar n rule: discard.induct)
    case (1 bs l d sofar len)
    show ?case
    proof (cases "sofar < len \<and> bs \<noteq> []")
      case False
      then show ?thesis using 1(3,4) by (subst discard.simps) (auto split: list.splits)
    next
      case True
      then obtain b rest where bs: "bs = b # rest" by (cases bs) auto
      have wf: "wf_block b" "wf_chain rest" "d = int (BLEN b) + int (blocklen rest)" using "1.prems" bs by simp_all
      show ?thesis
      proof (cases "BLEN b \<le> len - sofar")
        case fits: True
        have "\<exists>r l' s. discard rest (l - int (BALLOC b)) (d - int (BLEN b)) (sofar + BLEN b) len = (r, l', int (blocklen r), s) \<and> wf_chain r"
          by (rule "1.IH"(1) [OF _ bs refl fits]) (use True wf in auto)
        then show ?thesis using fits True bs by (subst discard.simps) (simp add: Let_def)
      next
        case False
        define k where "k = len - sofar"
        have len: "len = sofar + k" "k \<le> BLEN b" using True False by (simp_all add: k_def)
        have "discard bs l d sofar len = discard (b\<lparr>b_rp := b_rp b + k\<rparr> # rest) l (d - int k) (sofar + k) len"
          using False True bs unfolding k_def by (subst discard.simps) simp
        also have "\<dots> = (b\<lparr>b_rp := b_rp b + k\<rparr> # rest, l, d - int k, len)"
          unfolding len by (subst discard.simps) simp
        finally show ?thesis using wf bskip [OF wf(1) len(2)] len(2) by simp
      qed
    qed
  qed
  from this [of "q_blocks q" "q_dlen q" "q_len q" 0] q show ?thesis
    by (auto simp: qdiscard_def mq_def Let_def split_beta)
qed


lemma convM2S_Rread_any:
  assumes b: "11 \<le> length b" "GBIT32 b 0 = Some w" "GBIT8 b 4 = Some Rread"
  shows "\<exists>n f'. convM2S b (unat w) f = Some (n, b, f') \<and> (n = 0 \<or> n = unat w)"
proof -
  obtain tag c where "GBIT16 b 5 = Some tag" "GBIT32 b 7 = Some c"
    using f16.get_total [of 5 b] f32.get_total [of 7 b] b(1) by auto
  then show ?thesis using b by (auto simp: convM2S_def convM2S_T_def convM2S_R_def Let_def)
qed

lemma GBIT_drop: "GBIT32 (drop p b) 0 = GBIT32 b p" "GBIT8 (drop p b) 4 = GBIT8 b (p + 4)"
proof -
  have "rd (drop p b) i = rd b (p + i)" for i by (auto simp: rd_def)
  then show "GBIT32 (drop p b) 0 = GBIT32 b p" "GBIT8 (drop p b) 4 = GBIT8 b (p + 4)" by (simp_all add: GBIT32_def GBIT8_def)
qed

lemma sint_unat: "0 \<le> sint (w :: u32) \<Longrightarrow> sint w = int (unat w)"
proof -
  assume "0 \<le> sint w"
  then have b: "\<not> bit (uint w) 31" by (simp add: sint_uint)
  have "sint w = uint w"
  proof (rule bit_eqI)
    fix n :: nat
    have "n < 31 \<or> n = 31 \<or> 31 < n" by linarith
    then show "bit (sint w) n = bit (uint w) n" using b by (auto simp: bit_simps min_def dest: bit_imp_le_length)
  qed
  then show ?thesis by simp
qed

lemma mnthang_safe:
  assumes q: "mq q" "q_blocks q = nb # bl" and h: "h = (if t = Rread then 11 else unat w)" "h \<le> BLEN nb" "h \<le> unat w"
    and g: "GBIT32 (b_mem nb) (b_rp nb) = Some w" "GBIT8 (b_mem nb) (b_rp nb + 4) = Some t"
    and w: "0 \<le> sint w" "unat w \<le> length (qbytes q)" and f: "wf_rfcall (m_reply r)"
  shows "\<exists>q' v. mnthang km q src r nb w (int h) = Some (q', src, v) \<and> mq q'"
proof -
  have wb: "wf_block nb" using q by (simp add: mq_def)
  obtain n mem f' where c: "convM2S (drop (b_rp nb) (b_mem nb)) (unat w) (m_reply r) = Some (n, mem, f')" "n = 0 \<or> n = unat w"
    and mem: "length mem = length (drop (b_rp nb) (b_mem nb))" "drop h mem = drop h (drop (b_rp nb) (b_mem nb))"
  proof (cases "t = Rread")
    case True
    have "11 \<le> length (drop (b_rp nb) (b_mem nb))" using h(1,2) True wb by (auto simp: wf_block_def BLEN_def)
    from convM2S_Rread_any [OF this] g True that show ?thesis unfolding GBIT_drop by blast
  next
    case False
    then have "unat w \<le> length (drop (b_rp nb) (b_mem nb))" using h wb by (auto simp: wf_block_def BLEN_def)
    from convM2S_total [OF this f] g that False h(1) show ?thesis unfolding GBIT_drop by auto
  qed
  define c' where "c' = nb\<lparr>b_mem := take (b_rp nb) (b_mem nb) @ mem\<rparr>"
  define q' where "q' = q\<lparr>q_blocks := c' # bl\<rparr>"
  have q': "mq q'" "length (qbytes q') = length (qbytes q)" "BLEN c' = BLEN nb"
    using redecode [OF q h(2) mem] unfolding q'_def c'_def by auto
  have qb: "q_blocks q' = c' # bl" by (simp add: q'_def)
  have x: "mnthang km q src r nb w (int h) = (if n = 0 then Some (fst (qdiscard q' (unat w)), src, Ret (- 1, r\<lparr>m_reply := f'\<rparr>))
     else Option.bind (hang km q' (int (unat w)) (int h))
      (\<lambda>(q, bs, e). case e of Some e \<Rightarrow> Some (q, src, Err e) | None \<Rightarrow> Some (q, src, Ret (0, \<lparr>m_reply = f', m_b = bs, m_base = b_rp nb\<rparr>))))"
    unfolding mnthang_def c Let_def sint_unat [OF w(1)] using q(2) by (simp add: q'_def c'_def)
  have "hung km (take (unat w - h) (drop h (qbytes q'))) (drop (unat w) (qbytes q')) (hang km q' (int (unat w)) (int h)) (\<lambda>b'. b_mem b' = b_mem c')"
    using hang_step [OF q'(1) qb, of h "unat w" km] h w q' by simp
  then show ?thesis unfolding x using mq_qdiscard [OF q'(1)] by (auto simp: hung_def)
qed

text \<open>
  The sizes that the code can take: not negative as an \<open>int\<close>, and a read reply has its count.
\<close>

definition sane :: "byte list \<Rightarrow> bool" where
  "sane s = (case (GBIT32 s 0, GBIT8 s 4) of (Some w, Some t) \<Rightarrow> 0 \<le> sint w \<and> (t = Rread \<longrightarrow> 11 \<le> sint w) | _ \<Rightarrow> True)"


lemma bbytes_get:
  assumes "wf_block b" "5 \<le> BLEN b" "bbytes b @ xs = ys"
  obtains w t where "GBIT32 (b_mem b) (b_rp b) = Some w" "GBIT8 (b_mem b) (b_rp b + 4) = Some t" "GBIT32 ys 0 = Some w" "GBIT8 ys 4 = Some t"
proof -
  have l: "b_rp b + 5 \<le> length (b_mem b)" using assms(1,2) by (auto simp: wf_block_def BLEN_def)
  obtain w t where g: "GBIT32 (b_mem b) (b_rp b) = Some w" "GBIT8 (b_mem b) (b_rp b + 4) = Some t"
    using f32.get_total [of "b_rp b" "b_mem b"] f8.get_total [of "b_rp b + 4" "b_mem b"] l by auto
  have "take 4 (drop 0 ys) = le32 w" "take 1 (drop 4 ys) = le8 t"
    using bbytes_prefix [OF assms(1,3), of 0 4] bbytes_prefix [OF assms(1,3), of 4 1] f32.put_get [OF g(1)] f8.put_get [OF g(2)] assms(2) by simp_all
  then have "GBIT32 ys 0 = Some w" "GBIT8 ys 4 = Some t" by (simp_all only: f32.get_put f8.get_put)
  with g that show ?thesis by blast
qed

lemma mpull_mq:
  assumes "mq q" "n \<le> int (length (qbytes q))" "q_blocks q \<noteq> []"
  shows "\<exists>q' v. mpull km q src n = Some (q', src, v) \<and> mq q' \<and> qbytes q' = qbytes q \<and>
    (\<forall>nb. v = Ret nb \<longrightarrow> (\<exists>bl. q_blocks q' = nb # bl) \<and> n \<le> int (BLEN nb) \<and> BLEN (hd (q_blocks q)) \<le> BLEN nb \<and> wf_block nb)"
  using mpull_ok [OF assms, of km src] assms(1) by auto

lemma mntbody_mq:
  assumes q: "mq q" "q_blocks q = nb # bl" and src: "wf_input src" and nb: "wf_block nb" "7 \<le> BLEN nb" and f: "wf_rfcall (m_reply r)"
    and g: "GBIT32 (b_mem nb) (b_rp nb) = Some w" "GBIT8 (b_mem nb) (b_rp nb + 4) = Some t" and w: "0 \<le> sint w" "t = Rread \<Longrightarrow> 11 \<le> sint w"
  shows "\<exists>q' src' v. mntbody km q src r nb w = Some (q', src', v) \<and> mq q' \<and> wf_input src'"
proof -
  obtain q3 src3 v3 bs3 where d3: "doread q src (sint w) = Some (q3, src3, v3)" "mq q3" "wf_input src3" "q_blocks q3 = q_blocks q @ bs3"
      "\<forall>k. v3 = Ret k \<longrightarrow> k = - 1 \<or> k = 0 \<and> sint w \<le> int (length (qbytes q3))"
    using doread_any [OF q(1) src, of "sint w"] by blast
  define h where "h = (if t = Rread then 11 else unat w)"
  have "t = Rread \<Longrightarrow> 11 \<le> unat w" using w(2) sint_unat [OF w(1)] by linarith
  then have H: "(if t = Rread then HDRSZ + int BIT32SZ else sint w) = int h" "h \<le> unat w" using sint_unat [OF w(1)] by (auto simp: h_def)
  have x: "mntbody km q src r nb w = mbind (Some (q3, src3, v3)) (\<lambda>q src k. if k < 0 then Some (q, src, Ret (- 1, r))
      else mbind (mpull km q src (int h)) (\<lambda>q src nb. mnthang km q src r nb w (int h)))"
    by (simp only: mntbody_def d3(1) g(2) bind.bind_lunit Let_def H(1))
  show ?thesis
  proof (cases "v3 = Ret 0")
    case False
    then show ?thesis unfolding x using d3 by (cases v3) (auto simp: mbind_def)
  next
    case v3: True
    have "sint w \<le> int (length (qbytes q3))" using d3(5) v3 by simp
    then have l3: "unat w \<le> length (qbytes q3)" using sint_unat [OF w(1)] by linarith
    have hd3: "hd (q_blocks q3) = nb" "q_blocks q3 \<noteq> []" using d3(4) q(2) by simp_all
    have n5: "5 \<le> BLEN nb" using nb(2) by simp
    have g3: "GBIT32 (qbytes q3) 0 = Some w" "GBIT8 (qbytes q3) 4 = Some t"
      using bbytes_get [OF nb(1) n5, of _ "qbytes q3"] g d3(4) q(2) by (force simp: qbytes_def)+
    from mpull_mq [OF d3(2) _ hd3(2), of "int h" km src3] l3 H(2) hd3(1) obtain q4 v4 where p4:
      "mpull km q3 src3 (int h) = Some (q4, src3, v4)" "mq q4" "qbytes q4 = qbytes q3"
      "\<forall>nb. v4 = Ret nb \<longrightarrow> (\<exists>bl. q_blocks q4 = nb # bl) \<and> h \<le> BLEN nb \<and> BLEN (hd (q_blocks q3)) \<le> BLEN nb \<and> wf_block nb" by auto
    show ?thesis
    proof (cases "\<exists>nb. v4 = Ret nb")
      case False
      then show ?thesis unfolding x using d3(3) v3 p4 by (cases v4) (auto simp: mbind_def)
    next
      case True
      then obtain nb4 bl4 where nb4: "v4 = Ret nb4" "q_blocks q4 = nb4 # bl4" "h \<le> BLEN nb4" "7 \<le> BLEN nb4" "wf_block nb4" using p4(4) nb(2) hd3(1) by fastforce
      from nb4(4) have "5 \<le> BLEN nb4" by simp
      from bbytes_get [OF nb4(5) this, of "cbytes bl4" "qbytes q3"] g3 p4(3) nb4(2)
      have g4: "GBIT32 (b_mem nb4) (b_rp nb4) = Some w" "GBIT8 (b_mem nb4) (b_rp nb4 + 4) = Some t" by (auto simp: qbytes_def)
      obtain q5 v5 where "mnthang km q4 src3 r nb4 w (int h) = Some (q5, src3, v5)" "mq q5"
        using mnthang_safe [OF p4(2) nb4(2) h_def nb4(3) H(2) g4 w(1) _ f, of km src3] l3 p4(3) by auto
      then show ?thesis unfolding x using d3(3) v3 p4(1) nb4(1) by (auto simp: mbind_def)
    qed
  qed
qed

lemma mntrpcread_mq:
  assumes q: "mq q" and src: "wf_input src" and s: "sane (stream q src)" and f: "wf_rfcall (m_reply r)"
  shows "\<exists>q' src' v. mntrpcread km mxsize q src r = Some (q', src', v) \<and> mq q' \<and> wf_input src'"
proof -
  define r0 where "r0 = r\<lparr>m_reply := (m_reply r)\<lparr>f_type := 0, f_tag := 0\<rparr>\<rparr>"
  have f0: "wf_rfcall (m_reply r0)" using f by (simp add: r0_def wf_rfcall_def)
  obtain q1 src1 v1 ys where d1: "doread q src 7 = Some (q1, src1, v1)" "mq q1" "wf_input src1"
      "\<forall>k. v1 = Ret k \<longrightarrow> k = - 1 \<or> k = 0 \<and> 7 \<le> int (length (qbytes q1))" "stream q src = qbytes q1 @ ys"
    using doread_any [OF q src, of 7] by blast
  show ?thesis
  proof (cases "v1 = Ret 0")
    case False
    then show ?thesis using d1 by (cases v1) (auto simp: mntrpcread_def mbind_def)
  next
    case v1: True
    then have l1: "7 \<le> int (length (qbytes q1))" using d1(4) by auto
    have ne: "q_blocks q1 \<noteq> []" using l1 by (auto simp: qbytes_def)
    obtain q2 v2 where p2: "mpull km q1 src1 7 = Some (q2, src1, v2)" "mq q2" "qbytes q2 = qbytes q1"
        "\<forall>nb. v2 = Ret nb \<longrightarrow> (\<exists>bl. q_blocks q2 = nb # bl) \<and> 7 \<le> int (BLEN nb) \<and> wf_block nb"
      using mpull_mq [OF d1(2) l1 ne, of km src1] by auto
    show ?thesis
    proof (cases "\<exists>nb. v2 = Ret nb")
      case False
      then show ?thesis using d1 v1 p2 by (cases v2) (auto simp: mntrpcread_def mbind_def)
    next
      case True
      then obtain nb bl where nb: "v2 = Ret nb" "q_blocks q2 = nb # bl" "7 \<le> BLEN nb" "wf_block nb" using p2(4) by auto
      have e: "bbytes nb @ (cbytes bl @ ys) = stream q src" using d1(5) p2(3) nb(2) by (simp add: qbytes_def flip: append_assoc)
      from nb(3) have "5 \<le> BLEN nb" by simp
      from bbytes_get [OF nb(4) this e] obtain w t where g: "GBIT32 (b_mem nb) (b_rp nb) = Some w" "GBIT8 (b_mem nb) (b_rp nb + 4) = Some t"
          "GBIT32 (stream q src) 0 = Some w" "GBIT8 (stream q src) 4 = Some t" by blast
      have w: "0 \<le> sint w" "t = Rread \<Longrightarrow> 11 \<le> sint w" using s g(3,4) by (simp_all add: sane_def)
      have "mntrpcread km mxsize q src r = (if sint w > mxsize then Some (fst (qdiscard q2 (nat (qlen q2))), src1, Ret (- 1, r0)) else mntbody km q2 src1 r0 nb w)"
        using d1(1) v1 p2(1) nb(1) g(1) by (simp add: mntrpcread_def mbind_def r0_def)
      then show ?thesis using mq_qdiscard [OF p2(2)] d1(3) mntbody_mq [OF p2(2) nb(2) d1(3) nb(4,3) f0 g(1,2) w] by auto
    qed
  qed
qed

section \<open>Sizes the code does not guard against\<close>

lemma doread_enough: "mq q \<Longrightarrow> len \<le> int (length (qbytes q)) \<Longrightarrow> doread q src len = Some (q, src, Ret 0)"
  using mq_length [of q] by (cases src) auto

lemma mpull_enough: "q_blocks q = nb # bl \<Longrightarrow> n \<le> int (BLEN nb) \<Longrightarrow> mpull km q src n = Some (q, src, Ret nb)"
  by (simp add: mpull_def pullupqueue_def nat_le_iff)

text \<open>A queue that is empty and a first block with the whole message.\<close>

lemma mntrpcread_one:
  assumes q: "mq q" "q_blocks q = []" and b: "wf_block b" "bbytes b = le32 w @ le8 t @ le16 tag @ xs" and w: "sint w \<le> mxsize" "sint w \<le> int (BLEN b)"
  shows "mntrpcread km mxsize q (Bread [b] # src) r = mbind (mpull km (qaddlist q [b]) src (if t = Rread then 11 else sint w))
      (\<lambda>q src nb. mnthang km q src (r\<lparr>m_reply := (m_reply r)\<lparr>f_type := 0, f_tag := 0\<rparr>\<rparr>) nb w (if t = Rread then 11 else sint w))"
proof -
  have l: "BLEN b = 7 + length xs" using length_bbytes [OF b(1)] b(2) by simp
  have a: "mq (qaddlist q [b])" "qbytes (qaddlist q [b]) = bbytes b" "q_blocks (qaddlist q [b]) = [b]"
    using mq_qaddlist [OF q(1), of "[b]"] b(1) q(2) by (simp_all add: qbytes_def qaddlist_def)
  have d: "doread q (Bread [b] # src) 7 = Some (qaddlist q [b], src, Ret 0)"
    using doread_enough [OF a(1), of 7 src] q l a(2) b(2) by (simp add: mq_def qlen_def)
  have d2: "doread (qaddlist q [b]) src (sint w) = Some (qaddlist q [b], src, Ret 0)"
    by (rule doread_enough [OF a(1)]) (use w(2) a(2) length_bbytes [OF b(1)] in simp)
  have p: "mpull km (qaddlist q [b]) src 7 = Some (qaddlist q [b], src, Ret b)" by (rule mpull_enough [OF a(3)]) (simp add: l)
  have "GBIT32 (b_mem b) (b_rp b) = Some w" "GBIT8 (b_mem b) (b_rp b + 4) = Some t"
    using bbytes_prefix [OF b(1) append_Nil2, of 0 4] bbytes_prefix [OF b(1) append_Nil2, of 4 1] l b(2) by (simp_all add: f32.get_put f8.get_put)
  then show ?thesis using w(1)
    by (simp add: mntrpcread_def mntbody_def d d2 p Let_def del: doread.simps)
qed

lemma mntrpcread_short_read:
  assumes q: "mq q" "q_blocks q = []" and b: "wf_block b" "bbytes b = le32 (of_nat (7 + length xs)) @ le8 Rread @ le16 tag @ xs" "length xs < 4"
    and m: "11 \<le> mxsize"
  shows "mntrpcread (\<lambda>n. True) mxsize q (Bread [b] # src) r = None"
proof -
  have l: "BLEN b = 7 + length xs" using length_bbytes [OF b(1)] b(2) by simp
  have w: "sint (of_nat (7 + length xs) :: u32) = int (7 + length xs)" by (rule sint_small) (use b(3) in simp)
  have "mpull (\<lambda>n. True) (qaddlist q [b]) src 11 = None"
    using pullupblock_ok [of "[b]" "\<lambda>n. True" 11] b(1,3) l q(2) by (auto simp: outcome_total mpull_def pullupqueue_def qaddlist_def)
  then show ?thesis using mntrpcread_one [OF q b(1,2), of mxsize "\<lambda>n. True" src r] w m b(3) l by (simp add: mbind_def)
qed

lemma mntrpcread_negative:
  assumes q: "mq q" "q_blocks q = []" and b: "wf_block b" "bbytes b = le32 w @ le8 Rerror @ le16 tag @ le16 n" "length (b_mem b) < b_rp b + 9 + unat n"
    and w: "sint w < 0" "0 \<le> mxsize"
  shows "mntrpcread km mxsize q (Bread [b] # src) r = None"
proof -
  let ?b = "drop (b_rp b) (b_mem b)"
  have l: "BLEN b = 9" using length_bbytes [OF b(1)] b(2) by simp
  have lb: "9 \<le> length ?b" "length ?b < 9 + unat n" using l b(1,3) by (auto simp: wf_block_def BLEN_def)
  have ep: "2 ^ 31 \<le> unat w"
  proof (rule ccontr)
    assume "\<not> ?thesis"
    then have "sint w = int (unat w)" using sint_small [of "unat w"] by simp
    then show False using w(1) by simp
  qed
  have n: "unat n < 2 ^ 16" using unsigned_less [of n] by simp
  have "window ?b 9 0 (le32 w @ le8 Rerror @ le16 tag @ le16 n)"
    using b(1,2) l lb(1) by (auto simp: window_def bbytes_def)
  then have g: "GBIT32 ?b 0 = Some w" "GBIT8 ?b 4 = Some Rerror" "GBIT16 ?b 5 = Some tag" "GBIT16 ?b 7 = Some n"
    using f16.window_get [of ?b 9 7 n "[]"] by (auto dest!: window_dest)
  have "convM2S ?b (unat w) f = None" for f :: rfcall
    using g ep n lb by (simp add: convM2S_def convM2S_T_def convM2S_R_def gstr_def gstring_def rdn_def Let_def)
  moreover have "mpull km (qaddlist q [b]) src (sint w) = Some (qaddlist q [b], src, Ret b)"
    by (rule mpull_enough [of _ _ "[]"]) (use q(2) w(1) l in \<open>simp_all add: qaddlist_def\<close>)
  ultimately show ?thesis using mntrpcread_one [OF q b(1,2), of mxsize km src r] w l by (simp add: mbind_def mnthang_def)
qed

text \<open>An empty input queue.\<close>

definition emptyq :: queue where
  "emptyq = \<lparr>q_blocks = [], q_len = 0, q_dlen = 0, q_limit = 82160, q_inilim = 82160, q_state = Qstarve, q_noblock = False, q_eof = 0,
     q_kick = False, q_bypass = False, q_err = replicate ERRMAX 0\<rparr>"

definition y0 :: mreply where "y0 = \<lparr>m_reply = ex_recv, m_b = [], m_base = 0\<rparr>"

lemma y0_wf: "wf_rfcall (m_reply y0)" using ex_facts(5) by (simp add: y0_def)

definition ex_wire :: "byte list \<Rightarrow> block" where
  "ex_wire xs = \<lparr>b_mem = xs, b_rp = 0, b_wp = length xs\<rparr>"

lemma ex_wire_ok [simp]: "wf_block (ex_wire xs)" "bbytes (ex_wire xs) = xs" "BLEN (ex_wire xs) = length xs"
  by (simp_all add: ex_wire_def wf_block_def bbytes_def BLEN_def)

lemma emptyq_ok [simp]: "mq emptyq" "qbytes emptyq = []" "q_blocks emptyq = []"
  by (simp_all add: emptyq_def mq_def qbytes_def)

text \<open>C32 (functional). However the bytes of a well-formed message no longer than the agreed size are cut into blocks, and
  whatever is queued already, \<open>mntrpcread\<close> gives that message: the reply structure decodes to it, except that the data of a
  read reply are in the blocks hung off the request; what follows the message is left for the next call. Only an
  allocation that is refused makes it fail.\<close>

theorem mntrpcread_frames:
  assumes "mq q" "wf_src src" "stream q src = enc tag m @ rest" "wf_msg m" "int (msize m) \<le> mxsize" "mxsize < 2 ^ 31" "wf_rfcall (m_reply r)"
  shows "(\<exists>q' src' r'. mntrpcread km mxsize q src r = Some (q', src', Ret (0, r')) \<and> mq q' \<and> wf_src src' \<and> stream q' src' = rest \<and> reply_is tag m r') \<or>
     (\<exists>n. \<not> km n) \<and> (\<exists>q' src'. mntrpcread km mxsize q src r = Some (q', src', Err Exhausted))"
  using mntrpcread_reads [OF assms] unfolding mreads_def by blast

theorem mntrpcread_frames_witness:
  "\<exists>q' src' r'. mntrpcread (\<lambda>n. True) 8216 emptyq [Bread [ex_wire (take 4 (enc 5 ex_msg)), ex_wire (drop 4 (enc 5 ex_msg) @ [9])]] y0 = Some (q', src', Ret (0, r')) \<and>
     stream q' src' = [9] \<and> reply_is 5 ex_msg r'"
  using mntrpcread_frames [of emptyq "[Bread [ex_wire (take 4 (enc 5 ex_msg)), ex_wire (drop 4 (enc 5 ex_msg) @ [9])]]" 5 ex_msg "[9]" 8216 y0 "\<lambda>n. True"]
    ex_facts(3,4) y0_wf length_enc [of 5 ex_msg] by (auto simp: wf_src_def stream_def)

text \<open>C33 (safety). On any input, chains of any shape, empty ones, and errors of the channel, \<open>mntrpcread\<close> makes no access
  outside a block, frees or follows no null pointer, and keeps the input queue in order, provided the size in front of the
  message is not negative as an \<open>int\<close> and a read reply has room for its count.\<close>

theorem mntrpcread_safe:
  assumes "mq q" "wf_input src" "sane (stream q src)" "wf_rfcall (m_reply r)"
  shows "\<exists>q' src' v. mntrpcread km mxsize q src r = Some (q', src', v) \<and> mq q' \<and> wf_input src'"
  using assms by (rule mntrpcread_mq)

theorem mntrpcread_safe_witness:
  "\<exists>q' src' v. mntrpcread (\<lambda>n. n < 20) 8216 emptyq [Bread [ex_wire [8, 0]], Bread [ex_wire [0, 0, 77]], Bfail Panic] y0 = Some (q', src', v) \<and> mq q'"
  using mntrpcread_safe [of emptyq "[Bread [ex_wire [8, 0]], Bread [ex_wire [0, 0, 77]], Bfail Panic]" y0 "\<lambda>n. n < 20" 8216] y0_wf
  by (auto simp: wf_bread_def sane_def stream_def GBIT32_def GBIT8_def rd_def word32_def)

text \<open>C34 (bounds). The two conditions of the previous property are needed. With an empty queue, a block that holds a read reply of 7 to 10
  bytes and nothing behind it makes \<open>pullupqueue\<close> free the queue, and the null pointer it returns is followed. With an empty queue, a block that holds
  the 9 bytes of an error reply with a size of 2 to the 31 or more, a negative \<open>len\<close>, which passes
  the test against \<open>msize\<close>, and a string count that goes past the end of the memory of the block, makes the decoder, told that the message has that many
  bytes, read past that end.\<close>

theorem mntrpcread_faults:
  assumes "mq q" "q_blocks q = []" "wf_block b" "11 \<le> mxsize"
  shows "(bbytes b = le32 (of_nat (7 + length xs)) @ le8 Rread @ le16 tag @ xs \<and> length xs < 4 \<longrightarrow> mntrpcread (\<lambda>n. True) mxsize q (Bread [b] # src) r = None) \<and>
    (bbytes b = le32 w @ le8 Rerror @ le16 tag @ le16 n \<and> length (b_mem b) < b_rp b + 9 + unat n \<and> sint w < 0 \<longrightarrow>
      mntrpcread (\<lambda>n. True) mxsize q (Bread [b] # src) r = None)"
  using mntrpcread_short_read [OF assms(1-3) _ _ assms(4)] mntrpcread_negative [OF assms(1-3)] assms(4) by auto

theorem mntrpcread_faults_witness:
  "mntrpcread (\<lambda>n. True) 8216 emptyq [Bread [ex_wire [7, 0, 0, 0, Rread, 1, 0]]] y0 = None \<and>
   mntrpcread (\<lambda>n. True) 8216 emptyq [Bread [ex_wire [0, 0, 0, 0x80, Rerror, 1, 0, 5, 0]]] y0 = None"
  using mntrpcread_faults [of emptyq "ex_wire [7, 0, 0, 0, Rread, 1, 0]" 8216 "[]" 1 "[]" y0]
    mntrpcread_faults [of emptyq "ex_wire [0, 0, 0, 0x80, Rerror, 1, 0, 5, 0]" 8216 _ 1 "[]" y0 "0x80000000" 5]
  by (simp add: le32_def le8_def le16_def) (simp add: ex_wire_def)

end
