(* ===== verification/MuxInv.thy ===== *)
theory MuxInv
  imports Mux MntReadThms
begin

unbundle bit_operations_syntax

text \<open>The invariant of the multiplexer: who owns a request, tags, the queue, the reader, the replies. What waking, freeing and beginning a request do to it.\<close>

section \<open>The reply structure stays well formed\<close>

definition keeps_wf :: "dec \<Rightarrow> bool" where
  "keeps_wf d \<longleftrightarrow> (\<forall>b p f. d = Some (b, p, f) \<longrightarrow> wf_rfcall f)"

named_theorems keeps_intro \<open>the decoder keeps the arrays of the structure\<close>

lemma keeps_Some [keeps_intro]: "wf_rfcall f \<Longrightarrow> keeps_wf (Some (b, p, f))" by (simp add: keeps_wf_def)
lemma keeps_if [keeps_intro]: "\<lbrakk> c \<Longrightarrow> keeps_wf d; \<not> c \<Longrightarrow> keeps_wf e \<rbrakk> \<Longrightarrow> keeps_wf (if c then d else e)" by simp
lemma keeps_bind [keeps_intro]: "(\<And>x. keeps_wf (k x)) \<Longrightarrow> keeps_wf (Option.bind o' k)" by (cases o') (simp_all add: keeps_wf_def)
lemma keeps_gstr [keeps_intro]: "\<lbrakk> wf_rfcall f; \<And>s. wf_rfcall (upd s f) \<rbrakk> \<Longrightarrow> keeps_wf (gstr b p ep upd f)"
  by (auto simp: gstr_def keeps_wf_def bind_eq_Some_conv split: option.splits)
lemma keeps_gq [keeps_intro]: "\<lbrakk> wf_rfcall f; \<And>s. wf_rfcall (upd s f) \<rbrakk> \<Longrightarrow> keeps_wf (gq b p ep upd f)"
  by (auto simp: gq_def keeps_wf_def bind_eq_Some_conv split: option.splits)
lemma keeps_nextp [keeps_intro]: "\<lbrakk> keeps_wf d; \<And>b p f. wf_rfcall f \<Longrightarrow> keeps_wf (k b p f) \<rbrakk> \<Longrightarrow> keeps_wf (nextp d k)"
  by (auto simp: nextp_def keeps_wf_def bind_eq_Some_conv split: option.splits)
lemma keeps_None [keeps_intro]: "keeps_wf None" by (simp add: keeps_wf_def)
lemma wf_set [simp]: "wf_rfcall (set_wname i s f) = wf_rfcall f" "wf_rfcall (set_wqid i q f) = wf_rfcall f"
  by (simp_all add: wf_rfcall_def set_wname_def set_wqid_def)
lemma keeps_gwnames [keeps_intro]: "wf_rfcall f \<Longrightarrow> keeps_wf (gwnames i n b p ep f)"
  by (induction n arbitrary: i b p f) (auto intro!: keeps_intro)
lemma keeps_gwqids [keeps_intro]: "wf_rfcall f \<Longrightarrow> keeps_wf (gwqids i n b p ep f)"
  by (induction n arbitrary: i b p f) (auto intro!: keeps_intro)

lemma keeps_R: "wf_rfcall f \<Longrightarrow> keeps_wf (convM2S_R b p ep f)"
  unfolding convM2S_R_def Let_def by (intro keeps_intro; simp)

lemma keeps_T: "wf_rfcall f \<Longrightarrow> keeps_wf (convM2S_T b p ep f)"
  unfolding convM2S_T_def Let_def by (intro keeps_intro keeps_R; simp)

lemma convM2S_wf: "convM2S b ep f = Some (n, b', f') \<Longrightarrow> wf_rfcall f \<Longrightarrow> wf_rfcall f'"
  using keeps_T [of "f\<lparr>f_type := t, f_tag := tag\<rparr>" b 7 ep for t tag]
  by (auto simp: convM2S_def Let_def keeps_wf_def bind_eq_Some_conv split: if_splits)

definition mkeeps :: "(int \<times> mreply) mop \<Rightarrow> bool" where
  "mkeeps d \<longleftrightarrow> (\<forall>q src k y. d = Some (q, src, Ret (k, y)) \<longrightarrow> wf_rfcall (m_reply y))"

lemma mkeeps_mbind: "(\<And>q src a. mkeeps (k q src a)) \<Longrightarrow> mkeeps (mbind d k)"
  by (auto simp: mkeeps_def mbind_def split: option.splits reply.splits)

lemma mkeeps_bind: "(\<And>a. mkeeps (k a)) \<Longrightarrow> mkeeps (Option.bind d k)" by (cases d) (simp_all add: mkeeps_def)

lemma mkeeps_if: "mkeeps d \<Longrightarrow> mkeeps e \<Longrightarrow> mkeeps (if c then d else e)" by simp

lemma mkeeps_mnthang: "wf_rfcall (m_reply r) \<Longrightarrow> mkeeps (mnthang km q src r nb w h)"
  by (auto simp: mnthang_def mkeeps_def Let_def bind_eq_Some_conv dest: convM2S_wf split: if_splits option.splits)

lemma mntrpcread_wf:
  assumes "mntrpcread km mx q src r = Some (q', src', Ret (k, y))" "wf_rfcall (m_reply r)"
  shows "wf_rfcall (m_reply y)"
proof -
  let ?r = "r\<lparr>m_reply := (m_reply r)\<lparr>f_type := 0, f_tag := 0\<rparr>\<rparr>"
  have r: "wf_rfcall (m_reply ?r)" using assms(2) by (simp add: wf_rfcall_def)
  have s: "mkeeps (Some (q, src, Ret (k, ?r)))" for q src k using r by (simp add: mkeeps_def)
  have "mkeeps (mntrpcread km mx q src r)" unfolding mntrpcread_def mntbody_def Let_def
    by (intro mkeeps_mbind mkeeps_bind mkeeps_if s mkeeps_mnthang r)
  then show ?thesis using assms(1) by (simp add: mkeeps_def)
qed

section \<open>The invariant\<close>

fun chain :: "mpc \<Rightarrow> addr list" where
  "chain Idle = []" | "chain (Sending c) = c" | "chain (Writing c) = c" | "chain (Gating c) = c" | "chain (Sleepy c) = c"
| "chain (Waiting c) = c" | "chain (Woke c) = c" | "chain (Reading c) = c" | "chain (Caught b c) = c" | "chain (Over a) = [a]"

text \<open>Every request belongs to one process.\<close>

definition own :: "(addr \<Rightarrow> mrpc option) \<Rightarrow> addr list list \<Rightarrow> bool" where
  "own H L \<longleftrightarrow> (\<forall>p < length L. distinct (L ! p)) \<and> (\<forall>p < length L. \<forall>q < length L. p \<noteq> q \<longrightarrow> set (L ! p) \<inter> set (L ! q) = {}) \<and>
     dom H = (\<Union>p < length L. set (L ! p))"

definition rtag :: "(addr \<Rightarrow> mrpc option) \<Rightarrow> addr \<Rightarrow> u16" where
  "rtag H a = rp_tag (the (H a))"

definition tagged :: "mux \<Rightarrow> bool" where
  "tagged x \<longleftrightarrow> inj_on (rtag (x_rpc x)) (dom (x_rpc x)) \<and> distinct (map h_tag (x_other x)) \<and>
     rtag (x_rpc x) ` dom (x_rpc x) \<inter> h_tag ` set (x_other x) = {} \<and> al_ok (x_al x) (rtag (x_rpc x) ` dom (x_rpc x) \<union> h_tag ` set (x_other x))"

definition pending :: "(addr \<Rightarrow> mrpc option) \<Rightarrow> addr set" where
  "pending H = {a. \<exists>r. H a = Some r \<and> \<not> rp_done r}"

fun uns :: "mpc \<Rightarrow> addr set" where
  "uns (Sending (a # c)) = {a}"
| "uns s = {}"

definition unsent :: "mpc list \<Rightarrow> addr set" where
  "unsent ps = (\<Union>s \<in> set ps. uns s)"

definition queued :: "mux \<Rightarrow> bool" where
  "queued x \<longleftrightarrow> distinct (x_queue x) \<and> set (x_queue x) = pending (x_rpc x) - unsent (x_pc x) \<and> unsent (x_pc x) \<subseteq> pending (x_rpc x)"

fun placed :: "addr set \<Rightarrow> mpc \<Rightarrow> bool" where
  "placed P Idle = True"
| "placed P (Waiting c) = (c \<noteq> [] \<and> hd c \<in> P)"
| "placed P (Over a) = (a \<notin> P)"
| "placed P s = (chain s \<noteq> [])"

fun reading :: "mpc \<Rightarrow> bool" where
  "reading (Reading c) = True"
| "reading s = False"

fun caught :: "mpc \<Rightarrow> bool" where
  "caught (Caught b c) = True"
| "caught s = False"

definition reader :: "nat option \<Rightarrow> mpc list \<Rightarrow> bool" where
  "reader rip ps \<longleftrightarrow> (\<forall>p < length ps. reading (ps ! p) \<longrightarrow> rip = Some p) \<and>
     (case rip of None \<Rightarrow> True | Some p \<Rightarrow> p < length ps \<and> (reading (ps ! p) \<or> caught (ps ! p)))"

text \<open>A reply that was matched has the tag of its request; \<open>mntflushfree\<close> makes others \<open>Rflush\<close>.\<close>

definition answer :: "mrpc \<Rightarrow> bool" where
  "answer r \<longleftrightarrow> wf_rfcall (m_reply (rp_reply r)) \<and>
     (rp_done r \<longrightarrow> f_tag (m_reply (rp_reply r)) = rp_tag r \<or> f_type (m_reply (rp_reply r)) = Rflush)"

definition answers :: "(addr \<Rightarrow> mrpc option) \<Rightarrow> bool" where
  "answers H \<longleftrightarrow> (\<forall>a r. H a = Some r \<longrightarrow> answer r)"

definition minv0 :: "mux \<Rightarrow> bool" where
  "minv0 x \<longleftrightarrow> own (x_rpc x) (map chain (x_pc x)) \<and> tagged x \<and> queued x \<and> list_all (placed (pending (x_rpc x))) (x_pc x) \<and> answers (x_rpc x)"

definition minv :: "mux \<Rightarrow> bool" where
  "minv x \<longleftrightarrow> minv0 x \<and> reader (x_rip x) (x_pc x)"

section \<open>Waking\<close>

definition readied :: "mpc list \<Rightarrow> mpc list \<Rightarrow> bool" where
  "readied ps ps' \<longleftrightarrow> list_all2 (\<lambda>s s'. s' = s \<or> (\<exists>c. s = Waiting c \<and> s' = Woke c)) ps ps'"

lemma readied_refl [simp]: "readied ps ps" by (simp add: readied_def list_all2_refl)

lemma Wakeup_readied: "readied ps (fst (Wakeup ps a))"
  by (auto simp: readied_def Wakeup_def list_all2_conv_all_nth split: mpc.split list.split)

lemma gate_loop_readied: "gate_loop H ps as = Some ps' \<Longrightarrow> readied ps ps'"
proof (induction as)
  case (Cons a as)
  then show ?case using Wakeup_readied [of ps a] by (auto simp: bind_eq_Some_conv split: if_splits prod.splits)
qed simp

lemma gate_loop_total: "set as \<subseteq> dom H \<Longrightarrow> \<exists>ps'. gate_loop H ps as = Some ps'"
  by (induction as) (auto simp: Let_def split: prod.split)

lemma asleep_on_iff: "asleep_on a s \<longleftrightarrow> (\<exists>c. s = Waiting (a # c))"
  by (auto simp: asleep_on_def split: mpc.splits list.splits)

text \<open>If a process sleeps on an unanswered request, the gate wakes one.\<close>

lemma gate_loop_wakes:
  assumes "set as \<subseteq> dom H" "a \<in> set as" "a \<in> pending H" "Waiting (a # c) \<in> set ps"
  shows "\<exists>ps' b d. gate_loop H ps as = Some ps' \<and> b \<in> pending H \<and> Woke (b # d) \<in> set ps'"
  using assms(1,2)
proof (induction as)
  case (Cons b as)
  then obtain q where q: "H b = Some q" by auto
  show ?case
  proof (cases "rp_done q \<or> \<not> list_ex (asleep_on b) ps")
    case True
    have "b \<noteq> a" using True q assms(3,4) by (auto simp: pending_def list_ex_iff asleep_on_def split: mpc.splits)
    moreover have "gate_loop H ps (b # as) = gate_loop H ps as" using True q by (auto simp: Wakeup_def)
    ultimately show ?thesis using Cons by simp
  next
    case False
    then obtain d where "Waiting (b # d) \<in> set ps" by (auto simp: list_ex_iff asleep_on_iff)
    then have "Woke (b # d) \<in> set (fst (Wakeup ps b))" by (force simp: Wakeup_def)
    moreover have "gate_loop H ps (b # as) = Some (fst (Wakeup ps b))" using False q by (auto simp: Wakeup_def)
    moreover have "b \<in> pending H" using False q by (auto simp: pending_def)
    ultimately show ?thesis by blast
  qed
qed simp

lemma readied_chain: "readied ps ps' \<Longrightarrow> map chain ps' = map chain ps"
  unfolding readied_def by (induction rule: list_all2_induct) auto

lemma readied_nth: "readied ps ps' \<Longrightarrow> length ps' = length ps \<and> (p < length ps \<longrightarrow> ps' ! p = ps ! p \<or> (\<exists>c. ps ! p = Waiting c \<and> ps' ! p = Woke c))"
  by (auto simp: readied_def list_all2_conv_all_nth)

lemma readied_unsent: "readied ps ps' \<Longrightarrow> unsent ps' = unsent ps"
  unfolding readied_def unsent_def by (induction rule: list_all2_induct) auto

lemma readied_placed: "readied ps ps' \<Longrightarrow> list_all (placed P) ps \<Longrightarrow> list_all (placed P) ps'"
  unfolding readied_def by (induction rule: list_all2_induct) auto

lemma readied_reader: "readied ps ps' \<Longrightarrow> reader rip ps \<Longrightarrow> reader rip ps'"
proof -
  assume r: "readied ps ps'" and rd: "reader rip ps"
  have l: "length ps' = length ps" using readied_nth [OF r] by blast
  have "reading (ps' ! p) = reading (ps ! p) \<and> caught (ps' ! p) = caught (ps ! p)" if "p < length ps" for p
    using readied_nth [OF r, of p] that by fastforce
  then show ?thesis using rd l by (auto simp: reader_def split: option.splits)
qed

section \<open>Freeing a chain of requests\<close>

definition flushed :: "mrpc \<Rightarrow> mrpc" where
  "flushed r = (if rp_done r then r else r\<lparr>rp_reply := m_reply_update (f_type_update (\<lambda>_. Rflush)) (rp_reply r), rp_done := True\<rparr>)"

lemma flushed_simps [simp]: "rp_hdr (flushed r) = rp_hdr r" "rp_done (flushed r)"
  by (simp_all add: flushed_def)

lemma answer_flushed: "answer r \<Longrightarrow> answer (flushed r)"
  by (auto simp: answer_def flushed_def wf_rfcall_def)

definition cutstate :: "mux \<Rightarrow> addr list \<Rightarrow> mntalloc \<Rightarrow> mux" where
  "cutstate x c al = x\<lparr>x_al := al, x_queue := filter (\<lambda>a. a \<notin> set c) (x_queue x),
     x_rpc := (\<lambda>a. if a \<in> set (butlast c) then None else if a = last c then map_option flushed (x_rpc x a) else x_rpc x a)\<rparr>"

lemma flush_one:
  assumes "x_rpc x r = Some rr" "distinct (x_queue x)" "rp_done rr \<longrightarrow> r \<notin> set (x_queue x)"
  shows "(if rp_done rr then Some x
     else mntqrm (x\<lparr>x_rpc := (x_rpc x)(r \<mapsto> rr\<lparr>rp_reply := m_reply_update (f_type_update (\<lambda>_. Rflush)) (rp_reply rr)\<rparr>)\<rparr>) r) =
    Some (x\<lparr>x_rpc := (x_rpc x)(r \<mapsto> flushed rr), x_queue := filter (\<lambda>a. a \<noteq> r) (x_queue x)\<rparr>)"
proof (cases "rp_done rr")
  case True
  then have "filter (\<lambda>a. a \<noteq> r) (x_queue x) = x_queue x" using assms(3) by (intro filter_True) auto
  moreover have "(x_rpc x)(r \<mapsto> rr) = x_rpc x" using assms(1) by auto
  ultimately show ?thesis using True by (simp add: flushed_def)
next
  case False
  then show ?thesis using assms(2) by (simp add: mntqrm_def flushed_def distinct_remove1_removeAll removeAll_filter_not_eq eq_commute)
qed

lemma mntflushfree_cut:
  assumes "c \<noteq> []" "distinct c" "set c \<subseteq> dom (x_rpc x)" "distinct (x_queue x)" "set c \<inter> set (x_queue x) \<subseteq> pending (x_rpc x)"
    "inj_on (rtag (x_rpc x)) (set c)" "rtag (x_rpc x) ` set c \<subseteq> L" "al_ok (x_al x) L"
  shows "\<exists>al. mntflushfree x c = Some (cutstate x c al) \<and> al_ok al (L - rtag (x_rpc x) ` set (butlast c))"
  using assms
proof (induction c arbitrary: x L)
  case (Cons r rs)
  obtain rr where rr: "x_rpc x r = Some rr" using Cons.prems(3) by auto
  have dn: "rp_done rr \<longrightarrow> r \<notin> set (x_queue x)" using Cons.prems(5) rr by (auto simp: pending_def)
  note one = flush_one [OF rr Cons.prems(4) dn]
  let ?x = "x\<lparr>x_rpc := (x_rpc x)(r \<mapsto> flushed rr), x_queue := filter (\<lambda>a. a \<noteq> r) (x_queue x)\<rparr>"
  show ?case
  proof (cases "rs = []")
    case True
    have "(x_rpc x)(r \<mapsto> flushed rr) = (\<lambda>a. if a = r then map_option flushed (x_rpc x a) else x_rpc x a)" using rr by auto
    then have "?x = cutstate x [r] (x_al x)" by (simp add: cutstate_def)
    then show ?thesis using True one rr Cons.prems(8) by auto
  next
    case False
    have t: "rp_tag rr = rtag (x_rpc x) r" using rr by (simp add: rtag_def)
    obtain al where al: "mntfree (x_al x) (rp_hdr rr) = Some al" "al_ok al (L - {rp_tag rr})"
      using mntfree_held [OF Cons.prems(8), of "rp_hdr rr"] Cons.prems(7) t by auto
    define y where "y = x\<lparr>x_queue := filter (\<lambda>a. a \<noteq> r) (x_queue x), x_al := al, x_rpc := (x_rpc x)(r := None)\<rparr>"
    have y: "mntflushfree x (r # rs) = mntflushfree y rs"
      using False rr one al(1) by (simp add: rpcfree_def y_def)
    have nr: "r \<notin> set rs" using Cons.prems(2) by simp
    have tr: "rtag (x_rpc y) a = rtag (x_rpc x) a" if "a \<in> set rs" for a using nr that by (auto simp: y_def rtag_def)
    have ti: "rtag (x_rpc y) ` set rs = rtag (x_rpc x) ` set rs" "rtag (x_rpc y) ` set (butlast rs) = rtag (x_rpc x) ` set (butlast rs)"
      using tr by (auto intro!: image_cong dest: in_set_butlastD)
    have "rp_tag rr \<notin> rtag (x_rpc x) ` set rs" using Cons.prems(6) nr t by (auto simp: inj_on_def)
    then have tl: "rtag (x_rpc y) ` set rs \<subseteq> L - {rp_tag rr}" unfolding ti(1) using Cons.prems(7) by (simp add: subset_Diff_insert)
    have h: "distinct rs" "set rs \<subseteq> dom (x_rpc y)" "distinct (x_queue y)" "set rs \<inter> set (x_queue y) \<subseteq> pending (x_rpc y)"
        "inj_on (rtag (x_rpc y)) (set rs)" "al_ok (x_al y) (L - {rp_tag rr})"
      using Cons.prems nr al(2) tr inj_on_cong [of "set rs" "rtag (x_rpc y)" "rtag (x_rpc x)"] by (auto simp: y_def pending_def)
    obtain al' where al': "mntflushfree y rs = Some (cutstate y rs al')" "al_ok al' (L - {rp_tag rr} - rtag (x_rpc y) ` set (butlast rs))"
      using Cons.IH [OF False h(1-5) tl h(6)] by auto
    have "x_rpc (cutstate y rs al') = x_rpc (cutstate x (r # rs) al')"
      using False nr last_in_set [OF False] by (intro ext) (auto simp: cutstate_def y_def dest: in_set_butlastD)
    then have "cutstate y rs al' = cutstate x (r # rs) al'"
      by (intro mux.equality) (auto simp: cutstate_def y_def intro!: filter_cong)
    moreover have "L - {rp_tag rr} - rtag (x_rpc y) ` set (butlast rs) = L - rtag (x_rpc x) ` set (butlast (r # rs))"
      using False t ti(2) by auto
    ultimately show ?thesis using y al' by auto
  qed
qed simp

section \<open>Ownership\<close>

lemma own_update:
  assumes o: "own H L" and p: "p < length L" and c: "distinct c" "dom H' = (dom H - set (L ! p)) \<union> set c" "set c \<inter> (dom H - set (L ! p)) = {}"
  shows "own H' (L[p := c])"
proof -
  have d: "dom H - set (L ! p) = (\<Union>q \<in> {..<length L} - {p}. set (L ! q))" using o p unfolding own_def by blast
  have e: "(\<Union>q < length L. set (L[p := c] ! q)) = (\<Union>q \<in> {..<length L} - {p}. set (L ! q)) \<union> set c"
    using p by (auto simp: nth_list_update split: if_splits)
  have q: "set c \<inter> set (L ! q) = {}" if "q < length L" "q \<noteq> p" for q using c(3) that unfolding d by auto
  show ?thesis unfolding own_def length_list_update e c(2) d
    using o c(1) q p by (auto simp: own_def nth_list_update)
qed

lemma own_in: "own H L \<Longrightarrow> p < length L \<Longrightarrow> set (L ! p) \<subseteq> dom H" by (auto simp: own_def)

section \<open>The steps keep the invariant\<close>

lemma minv0_frame [simp]: "minv0 (x\<lparr>x_rip := r\<rparr>) = minv0 x" "minv0 (x\<lparr>x_q := q\<rparr>) = minv0 x" "minv0 (x\<lparr>x_src := src\<rparr>) = minv0 x"
  by (simp_all add: minv0_def tagged_def queued_def)

lemma minv0_parts: "minv0 x \<Longrightarrow> own (x_rpc x) (map chain (x_pc x)) \<and> tagged x \<and> queued x \<and> list_all (placed (pending (x_rpc x))) (x_pc x) \<and> answers (x_rpc x)"
  by (simp add: minv0_def)

lemma placed_nth: "list_all (placed P) ps \<Longrightarrow> p < length ps \<Longrightarrow> placed P (ps ! p)" by (simp add: list_all_length)

lemma placed_update: "list_all (placed P) ps \<Longrightarrow> placed P s \<Longrightarrow> list_all (placed P) (ps[p := s])"
  by (auto simp: list_all_iff dest: subsetD [OF set_update_subset_insert])

definition unsent_but :: "mpc list \<Rightarrow> nat \<Rightarrow> addr set" where
  "unsent_but ps p = (\<Union>q \<in> {..<length ps} - {p}. uns (ps ! q))"

lemma unsent_split: "p < length ps \<Longrightarrow> unsent ps = uns (ps ! p) \<union> unsent_but ps p"
  by (force simp: unsent_def unsent_but_def in_set_conv_nth)

lemma unsent_update: "p < length ps \<Longrightarrow> unsent (ps[p := s]) = uns s \<union> unsent_but ps p"
  by (auto simp: unsent_split [of p "ps[p := s]"] unsent_but_def)

lemma unsent_move: "p < length ps \<Longrightarrow> uns (ps ! p) = uns s \<Longrightarrow> unsent (ps[p := s]) = unsent ps"
  by (simp add: unsent_update unsent_split [of p ps])

lemma uns_chain: "uns s \<subseteq> set (chain s)" by (cases s rule: uns.cases) auto

lemma minv0_move:
  assumes i: "minv0 x" and p: "is_at x p s" and c: "chain s' = chain s" "uns s = {}" "uns s' = {}" "placed (pending (x_rpc x)) s'"
  shows "minv0 (goto x p s')"
proof -
  have "map chain ((x_pc x)[p := s']) = map chain (x_pc x)" using p c(1) by (simp add: map_update) (metis list_update_id nth_map)
  moreover have "unsent ((x_pc x)[p := s']) = unsent (x_pc x)" using unsent_move [of p "x_pc x" s'] p c by simp
  ultimately show ?thesis using i placed_update [OF _ c(4), of "x_pc x" p] by (simp add: minv0_def tagged_def queued_def)
qed

lemma minv0_ready: "minv0 x \<Longrightarrow> readied (x_pc x) ps \<Longrightarrow> minv0 (x\<lparr>x_pc := ps\<rparr>)"
  using readied_placed by (simp add: minv0_def tagged_def queued_def readied_chain readied_unsent)

lemma mntgate_ok:
  assumes "minv0 x"
  shows "\<exists>ps. mntgate x = Some (x\<lparr>x_rip := None, x_pc := ps\<rparr>) \<and> readied (x_pc x) ps \<and> minv0 (x\<lparr>x_rip := None, x_pc := ps\<rparr>)"
proof -
  have "set (x_queue x) \<subseteq> dom (x_rpc x)" using assms by (auto simp: minv0_def queued_def pending_def)
  then obtain ps where ps: "gate_loop (x_rpc x) (x_pc x) (x_queue x) = Some ps" using gate_loop_total by blast
  then have "readied (x_pc x) ps" by (rule gate_loop_readied)
  moreover from this have "minv0 ((x\<lparr>x_rip := None\<rparr>)\<lparr>x_pc := ps\<rparr>)" using assms by (intro minv0_ready) simp_all
  ultimately show ?thesis using ps by (intro exI [of _ ps]) (simp add: mntgate_def)
qed

lemma own_disj: "own H (map chain ps) \<Longrightarrow> p < length ps \<Longrightarrow> q < length ps \<Longrightarrow> q \<noteq> p \<Longrightarrow> set (chain (ps ! p)) \<inter> set (chain (ps ! q)) = {}"
  unfolding own_def by (metis length_map nth_map)

lemma own_chain: "own H (map chain ps) \<Longrightarrow> s \<in> set ps \<Longrightarrow> set (chain s) \<subseteq> dom H"
  by (auto simp: own_def in_set_conv_nth)

lemma placed_change: "placed P s \<Longrightarrow> (\<And>b. b \<in> set (chain s) \<Longrightarrow> b \<in> P \<longleftrightarrow> b \<in> P') \<Longrightarrow> placed P' s"
  by (cases s) auto

lemma minv0_enqueue:
  assumes i: "minv0 x" and p: "is_at x p (Sending (a # c))"
  shows "minv0 (goto (x\<lparr>x_queue := a # x_queue x\<rparr>) p (Writing (a # c)))"
proof -
  have o: "own (x_rpc x) (map chain (x_pc x))" and q: "queued x" using i by (simp_all add: minv0_def)
  have m: "map chain ((x_pc x)[p := Writing (a # c)]) = map chain (x_pc x)" using p by (simp add: map_update) (metis chain.simps(2) list_update_id nth_map)
  have "a \<notin> set (chain (x_pc x ! q))" if "q < length (x_pc x)" "q \<noteq> p" for q
  proof -
    have "set (chain (x_pc x ! p)) \<inter> set (chain (x_pc x ! q)) = {}" by (rule own_disj [OF o]) (use p that in auto)
    then show ?thesis using p by auto
  qed
  then have "a \<notin> unsent_but (x_pc x) p" using uns_chain by (fastforce simp: unsent_but_def)
  then have u: "unsent ((x_pc x)[p := Writing (a # c)]) = unsent (x_pc x) - {a}" "a \<in> unsent (x_pc x)"
    using p by (auto simp: unsent_update unsent_split [of p "x_pc x"])
  have "queued (goto (x\<lparr>x_queue := a # x_queue x\<rparr>) p (Writing (a # c)))" using q u by (auto simp: queued_def)
  then show ?thesis using i m placed_update [of _ "x_pc x" "Writing (a # c)" p] by (simp add: minv0_def tagged_def)
qed

lemma minv0_new:
  assumes i: "minv0 x" and p: "is_at x p s" "uns s = {}" and al: "mntralloc (x_al x) hm bm n = (al, Inr (rp_hdr r))"
    and a: "x_rpc x a = None" and r: "\<not> rp_done r" "wf_rfcall (m_reply (rp_reply r))"
  shows "minv0 (goto (x\<lparr>x_al := al, x_rpc := (x_rpc x)(a \<mapsto> r)\<rparr>) p (Sending (a # chain s)))"
proof -
  let ?H = "(x_rpc x)(a \<mapsto> r)"
  note parts = minv0_parts [OF i]
  have cs: "set (chain s) \<subseteq> dom (x_rpc x)" "distinct (chain s)" using parts p own_in [of "x_rpc x" "map chain (x_pc x)" p] by (auto simp: own_def)
  have "own ?H ((map chain (x_pc x))[p := a # chain s])"
    by (rule own_update [of "x_rpc x"]) (use parts p cs a in auto)
  then have o: "own ?H (map chain ((x_pc x)[p := Sending (a # chain s)]))" by (simp add: map_update)
  have P: "pending ?H = insert a (pending (x_rpc x))" "a \<notin> pending (x_rpc x)" using a r(1) by (auto simp: pending_def)
  have u: "unsent ((x_pc x)[p := Sending (a # chain s)]) = insert a (unsent (x_pc x))"
    using p by (simp add: unsent_update unsent_split [of p "x_pc x"])
  have t: "rtag ?H b = rtag (x_rpc x) b" if "b \<in> dom (x_rpc x)" for b using that a by (auto simp: rtag_def)
  have ti: "rtag ?H ` dom ?H = insert (rp_tag r) (rtag (x_rpc x) ` dom (x_rpc x))" using t by (auto simp: rtag_def image_iff)
  have tg: "inj_on (rtag (x_rpc x)) (dom (x_rpc x))" "distinct (map h_tag (x_other x))" "rtag (x_rpc x) ` dom (x_rpc x) \<inter> h_tag ` set (x_other x) = {}"
      "al_ok (x_al x) (rtag (x_rpc x) ` dom (x_rpc x) \<union> h_tag ` set (x_other x))" using parts by (auto simp: tagged_def)
  note f = mntralloc_fresh [OF tg(4) al]
  have "rtag ?H a \<notin> rtag ?H ` (dom (x_rpc x) - {a})" using f t by (auto simp: rtag_def image_iff)
  then have "inj_on (rtag ?H) (dom ?H)" using tg(1) t inj_on_cong [of "dom (x_rpc x)" "rtag ?H" "rtag (x_rpc x)"] by simp
  then have "tagged (goto (x\<lparr>x_al := al, x_rpc := ?H\<rparr>) p (Sending (a # chain s)))"
    using tg f ti unfolding tagged_def by simp
  moreover have "list_all (placed (pending ?H)) (x_pc x)"
  proof -
    have "placed (pending ?H) s" if s: "s \<in> set (x_pc x)" for s
    proof (rule placed_change [of "pending (x_rpc x)"])
      show "placed (pending (x_rpc x)) s" using parts s by (auto simp: list_all_iff)
      show "b \<in> pending (x_rpc x) \<longleftrightarrow> b \<in> pending ?H" if "b \<in> set (chain s)" for b
        using own_chain [OF conjunct1 [OF parts] s] that a P(1) by auto
    qed
    then show ?thesis by (simp add: list_all_iff)
  qed
  ultimately show ?thesis using o P u parts r by (auto simp: minv0_def queued_def answers_def answer_def placed_update)
qed

end
