(* ===== verification/MuxStep.thy ===== *)
theory MuxStep
  imports MuxInv
begin

unbundle bit_operations_syntax

text \<open>Every step of the processes keeps the invariant of the multiplexer.\<close>

text \<open>A process changes requests of its own chain only.\<close>

lemma placed_others:
  assumes i: "minv0 x" and p: "p < length (x_pc x)" and P: "\<And>b. b \<notin> set (chain (x_pc x ! p)) \<Longrightarrow> b \<in> pending (x_rpc x) \<longleftrightarrow> b \<in> P'"
    and s: "placed P' s"
  shows "list_all (placed P') ((x_pc x)[p := s])"
proof -
  have o: "own (x_rpc x) (map chain (x_pc x))" and l: "list_all (placed (pending (x_rpc x))) (x_pc x)" using i by (simp_all add: minv0_def)
  have "placed P' ((x_pc x)[p := s] ! q)" if q: "q < length (x_pc x)" for q
  proof (cases "q = p")
    case False
    have "placed P' (x_pc x ! q)"
      by (rule placed_change [OF placed_nth [OF l q]]) (use P own_disj [OF o p q False] in blast)
    then show ?thesis using False by simp
  qed (use s p in simp)
  then show ?thesis by (simp add: list_all_length)
qed

lemma unsent_disj:
  assumes i: "minv0 x" and p: "p < length (x_pc x)" "uns (x_pc x ! p) = {}"
  shows "unsent (x_pc x) \<inter> set (chain (x_pc x ! p)) = {}"
proof -
  have o: "own (x_rpc x) (map chain (x_pc x))" using i by (simp add: minv0_def)
  have "uns (x_pc x ! q) \<inter> set (chain (x_pc x ! p)) = {}" if "q < length (x_pc x)" "q \<noteq> p" for q
    using own_disj [OF o p(1) that] uns_chain [of "x_pc x ! q"] by blast
  then show ?thesis using p by (auto simp: unsent_split [OF p(1)] unsent_but_def)
qed

lemma minv0_cut:
  assumes i: "minv0 x" and p: "is_at x p s" "uns s = {}" and c: "c = chain s" "c \<noteq> []"
  shows "\<exists>x'. mntflushfree x c = Some x' \<and> minv0 (goto x' p (Over (last c))) \<and> x_rip x' = x_rip x \<and> x_pc x' = x_pc x"
proof -
  let ?H = "x_rpc x"
  note parts = minv0_parts [OF i]
  have cd: "set c \<subseteq> dom ?H" "distinct c" using parts p c own_chain [of ?H "x_pc x" s] by (auto simp: own_def in_set_conv_nth)
  have q: "distinct (x_queue x)" "set (x_queue x) = pending ?H - unsent (x_pc x)" "unsent (x_pc x) \<subseteq> pending ?H" using parts by (auto simp: queued_def)
  let ?T = "rtag ?H ` dom ?H" and ?O = "h_tag ` set (x_other x)"
  have t: "inj_on (rtag ?H) (dom ?H)" "distinct (map h_tag (x_other x))" "?T \<inter> ?O = {}" "al_ok (x_al x) (?T \<union> ?O)" using parts by (auto simp: tagged_def)
  obtain al where al: "mntflushfree x c = Some (cutstate x c al)" "al_ok al (?T \<union> ?O - rtag ?H ` set (butlast c))"
    using mntflushfree_cut [OF c(2) cd(2,1) q(1) _ inj_on_subset [OF t(1) cd(1)] _ t(4)] q(2) image_mono [OF cd(1), of "rtag ?H"] by blast
  let ?x = "cutstate x c al" and ?H' = "x_rpc (cutstate x c al)"
  have bl: "set c = insert (last c) (set (butlast c))" "last c \<notin> set (butlast c)" "set (butlast c) \<subseteq> dom ?H"
    using c(2) cd by (metis append_butlast_last_id set_append list.simps(15) empty_set Un_insert_right sup_bot_right,
      metis append_butlast_last_id distinct_append disjoint_iff list.set_intros(1) c(2), auto dest: in_set_butlastD)
  have H': "?H' a = (if a \<in> set (butlast c) then None else if a = last c then map_option flushed (?H a) else ?H a)" for a by (simp add: cutstate_def)
  have d: "dom ?H' = dom ?H - set (butlast c)" using H' by (auto split: if_splits)
  have tg: "rtag ?H' a = rtag ?H a" if "a \<in> dom ?H'" for a using that H' [of a] by (cases "?H a") (auto simp: rtag_def split: if_splits)
  have P: "pending ?H' = pending ?H - set c" unfolding pending_def H' bl(1) by auto
  have "rtag ?H' ` dom ?H' = rtag ?H ` (dom ?H - set (butlast c))" using tg d by (metis image_cong)
  also have "\<dots> = ?T - rtag ?H ` set (butlast c)" by (rule inj_on_image_set_diff [OF t(1)]) (use bl(3) in auto)
  finally have T: "rtag ?H' ` dom ?H' = ?T - rtag ?H ` set (butlast c)" .
  have "rtag ?H ` set (butlast c) \<inter> ?O = {}" using t(3) bl(3) by blast
  then have "al_ok al (rtag ?H' ` dom ?H' \<union> ?O)" using al(2) unfolding T by (metis Un_Diff Diff_triv inf_commute)
  moreover have "inj_on (rtag ?H') (dom ?H')" using inj_on_cong [of "dom ?H'" "rtag ?H'" "rtag ?H"] tg inj_on_subset [OF t(1)] d by auto
  ultimately have T': "tagged (goto ?x p (Over (last c)))" using t(2,3) T by (auto simp: tagged_def cutstate_def)
  have "own ?H' ((map chain (x_pc x))[p := [last c]])"
    by (rule own_update [of ?H]) (use parts p c d bl cd in auto)
  then have o: "own ?H' (map chain ((x_pc x)[p := Over (last c)]))" by (simp add: map_update)
  have u: "unsent ((x_pc x)[p := Over (last c)]) = unsent (x_pc x)" "unsent (x_pc x) \<inter> set c = {}"
    using p c(1) unsent_move [of p "x_pc x" "Over (last c)"] unsent_disj [OF i, of p] by auto
  have pl: "list_all (placed (pending ?H')) ((x_pc x)[p := Over (last c)])"
    by (rule placed_others [OF i]) (use p P c bl in auto)
  have "answers ?H'" using parts answer_flushed unfolding answers_def H' by (auto split: if_splits)
  then have "minv0 (goto ?x p (Over (last c)))" using o T' pl u q P by (auto simp: minv0_def queued_def cutstate_def)
  then show ?thesis using al(1) by (auto simp: cutstate_def)
qed

lemma minv0_leave:
  assumes i: "minv0 x" and p: "is_at x p (Over a)" and f: "rpcfree x a = Some x'"
  shows "minv0 (goto x' p Idle)" "x_rip x' = x_rip x" "x_pc x' = x_pc x"
proof -
  let ?H = "x_rpc x"
  note parts = minv0_parts [OF i]
  obtain rr al where rr: "?H a = Some rr" "mntfree (x_al x) (rp_hdr rr) = Some al" "x' = x\<lparr>x_al := al, x_rpc := ?H(a := None)\<rparr>"
    using f by (auto simp: rpcfree_def bind_eq_Some_conv)
  show "x_rip x' = x_rip x" "x_pc x' = x_pc x" using rr(3) by simp_all
  let ?H' = "?H(a := None)" and ?T = "rtag ?H ` dom ?H" and ?O = "h_tag ` set (x_other x)"
  have t: "inj_on (rtag ?H) (dom ?H)" "distinct (map h_tag (x_other x))" "?T \<inter> ?O = {}" "al_ok (x_al x) (?T \<union> ?O)" using parts by (auto simp: tagged_def)
  have ta: "rp_tag rr = rtag ?H a" "a \<in> dom ?H" using rr(1) by (auto simp: rtag_def)
  have al: "al_ok al (?T \<union> ?O - {rtag ?H a})" using mntfree_held [OF t(4), of "rp_hdr rr"] rr(2) ta by auto
  have na: "a \<notin> pending ?H" using placed_nth [of _ "x_pc x" p] parts p by auto
  have P: "pending ?H' = pending ?H" using na by (auto simp: pending_def)
  have tg: "rtag ?H' b = rtag ?H b" if "b \<in> dom ?H'" for b using that by (auto simp: rtag_def)
  have "rtag ?H' ` dom ?H' = rtag ?H ` (dom ?H - {a})" using tg by (metis dom_fun_upd image_cong)
  also have "\<dots> = ?T - rtag ?H ` {a}" by (rule inj_on_image_set_diff [OF t(1)]) (use ta in auto)
  finally have T: "rtag ?H' ` dom ?H' = ?T - {rtag ?H a}" by simp
  have "{rtag ?H a} \<inter> ?O = {}" using t(3) ta by blast
  then have "al_ok al (rtag ?H' ` dom ?H' \<union> ?O)" using al unfolding T by (metis Un_Diff Diff_triv inf_commute)
  moreover have "inj_on (rtag ?H') (dom ?H')" using inj_on_cong [of "dom ?H'" "rtag ?H'" "rtag ?H"] tg inj_on_subset [OF t(1)] by auto
  ultimately have T': "tagged (goto x' p Idle)" using t(2,3) T rr(3) by (auto simp: tagged_def)
  have "own ?H' ((map chain (x_pc x))[p := []])" by (rule own_update [of ?H]) (use parts p in auto)
  then have o: "own ?H' (map chain ((x_pc x)[p := Idle]))" by (simp add: map_update)
  have u: "unsent ((x_pc x)[p := Idle]) = unsent (x_pc x)" using p by (intro unsent_move) auto
  have "list_all (placed (pending ?H')) ((x_pc x)[p := Idle])" by (rule placed_others [OF i]) (use p P in auto)
  then show "minv0 (goto x' p Idle)" using o T' u parts P rr(3) by (auto simp: minv0_def queued_def answers_def)
qed

section \<open>Receiving\<close>

lemma tagged_same: "dom H = dom (x_rpc x) \<Longrightarrow> (\<And>a. rtag H a = rtag (x_rpc x) a) \<Longrightarrow> tagged x \<Longrightarrow> tagged (x\<lparr>x_rpc := H\<rparr>)"
proof -
  assume "dom H = dom (x_rpc x)" "\<And>a. rtag H a = rtag (x_rpc x) a" "tagged x"
  moreover from this(2) have "rtag H = rtag (x_rpc x)" by (rule ext)
  ultimately show ?thesis by (simp add: tagged_def)
qed

lemma minv0_reply:
  assumes i: "minv0 x" and r: "x_rpc x a = Some r" "\<not> rp_done r" "wf_rfcall (m_reply y)"
  shows "minv0 (x\<lparr>x_rpc := (x_rpc x)(a \<mapsto> r\<lparr>rp_reply := y\<rparr>)\<rparr>)"
proof -
  let ?H = "(x_rpc x)(a \<mapsto> r\<lparr>rp_reply := y\<rparr>)"
  have d: "dom ?H = dom (x_rpc x)" "rtag ?H b = rtag (x_rpc x) b" "pending ?H = pending (x_rpc x)" for b using r by (auto simp: rtag_def pending_def)
  then show ?thesis using i tagged_same [of ?H x] r(2,3) by (auto simp: minv0_def own_def queued_def answers_def answer_def)
qed

lemma mux_find_ok:
  "set as \<subseteq> dom H \<Longrightarrow> mux_find H t as = Some None \<and> (\<forall>a \<in> set as. rtag H a \<noteq> t) \<or>
     (\<exists>a \<in> set as. mux_find H t as = Some (Some a) \<and> rtag H a = t)"
proof (induction as)
  case (Cons b as)
  then obtain q where q: "H b = Some q" by auto
  then have "rtag H b = rp_tag q" by (simp add: rtag_def)
  then show ?case using Cons q by (cases "rp_tag q = t") auto
qed simp

lemma placed_woken:
  assumes "list_all (placed P) ps"
  shows "list_all (placed (P - {a})) (fst (Wakeup ps a))"
proof -
  have "placed (P - {a}) (case s of Waiting (b # rs) \<Rightarrow> if b = a then Woke (b # rs) else s | _ \<Rightarrow> s)" if "placed P s" for s
    using that by (cases s) (auto split: list.split)
  then show ?thesis using assms by (auto simp: Wakeup_def list_all_iff)
qed

text \<open>The state after \<open>mountmux\<close> found the request \<open>a\<close> for the reply that the reader has in \<open>r\<close>.\<close>

definition delivered :: "mux \<Rightarrow> addr \<Rightarrow> addr \<Rightarrow> mux" where
  "delivered x r a = (let rr = the (x_rpc x r); q = the (x_rpc x a) in
     if a \<noteq> r then x\<lparr>x_queue := remove1 a (x_queue x), x_rpc := (x_rpc x)(a \<mapsto> q\<lparr>rp_reply := rp_reply rr, rp_done := True\<rparr>, r \<mapsto> rr\<lparr>rp_reply := (rp_reply rr)\<lparr>m_b := []\<rparr>\<rparr>),
         x_pc := fst (Wakeup (x_pc x) a)\<rparr>
     else x\<lparr>x_queue := remove1 a (x_queue x), x_rpc := (x_rpc x)(r \<mapsto> rr\<lparr>rp_done := True\<rparr>)\<rparr>)"

lemma mountmux_cases:
  assumes i: "minv0 x" and r: "x_rpc x r = Some rr"
  defines "t \<equiv> f_tag (m_reply (rp_reply rr))"
  shows "(\<exists>a \<in> set (x_queue x). rtag (x_rpc x) a = t \<and> mountmux x r = Some (delivered x r a)) \<or>
    (\<forall>a \<in> set (x_queue x). rtag (x_rpc x) a \<noteq> t) \<and> mountmux x r = Some x"
proof -
  have d: "set (x_queue x) \<subseteq> dom (x_rpc x)" using i by (auto simp: minv0_def queued_def pending_def)
  from mux_find_ok [OF d, of t] show ?thesis
  proof
    assume "mux_find (x_rpc x) t (x_queue x) = Some None \<and> (\<forall>a \<in> set (x_queue x). rtag (x_rpc x) a \<noteq> t)"
    then show ?thesis using r by (simp add: mountmux_def t_def)
  next
    assume "\<exists>a \<in> set (x_queue x). mux_find (x_rpc x) t (x_queue x) = Some (Some a) \<and> rtag (x_rpc x) a = t"
    then obtain a where a: "a \<in> set (x_queue x)" "mux_find (x_rpc x) t (x_queue x) = Some (Some a)" "rtag (x_rpc x) a = t" by blast
    obtain q where q: "x_rpc x a = Some q" using a(1) d by auto
    have "mountmux x r = Some (delivered x r a)" using r q a(2) by (simp add: mountmux_def delivered_def t_def)
    then show ?thesis using a(1,3) by blast
  qed
qed

lemma minv0_delivered:
  assumes i: "minv0 x" and r: "x_rpc x r = Some rr" "\<not> rp_done rr" and p: "is_at x p (Reading (r # c))"
    and a: "a \<in> set (x_queue x)" "rtag (x_rpc x) a = f_tag (m_reply (rp_reply rr))"
  shows "minv0 (delivered x r a)" "readied (x_pc x) (x_pc (delivered x r a))" "x_rip (delivered x r a) = x_rip x"
proof -
  note parts = minv0_parts [OF i]
  have aP: "a \<in> pending (x_rpc x)" "a \<notin> unsent (x_pc x)" "distinct (x_queue x)" using parts a(1) by (auto simp: queued_def)
  obtain q where q: "x_rpc x a = Some q" "\<not> rp_done q" using aP(1) by (auto simp: pending_def)
  let ?x = "delivered x r a" let ?H = "x_rpc ?x"
  have H: "dom ?H = dom (x_rpc x)" "rtag ?H b = rtag (x_rpc x) b" "pending ?H = pending (x_rpc x) - {a}" for b
    using q r by (auto simp: delivered_def Let_def rtag_def pending_def split: if_splits)
  have an: "answers ?H" using parts r q a(2) by (auto simp: delivered_def Let_def answers_def answer_def rtag_def split: if_splits)
  show rd: "readied (x_pc x) (x_pc ?x)" "x_rip ?x = x_rip x" using Wakeup_readied by (simp_all add: delivered_def Let_def)
  have pl: "list_all (placed (pending (x_rpc x) - {a})) (x_pc ?x)"
  proof (cases "a = r")
    case False
    then show ?thesis using placed_woken parts by (simp add: delivered_def Let_def)
  next
    case True
    have "list_all (placed (pending (x_rpc x) - {a})) ((x_pc x)[p := Reading (r # c)])"
      by (rule placed_others [OF i]) (use p True in auto)
    then show ?thesis using True p by (simp add: delivered_def Let_def) (metis list_update_id)
  qed
  have q': "x_queue ?x = remove1 a (x_queue x)" "x_al ?x = x_al x" "x_other ?x = x_other x" by (simp_all add: delivered_def Let_def)
  have "tagged (x\<lparr>x_rpc := ?H\<rparr>)" using tagged_same [OF H(1,2)] parts by simp
  then have "tagged ?x" using q' by (simp add: tagged_def)
  moreover have "own ?H (map chain (x_pc ?x))" unfolding readied_chain [OF rd(1)] using parts H(1) by (simp add: own_def)
  moreover have "queued ?x" using parts aP H(3) q'(1) readied_unsent [OF rd(1)] by (auto simp: queued_def)
  ultimately show "minv0 ?x" using pl an H(3) by (simp add: minv0_def)
qed

section \<open>One reader\<close>

lemma reader_move: "reader rip ps \<Longrightarrow> p < length ps \<Longrightarrow> \<not> reading s \<Longrightarrow> (rip = Some p \<longrightarrow> caught s) \<Longrightarrow> reader rip (ps[p := s])"
  by (auto simp: reader_def nth_list_update split: option.splits)

lemma reader_take: "reader None ps \<Longrightarrow> p < length ps \<Longrightarrow> reader (Some p) (ps[p := Reading c])"
  by (auto simp: reader_def nth_list_update)

lemma reader_end: "reader (Some p) ps \<Longrightarrow> \<not> reading s \<Longrightarrow> reader None (ps[p := s])"
  by (auto simp: reader_def nth_list_update)

lemma reader_here: "reader rip ps \<Longrightarrow> p < length ps \<Longrightarrow> ps ! p = Reading c \<Longrightarrow> rip = Some p"
  by (simp add: reader_def)

lemma reader_not: "minv x \<Longrightarrow> is_at x p s \<Longrightarrow> \<not> reading s \<Longrightarrow> \<not> caught s \<Longrightarrow> x_rip x \<noteq> Some p"
proof
  assume "minv x" "is_at x p s" "\<not> reading s" "\<not> caught s" "x_rip x = Some p"
  then show False by (simp add: minv_def reader_def)
qed

lemma minv_goto:
  assumes "minv x" "is_at x p s" "minv0 (goto x' p s')" "x_rip x' = x_rip x" "x_pc x' = x_pc x" "\<not> reading s'" "x_rip x = Some p \<longrightarrow> caught s'"
  shows "minv (goto x' p s')"
  using assms reader_move [of "x_rip x" "x_pc x" p s'] by (simp add: minv_def)

lemma minv_move:
  assumes "minv x" "is_at x p s" "chain s' = chain s" "uns s = {}" "uns s' = {}" "placed (pending (x_rpc x)) s'"
    "\<not> reading s'" "x_rip x = Some p \<longrightarrow> caught s'"
  shows "minv (goto x p s')"
  by (rule minv_goto [of x p s]) (use assms minv0_move [of x p s s'] in \<open>simp_all add: minv_def\<close>)

lemma placed_chain: "minv x \<Longrightarrow> is_at x p s \<Longrightarrow> s \<noteq> Idle \<Longrightarrow> chain s \<noteq> []"
  using placed_nth [of "pending (x_rpc x)" "x_pc x" p] by (cases s) (auto simp: minv_def minv0_def)

lemma handler_ok:
  assumes i: "minv x" and p: "is_at x p (Caught b c)"
  shows "\<exists>x1. handler x p = Some x1 \<and> minv x1 \<and> is_at x1 p (Caught b c) \<and> x_rip x1 \<noteq> Some p \<and> x_rpc x1 = x_rpc x"
proof (cases "x_rip x = Some p")
  case True
  obtain ps where ps: "mntgate x = Some (x\<lparr>x_rip := None, x_pc := ps\<rparr>)" "readied (x_pc x) ps" "minv0 (x\<lparr>x_rip := None, x_pc := ps\<rparr>)"
    using mntgate_ok i by (auto simp: minv_def)
  have n: "length ps = length (x_pc x)" "ps ! p = Caught b c" using readied_nth [OF ps(2), of p] p by auto
  have "reader (Some p) ps" using readied_reader [OF ps(2)] i True by (simp add: minv_def)
  from reader_end [OF this, of "Caught b c"] have "reader None ps" using n(2) by (simp add: list_update_same_conv p n(1)) (metis list_update_id)
  then show ?thesis using True ps(1,3) n p by (simp add: handler_def minv_def)
qed (use assms in \<open>simp add: handler_def\<close>)

lemma minv_cut:
  assumes i: "minv x" and p: "is_at x p s" "uns s = {}" "chain s \<noteq> []" "x_rip x \<noteq> Some p" and f: "mntflushfree x (chain s) = Some x'"
  shows "minv (goto x' p (Over (last (chain s))))"
proof -
  have "minv0 (goto x' p (Over (last (chain s))))" "x_rip x' = x_rip x" "x_pc x' = x_pc x"
    using minv0_cut [of x p s "chain s"] i p f by (auto simp: minv_def)
  then show ?thesis using i p by (intro minv_goto [of x p s]) auto
qed

lemma finish_minv:
  assumes i: "minv x" and p: "is_at x p (Reading c)" and g: "mntgate x = Some x1" "mntflushfree x1 c = Some x'"
  shows "minv (goto x' p (Over (last c)))"
proof -
  obtain ps where ps: "x1 = x\<lparr>x_rip := None, x_pc := ps\<rparr>" "readied (x_pc x) ps" "minv0 x1"
    using mntgate_ok [of x] i g(1) by (auto simp: minv_def)
  have n: "length ps = length (x_pc x)" "ps ! p = Reading c" using readied_nth [OF ps(2), of p] p by auto
  have "reader (Some p) ps" using readied_reader [OF ps(2)] reader_here [of "x_rip x" "x_pc x" p c] i p by (simp add: minv_def)
  from reader_end [OF this, of "Over (last c)"] have "reader None (ps[p := Over (last c)])" by simp
  moreover have "c \<noteq> []" using placed_chain [OF i p] by simp
  ultimately show ?thesis using minv0_cut [of x1 p "Reading c" c] ps(1,3) n p g(2) by (auto simp: minv_def)
qed

lemma receive_minv:
  assumes i: "minv x" and p: "is_at x p (Reading (a # c))" and a: "x_rpc x a = Some rr" "\<not> rp_done rr" and y: "wf_rfcall (m_reply y)"
    and m: "mountmux (x\<lparr>x_q := q, x_src := src, x_rpc := (x_rpc x)(a \<mapsto> rr\<lparr>rp_reply := y\<rparr>)\<rparr>) a = Some x'"
  shows "minv x'"
proof -
  let ?x = "x\<lparr>x_q := q, x_src := src, x_rpc := (x_rpc x)(a \<mapsto> rr\<lparr>rp_reply := y\<rparr>)\<rparr>"
  have i0: "minv0 ?x" using minv0_reply [of "x\<lparr>x_q := q, x_src := src\<rparr>" a rr y] i a y by (simp add: minv_def)
  have r: "reader (x_rip ?x) (x_pc ?x)" using i by (simp add: minv_def)
  have ra: "x_rpc ?x a = Some (rr\<lparr>rp_reply := y\<rparr>)" "\<not> rp_done (rr\<lparr>rp_reply := y\<rparr>)" "is_at ?x p (Reading (a # c))" using a p by auto
  from mountmux_cases [OF i0 ra(1)] m show ?thesis
  proof (elim disjE bexE conjE)
    fix b assume b: "b \<in> set (x_queue ?x)" "rtag (x_rpc ?x) b = f_tag (m_reply (rp_reply (rr\<lparr>rp_reply := y\<rparr>)))" "mountmux ?x a = Some (delivered ?x a b)"
    note d = minv0_delivered [OF i0 ra b(1,2)]
    show ?thesis using b(3) m d readied_reader [OF d(2) r] by (simp add: minv_def)
  qed (use i0 r m in \<open>simp add: minv_def\<close>)
qed

lemma minv_elsefree:
  assumes i: "minv x" and h: "h \<in> set (x_other x)" and f: "mntfree (x_al x) h = Some al"
  shows "minv (x\<lparr>x_al := al, x_other := remove1 h (x_other x)\<rparr>)"
proof -
  let ?T = "rtag (x_rpc x) ` dom (x_rpc x)" and ?O = "h_tag ` set (x_other x)"
  have t: "distinct (map h_tag (x_other x))" "?T \<inter> ?O = {}" "al_ok (x_al x) (?T \<union> ?O)" using i by (auto simp: minv_def minv0_def tagged_def)
  have r: "distinct (map h_tag (remove1 h (x_other x)))" "h_tag ` set (remove1 h (x_other x)) = ?O - {h_tag h}"
    using mt.distinct_remove1_tags [OF t(1) h] by simp_all
  have "al_ok al (?T \<union> ?O - {h_tag h})" using mntfree_held [OF t(3), of h] h f by auto
  moreover have "?T \<union> ?O - {h_tag h} = ?T \<union> (?O - {h_tag h})" using t(2) h by auto
  moreover have "?T \<inter> (?O - {h_tag h}) = {}" using t(2) by blast
  ultimately show ?thesis using i r by (simp add: minv_def minv0_def tagged_def queued_def)
qed

theorem mstep_minv: "mstep wfail False n x y \<Longrightarrow> minv x \<Longrightarrow> minv y"
proof (induction rule: mstep.induct)
  case (call x p hm bm al h a y t)
  have "minv0 (goto (x\<lparr>x_al := al, x_rpc := (x_rpc x)(a \<mapsto> newrpc h t y)\<rparr>) p (Sending (a # chain Idle)))"
    by (rule minv0_new) (use call in \<open>auto simp: minv_def newrpc_def wf_rfcall_def\<close>)
  then show ?case using call(1,5) reader_not [OF call(5,1)] by (intro minv_goto [of x p Idle]) simp_all
next
  case (enqueue x p a c)
  then show ?case using minv0_enqueue [of x p a c] reader_not [OF enqueue(2,1)] by (intro minv_goto [of x p "Sending (a # c)"]) (simp_all add: minv_def)
next
  case (written x p c)
  then show ?case using placed_chain [OF written(2,1)] reader_not [OF written(2,1)] by (intro minv_move [of x p "Writing c"]) simp_all
next
  case (unwritten x p c)
  then show ?case using placed_chain [OF unwritten(3,1)] by (intro minv_move [of x p "Writing c"]) simp_all
next
  case (gate x p c)
  then show ?case using placed_chain [OF gate(3,1)] minv0_move [of "x\<lparr>x_rip := Some p\<rparr>" p "Gating c" "Reading c"] reader_take [of "x_pc x" p c]
    by (simp add: minv_def)
next
  case (sleepy x p c)
  then show ?case using placed_chain [OF sleepy(3,1)] reader_not [OF sleepy(3,1)] by (intro minv_move [of x p "Gating c"]) simp_all
next
  case (sleep x p a c b)
  then have "\<not> b \<Longrightarrow> a \<in> pending (x_rpc x)" by (auto simp: rpcattn_def pending_def bind_eq_Some_conv)
  then show ?case using sleep reader_not [OF sleep(3,1)] by (intro minv_move [of x p "Sleepy (a # c)"]) simp_all
next
  case (again x p a c rr)
  then show ?case using reader_not [OF again(4,1)] by (intro minv_move [of x p "Woke (a # c)"]) simp_all
next
  case (answered x p a c rr x')
  then show ?case using minv_cut [of x p "Woke (a # c)" x'] reader_not [OF answered(5,1)] by simp
next
  case (receive x p a c rr q src y x')
  have "wf_rfcall (m_reply (rp_reply rr))" using receive(2,6) by (simp add: minv_def minv0_def answers_def answer_def)
  from receive_minv [OF receive(6,1,2,3) mntrpcread_wf [OF receive(4) this] receive(5)] show ?case .
next
  case (unread x p a c rr q src v)
  have "minv (x\<lparr>x_q := q, x_src := src\<rparr>)" using unread(6) by (simp add: minv_def)
  from minv_move [OF this, of p "Reading (a # c)" "Caught (interrupted v) (a # c)"] unread(1) show ?case by simp
next
  case (finish x p a c rr x1 x')
  from finish_minv [OF finish(6,1,4,5)] show ?case .
next
  case (interrupt x p s c)
  have s: "uns s = {}" "chain s = c" "s \<noteq> Idle" using interrupt(2) by auto
  then show ?case using interrupt(1,3) placed_chain [OF interrupt(3,1)] by (intro minv_move [of x p s]) simp_all
next
  case (failed x p c x1 x')
  obtain h: "minv x1" "is_at x1 p (Caught False c)" "x_rip x1 \<noteq> Some p" using handler_ok [OF failed(4,1)] failed(2) by auto
  then show ?case using minv_cut [OF h(1,2) _ _ h(3), of x'] placed_chain [OF h(1,2)] failed(3) by simp
next
  case (flush x p a c x1 fr y hm bm x')
  obtain x1: "minv x1" "is_at x1 p (Caught True (a # c))" "x_rip x1 \<noteq> Some p" "x_rpc x1 fr = None" using handler_ok [OF flush(6,1)] flush(2,3) by auto
  obtain al h rr where al: "mntralloc (x_al x1) hm bm n = (al, Inr h)" and x': "x' = x1\<lparr>x_al := al, x_rpc := (x_rpc x1)(fr \<mapsto> \<lparr>rp_hdr = h, rp_type = Tflush,
      rp_oldtag = (if rp_type rr = Tflush then rp_oldtag rr else rp_tag rr), rp_reply = y\<lparr>m_b := []\<rparr>, rp_done = False\<rparr>)\<rparr>"
    using flush(5) by (auto simp: mntflushalloc_def bind_eq_Some_conv split: prod.splits sum.splits)
  have "minv0 (goto x' p (Sending (fr # chain (Caught True (a # c)))))" unfolding x'
    by (rule minv0_new) (use x1 al flush(4) in \<open>simp_all add: minv_def\<close>)
  then show ?case using x1 by (intro minv_goto [of x1 p "Caught True (a # c)"]) (simp_all add: x')
next
  case (leave x p a x')
  then show ?case using minv0_leave [of x p a x'] reader_not [OF leave(3,1)] by (intro minv_goto [of x p "Over a"]) (simp_all add: minv_def)
next
  case (nocall x hm bm k al e)
  then show ?case using mntralloc_fails by (auto simp: minv_def minv0_def tagged_def queued_def)
next
  case (elsewhere x hm bm k al h)
  then show ?case using mntralloc_fresh [of "x_al x" _ hm bm k al h] by (auto simp: minv_def minv0_def tagged_def queued_def)
next
  case (elsefree h x al)
  then show ?case using minv_elsefree by blast
qed (auto simp: minv_def)

end
