(* ===== verification/MuxThms.thy ===== *)
theory MuxThms
  imports MuxStep
begin

unbundle bit_operations_syntax

text \<open>The properties of the multiplexer: the invariant over all runs, delivery of replies to their requests, and that no process is left asleep; runs that show
  where the code lets go of a request or of a sleeping process.\<close>

section \<open>Delivery\<close>

lemma delivers:
  assumes i: "minv x" and p: "is_at x p (Reading (a # c))" and a: "x_rpc x a = Some rr" "\<not> rp_done rr"
    and s: "mq (x_q x)" "wf_src (x_src x)" "stream (x_q x) (x_src x) = enc tag m @ rest" and m: "wf_msg m" "msize m \<le> n" "n < 2 ^ 31"
  shows "\<exists>x'. mstep wfail am n x x' \<and> stream (x_q x') (x_src x') = rest \<and> mq (x_q x') \<and> wf_src (x_src x') \<and>
    (\<forall>b \<in> set (x_queue x). rtag (x_rpc x) b = tag \<longrightarrow> (\<exists>r. x_rpc x' b = Some r \<and> rp_done r \<and> reply_is tag m (rp_reply r)) \<and> (\<forall>d. Waiting (b # d) \<notin> set (x_pc x'))) \<and>
    (\<forall>b. b \<noteq> a \<and> \<not> (b \<in> set (x_queue x) \<and> rtag (x_rpc x) b = tag) \<longrightarrow> x_rpc x' b = x_rpc x b)"
proof -
  have "wf_rfcall (m_reply (rp_reply rr))" using i a(1) by (simp add: minv_def minv0_def answers_def answer_def)
  then obtain q src y where r: "mntrpcread (\<lambda>_. True) (int n) (x_q x) (x_src x) (rp_reply rr) = Some (q, src, Ret (0, y))" "mq q" "wf_src src" "stream q src = rest" "reply_is tag m y"
    using mntrpcread_reads [OF s m(1), of "int n" "rp_reply rr" "\<lambda>_. True"] m(2,3) by (auto simp: mreads_def)
  let ?x = "x\<lparr>x_q := q, x_src := src, x_rpc := (x_rpc x)(a \<mapsto> rr\<lparr>rp_reply := y\<rparr>)\<rparr>"
  have i0: "minv0 ?x" using minv0_reply [of "x\<lparr>x_q := q, x_src := src\<rparr>" a rr y] i a mntrpcread_wf [OF r(1)] \<open>wf_rfcall (m_reply (rp_reply rr))\<close> by (simp add: minv_def)
  have ra: "x_rpc ?x a = Some (rr\<lparr>rp_reply := y\<rparr>)" by simp
  have tg: "rtag (x_rpc ?x) b = rtag (x_rpc x) b" for b using a(1) by (simp add: rtag_def)
  have ft: "f_tag (m_reply y) = tag" using r(5) by (simp add: reply_is_def)
  have inj: "b = d" if "b \<in> set (x_queue x)" "d \<in> set (x_queue x)" "rtag (x_rpc x) b = tag" "rtag (x_rpc x) d = tag" for b d
    using i that by (auto simp: minv_def minv0_def tagged_def queued_def pending_def inj_on_def)
  from mountmux_cases [OF i0 ra] show ?thesis
  proof (elim disjE bexE conjE)
    fix b assume b: "b \<in> set (x_queue ?x)" "rtag (x_rpc ?x) b = f_tag (m_reply (rp_reply (rr\<lparr>rp_reply := y\<rparr>)))" "mountmux ?x a = Some (delivered ?x a b)"
    let ?y = "delivered ?x a b"
    have mst: "mstep wfail am n x ?y" by (rule mstep.receive [OF p a r(1) b(3)])
    have bq: "b \<in> set (x_queue x)" "rtag (x_rpc x) b = tag" using b(1,2) tg ft by simp_all
    have only: "d = b" if "d \<in> set (x_queue x)" "rtag (x_rpc x) d = tag" for d using inj [OF that(1) bq(1) that(2) bq(2)] .
    have nw: "Waiting (b # d) \<notin> set (x_pc ?y)" for d
    proof (cases "b = a")
      case True
      have "Waiting (a # d) \<notin> set (x_pc x)"
      proof
        assume "Waiting (a # d) \<in> set (x_pc x)"
        then obtain q where q: "q < length (x_pc x)" "x_pc x ! q = Waiting (a # d)" by (auto simp: in_set_conv_nth)
        then have "q \<noteq> p" using p by auto
        then show False using own_disj [of "x_rpc x" "x_pc x" p q] q p i by (auto simp: minv_def minv0_def)
      qed
      then show ?thesis using True by (simp add: delivered_def)
    next
      case False
      then show ?thesis by (auto simp: delivered_def Let_def Wakeup_def split: mpc.splits list.splits if_splits)
    qed
    obtain qb where qb: "x_rpc x b = Some qb" using bq(1) i by (auto simp: minv_def minv0_def queued_def pending_def)
    have "\<exists>r. x_rpc ?y b = Some r \<and> rp_done r \<and> reply_is tag m (rp_reply r)"
      using r(5) qb a(1) by (cases "b = a") (simp_all add: delivered_def Let_def)
    moreover have "x_rpc ?y d = x_rpc x d" if "d \<noteq> a" "\<not> (d \<in> set (x_queue x) \<and> rtag (x_rpc x) d = tag)" for d
      using that bq by (auto simp: delivered_def Let_def)
    moreover have "x_q ?y = q" "x_src ?y = src" by (simp_all add: delivered_def Let_def)
    ultimately show ?thesis using mst nw only r(2-4) by metis
  next
    assume n: "\<forall>b \<in> set (x_queue ?x). rtag (x_rpc ?x) b \<noteq> f_tag (m_reply (rp_reply (rr\<lparr>rp_reply := y\<rparr>)))" and e: "mountmux ?x a = Some ?x"
    have "mstep wfail am n x ?x" by (rule mstep.receive [OF p a r(1) e])
    then show ?thesis using n r(2-4) tg ft by (intro exI [of _ ?x]) simp
  qed
qed

section \<open>Nobody sleeps unattended\<close>

text \<open>A process on its way to the gate: it will become the reader, or find another one.\<close>

fun coming :: "addr set \<Rightarrow> mpc \<Rightarrow> bool" where
  "coming P (Sending c) = (hd c \<in> P)" | "coming P (Writing c) = (hd c \<in> P)" | "coming P (Gating c) = (hd c \<in> P)"
| "coming P (Sleepy c) = (hd c \<in> P)" | "coming P (Woke c) = (hd c \<in> P)" | "coming P (Caught b c) = b"
| "coming P s = False"

fun waiting :: "mpc \<Rightarrow> bool" where
  "waiting (Waiting c) = True"
| "waiting s = False"

fun failing :: "mpc \<Rightarrow> bool" where
  "failing (Caught b c) = (\<not> b)"
| "failing s = False"

definition attended :: "mux \<Rightarrow> bool" where
  "attended x \<longleftrightarrow> x_rip x \<noteq> None \<or> \<not> list_ex waiting (x_pc x) \<or> list_ex (coming (pending (x_rpc x))) (x_pc x)"

definition guarded :: "mux \<Rightarrow> bool" where
  "guarded x \<longleftrightarrow> (\<forall>p < length (x_pc x). failing (x_pc x ! p) \<longrightarrow> x_rip x = Some p)"

lemma list_ex_nth: "list_ex f xs \<longleftrightarrow> (\<exists>i < length xs. f (xs ! i))"
  by (simp add: list_ex_iff Bex_def in_set_conv_nth) blast

lemma attended_update:
  assumes "attended x" "p < length (x_pc x)" "x_pc x' = (x_pc x)[p := s]" "x_rip x' = x_rip x"
    "\<And>q. q < length (x_pc x) \<Longrightarrow> q \<noteq> p \<Longrightarrow> coming (pending (x_rpc x)) (x_pc x ! q) \<Longrightarrow> coming (pending (x_rpc x')) (x_pc x ! q)"
    "coming (pending (x_rpc x)) (x_pc x ! p) \<Longrightarrow> coming (pending (x_rpc x')) s" "waiting s \<Longrightarrow> x_rip x \<noteq> None"
  shows "attended x'"
proof (cases "x_rip x = None \<and> list_ex waiting (x_pc x')")
  case True
  then obtain q where q: "q < length (x_pc x)" "waiting ((x_pc x)[p := s] ! q)" using assms(3) by (auto simp: list_ex_nth)
  then have "q \<noteq> p" "waiting (x_pc x ! q)" using assms(2,7) True by (cases "q = p"; simp)+
  then have "list_ex (coming (pending (x_rpc x))) (x_pc x)" using assms(1) True q by (auto simp: attended_def list_ex_nth)
  then obtain k where k: "k < length (x_pc x)" "coming (pending (x_rpc x)) (x_pc x ! k)" by (auto simp: list_ex_nth)
  then have "coming (pending (x_rpc x')) (x_pc x' ! k)" using assms(2,3,5,6) by (cases "k = p") auto
  then show ?thesis using k(1) assms(3) by (auto simp: attended_def list_ex_nth)
qed (use assms(4) in \<open>auto simp: attended_def\<close>)

lemma attended_coming: "p < length (x_pc x) \<Longrightarrow> coming (pending (x_rpc x)) (x_pc x ! p) \<Longrightarrow> attended x"
  by (auto simp: attended_def list_ex_nth)

lemma coming_change: "coming P s \<Longrightarrow> chain s \<noteq> [] \<Longrightarrow> (\<And>b. b \<in> set (chain s) \<Longrightarrow> b \<in> P \<longleftrightarrow> b \<in> P') \<Longrightarrow> coming P' s"
  by (cases s) auto

text \<open>What a process does to its own requests leaves the others coming.\<close>

lemma coming_others:
  assumes i: "minv0 x" and p: "p < length (x_pc x)" and q: "q < length (x_pc x)" "q \<noteq> p" and c: "coming (pending (x_rpc x)) (x_pc x ! q)"
    and P: "\<And>b. b \<notin> set (chain (x_pc x ! p)) \<Longrightarrow> b \<in> pending (x_rpc x) \<Longrightarrow> b \<in> P'" and P2: "P' \<subseteq> pending (x_rpc x) \<union> set (chain (x_pc x ! p))"
  shows "coming P' (x_pc x ! q)"
proof -
  have o: "own (x_rpc x) (map chain (x_pc x))" "placed (pending (x_rpc x)) (x_pc x ! q)" using i q by (simp_all add: minv0_def list_all_length)
  have d: "set (chain (x_pc x ! p)) \<inter> set (chain (x_pc x ! q)) = {}" by (rule own_disj [OF o(1) p q])
  have "chain (x_pc x ! q) \<noteq> []" using o(2) c by (cases "x_pc x ! q") auto
  then show ?thesis using coming_change [OF c, of P'] d P P2 by blast
qed

lemma pending_flushfree:
  assumes i: "minv0 x" and p: "is_at x p s" "uns s = {}" and c: "c = chain s" "c \<noteq> []" and f: "mntflushfree x c = Some x'"
  shows "pending (x_rpc x') = pending (x_rpc x) - set c" "x_pc x' = x_pc x" "x_rip x' = x_rip x"
proof -
  let ?H = "x_rpc x"
  note parts = minv0_parts [OF i]
  have cd: "set c \<subseteq> dom ?H" "distinct c" using parts p c own_chain [of ?H "x_pc x" s] by (auto simp: own_def in_set_conv_nth)
  have q: "distinct (x_queue x)" "set (x_queue x) \<subseteq> pending ?H" using parts by (auto simp: queued_def)
  let ?L = "rtag ?H ` dom ?H \<union> h_tag ` set (x_other x)"
  have t: "inj_on (rtag ?H) (dom ?H)" "al_ok (x_al x) ?L" using parts by (auto simp: tagged_def)
  have "set c \<inter> set (x_queue x) \<subseteq> pending ?H" "rtag ?H ` set c \<subseteq> ?L" using q(2) cd(1) by blast+
  from mntflushfree_cut [OF c(2) cd(2,1) q(1) this(1) inj_on_subset [OF t(1) cd(1)] this(2) t(2)] f
  obtain al where x': "x' = cutstate x c al" by auto
  have bl: "set c = insert (last c) (set (butlast c))" using c(2) by (metis append_butlast_last_id set_append list.simps(15) empty_set Un_insert_right sup_bot_right)
  show "pending (x_rpc x') = pending (x_rpc x) - set c" unfolding x' bl by (auto simp: cutstate_def pending_def)
  show "x_pc x' = x_pc x" "x_rip x' = x_rip x" by (simp_all add: x' cutstate_def)
qed

lemma gate_attends:
  assumes i: "minv0 x" and g: "mntgate x = Some x1" and p: "is_at x p s" "reading s \<or> caught s"
  shows "attended x1" "x_rip x1 = None" "x_rpc x1 = x_rpc x" "is_at x1 p s" "list_ex waiting (x_pc x1) \<Longrightarrow> \<exists>q < length (x_pc x1). q \<noteq> p \<and> coming (pending (x_rpc x1)) (x_pc x1 ! q)"
proof -
  obtain ps where ps: "x1 = x\<lparr>x_rip := None, x_pc := ps\<rparr>" "readied (x_pc x) ps" "gate_loop (x_rpc x) (x_pc x) (x_queue x) = Some ps"
    using g gate_loop_readied by (auto simp: mntgate_def bind_eq_Some_conv)
  have n: "ps ! p = s" "length ps = length (x_pc x)" using readied_nth [OF ps(2), of p] p by auto
  show e: "x_rip x1 = None" "x_rpc x1 = x_rpc x" "is_at x1 p s" using ps(1) n p by auto
  show w: "\<exists>q < length (x_pc x1). q \<noteq> p \<and> coming (pending (x_rpc x1)) (x_pc x1 ! q)" if lw: "list_ex waiting (x_pc x1)"
  proof -
    obtain q where q: "q < length ps" "waiting (ps ! q)" using lw ps(1) by (auto simp: list_ex_nth)
    then have "waiting (x_pc x ! q)" using readied_nth [OF ps(2), of q] n(2) by auto
    then obtain c where c: "x_pc x ! q = Waiting c" by (cases "x_pc x ! q") auto
    then have pl: "c \<noteq> []" "hd c \<in> pending (x_rpc x)" using i q n(2) placed_nth [of "pending (x_rpc x)" "x_pc x" q] by (auto simp: minv0_def)
    then obtain a d where a: "c = a # d" "a \<in> pending (x_rpc x)" by (cases c) auto
    have in_ps: "Waiting (a # d) \<in> set (x_pc x)" using c a q n(2) by (metis nth_mem)
    have "a \<notin> unsent (x_pc x)"
    proof
      assume "a \<in> unsent (x_pc x)"
      then obtain k where k: "k < length (x_pc x)" "a \<in> uns (x_pc x ! k)" by (auto simp: unsent_def in_set_conv_nth)
      then have "k \<noteq> q" "a \<in> set (chain (x_pc x ! k))" using c uns_chain by auto
      then show False using own_disj [of "x_rpc x" "x_pc x" k q] k(1) q(1) n(2) c a i by (auto simp: minv0_def)
    qed
    then have "a \<in> set (x_queue x)" "set (x_queue x) \<subseteq> dom (x_rpc x)" using i a(2) by (auto simp: minv0_def queued_def pending_def)
    from gate_loop_wakes [OF this(2,1) a(2) in_ps] ps(3) obtain b e where b: "b \<in> pending (x_rpc x)" "Woke (b # e) \<in> set ps" by auto
    then obtain k where k: "k < length ps" "ps ! k = Woke (b # e)" by (auto simp: in_set_conv_nth)
    have "k \<noteq> p" using k(2) n(1) p(2) by auto
    then show ?thesis using k b(1) ps(1) by auto
  qed
  show "attended x1" using w by (auto simp: attended_def list_ex_nth)
qed


lemma gate_leave:
  assumes i: "minv0 x" and g: "mntgate x = Some x1" and p: "is_at x p s" "reading s \<or> caught s" and c: "c = chain s" "c \<noteq> []" and f: "mntflushfree x1 c = Some x'"
    and s': "\<not> waiting s'"
  shows "attended (goto x' p s')" "x_rip x' = None" "\<And>q. q < length (x_pc x) \<Longrightarrow> caught (x_pc x' ! q) \<Longrightarrow> x_pc x' ! q = x_pc x ! q" "length (x_pc x') = length (x_pc x)"
proof -
  note ga = gate_attends [OF i g p]
  obtain ps where ps: "x1 = x\<lparr>x_rip := None, x_pc := ps\<rparr>" "readied (x_pc x) ps" "minv0 x1"
    using mntgate_ok [OF i] g by auto
  have u: "uns s = {}" using p(2) by (cases s) auto
  note pf = pending_flushfree [OF ps(3) ga(4) u c f]
  show "x_rip x' = None" using pf(3) ga(2) by simp
  show l: "length (x_pc x') = length (x_pc x)" using pf(2) ps(1) readied_nth [OF ps(2)] by simp
  show "x_pc x' ! q = x_pc x ! q" if "q < length (x_pc x)" "caught (x_pc x' ! q)" for q
    using readied_nth [OF ps(2), of q] pf(2) ps(1) that by auto
  show "attended (goto x' p s')"
  proof (cases "list_ex waiting (x_pc x1)")
    case True
    then obtain q where q: "q < length (x_pc x1)" "q \<noteq> p" "coming (pending (x_rpc x1)) (x_pc x1 ! q)" using ga(5) by blast
    have "coming (pending (x_rpc x')) (x_pc x1 ! q)"
      by (rule coming_others [OF ps(3) _ q(1,2,3)]) (use pf(1) ga(4) c in auto)
    then have "coming (pending (x_rpc (goto x' p s'))) (x_pc (goto x' p s') ! q)" using pf(2) q(2) by simp
    moreover have "q < length (x_pc (goto x' p s'))" using q(1) pf(2) by simp
    ultimately show ?thesis by (intro attended_coming [of q])
  next
    case False
    then have "\<not> list_ex waiting ((x_pc x1)[p := s'])" using s' by (auto simp: list_ex_iff dest: subsetD [OF set_update_subset_insert])
    then show ?thesis using pf(2) by (simp add: attended_def)
  qed
qed

lemma attended_goto: "attended x \<Longrightarrow> is_at x p s \<Longrightarrow> coming (pending (x_rpc x)) s \<longrightarrow> coming (pending (x_rpc x)) s' \<Longrightarrow> waiting s' \<longrightarrow> x_rip x \<noteq> None \<Longrightarrow> attended (goto x p s')"
  by (rule attended_update [of x p _ s']) auto

lemma guarded_goto: "guarded x \<Longrightarrow> x_pc x' = x_pc x \<Longrightarrow> x_rip x' = x_rip x \<Longrightarrow> p < length (x_pc x) \<Longrightarrow> failing s' \<longrightarrow> x_rip x = Some p \<Longrightarrow> guarded (goto x' p s')"
  by (auto simp: guarded_def nth_list_update)

lemma failing_caught: "failing s \<Longrightarrow> caught s" by (cases s) auto

lemma guarded_release:
  assumes g: "guarded x" "x_rip x = Some p" and k: "\<And>q. q < length (x_pc x) \<Longrightarrow> caught (x_pc x' ! q) \<Longrightarrow> x_pc x' ! q = x_pc x ! q" "length (x_pc x') = length (x_pc x)"
    and s: "\<not> failing s'"
  shows "guarded (goto x' p s')"
  unfolding guarded_def
proof (intro allI impI)
  fix q assume q: "q < length (x_pc (goto x' p s'))" "failing (x_pc (goto x' p s') ! q)"
  have "q \<noteq> p" using q s by auto
  then have "failing (x_pc x' ! q)" "q < length (x_pc x)" using q k(2) by simp_all
  then have "failing (x_pc x ! q)" using k(1) failing_caught by metis
  then show "x_rip (goto x' p s') = Some q" using g \<open>q < length (x_pc x)\<close> \<open>q \<noteq> p\<close> by (simp add: guarded_def)
qed

lemma reading_rip: "minv x \<Longrightarrow> is_at x p (Reading c) \<Longrightarrow> x_rip x = Some p"
  by (simp add: minv_def reader_def)

lemma mstep_attended:
  "mstep False False n x y \<Longrightarrow> minv x \<Longrightarrow> attended x \<Longrightarrow> guarded x \<Longrightarrow> attended y \<and> guarded y"
proof (induction rule: mstep.induct)
  case (call x p hm bm al h a y t)
  have "attended (goto (x\<lparr>x_al := al, x_rpc := (x_rpc x)(a \<mapsto> newrpc h t y)\<rparr>) p (Sending [a]))"
    by (rule attended_coming [of p]) (use call(1) in \<open>simp_all add: pending_def newrpc_def\<close>)
  then show ?case using guarded_goto [OF call(7), of _ p] call(1) by simp
next
  case (enqueue x p a c)
  have "attended (goto (x\<lparr>x_queue := a # x_queue x\<rparr>) p (Writing (a # c)))"
    by (rule attended_update [OF enqueue(3), of p _ "Writing (a # c)"]) (use enqueue(1) in auto)
  then show ?case using guarded_goto [OF enqueue(4), of _ p] enqueue(1) by simp
next
  case (written x p c)
  then show ?case using guarded_goto [OF written(4), of x p] attended_goto [OF written(3,1)] by simp
next
  case (gate x p c)
  then show ?case by (auto simp: attended_def guarded_def nth_list_update)
next
  case (sleepy x p c)
  then show ?case using guarded_goto [OF sleepy(5), of x p] attended_goto [OF sleepy(4,1)] by simp
next
  case (sleep x p a c b)
  have "\<not> b \<Longrightarrow> x_rip x \<noteq> None" using sleep(2) by (auto simp: rpcattn_def bind_eq_Some_conv)
  then have "\<not> b \<Longrightarrow> attended (goto x p (Waiting (a # c)))" by (simp add: attended_def)
  then show ?case using guarded_goto [OF sleep(5), of x p] attended_goto [OF sleep(4,1)] sleep(1) by simp
next
  case (again x p a c rr)
  then show ?case using guarded_goto [OF again(6), of x p] attended_goto [OF again(5,1)] by simp
next
  case (answered x p a c rr x')
  have i0: "minv0 x" using answered(5) by (simp add: minv_def)
  have u: "uns (Woke (a # c)) = {}" by simp
  note pf = pending_flushfree [OF i0 answered(1) u _ _ answered(4)]
  have "attended (goto x' p (Over (last (a # c))))"
  proof (rule attended_update [OF answered(6), of p])
    show "coming (pending (x_rpc (goto x' p (Over (last (a # c)))))) (x_pc x ! q)" if "q < length (x_pc x)" "q \<noteq> p" "coming (pending (x_rpc x)) (x_pc x ! q)" for q
      by (rule coming_others [OF i0 _ that]) (use pf(1) answered(1) in auto)
    show "coming (pending (x_rpc x)) (x_pc x ! p) \<Longrightarrow> coming (pending (x_rpc (goto x' p (Over (last (a # c)))))) (Over (last (a # c)))"
      using answered(1,2,3) by (simp add: pending_def)
  qed (use answered(1) pf in simp_all)
  then show ?case using guarded_goto [OF answered(7), of x' p] answered(1) pf by simp
next
  case (receive x p a c rr q src y x')
  let ?x = "x\<lparr>x_q := q, x_src := src, x_rpc := (x_rpc x)(a \<mapsto> rr\<lparr>rp_reply := y\<rparr>)\<rparr>"
  have "wf_rfcall (m_reply (rp_reply rr))" using receive(2,6) by (simp add: minv_def minv0_def answers_def answer_def)
  then have i0: "minv0 ?x" using minv0_reply [of "x\<lparr>x_q := q, x_src := src\<rparr>" a rr y] receive(2,3,6) mntrpcread_wf [OF receive(4)] by (simp add: minv_def)
  have "x_rip x' = x_rip x \<and> (\<exists>ps. x_pc x' = ps \<and> readied (x_pc x) ps)"
    using mountmux_cases [OF i0, of a "rr\<lparr>rp_reply := y\<rparr>"] receive(5) Wakeup_readied by (auto simp: delivered_def Let_def)
  then have e: "x_rip x' = Some p" "readied (x_pc x) (x_pc x')" using reading_rip [OF receive(6,1)] by auto
  have "guarded x'" unfolding guarded_def
  proof (intro allI impI)
    fix k assume k: "k < length (x_pc x')" "failing (x_pc x' ! k)"
    then have "failing (x_pc x ! k)" "k < length (x_pc x)" using readied_nth [OF e(2), of k] by auto
    then show "x_rip x' = Some k" using receive(8) e(1) reading_rip [OF receive(6,1)] by (simp add: guarded_def)
  qed
  then show ?case using e(1) by (simp add: attended_def)
next
  case (unread x p a c rr q src v)
  have "x_rip x = Some p" using reading_rip [OF unread(6,1)] .
  then show ?case using guarded_goto [OF unread(8), of "x\<lparr>x_q := q, x_src := src\<rparr>" p] unread(1) by (simp add: attended_def)
next
  case (finish x p a c rr x1 x')
  have i0: "minv0 x" using finish(6) by (simp add: minv_def)
  have r: "reading (Reading (a # c)) \<or> caught (Reading (a # c))" "a # c = chain (Reading (a # c))" "a # c \<noteq> []" by simp_all
  note gl = gate_leave [OF i0 finish(4,1) r finish(5), of "Over (last (a # c))"]
  show ?case using gl(1) guarded_release [OF finish(8) reading_rip [OF finish(6,1)] gl(3,4)] by simp
next
  case (interrupt x p s c)
  have "attended (goto x p (Caught True c))" by (rule attended_coming [of p]) (use interrupt(1) in simp_all)
  then show ?case using guarded_goto [OF interrupt(5), of x p] interrupt(1) by simp
next
  case (failed x p c x1 x')
  have i0: "minv0 x" using failed(4) by (simp add: minv_def)
  have rip: "x_rip x = Some p" using failed(1,6) by (simp add: guarded_def)
  then have g: "mntgate x = Some x1" using failed(2) by (simp add: handler_def)
  have r: "reading (Caught False c) \<or> caught (Caught False c)" "c = chain (Caught False c)" "c \<noteq> []" using placed_chain [OF failed(4,1)] by simp_all
  note gl = gate_leave [OF i0 g failed(1) r failed(3), of "Over (last c)"]
  show ?case using gl(1) guarded_release [OF failed(6) rip gl(3,4)] by simp
next
  case (flush x p a c x1 fr y hm bm x')
  obtain h: "minv x1" "is_at x1 p (Caught True (a # c))" using handler_ok [OF flush(6,1)] flush(2) by auto
  have x': "x_pc x' = x_pc x1" "x_rip x' = x_rip x1" "\<exists>r. x_rpc x' fr = Some r \<and> \<not> rp_done r"
    using flush(5) by (auto simp: mntflushalloc_def bind_eq_Some_conv split: prod.splits sum.splits)
  have "attended (goto x' p (Sending (fr # a # c)))" by (rule attended_coming [of p]) (use h x' in \<open>auto simp: pending_def\<close>)
  moreover have "guarded (goto x' p (Sending (fr # a # c)))"
  proof (cases "x_rip x = Some p")
    case True
    have i0: "minv0 x" using flush(6) by (simp add: minv_def)
    obtain ps where ps: "x1 = x\<lparr>x_rip := None, x_pc := ps\<rparr>" "readied (x_pc x) ps" using mntgate_ok [OF i0] flush(2) True by (auto simp: handler_def)
    have k: "x_pc x' ! q = x_pc x ! q" if "q < length (x_pc x)" "caught (x_pc x' ! q)" for q
      using readied_nth [OF ps(2), of q] ps(1) x'(1) that by auto
    show ?thesis by (rule guarded_release [OF flush(8) True k]) (use readied_nth [OF ps(2)] ps(1) x'(1) in auto)
  next
    case False
    then have "x1 = x" using flush(2) by (simp add: handler_def)
    then show ?thesis using guarded_goto [OF flush(8), of x' p] x' flush(1) by simp
  qed
  ultimately show ?case ..
next
  case (leave x p a x')
  have l: "x_rip x' = x_rip x" "x_pc x' = x_pc x" using minv0_leave [of x p a x'] leave by (simp_all add: minv_def)
  have "a \<notin> pending (x_rpc x)" using placed_nth [of "pending (x_rpc x)" "x_pc x" p] leave(1,3) by (auto simp: minv_def minv0_def)
  then have "pending (x_rpc x') = pending (x_rpc x)" using leave(2) by (auto simp: rpcfree_def bind_eq_Some_conv pending_def split: if_splits)
  then have "attended (goto x' p Idle)" by (intro attended_update [OF leave(4), of p _ Idle]) (use leave(1) l in simp_all)
  then show ?case using guarded_goto [OF leave(5), of x' p] leave(1) l by simp
qed (auto simp: attended_def guarded_def)

section \<open>Runs\<close>

definition mux0 :: "nat \<Rightarrow> queue \<Rightarrow> mux" where
  "mux0 k q = \<lparr>x_rpc = (\<lambda>_. None), x_queue = [], x_rip = None, x_pc = replicate k Idle, x_q = q, x_src = [], x_al = mntalloc0, x_other = []\<rparr>"

lemma mux0_ok: "minv (mux0 k q) \<and> attended (mux0 k q) \<and> guarded (mux0 k q)"
  using mntalloc0_ok
  by (auto simp: mux0_def minv_def minv0_def own_def tagged_def queued_def pending_def unsent_def answers_def reader_def attended_def guarded_def list_all_iff list_ex_iff)

lemma mux_reach: "(mstep wfail False n)\<^sup>*\<^sup>* (mux0 k q) x \<Longrightarrow> minv x"
  by (induction rule: rtranclp_induct) (auto intro: mstep_minv simp: mux0_ok)

lemma mux_reach_attended: "(mstep False False n)\<^sup>*\<^sup>* (mux0 k q) x \<Longrightarrow> minv x \<and> attended x \<and> guarded x"
proof (induction rule: rtranclp_induct)
  case (step y z)
  then show ?case using mstep_minv mstep_attended by blast
qed (simp add: mux0_ok)

lemma mntralloc_some:
  assumes "al_ok al L" "al_free al = []" "tags (al_tagmask al) \<noteq> {..<65536}"
  shows "\<exists>ms t. alloctag (al_tagmask al) = (ms, t) \<and> tags ms = insert t (tags (al_tagmask al)) \<and>
    mntralloc al True True n = (al\<lparr>al_tagmask := ms, al_nrpcused := al_nrpcused al + 1\<rparr>, Inr \<lparr>h_tag = of_nat t, h_len = n\<rparr>)"
proof -
  obtain ms t where t: "alloctag (al_tagmask al) = (ms, t)" "t \<notin> tags (al_tagmask al)" "tags ms = insert t (tags (al_tagmask al))"
    using alloctag_ok [of "al_tagmask al"] assms by (auto simp: al_ok_def)
  then have "t \<noteq> NOTAG" using assms(1) by (auto simp: al_ok_def)
  then show ?thesis using t assms(2) by (simp add: mntralloc_def)
qed

text \<open>As long as few tags are in use, \<open>mntralloc\<close> gives one.\<close>

definition fewtags :: "nat \<Rightarrow> mntalloc \<Rightarrow> bool" where
  "fewtags k al \<longleftrightarrow> (\<exists>L. al_ok al L) \<and> al_free al = [] \<and> al_nrpcfree al = 0 \<and> finite (tags (al_tagmask al)) \<and> card (tags (al_tagmask al)) \<le> k"

lemma mntralloc_few:
  assumes "fewtags k al" "k < 65536"
  shows "\<exists>al' h. mntralloc al True True n = (al', Inr h) \<and> fewtags (Suc k) al'"
proof -
  obtain L where L: "al_ok al L" using assms(1) by (auto simp: fewtags_def)
  have "card (tags (al_tagmask al)) < 65536" using assms by (simp add: fewtags_def)
  then have "tags (al_tagmask al) \<noteq> {..<65536}" by (metis card_lessThan nat_less_le)
  from this obtain ms t where m: "tags ms = insert t (tags (al_tagmask al))"
      "mntralloc al True True n = (al\<lparr>al_tagmask := ms, al_nrpcused := al_nrpcused al + 1\<rparr>, Inr \<lparr>h_tag = of_nat t, h_len = n\<rparr>)"
    using mntralloc_some [OF L _ \<open>tags (al_tagmask al) \<noteq> {..<65536}\<close>, of n] assms(1) unfolding fewtags_def by blast
  have "\<exists>L. al_ok (al\<lparr>al_tagmask := ms, al_nrpcused := al_nrpcused al + 1\<rparr>) L" using mntralloc_fresh [OF L m(2)] by blast
  then show ?thesis using m assms(1) card_insert_le_m1 [of "Suc k"] by (auto simp: fewtags_def card_insert_if)
qed

lemma mntalloc0_few: "fewtags 2 mntalloc0"
  using mntalloc0_ok tagmask0_ok by (auto simp: fewtags_def mntalloc0_def)

lemma mntfree_few: "al_nrpcfree al = 0 \<Longrightarrow> \<exists>al'. mntfree al h = Some al'" by (simp add: mntfree_def)

abbreviation mst :: "queue \<Rightarrow> (addr \<Rightarrow> mrpc option) \<Rightarrow> addr list \<Rightarrow> nat option \<Rightarrow> mpc list \<Rightarrow> bread list \<Rightarrow> mntalloc \<Rightarrow> mux" where
  "mst q H Q r ps src al \<equiv> \<lparr>x_rpc = H, x_queue = Q, x_rip = r, x_pc = ps, x_q = q, x_src = src, x_al = al, x_other = []\<rparr>"

section \<open>A flush without memory\<close>

lemma dangling: "\<exists>x. (mstep False True n)\<^sup>*\<^sup>* (mux0 1 emptyq) x \<and> (\<exists>a \<in> set (x_queue x). x_rpc x a = None)"
proof -
  obtain al1 h0 where a1: "mntralloc mntalloc0 True True n = (al1, Inr h0)" "fewtags 3 al1" using mntralloc_few [OF mntalloc0_few, of n] by auto
  define r0 where "r0 = newrpc h0 Tclunk y0"
  obtain al2 where a2: "mntfree al1 h0 = Some al2" using mntfree_few a1(2) by (auto simp: fewtags_def)
  let ?S = "mstep False True n"
  let ?x1 = "mst emptyq [0 \<mapsto> r0] [] None [Sending [0]] [] al1" and ?x2 = "mst emptyq [0 \<mapsto> r0] [0] None [Writing [0]] [] al1"
  let ?x3 = "mst emptyq [0 \<mapsto> r0] [0] None [Caught True [0]] [] al1" and ?x4 = "mst emptyq [0 \<mapsto> r0] [0] None [Over 0] [] al1"
  let ?x5 = "mst emptyq (\<lambda>_. None) [0] None [Idle] [] al2"
  have s1: "?S (mux0 1 emptyq) ?x1"
    using mstep.call [where x = "mux0 1 emptyq" and p = 0 and hm = True and bm = True and n = n and al = al1 and h = h0 and a = 0 and y = y0 and t = Tclunk] a1 y0_wf
    by (simp add: mux0_def r0_def)
  have s2: "?S ?x1 ?x2" using mstep.enqueue [where x = ?x1 and p = 0 and a = 0 and c = "[]"] by simp
  have s3: "?S ?x2 ?x3" using mstep.interrupt [where x = ?x2 and p = 0 and s = "Writing [0]" and c = "[0]"] by simp
  have "mntflushalloc ?x3 0 False True n 1 y0 = Some (?x3, Inl Exhausted)"
    using a1(2) by (simp add: mntflushalloc_def mntralloc_def fewtags_def)
  then have s4: "?S ?x3 ?x4"
    using mstep.noflush [where x = ?x3 and p = 0 and a = 0 and c = "[]" and z = ?x3 and hm = False and bm = True and fr = 1 and y = y0 and x' = ?x3 and e = Exhausted] by (simp add: handler_def)
  have s5: "?S ?x4 ?x5" using mstep.leave [where x = ?x4 and p = 0 and a = 0 and x' = "mst emptyq (\<lambda>_. None) [0] None [Over 0] [] al2"] a2 by (simp add: rpcfree_def r0_def newrpc_def)
  have "?S\<^sup>*\<^sup>* (mux0 1 emptyq) ?x5" using s1 s2 s3 s4 s5 by (meson converse_rtranclp_into_rtranclp rtranclp.rtrancl_refl)
  then show ?thesis by (intro exI [of _ ?x5]) simp
qed


section \<open>A waiter left behind\<close>

lemma Wakeup_simps [simp]: "snd (Wakeup ps a) = list_ex (asleep_on a) ps"
    "asleep_on a (Waiting (b # c)) = (b = a)" "\<not> waiting s \<Longrightarrow> \<not> asleep_on a s"
  by (simp add: Wakeup_def, simp add: asleep_on_def, cases s, simp_all add: asleep_on_def)

lemma eof_read: "mntrpcread km mx emptyq (Bread [] # src) r = Some (emptyq, src, Ret (- 1, r\<lparr>m_reply := (m_reply r)\<lparr>f_type := 0, f_tag := 0\<rparr>\<rparr>))"
  by (simp add: mntrpcread_def emptyq_def qlen_def)

text \<open>A request up to the gate, and on to sleep behind a reader.\<close>

definition begun :: "mux \<Rightarrow> nat \<Rightarrow> addr \<Rightarrow> mntalloc \<Rightarrow> rpchdr \<Rightarrow> mpc \<Rightarrow> mux" where
  "begun x p a al h s = goto (x\<lparr>x_al := al, x_rpc := (x_rpc x)(a \<mapsto> newrpc h Tclunk y0), x_queue := a # x_queue x\<rparr>) p s"

lemma to_gate:
  assumes "is_at x p Idle" "mntralloc (x_al x) True True n = (al, Inr h)" "x_rpc x a = None"
  shows "(mstep w am n)\<^sup>*\<^sup>* x (begun x p a al h (Gating [a]))"
proof -
  let ?x1 = "goto (x\<lparr>x_al := al, x_rpc := (x_rpc x)(a \<mapsto> newrpc h Tclunk y0)\<rparr>) p (Sending [a])" and ?x2 = "begun x p a al h (Writing [a])"
  have "mstep w am n x ?x1" using mstep.call [OF assms y0_wf] .
  moreover have "mstep w am n ?x1 ?x2" using mstep.enqueue [where x = ?x1 and p = p and a = a and c = "[]"] assms(1) by (simp add: begun_def)
  moreover have "mstep w am n ?x2 (begun x p a al h (Gating [a]))" using mstep.written [where x = ?x2 and p = p and c = "[a]"] assms(1) by (simp add: begun_def)
  ultimately show ?thesis by (meson converse_rtranclp_into_rtranclp rtranclp.rtrancl_refl)
qed

lemma to_sleep:
  assumes "is_at x p Idle" "mntralloc (x_al x) True True n = (al, Inr h)" "x_rpc x a = None" "x_rip x = Some k"
  shows "(mstep w am n)\<^sup>*\<^sup>* x (begun x p a al h (Waiting [a]))"
proof -
  let ?x1 = "begun x p a al h (Gating [a])" and ?x2 = "begun x p a al h (Sleepy [a])"
  have "mstep w am n ?x1 ?x2" using mstep.sleepy [where x = ?x1 and p = p and c = "[a]"] assms(1,4) by (simp add: begun_def)
  moreover have "mstep w am n ?x2 (begun x p a al h (Waiting [a]))"
    using mstep.sleep [where x = ?x2 and p = p and a = a and c = "[]" and b = False] assms(1,4) by (simp add: begun_def rpcattn_def newrpc_def)
  ultimately show ?thesis using to_gate [OF assms(1-3), of w am] by (meson rtranclp.rtrancl_into_rtrancl)
qed

text \<open>Three requests: the reader finds the connection closed and passes it on to one of the two that sleep.\<close>

abbreviation req :: "rpchdr \<Rightarrow> mrpc" where "req h \<equiv> newrpc h Tclunk y0"

abbreviation handed :: "rpchdr \<Rightarrow> rpchdr \<Rightarrow> rpchdr \<Rightarrow> mpc \<Rightarrow> mntalloc \<Rightarrow> mux" where
  "handed h0 h1 h2 s al \<equiv> mst emptyq [0 \<mapsto> req h0, 1 \<mapsto> req h1, 2 \<mapsto> req h2, 0 \<mapsto> flushed (req h0)] [2, 1] None [Over 0, Waiting [1], s] [] al"

lemma reach_handed: "\<exists>h0 h1 h2 al. fewtags 5 al \<and> (mstep w am n)\<^sup>*\<^sup>* (mux0 3 emptyq) (handed h0 h1 h2 (Woke [2]) al)"
proof -
  obtain al1 h0 where a1: "mntralloc mntalloc0 True True n = (al1, Inr h0)" "fewtags 3 al1" using mntralloc_few [OF mntalloc0_few, of n] by auto
  obtain al2 h1 where a2: "mntralloc al1 True True n = (al2, Inr h1)" "fewtags 4 al2" using mntralloc_few [OF a1(2), of n] by auto
  obtain al3 h2 where a3: "mntralloc al2 True True n = (al3, Inr h2)" "fewtags 5 al3" using mntralloc_few [OF a2(2), of n] by auto
  note rd = begun_def mux0_def numeral_3_eq_3
  have r: "\<not> rp_done (req h)" for h by (simp add: newrpc_def)
  let ?S = "mstep w am n" and ?H = "[0 \<mapsto> req h0, 1 \<mapsto> req h1, 2 \<mapsto> req h2]" and ?q = emptyq
  let ?x1 = "mst ?q [0 \<mapsto> req h0] [0] None [Gating [0], Idle, Idle] [] al1" and ?x2 = "mst ?q [0 \<mapsto> req h0] [0] (Some 0) [Reading [0], Idle, Idle] [] al1"
  let ?x3 = "mst ?q [0 \<mapsto> req h0, 1 \<mapsto> req h1] [1, 0] (Some 0) [Reading [0], Waiting [1], Idle] [] al2"
  let ?y = "\<lambda>ps src. mst ?q ?H [2, 1, 0] (Some 0) ps src al3"
  let ?x4 = "?y [Reading [0], Waiting [1], Waiting [2]] []" and ?x5 = "?y [Reading [0], Waiting [1], Waiting [2]] [Bread []]"
  let ?x6 = "?y [Caught False [0], Waiting [1], Waiting [2]] []"
  have t1: "?S\<^sup>*\<^sup>* (mux0 3 ?q) ?x1" using to_gate [where x = "mux0 3 ?q" and p = 0 and n = n and a = 0] a1(1) by (simp add: rd)
  have t2: "?S ?x1 ?x2" using mstep.gate [where x = ?x1 and p = 0 and c = "[0]"] by simp
  have t3: "?S\<^sup>*\<^sup>* ?x2 ?x3" using to_sleep [where x = ?x2 and p = 1 and n = n and a = 1] a2(1) by (simp add: rd)
  have t4: "?S\<^sup>*\<^sup>* ?x3 ?x4" using to_sleep [where x = ?x3 and p = 2 and n = n and a = 2] a3(1) by (simp add: rd)
  have t5: "?S ?x4 ?x5" using mstep.arrive [where x = ?x4 and src = "[Bread []]"] by simp
  have t6: "?S ?x5 ?x6"
    using mstep.unread [where x = ?x5 and p = 0 and a = 0 and c = "[]" and rr = "req h0" and q = ?q and src = "[]"
        and v = "Ret (- 1, (rp_reply (req h0))\<lparr>m_reply := (m_reply (rp_reply (req h0)))\<lparr>f_type := 0, f_tag := 0\<rparr>\<rparr>)"] r by (simp add: eof_read interrupted_def)
  let ?w = "mst ?q ?H [2, 1, 0] None [Caught False [0], Waiting [1], Woke [2]] [] al3"
  have h: "handler ?x6 0 = Some ?w" using r by (simp add: handler_def mntgate_def Wakeup_def asleep_on_def)
  have f: "mntflushfree ?w [0] = Some (mst ?q (?H(0 \<mapsto> flushed (req h0))) [2, 1] None [Caught False [0], Waiting [1], Woke [2]] [] al3)"
    using r by (simp add: mntqrm_def flushed_def)
  have t7: "?S ?x6 (handed h0 h1 h2 (Woke [2]) al3)" using mstep.failed [OF _ h f] by simp
  note into = rtranclp.rtrancl_into_rtrancl [of ?S]
  show ?thesis using a3(2) into [OF into [OF into [OF rtranclp_trans [OF rtranclp_trans [OF into [OF t1 t2] t3] t4] t5] t6] t7] by blast
qed

lemma lost: "\<exists>x. (mstep True False n)\<^sup>*\<^sup>* (mux0 3 emptyq) x \<and> \<not> attended x"
proof -
  let ?S = "mstep True False n"
  obtain h0 h1 h2 al where t0: "fewtags 5 al" "?S\<^sup>*\<^sup>* (mux0 3 emptyq) (handed h0 h1 h2 (Woke [2]) al)" using reach_handed by blast
  obtain al4 h3 where a4: "mntralloc al True True n = (al4, Inr h3)" "fewtags 6 al4" using mntralloc_few [OF t0(1), of n] by auto
  obtain al5 where a5: "mntfree al4 h3 = Some al5" using mntfree_few a4(2) by (auto simp: fewtags_def)
  define r3 where "r3 = \<lparr>rp_hdr = h3, rp_type = Tflush, rp_oldtag = rp_tag (req h2), rp_reply = y0\<lparr>m_b := []\<rparr>, rp_done = False\<rparr>"
  have r: "\<not> rp_done (req h2)" "\<not> rp_done r3" "rp_hdr r3 = h3" "rp_type (req h2) = Tclunk" by (simp_all add: r3_def newrpc_def)
  let ?H = "[0 \<mapsto> req h0, 1 \<mapsto> req h1, 2 \<mapsto> req h2, 0 \<mapsto> flushed (req h0)]" and ?x8 = "handed h0 h1 h2 (Caught True [2]) al"
  let ?z = "\<lambda>Q s. mst emptyq (?H(3 \<mapsto> r3)) Q None [Over 0, Waiting [1], s] [] al4"
  let ?w = "\<lambda>s. mst emptyq (?H(3 \<mapsto> r3, 3 := None, 2 \<mapsto> flushed (req h2))) [1] None [Over 0, Waiting [1], s] [] al5"
  have t8: "?S (handed h0 h1 h2 (Woke [2]) al) ?x8" using mstep.interrupt [where x = "handed h0 h1 h2 (Woke [2]) al" and p = 2 and s = "Woke [2]" and c = "[2]"] by simp
  have f9: "mntflushalloc ?x8 2 True True n 3 y0 = Some (?z [2, 1] (Caught True [2]), Inr 3)" using a4(1) r by (simp add: mntflushalloc_def r3_def)
  have h9: "handler ?x8 2 = Some ?x8" by (simp add: handler_def)
  have t9: "?S ?x8 (?z [2, 1] (Sending [3, 2]))" using mstep.flush [OF _ h9 _ y0_wf f9] by simp
  have t10: "?S (?z [2, 1] (Sending [3, 2])) (?z [3, 2, 1] (Writing [3, 2]))"
    using mstep.enqueue [where x = "?z [2, 1] (Sending [3, 2])" and p = 2 and a = 3 and c = "[2]"] by simp
  have t11: "?S (?z [3, 2, 1] (Writing [3, 2])) (?z [3, 2, 1] (Caught False [3, 2]))"
    using mstep.unwritten [where x = "?z [3, 2, 1] (Writing [3, 2])" and p = 2 and c = "[3, 2]"] by simp
  have f12: "mntflushfree (?z [3, 2, 1] (Caught False [3, 2])) [3, 2] = Some (?w (Caught False [3, 2]))"
    using a5 r by (simp add: mntqrm_def rpcfree_def flushed_def)
  have h12: "handler (?z [3, 2, 1] (Caught False [3, 2])) 2 = Some (?z [3, 2, 1] (Caught False [3, 2]))" by (simp add: handler_def)
  have t12: "?S (?z [3, 2, 1] (Caught False [3, 2])) (?w (Over 2))" using mstep.failed [OF _ h12 f12] by simp
  note into = rtranclp.rtrancl_into_rtrancl [of ?S]
  have "?S\<^sup>*\<^sup>* (mux0 3 emptyq) (?w (Over 2))" by (rule into [OF into [OF into [OF into [OF into [OF t0(2) t8] t9] t10] t11] t12])
  moreover have "\<not> attended (?w (Over 2))" by (simp add: attended_def)
  ultimately show ?thesis by blast
qed

section \<open>The multiplexer\<close>

text \<open>C28 (invariant). In every run of the processes that use a mount point in which a flush request always finds memory and a tag
  (second argument of \<open>mstep\<close>), with replies of any kind, interrupts, failing writes and
  reads, and requests on other mount points, at most one process reads from the connection, the requests of all processes have
  different tags, every request on the queue exists and is there once, and a process that returns from \<open>mountio\<close> has its own
  request, done and off the queue, with a reply that carries the tag of the request or was made \<open>Rflush\<close>.\<close>

theorem mux_invariant:
  assumes "(mstep wfail False n)\<^sup>*\<^sup>* (mux0 k q) x"
  shows "(\<forall>p r c d. is_at x p (Reading c) \<and> is_at x r (Reading d) \<longrightarrow> p = r) \<and> inj_on (rtag (x_rpc x)) (dom (x_rpc x)) \<and>
    distinct (x_queue x) \<and> set (x_queue x) \<subseteq> dom (x_rpc x) \<and>
    (\<forall>p a. is_at x p (Over a) \<longrightarrow> (\<exists>r. x_rpc x a = Some r \<and> rp_done r \<and> a \<notin> set (x_queue x) \<and>
      (f_tag (m_reply (rp_reply r)) = rp_tag r \<or> f_type (m_reply (rp_reply r)) = Rflush)))"
proof -
  have i: "minv x" using assms by (rule mux_reach)
  have "\<exists>r. x_rpc x a = Some r \<and> rp_done r \<and> a \<notin> set (x_queue x) \<and> (f_tag (m_reply (rp_reply r)) = rp_tag r \<or> f_type (m_reply (rp_reply r)) = Rflush)"
    if o: "is_at x p (Over a)" for p a
  proof -
    have "a \<in> dom (x_rpc x)" using i o own_chain [of "x_rpc x" "x_pc x" "Over a"] by (force simp: minv_def minv0_def in_set_conv_nth)
    moreover have "a \<notin> pending (x_rpc x)" using i o placed_nth [of "pending (x_rpc x)" "x_pc x" p] by (simp add: minv_def minv0_def)
    ultimately show ?thesis using i by (auto simp: minv_def minv0_def queued_def pending_def answers_def answer_def)
  qed
  moreover have "p = r" if "is_at x p (Reading c)" "is_at x r (Reading d)" for p r c d
    using reading_rip [OF i that(1)] reading_rip [OF i that(2)] by simp
  ultimately show ?thesis using i by (auto simp: minv_def minv0_def tagged_def queued_def pending_def)
qed

text \<open>A process behind a connection that is closed.\<close>

lemma reach_reading: "\<exists>al h. mntralloc mntalloc0 True True n = (al, Inr h) \<and>
    (mstep w am n)\<^sup>*\<^sup>* (mux0 1 emptyq) (mst emptyq [0 \<mapsto> newrpc h Tclunk y0] [0] (Some 0) [Reading [0]] src al)"
proof -
  obtain al h where a: "mntralloc mntalloc0 True True n = (al, Inr h)" using mntralloc_few [OF mntalloc0_few, of n] by auto
  let ?H = "[0 \<mapsto> newrpc h Tclunk y0]"
  have "(mstep w am n)\<^sup>*\<^sup>* (mux0 1 emptyq) (mst emptyq ?H [0] None [Gating [0]] [] al)"
    using to_gate [where x = "mux0 1 emptyq" and p = 0 and n = n and a = 0] a by (simp add: begun_def mux0_def)
  moreover have "mstep w am n (mst emptyq ?H [0] None [Gating [0]] [] al) (mst emptyq ?H [0] (Some 0) [Reading [0]] [] al)"
    using mstep.gate [where x = "mst emptyq ?H [0] None [Gating [0]] [] al" and p = 0 and c = "[0]"] by simp
  moreover have "mstep w am n (mst emptyq ?H [0] (Some 0) [Reading [0]] [] al) (mst emptyq ?H [0] (Some 0) [Reading [0]] src al)"
    using mstep.arrive [where x = "mst emptyq ?H [0] (Some 0) [Reading [0]] [] al" and src = src] by simp
  ultimately show ?thesis using a by (meson rtranclp.rtrancl_into_rtrancl)
qed

lemma reach_over: "\<exists>x. (mstep w am n)\<^sup>*\<^sup>* (mux0 1 emptyq) x \<and> is_at x 0 (Over 0)"
proof -
  obtain al h where a: "(mstep w am n)\<^sup>*\<^sup>* (mux0 1 emptyq) (mst emptyq [0 \<mapsto> newrpc h Tclunk y0] [0] (Some 0) [Reading [0]] [Bread []] al)" using reach_reading by blast
  let ?r = "newrpc h Tclunk y0" let ?x = "mst emptyq [0 \<mapsto> ?r] [0] (Some 0) [Reading [0]] [Bread []] al"
  let ?y = "mst emptyq [0 \<mapsto> ?r] [0] (Some 0) [Caught False [0]] [] al" and ?z = "mst emptyq [0 \<mapsto> ?r] [0] None [Caught False [0]] [] al"
  have r: "\<not> rp_done ?r" by (simp add: newrpc_def)
  have s: "mstep w am n ?x ?y" using mstep.unread [where x = ?x and p = 0 and a = 0 and c = "[]" and rr = ?r and q = emptyq and src = "[]"
        and v = "Ret (- 1, (rp_reply ?r)\<lparr>m_reply := (m_reply (rp_reply ?r))\<lparr>f_type := 0, f_tag := 0\<rparr>\<rparr>)"] r by (simp add: eof_read interrupted_def)
  have h: "handler ?y 0 = Some ?z" using r by (simp add: handler_def mntgate_def Wakeup_def)
  have f: "mntflushfree ?z [0] = Some (mst emptyq [0 \<mapsto> flushed ?r] [] None [Caught False [0]] [] al)" using r by (simp add: mntqrm_def flushed_def)
  have "mstep w am n ?y (mst emptyq [0 \<mapsto> flushed ?r] [] None [Over 0] [] al)" using mstep.failed [OF _ h f] by simp
  then have "(mstep w am n)\<^sup>*\<^sup>* (mux0 1 emptyq) (mst emptyq [0 \<mapsto> flushed ?r] [] None [Over 0] [] al)" using a s by (meson rtranclp.rtrancl_into_rtrancl)
  then show ?thesis by (rule exI [where P = "\<lambda>x. (mstep w am n)\<^sup>*\<^sup>* (mux0 1 emptyq) x \<and> is_at x 0 (Over 0)", OF conjI]) simp
qed

theorem mux_invariant_witness:
  "\<exists>x r. (mstep True False 8216)\<^sup>*\<^sup>* (mux0 1 emptyq) x \<and> is_at x 0 (Over 0) \<and> x_rpc x 0 = Some r \<and> rp_done r"
proof -
  obtain x where "(mstep True False 8216)\<^sup>*\<^sup>* (mux0 1 emptyq) x" "is_at x 0 (Over 0)" using reach_over by blast
  then show ?thesis using mux_invariant [of True 8216 1 emptyq x] by blast
qed

text \<open>C29 (functional). A message from the server reaches the request with its tag: if a process reads and the input begins with the
  message \<open>m\<close> for \<open>tag\<close>, the process can take a step after which the input continues behind the message, a queued request with
  that tag is done, with \<open>m\<close> as its reply, and nobody sleeps on it any more; all other requests, the reader's apart, are
  unchanged.\<close>

theorem mux_delivers:
  assumes "minv x" "is_at x p (Reading (a # c))" "x_rpc x a = Some rr" "\<not> rp_done rr"
    "mq (x_q x)" "wf_src (x_src x)" "stream (x_q x) (x_src x) = enc tag m @ rest" "wf_msg m" "msize m \<le> n" "n < 2 ^ 31"
  shows "\<exists>x'. mstep wfail am n x x' \<and> stream (x_q x') (x_src x') = rest \<and> mq (x_q x') \<and> wf_src (x_src x') \<and>
    (\<forall>b \<in> set (x_queue x). rtag (x_rpc x) b = tag \<longrightarrow> (\<exists>r. x_rpc x' b = Some r \<and> rp_done r \<and> reply_is tag m (rp_reply r)) \<and> (\<forall>d. Waiting (b # d) \<notin> set (x_pc x'))) \<and>
    (\<forall>b. b \<noteq> a \<and> \<not> (b \<in> set (x_queue x) \<and> rtag (x_rpc x) b = tag) \<longrightarrow> x_rpc x' b = x_rpc x b)"
  using assms by (rule delivers)

theorem mux_delivers_witness:
  "\<exists>x x' tag r. (mstep False False 8216)\<^sup>*\<^sup>* (mux0 1 emptyq) x \<and> mstep False False 8216 x x' \<and> stream (x_q x') (x_src x') = [] \<and>
     x_rpc x' 0 = Some r \<and> rp_done r \<and> reply_is tag MRclunk (rp_reply r)"
proof -
  obtain al h0 where "mntralloc mntalloc0 True True 8216 = (al, Inr h0)" by (metis reach_reading)
  define b where "b = ex_wire (enc (h_tag h0) MRclunk)"
  obtain al' h where a: "mntralloc mntalloc0 True True 8216 = (al', Inr h)"
      "(mstep False False 8216)\<^sup>*\<^sup>* (mux0 1 emptyq) (mst emptyq [0 \<mapsto> newrpc h Tclunk y0] [0] (Some 0) [Reading [0]] [Bread [b]] al')"
    using reach_reading by blast
  have h: "h = h0" using a(1) \<open>mntralloc mntalloc0 True True 8216 = (al, Inr h0)\<close> by simp
  let ?x = "mst emptyq [0 \<mapsto> newrpc h Tclunk y0] [0] (Some 0) [Reading [0]] [Bread [b]] al'"
  have l: "length (enc (h_tag h0) MRclunk) = 7" by (simp add: length_enc msize_def)
  have w: "wf_src (x_src ?x)" "stream (x_q ?x) (x_src ?x) = enc (h_tag h0) MRclunk @ []" "wf_msg MRclunk" "msize MRclunk \<le> 8216"
    using l by (simp_all add: wf_src_def stream_def b_def wf_msg_def msize_def)
  have t: "rtag (x_rpc ?x) 0 = h_tag h0" by (simp add: rtag_def newrpc_def h)
  from mux_delivers [OF mux_reach [OF a(2)], of 0 0 "[]" "newrpc h Tclunk y0" "h_tag h0" MRclunk "[]" 8216 False False] w t
  obtain x' r where "mstep False False 8216 ?x x'" "stream (x_q x') (x_src x') = []" "x_rpc x' 0 = Some r" "rp_done r" "reply_is (h_tag h0) MRclunk (rp_reply r)"
    by (auto simp: newrpc_def)
  then show ?thesis using a(2) by blast
qed

text \<open>C30 (liveness). As long as writes succeed and flush requests find memory, no process is left asleep: whenever a process sleeps and
  nobody reads, another process with an unanswered request, or one that was interrupted, is on its way to the gate, where it
  becomes the reader. Wakeups are not lost between the test of \<open>rip\<close> and \<open>Sleep\<close>, or when the process woken is answered or
  interrupted before it runs.\<close>

theorem mux_attended:
  assumes "(mstep False False n)\<^sup>*\<^sup>* (mux0 k q) x" "is_at x p (Waiting c)" "x_rip x = None"
  shows "\<exists>r < length (x_pc x). coming (pending (x_rpc x)) (x_pc x ! r)"
proof -
  have "list_ex waiting (x_pc x)" using assms(2) by (metis list_ex_nth waiting.simps(1))
  then show ?thesis using mux_reach_attended [OF assms(1)] assms(3) by (auto simp: attended_def list_ex_nth)
qed

theorem mux_attended_witness:
  "\<exists>x. (mstep False False 8216)\<^sup>*\<^sup>* (mux0 3 emptyq) x \<and> is_at x 1 (Waiting [1]) \<and> x_rip x = None \<and> (\<exists>r < length (x_pc x). coming (pending (x_rpc x)) (x_pc x ! r))"
proof -
  obtain h0 h1 h2 al where t: "(mstep False False 8216)\<^sup>*\<^sup>* (mux0 3 emptyq) (handed h0 h1 h2 (Woke [2]) al)" using reach_handed by blast
  let ?x = "handed h0 h1 h2 (Woke [2]) al"
  have "is_at ?x 1 (Waiting [1])" "x_rip ?x = None" by simp_all
  from mux_attended [OF t this] this t show ?thesis by blast
qed

text \<open>C31 (error). The two conditions of the previous property are needed. Three requests, of which the reader and the process it
  woke fail to write, leave the third asleep with nobody to read: only a process that reads passes the connection on. And a
  process that is interrupted when there is no memory for the flush request leaves its request on the queue and its caller
  frees it.\<close>

theorem mux_failures:
  "(\<exists>x. (mstep True False n)\<^sup>*\<^sup>* (mux0 3 emptyq) x \<and> \<not> attended x) \<and>
   (\<exists>x. (mstep False True n)\<^sup>*\<^sup>* (mux0 1 emptyq) x \<and> (\<exists>a \<in> set (x_queue x). x_rpc x a = None))"
  using lost dangling by blast

end
