(* ===== verification/Spec2Isabelle.thy ===== *)
theory Spec2Isabelle
  imports FcallThms StatThms QioReads LockThms NamespaceThms FdThms RuneThms EncThms CleanName PoolThms MuxThms
begin

text \<open>
  \<^bold>\<open>Node9\<close> hosts the kernel of Inferno in a process: the kernel services of \<open>src/styx/svcs\<close> and the library
  \<open>src/styx/libs/lib9\<close>, in C, over libuv, with LuaJIT in place of the Dis machine. Programs see files: a name space
  of channels, assembled by bind and mount, whose channels lead to devices or, by the Styx protocol, to servers.
  Data moves between processes in queues of blocks. This development models the parts of that kernel that carry its own
  logic, as HOL functions translated from the C sources, and proves what makes them correct. Paths below are relative to
  \<open>src/styx\<close> of the repository.

  \<^bold>\<open>Conventions.\<close> \<open>Prelude\<close>: C integers are machine words; a C object is a list of bytes, a pointer into it an offset;
  every access goes through \<open>rd\<close>, \<open>rdn\<close>, \<open>wrn\<close>, and \<open>None\<close> at the outermost level of a result is an access outside the
  object, so a theorem that gives \<open>Some\<close> also states memory safety. Errors raised by \<open>error()\<close> are \<open>Inl\<close> values.
  Allocation is a parameter \<open>km\<close> of the block and queue operations: a predicate that says which sizes are granted.
  Loops are recursion on the data, or functions with a measure; two have fuel: \<open>clean_loop\<close> gets the size of the
  object, \<open>poolalloc\<close> two attempts, and the theorems about them show that this is enough. The loops of the pool, which follow
  pointers, are partial functions, and the theorems show that they return.

  \<^bold>\<open>Components.\<close>
  \<^item> The Styx message codec. \<open>Wire\<close>: the macros \<open>GBIT\<close> and \<open>PBIT\<close> of \<open>include/fcall.h\<close> and the contract of a wire
    field, the locale \<open>wire_field\<close>. \<open>Fcall\<close>: \<open>sizeS2M\<close>, \<open>convS2M\<close>, \<open>convM2S\<close> (\<open>libs/lib9/convS2M.c\<close>, \<open>convM2S.c\<close>) for all
    27 message types. \<open>FcallSpec\<close>: the wire format as an abstract function from messages to bytes. \<open>FcallThms\<close>: the encoder
    writes exactly that format, the decoder inverts it, never leaves its buffer and refuses truncated messages; two
    defects of the encoder are proved as such.
  \<^item> The directory codec. \<open>Stat\<close>, \<open>StatThms\<close>: \<open>sizeD2M\<close>, \<open>convD2M\<close>, \<open>convM2D\<close>, \<open>statcheck\<close>; round trip, safety of the check
    and the decoder on any input, behaviour on short buffers.
  \<^item> Blocks and queues (\<open>svcs/qio.c\<close>). \<open>Block\<close>, \<open>BlockThms\<close>: blocks with their four pointers and the operations on chains.
    \<open>Kstr\<close>: \<open>kstrcpy\<close>. \<open>Qio\<close>: every queue operation. \<open>QioInv\<close>: the invariant of a queue (its counters are those of its chain)
    and what each operation does to it. \<open>Fifo\<close>: the contract of a byte queue, the locale \<open>byte_fifo\<close>, and its laws for any
    sequence of actions; \<open>QioThms\<close> interprets it on the queue, with the critical sections of the operations as an inductive
    relation \<open>qact\<close>, and on the queue with a \<open>qread\<close> between its two sections (\<open>ract\<close>), and shows under which conditions sleeping readers and writers
    are not lost. \<open>QioReads\<close>: reads in stream and message mode, with writers in between, writes, copies, end of file and hangup, and two
    defects.
  \<^item> Locks (\<open>svcs/lock.c\<close>). \<open>Lock\<close>: the operations on \<open>QLock\<close> and \<open>RWlock\<close>. \<open>LockThms\<close>: any number of processes as a step
    relation over them; exclusion and absence of deadlock by rule induction.
  \<^item> Name spaces (\<open>svcs/chan.c\<close>, \<open>svcs/pgrp.c\<close>). \<open>Namespace\<close>: mount table, \<open>cmount\<close>, \<open>cunmount\<close>, \<open>findmount\<close>, \<open>pgrpcpy\<close>,
    \<open>dupfgrp\<close>. \<open>MountTable\<close>: the hash table of mount heads as a map, the locale \<open>head_table\<close>, interpreted on the chains;
    bind and unmount as operations on unions, a bind that runs out of memory. \<open>PgrpCopy\<close>: copies of a name space and the tables that can be reached.
    Mount ids have the widths of the code, and the theorems say where they need the counter to be below 2^31.
    \<open>NamespaceThms\<close>: the properties.
  \<^item> File descriptors (\<open>svcs/sysfile.c\<close>). \<open>FdTable\<close>: \<open>newfd\<close>, \<open>fdtochan\<close>, \<open>fdclose\<close>, \<open>kdup\<close> on descriptor groups. \<open>FdThms\<close>: the
    locale \<open>descriptors\<close> (the lowest free number is given out), the invariant of \<open>minfd\<close> and \<open>maxfd\<close> over every sequence of calls.
  \<^item> Memory pools (\<open>svcs/alloc.c\<close>, \<open>include/pool.h\<close>). \<open>Pool\<close>: \<open>poolalloc\<close>, \<open>poolfree\<close>, \<open>poolrealloc\<close> and what they call, on a memory of words.
    \<open>PoolRing\<close>, \<open>PoolTree\<close>: the tree of rings of free blocks in memory, \<open>pooldel\<close>, \<open>pooladd\<close> and the search. \<open>PoolBlocks\<close>: memory as
    blocks that lie end to end. \<open>PoolOps\<close>, \<open>PoolGrow\<close>: joining, taking, splitting, new and longer chunks. \<open>PoolInv\<close>: the invariant,
    and the locale \<open>allocator\<close> with its interpretation, on which \<open>poolrealloc\<close> rests. \<open>PoolThms\<close>: the properties, over any sequence of
    operations of the users, with \<open>sbrk\<close> a parameter of which only that it gives unused memory is assumed; the memory that failed calls of \<open>sbrk\<close> use up is proved as a defect.
  \<^item> The mount driver (\<open>svcs/devmnt.c\<close>). \<open>MntTag\<close>: tags and request headers, the locale \<open>tag_source\<close> and its interpretation on \<open>mntralloc\<close> and
    \<open>mntfree\<close>. \<open>MntRead\<close>, \<open>MntReadThms\<close>: \<open>mntrpcread\<close> takes one reply off the stream of a connection, however it is cut into blocks; safety on
    any input, and the sizes it does not guard against. \<open>Mux\<close>: the queue of requests, \<open>mountmux\<close>, \<open>mntgate\<close>, flushes, and \<open>mountio\<close> as a step
    relation of any number of processes that call, read for each other, sleep, are interrupted and fail. \<open>MuxInv\<close>, \<open>MuxStep\<close>: the
    invariant and its proof step by step. \<open>MuxThms\<close>: tags match, one reader, every reply reaches its request, nobody is left asleep; and the
    failures for which the last is not so.
  \<^item> UTF-8 (\<open>libs/lib9/rune.c\<close>, \<open>utf*.c\<close>). \<open>Rune\<close>; \<open>RuneCode\<close>: encoder and decoder as arithmetic on code points;
    \<open>RuneThms\<close>: round trip, only shortest encodings of valid code points, strings.
  \<^item> Text encodings (\<open>libs/lib9/u16.c\<close>, \<open>u32.c\<close>, \<open>u64.c\<close>). \<open>Enc\<close>; \<open>EncCode\<close>: the contract \<open>text_codec\<close> and its interpretation
    for base 16, 32 and 64; \<open>EncThms\<close>: round trips, and the inputs base 32 loses.
  \<^item> Names (\<open>libs/lib9/cleanname.c\<close>). \<open>Names\<close>; \<open>CleanName\<close>: the in-place rewriting computes a reference on lists of elements.

  \<^bold>\<open>How they interact.\<close> Queues are chains of blocks, and their proofs rest on the lemmas of the block operations. The
  message and directory codecs share the wire fields. The queue operations run under a spin lock and a \<open>QLock\<close> each, which
  the model takes as atomic steps; where the code gives up the lock in between (\<open>qread\<close>), the model has the two sections as
  separate steps and the theorems allow other actions between them, with the exception of \<open>qget\<close> and \<open>qconsume\<close>, which \<open>rlock\<close> does not keep
  out and whose bytes would overtake those of the read. The table operations run under the readers/writer
  lock of the name space (a bind under that of the mount head in the end), whose exclusion is a theorem. The mount driver reads replies from queues of blocks with the decoder of
  messages, so its framing theorem composes the three; its multiplexer rests on the contract \<open>tag_source\<close> and on the framing theorem.

  \<^bold>\<open>Not modelled.\<close> Reference counts (channels and blocks are values); the timing of processes beyond the steps above;
  immutable blocks, compaction, auditing and the tags of \<open>malloc\<close> in \<open>svcs/alloc.c\<close>; the walk through devices (\<open>walk\<close>, \<open>namec\<close>) and the devices themselves; of the mount driver the functions
  above \<open>mountrpc\<close> (version, attach, walk, stat, open, the read and write loops) and the close of a mount point; \<open>exportfs\<close> and the system calls built on them; formatted printing, buffered I/O, cryptography; everything that is a call
  of the host (files, sockets, threads); and the vendored LuaJIT, libuv and FreeType. Allocation failure is modelled for
  blocks and queues and for binds and flush requests, not for descriptor groups and copies of a name space. \<open>pullupqueue\<close> is modelled as an
  operation; it is no step of the queues of \<open>QioThms\<close>, since it breaks their counters. In the multiplexer a reply and the wakeup that follows it are one
  step: the race in which the woken request is freed in between is outside the model. Counters of queues and sizes of pools and encodings are
  numbers without the overflow of \<open>int\<close>.

  \<^bold>\<open>Plan.\<close> Next the command parser (\<open>svcs/parse.c\<close>, \<open>tokenize.c\<close>) and number parsing,
  then the read and write loops of the mount driver.
\<close>

end
